(* ===== verification/Prelude.thy ===== *)
theory Prelude
  imports Main "HOL-Library.Char_ord" "HOL-Library.List_Lexorder" "HOL-Library.Product_Lexorder"
    "HOL-Library.Word" "HOL-Library.Multiset"
begin

section \<open>Shared vocabulary of the development\<close>

text \<open>
  This theory holds what the components share: the result type of fallible Rust functions and
  its guard \<open>ensure\<close>, the part of Rust's string API the sources use (a \<open>str\<close> is the list of its
  UTF-8 bytes, so \<open>len()\<close> is \<open>length\<close>), the machine integers, and two small locales for step
  functions that keep an invariant. Errors carry the source's own message or code as a string.
\<close>

named_theorems validation \<open>unfolding rules of the validators\<close>
named_theorems steps \<open>unfolding rules of the step functions\<close>

subsection \<open>Fallible results\<close>

type_synonym 'a result = "string + 'a"
type_synonym u64 = "64 word"
type_synonym u32 = "32 word"

text \<open>\<open>anyhow::ensure!(c, e); k\<close> is an early return of \<open>e\<close> when \<open>c\<close> fails.\<close>

definition ensure :: "bool \<Rightarrow> 'e \<Rightarrow> ('e + 'a) \<Rightarrow> 'e + 'a" where
  "ensure c e k = (if c then k else Inl e)"

text \<open>The \<open>?\<close> operator: an error returns at once, a value goes on.\<close>

definition bind_result :: "('e + 'a) \<Rightarrow> ('a \<Rightarrow> 'e + 'b) \<Rightarrow> 'e + 'b" where
  "bind_result r f = (case r of Inl e \<Rightarrow> Inl e | Inr x \<Rightarrow> f x)"

definition is_ok :: "('e + 'a) \<Rightarrow> bool" where
  "is_ok r = (case r of Inl _ \<Rightarrow> False | Inr _ \<Rightarrow> True)"

text \<open>\<open>Option::ok_or\<close> and \<open>Context::context\<close> on an option.\<close>

definition ok_or :: "'a option \<Rightarrow> 'e \<Rightarrow> 'e + 'a" where
  "ok_or x e = (case x of None \<Rightarrow> Inl e | Some y \<Rightarrow> Inr y)"

text \<open>A loop whose body may return early with an error.\<close>

fun for_each :: "('a \<Rightarrow> 'e + unit) \<Rightarrow> 'a list \<Rightarrow> 'e + unit" where
  "for_each f [] = Inr ()"
| "for_each f (x # xs) = bind_result (f x) (\<lambda>_. for_each f xs)"

lemma ensure_Inr [simp]: "ensure c e k = Inr x \<longleftrightarrow> c \<and> k = Inr x"
  by (simp add: ensure_def)

lemma ensure_Inl: "ensure c e k = Inl d \<longleftrightarrow> (if c then k = Inl d else d = e)"
  by (auto simp: ensure_def)

lemma ensure_True [simp]: "ensure True e k = k"
  and ensure_False [simp]: "ensure False e k = Inl e"
  by (simp_all add: ensure_def)

lemma bind_result_Inr [simp]: "bind_result r f = Inr y \<longleftrightarrow> (\<exists>x. r = Inr x \<and> f x = Inr y)"
  by (cases r) (simp_all add: bind_result_def)

lemma bind_result_simps [simp]:
  "bind_result (Inl e) f = Inl e" "bind_result (Inr x) f = f x"
  by (simp_all add: bind_result_def)

lemma bind_result_Inl:
  "bind_result r f = Inl d \<longleftrightarrow> r = Inl d \<or> (\<exists>x. r = Inr x \<and> f x = Inl d)"
  by (cases r) (simp_all add: bind_result_def)

lemma is_ok_simps [simp]: "is_ok (Inl e) = False" "is_ok (Inr x) = True"
  by (simp_all add: is_ok_def)

lemma is_ok_iff: "is_ok r \<longleftrightarrow> (\<exists>x. r = Inr x)"
  by (cases r) simp_all

lemma is_ok_ensure [simp]: "is_ok (ensure c e k) \<longleftrightarrow> c \<and> is_ok k"
  by (simp add: ensure_def)

lemma ok_or_Inr [simp]: "ok_or x e = Inr y \<longleftrightarrow> x = Some y"
  by (cases x) (simp_all add: ok_or_def)

lemma ok_or_simps [simp]: "ok_or None e = Inl e" "ok_or (Some y) e = Inr y"
  by (simp_all add: ok_or_def)

lemma for_each_Inr [simp]: "for_each f xs = Inr () \<longleftrightarrow> (\<forall>x \<in> set xs. f x = Inr ())"
  by (induction xs) auto

lemma for_each_is_ok: "is_ok (for_each f xs) \<longleftrightarrow> (\<forall>x \<in> set xs. is_ok (f x))"
proof (induction xs)
  case (Cons x xs)
  then show ?case by (cases "f x") auto
qed simp

lemma unit_result: "(r :: 'e + unit) = Inr () \<longleftrightarrow> is_ok r"
  by (cases r) simp_all

subsection \<open>Bytes and strings\<close>

definition byte :: "char \<Rightarrow> nat" where
  "byte c = of_char c"

definition is_digit :: "char \<Rightarrow> bool" where
  "is_digit c \<longleftrightarrow> 48 \<le> byte c \<and> byte c \<le> 57"

text \<open>\<open>b.is_ascii_digit() || (b'a'..=b'f').contains(&b)\<close>.\<close>

definition lower_hex :: "char \<Rightarrow> bool" where
  "lower_hex c \<longleftrightarrow> is_digit c \<or> (97 \<le> byte c \<and> byte c \<le> 102)"

definition ascii_alnum :: "char \<Rightarrow> bool" where
  "ascii_alnum c \<longleftrightarrow> is_digit c \<or> (65 \<le> byte c \<and> byte c \<le> 90) \<or> (97 \<le> byte c \<and> byte c \<le> 122)"

definition hex_string :: "nat \<Rightarrow> string \<Rightarrow> bool" where
  "hex_string n s \<longleftrightarrow> length s = n \<and> list_all lower_hex s"

definition digit_val :: "char \<Rightarrow> nat" where
  "digit_val c = byte c - 48"

definition starts_with :: "string \<Rightarrow> string \<Rightarrow> bool" where
  "starts_with p s \<longleftrightarrow> take (length p) s = p"

text \<open>\<open>str::split(c)\<close>: always at least one (possibly empty) piece.\<close>

fun split_on :: "char \<Rightarrow> string \<Rightarrow> string list" where
  "split_on c [] = [[]]"
| "split_on c (x # xs) =
     (if x = c then [] # split_on c xs
      else (case split_on c xs of [] \<Rightarrow> [[x]] | p # ps \<Rightarrow> (x # p) # ps))"

fun join_with :: "string \<Rightarrow> string list \<Rightarrow> string" where
  "join_with sep [] = []"
| "join_with sep [x] = x"
| "join_with sep (x # y # ys) = x @ sep @ join_with sep (y # ys)"

text \<open>\<open>str::split_once\<close> on a set of one-byte separators.\<close>

fun split_once :: "(char \<Rightarrow> bool) \<Rightarrow> string \<Rightarrow> (string \<times> string) option" where
  "split_once p [] = None"
| "split_once p (x # xs) =
     (if p x then Some ([], xs) else map_option (\<lambda>(a, b). (x # a, b)) (split_once p xs))"

text \<open>
  \<open>s.trim().is_empty()\<close>: every character of \<open>s\<close> is Unicode white space. The table is Unicode's
  \<open>White_Space\<close> property in UTF-8: U+0009 to U+000D, U+0020, U+0085, U+00A0, U+1680,
  U+2000 to U+200A, U+2028, U+2029, U+202F, U+205F and U+3000.
\<close>

fun space_prefix :: "nat list \<Rightarrow> nat" where
  "space_prefix (a # b # c # r) =
     (if (9 \<le> a \<and> a \<le> 13) \<or> a = 32 then 1
      else if a = 194 \<and> (b = 133 \<or> b = 160) then 2
      else if a = 225 \<and> b = 154 \<and> c = 128 then 3
      else if a = 226 \<and> b = 128 \<and> ((128 \<le> c \<and> c \<le> 138) \<or> c = 168 \<or> c = 169 \<or> c = 175) then 3
      else if a = 226 \<and> b = 129 \<and> c = 159 then 3
      else if a = 227 \<and> b = 128 \<and> c = 128 then 3
      else 0)"
| "space_prefix [a, b] =
     (if (9 \<le> a \<and> a \<le> 13) \<or> a = 32 then 1
      else if a = 194 \<and> (b = 133 \<or> b = 160) then 2 else 0)"
| "space_prefix [a] = (if (9 \<le> a \<and> a \<le> 13) \<or> a = 32 then 1 else 0)"
| "space_prefix [] = 0"

function blank_bytes :: "nat list \<Rightarrow> bool" where
  "blank_bytes bs =
     (if bs = [] then True
      else if space_prefix bs = 0 then False
      else blank_bytes (drop (space_prefix bs) bs))"
  by pat_completeness auto
termination
  by (relation "measure length") auto

declare blank_bytes.simps [simp del]

definition blank :: "string \<Rightarrow> bool" where
  "blank s = blank_bytes (map byte s)"

lemma blank_Nil [simp]: "blank []"
  by (simp add: blank_def blank_bytes.simps)

text \<open>UTF-8 continuation bytes; a byte index is a character boundary unless it hits one.\<close>

definition continuation :: "char \<Rightarrow> bool" where
  "continuation c \<longleftrightarrow> 128 \<le> byte c \<and> byte c < 192"

definition char_boundary :: "string \<Rightarrow> nat \<Rightarrow> bool" where
  "char_boundary s i \<longleftrightarrow> i = 0 \<or> i = length s \<or> (i < length s \<and> \<not> continuation (s ! i))"

text \<open>\<open>s.chars().take(n).collect()\<close>: a character is a byte and the continuation bytes after it.\<close>

fun take_chars :: "nat \<Rightarrow> string \<Rightarrow> string" where
  "take_chars n [] = []"
| "take_chars n (c # cs) =
     (if continuation c then c # take_chars n cs
      else (case n of 0 \<Rightarrow> [] | Suc m \<Rightarrow> c # take_chars m cs))"

lemma split_on_nonempty [simp]: "split_on c s \<noteq> []"
  by (cases s) (auto split: list.splits)

lemma split_on_join: "join_with [c] (split_on c s) = s"
proof (induction c s rule: split_on.induct)
  case (2 c x xs)
  obtain p ps where "split_on c xs = p # ps" by (cases "split_on c xs") auto
  with 2 show ?case by (cases ps) auto
qed simp

lemma split_once_Some:
  "split_once p s = Some (a, b) \<longleftrightarrow> (\<exists>x. s = a @ x # b \<and> p x \<and> list_all (\<lambda>y. \<not> p y) a)"
proof (induction s arbitrary: a)
  case (Cons y s)
  show ?case
  proof (cases "p y")
    case True
    then show ?thesis by (cases a) auto
  next
    case False
    then show ?thesis by (cases a) (auto simp: Cons.IH)
  qed
qed simp

lemma split_once_None: "split_once p s = None \<longleftrightarrow> list_all (\<lambda>y. \<not> p y) s"
  by (induction s) auto

subsection \<open>Paths as components\<close>

text \<open>Where a relative path leads from a directory, resolved by components.\<close>

fun walk :: "string list \<Rightarrow> string list \<Rightarrow> string list" where
  "walk dir [] = dir"
| "walk dir (part # parts) =
     (if part = [] \<or> part = ''.'' then walk dir parts
      else if part = ''..'' then walk (butlast dir) parts
      else walk (dir @ [part]) parts)"

lemma walk_plain:
  "list_all (\<lambda>part. part \<noteq> [] \<and> part \<noteq> ''.'' \<and> part \<noteq> ''..'') parts \<Longrightarrow> walk dir parts = dir @ parts"
  by (induction dir parts rule: walk.induct) auto

lemma split_on_parts: "part \<in> set (split_on c s) \<Longrightarrow> set part \<subseteq> set s \<and> c \<notin> set part"
proof (induction c s arbitrary: part rule: split_on.induct)
  case (2 c x xs)
  obtain q qs where q: "split_on c xs = q # qs" by (cases "split_on c xs") auto
  with 2 show ?case by (fastforce split: if_splits)
qed simp

subsection \<open>Association lists as the maps of the source\<close>

text \<open>
  A \<open>BTreeMap\<close> or \<open>HashMap\<close> is an association list with distinct keys; the list order is the
  iteration order, so nothing is assumed of it for a \<open>HashMap\<close>.
\<close>

definition has_key :: "('k \<times> 'v) list \<Rightarrow> 'k \<Rightarrow> bool" where
  "has_key m k \<longleftrightarrow> k \<in> set (map fst m)"

definition drop_key :: "'k \<Rightarrow> ('k \<times> 'v) list \<Rightarrow> ('k \<times> 'v) list" where
  "drop_key k m = filter (\<lambda>(x, _). x \<noteq> k) m"

fun set_key :: "'k \<Rightarrow> 'v \<Rightarrow> ('k \<times> 'v) list \<Rightarrow> ('k \<times> 'v) list" where
  "set_key k v [] = [(k, v)]"
| "set_key k v ((x, w) # m) = (if x = k then (k, v) # m else (x, w) # set_key k v m)"

lemma has_key_map_of: "has_key m k \<longleftrightarrow> map_of m k \<noteq> None"
  by (simp add: has_key_def map_of_eq_None_iff)

lemma map_of_set_key [simp]: "map_of (set_key k v m) = (map_of m)(k \<mapsto> v)"
  by (induction m rule: set_key.induct) (auto simp: fun_eq_iff)

lemma keys_set_key [simp]: "set (map fst (set_key k v m)) = insert k (set (map fst m))"
  by (induction k v m rule: set_key.induct) auto

lemma set_set_key: "set (set_key k v m) \<subseteq> insert (k, v) (set m)"
  by (induction k v m rule: set_key.induct) auto

lemma distinct_set_key: "distinct (map fst m) \<Longrightarrow> distinct (map fst (set_key k v m))"
proof (induction k v m rule: set_key.induct)
  case (2 k v x w m)
  have "set (map fst (set_key k v m)) = insert k (set (map fst m))" by (rule keys_set_key)
  with 2 show ?case by auto
qed simp

lemma map_of_drop_key [simp]: "map_of (drop_key k m) = (map_of m)(k := None)"
  by (induction m) (auto simp: drop_key_def fun_eq_iff)

lemma keys_drop_key [simp]: "set (map fst (drop_key k m)) = set (map fst m) - {k}"
  by (induction m) (auto simp: drop_key_def)

lemma distinct_drop_key: "distinct (map fst m) \<Longrightarrow> distinct (map fst (drop_key k m))"
  by (induction m) (auto simp: drop_key_def)

lemma set_drop_key: "set (drop_key k m) = {e \<in> set m. fst e \<noteq> k}"
  by (auto simp: drop_key_def)

subsection \<open>Step functions that keep an invariant\<close>

text \<open>
  A component is a step function on its state; the interface its clients use is one invariant
  that every step keeps. The lemmas about runs are proved once here and instantiated by every
  component's own step function.
\<close>

locale stepping =
  fixes step :: "'s \<Rightarrow> 'e \<Rightarrow> 's"
    and inv :: "'s \<Rightarrow> bool"
  assumes step_keeps: "inv s \<Longrightarrow> inv (step s e)"
begin

lemma run_keeps: "inv s \<Longrightarrow> inv (foldl step s es)"
  by (induction es arbitrary: s) (auto intro: step_keeps)

lemma prefix_keeps: "inv s \<Longrightarrow> inv (foldl step s (take n es))"
  by (rule run_keeps)

end

text \<open>A step function with a measure that no step lowers.\<close>

locale monotone_stepping = stepping step inv
  for step :: "'s \<Rightarrow> 'e \<Rightarrow> 's" and inv +
  fixes level :: "'s \<Rightarrow> nat"
  assumes level_mono: "inv s \<Longrightarrow> level s \<le> level (step s e)"
begin

lemma run_level: "inv s \<Longrightarrow> level s \<le> level (foldl step s es)"
proof (induction es arbitrary: s)
  case (Cons e es)
  from Cons.prems have "level s \<le> level (step s e)" by (rule level_mono)
  also have "\<dots> \<le> level (foldl step (step s e) es)"
    by (rule Cons.IH) (rule step_keeps [OF Cons.prems])
  finally show ?case by simp
qed simp

end

subsection \<open>Tickets\<close>

text \<open>What a run of a step function puts out, in order.\<close>

fun trace_out :: "('s \<Rightarrow> 'e \<Rightarrow> 's) \<Rightarrow> ('s \<Rightarrow> 'e \<Rightarrow> 'o list) \<Rightarrow> 's \<Rightarrow> 'e list \<Rightarrow> 'o list" where
  "trace_out step out s [] = []"
| "trace_out step out s (e # es) = out s e @ trace_out step out (step s e) es"

lemma trace_out_append:
  "trace_out step out s (es @ fs) = trace_out step out s es @ trace_out step out (foldl step s es) fs"
  by (induction es arbitrary: s) auto

lemma trace_out_map: "map f (trace_out step out s es) = trace_out step (\<lambda>s e. map f (out s e)) s es"
  by (induction es arbitrary: s) auto

text \<open>
  A component that hands out tickets from a counter and redeems them: only a live or a new ticket
  is redeemed, redeeming ends it, and a new ticket lies above the counter. Then no ticket is
  redeemed twice, and one that is not live any more never is.
\<close>

locale ticket_office = stepping step inv
  for step :: "'s \<Rightarrow> 'e \<Rightarrow> 's" and inv +
  fixes live :: "'s \<Rightarrow> 't::linorder set" and counter :: "'s \<Rightarrow> 't"
    and redeemed :: "'s \<Rightarrow> 'e \<Rightarrow> 't list"
  assumes live_new: "inv s \<Longrightarrow> t \<in> live (step s e) \<Longrightarrow> t \<in> live s \<or> counter s < t"
    and counter_mono: "inv s \<Longrightarrow> counter s \<le> counter (step s e)"
    and redeemed_new: "inv s \<Longrightarrow> t \<in> set (redeemed s e) \<Longrightarrow> t \<in> live s \<or> counter s < t"
    and redeemed_bound: "inv s \<Longrightarrow> t \<in> set (redeemed s e) \<Longrightarrow> t \<le> counter (step s e)"
    and redeemed_once: "inv s \<Longrightarrow> distinct (redeemed s e)"
    and redeemed_gone: "inv s \<Longrightarrow> t \<in> set (redeemed s e) \<Longrightarrow> t \<notin> live (step s e)"
begin

lemma run_counter: "inv s \<Longrightarrow> counter s \<le> counter (foldl step s es)"
proof (induction es arbitrary: s)
  case (Cons e es)
  from Cons.IH [OF step_keeps [OF Cons.prems]] counter_mono [OF Cons.prems]
  show ?case by (auto intro: order_trans)
qed simp

lemma run_live: "inv s \<Longrightarrow> t \<in> live (foldl step s es) \<Longrightarrow> t \<in> live s \<or> counter s < t"
proof (induction es arbitrary: s)
  case (Cons e es)
  then have "t \<in> live (step s e) \<or> counter (step s e) < t" using step_keeps by auto
  then show ?case using live_new [OF Cons.prems(1)] counter_mono [OF Cons.prems(1), of e] by auto
qed simp

lemma dead_stays:
  "inv s \<Longrightarrow> t \<notin> live s \<Longrightarrow> t \<le> counter s \<Longrightarrow> t \<notin> set (trace_out step redeemed s es)"
proof (induction es arbitrary: s)
  case (Cons e es)
  have "t \<notin> live (step s e)" using Cons.prems live_new [of s t e] by auto
  moreover have "t \<le> counter (step s e)" using Cons.prems counter_mono [of s e] by auto
  ultimately show ?case
    using Cons.IH [of "step s e"] Cons.prems step_keeps redeemed_new by fastforce
qed simp

lemma at_most_once: "inv s \<Longrightarrow> distinct (trace_out step redeemed s es)"
proof (induction es arbitrary: s)
  case (Cons e es)
  have "t \<notin> set (trace_out step redeemed (step s e) es)" if "t \<in> set (redeemed s e)" for t
    by (rule dead_stays) (use that Cons.prems step_keeps redeemed_gone redeemed_bound in auto)
  then show ?case using Cons step_keeps redeemed_once by auto
qed simp

end

end
