(* ===== verification/Json.thy ===== *)
theory Json
  imports Prelude
begin

section \<open>JSON values\<close>

text \<open>
  \<open>serde_json::Value\<close> as the sources use it. The crate is built with \<open>arbitrary_precision\<close>, so a
  number is the text it was written with; an object is its list of entries, the keys distinct
  (\<open>obj_ok\<close>). Parsing and serialising are the library's own code: wherever a component calls them
  they are arguments of its definitions.
\<close>

datatype json =
    JNull
  | JBool bool
  | JNum string
  | JStr string
  | JArr "json list"
  | JObj "(string \<times> json) list"

fun json_get :: "string \<Rightarrow> json \<Rightarrow> json option" where
  "json_get k (JObj m) = map_of m k"
| "json_get k v = None"

fun as_str :: "json \<Rightarrow> string option" where
  "as_str (JStr s) = Some s"
| "as_str v = None"

fun as_object :: "json \<Rightarrow> (string \<times> json) list option" where
  "as_object (JObj m) = Some m"
| "as_object v = None"

fun as_array :: "json \<Rightarrow> json list option" where
  "as_array (JArr xs) = Some xs"
| "as_array v = None"

fun as_number :: "json \<Rightarrow> string option" where
  "as_number (JNum s) = Some s"
| "as_number v = None"

fun is_object :: "json \<Rightarrow> bool" where
  "is_object (JObj m) = True"
| "is_object v = False"

fun is_array :: "json \<Rightarrow> bool" where
  "is_array (JArr xs) = True"
| "is_array v = False"

fun is_string :: "json \<Rightarrow> bool" where
  "is_string (JStr s) = True"
| "is_string v = False"

fun is_boolean :: "json \<Rightarrow> bool" where
  "is_boolean (JBool b) = True"
| "is_boolean v = False"

text \<open>The keys of an object; the empty list for every other value.\<close>

fun json_keys :: "json \<Rightarrow> string list" where
  "json_keys (JObj m) = map fst m"
| "json_keys v = []"

lemma as_str_Some [simp]: "as_str v = Some s \<longleftrightarrow> v = JStr s"
  by (cases v) auto

lemma as_object_Some [simp]: "as_object v = Some m \<longleftrightarrow> v = JObj m"
  by (cases v) auto

lemma as_array_Some [simp]: "as_array v = Some xs \<longleftrightarrow> v = JArr xs"
  by (cases v) auto

lemma as_number_Some [simp]: "as_number v = Some s \<longleftrightarrow> v = JNum s"
  by (cases v) auto

lemma is_object_iff: "is_object v \<longleftrightarrow> (\<exists>m. v = JObj m)"
  by (cases v) auto

lemma json_get_keys: "json_get k v = Some w \<Longrightarrow> k \<in> set (json_keys v)"
proof (cases v)
  case (JObj m)
  assume "json_get k v = Some w"
  with JObj have "(k, w) \<in> set m" by (auto dest: map_of_SomeD)
  with JObj show ?thesis by (auto simp: rev_image_eqI)
qed auto

subsection \<open>Decimal text of an integer\<close>

text \<open>What \<open>json!(n)\<close> writes for a machine integer.\<close>

fun nat_text :: "nat \<Rightarrow> string" where
  "nat_text n = (if n < 10 then [char_of (48 + n)]
                 else nat_text (n div 10) @ [char_of (48 + n mod 10)])"

declare nat_text.simps [simp del]

definition int_text :: "int \<Rightarrow> string" where
  "int_text i = (if i < 0 then CHR 0x2D # nat_text (nat (- i)) else nat_text (nat i))"

text \<open>The natural number a string of ASCII digits denotes.\<close>

definition digits_val :: "string \<Rightarrow> nat" where
  "digits_val ds = foldl (\<lambda>v d. 10 * v + digit_val d) 0 ds"

lemma digits_val_simps [simp]:
  "digits_val [] = 0"
  "digits_val (ds @ [d]) = 10 * digits_val ds + digit_val d"
  by (simp_all add: digits_val_def)

lemma digits_val_append: "digits_val (a @ b) = digits_val a * 10 ^ length b + digits_val b"
proof (induction b rule: rev_induct)
  case (snoc d b)
  have "digits_val (a @ b @ [d]) = 10 * digits_val (a @ b) + digit_val d"
    using digits_val_simps(2) [of "a @ b" d] by simp
  with snoc show ?case by (simp add: algebra_simps)
qed simp

lemma digits_val_Cons: "digits_val (d # ds) = digit_val d * 10 ^ length ds + digits_val ds"
  using digits_val_append [of "[d]" ds] digits_val_simps(2) [of "[]" d] by simp

lemma is_digit_val: "is_digit d \<Longrightarrow> digit_val d < 10"
  by (auto simp: is_digit_def digit_val_def)

lemma digits_val_bound: "list_all is_digit ds \<Longrightarrow> digits_val ds < 10 ^ length ds"
proof (induction ds rule: rev_induct)
  case (snoc d ds)
  then have "digits_val ds < 10 ^ length ds" and "digit_val d < 10" by (auto intro: is_digit_val)
  then show ?case by simp
qed simp

lemma nat_text_digits: "list_all is_digit (nat_text n)" and digits_nat_text: "digits_val (nat_text n) = n"
proof (induction n rule: nat_text.induct)
  case (1 n)
  have small: "is_digit (char_of (48 + k :: nat)) \<and> digit_val (char_of (48 + k :: nat)) = k"
    if "k < 10" for k
    using that by (simp add: is_digit_def digit_val_def byte_def)
  {
    case 1
    show ?case using small "1.IH"(1) by (subst nat_text.simps) auto
  next
    case 2
    show ?case using small [of n] small [of "n mod 10"] "1.IH"(2) digits_val_simps(2) [of "[]"]
      by (subst nat_text.simps) (auto simp: digits_val_append)
  }
qed

text \<open>An object as the library builds it: no key twice, at any depth.\<close>

fun obj_ok :: "json \<Rightarrow> bool" where
  "obj_ok (JArr xs) = list_all obj_ok xs"
| "obj_ok (JObj m) = (distinct (map fst m) \<and> list_all (\<lambda>(_, v). obj_ok v) m)"
| "obj_ok v = True"

end
