(* ===== verification/Wire.thy ===== *)
theory Wire
  imports Json
begin

section \<open>Framing and identifiers of the stdio protocol (\<open>mcp/wire.rs\<close>)\<close>

text \<open>
  One frame is a line of at most 16384 bytes. The buffered reader is the list of what
  \<open>fill_buf\<close> hands out: non-empty pieces of the input, or an I/O error; the exhausted reader is
  the empty list. \<open>exact_safe_integer\<close> reads the text of a JSON number without floating point.
  JSON parsing and serialising are arguments.
\<close>

definition REQUEST_BYTES :: nat where "REQUEST_BYTES = 16384"
definition RESPONSE_BYTES :: nat where "RESPONSE_BYTES = 65536"
definition SAFE_INTEGER :: int where "SAFE_INTEGER = 9007199254740991"

definition LF :: char where "LF = CHR 0x0A"

datatype frame = Line string | Oversized | Eof

datatype chunk = Chunk string | Broken string

text \<open>\<open>reader.consume(n)\<close> within the piece at the front.\<close>

definition consume :: "nat \<Rightarrow> string \<Rightarrow> chunk list \<Rightarrow> chunk list" where
  "consume n a r = (if n < length a then Chunk (drop n a) # r else r)"

fun read_loop :: "string \<Rightarrow> bool \<Rightarrow> chunk list \<Rightarrow> frame result \<times> chunk list" where
  "read_loop bytes oversized [] = (Inr Eof, [])"
| "read_loop bytes oversized (Broken e # r) = (Inl e, r)"
| "read_loop bytes oversized (Chunk a # r) =
     (if a = [] then (Inr Eof, r)
      else
        (let n = length (takeWhile (\<lambda>b. b \<noteq> LF) a);
             ended = n < length a;
             keep = min (REQUEST_BYTES - length bytes) n;
             bytes' = (if oversized then bytes else bytes @ take keep a);
             oversized' = (if oversized then True else keep < n);
             rest = consume (n + (if ended then 1 else 0)) a r
         in if ended then (Inr (if oversized' then Oversized else Line bytes'), rest)
            else read_loop bytes' oversized' r))"

definition read_frame :: "chunk list \<Rightarrow> frame result \<times> chunk list" where
  "read_frame r = read_loop [] False r"

subsection \<open>Exact numbers\<close>

text \<open>\<open>str::parse\<close> for a signed integer type with the range \<open>lo..=hi\<close>.\<close>

definition parse_int :: "int \<Rightarrow> int \<Rightarrow> string \<Rightarrow> int option" where
  "parse_int lo hi s =
     (let neg = (s \<noteq> [] \<and> hd s = CHR ''-'');
          ds = (if s \<noteq> [] \<and> (hd s = CHR ''-'' \<or> hd s = CHR ''+'') then tl s else s);
          v = (if neg then - int (digits_val ds) else int (digits_val ds))
      in if ds \<noteq> [] \<and> list_all is_digit ds \<and> lo \<le> v \<and> v \<le> hi then Some v else None)"

definition I64_MAX :: int where "I64_MAX = 2 ^ 63 - 1"
definition I64_MIN :: int where "I64_MIN = - (2 ^ 63)"
definition I128_MAX :: int where "I128_MAX = 2 ^ 127 - 1"
definition I128_MIN :: int where "I128_MIN = - (2 ^ 127)"

definition parse_i64 :: "string \<Rightarrow> int option" where
  "parse_i64 = parse_int I64_MIN I64_MAX"

definition checked_i64 :: "int \<Rightarrow> int option" where
  "checked_i64 v = (if I64_MIN \<le> v \<and> v \<le> I64_MAX then Some v else None)"

text \<open>The sign, the digits before and after the point and the exponent text of a number.\<close>

definition number_parts :: "string \<Rightarrow> bool \<times> string \<times> string \<times> string" where
  "number_parts raw =
     (let negative = (raw \<noteq> [] \<and> hd raw = CHR ''-'');
          body = (if negative then tl raw else raw);
          (mantissa, ex) = (case split_once (\<lambda>c. c = CHR ''e'' \<or> c = CHR ''E'') body of
                              None \<Rightarrow> (body, ''0'') | Some p \<Rightarrow> p);
          (whole, fraction) = (case split_once (\<lambda>c. c = CHR ''.'') mantissa of
                                 None \<Rightarrow> (mantissa, []) | Some p \<Rightarrow> p)
      in (negative, whole, fraction, ex))"

definition trim_zeros :: "string \<Rightarrow> string" where
  "trim_zeros s = dropWhile (\<lambda>c. c = CHR ''0'') s"

definition trailing_zeros :: "string \<Rightarrow> nat" where
  "trailing_zeros s = length (takeWhile (\<lambda>c. c = CHR ''0'') (rev s))"

fun accumulate :: "int \<Rightarrow> string \<Rightarrow> int option" where
  "accumulate value [] = Some value"
| "accumulate value (b # bs) =
     Option.bind (checked_i64 (value * 10)) (\<lambda>v.
     Option.bind (checked_i64 (v + int (digit_val b))) (\<lambda>w. accumulate w bs))"

fun scale_up :: "nat \<Rightarrow> int \<Rightarrow> int option" where
  "scale_up 0 value = Some value"
| "scale_up (Suc n) value = Option.bind (checked_i64 (value * 10)) (scale_up n)"

definition exact_safe_integer :: "string \<Rightarrow> int option" where
  "exact_safe_integer raw =
     (let (negative, whole, fraction, ex) = number_parts raw in
      if whole = [] \<or> \<not> list_all is_digit whole \<or> \<not> list_all is_digit fraction then None
      else
        let significant = trim_zeros (whole @ fraction) in
        if significant = [] then Some 0
        else Option.bind (parse_i64 ex) (\<lambda>x.
          let scale = x - int (length fraction) in
          if scale < 0 \<and> nat (- scale) > trailing_zeros significant then None
          else
            let kept = (if scale < 0 then take (length significant - nat (- scale)) significant
                        else significant);
                zeros = (if scale < 0 then 0 else nat scale)
            in if length kept + zeros > 16 then None
               else Option.bind (accumulate 0 kept) (\<lambda>v.
                 Option.bind (scale_up zeros v) (\<lambda>value.
                   if value \<le> SAFE_INTEGER then Some (if negative then - value else value)
                   else None))))"

definition exact_json_integer :: "string \<Rightarrow> bool" where
  "exact_json_integer raw =
     (let (_, whole, fraction, ex) = number_parts raw in
      if whole = [] \<or> \<not> list_all is_digit whole \<or> \<not> list_all is_digit fraction then False
      else
        let significant = trim_zeros (whole @ fraction) in
        if significant = [] then True
        else case parse_int I128_MIN I128_MAX ex of
               None \<Rightarrow> \<not> starts_with ''-'' ex
             | Some x \<Rightarrow>
                 max I128_MIN (min I128_MAX (x + int (trailing_zeros significant)))
                   \<ge> int (length fraction))"

text \<open>\<open>u64::try_from\<close> of the exact value.\<close>

definition uint_of :: "json \<Rightarrow> nat option" where
  "uint_of v = Option.bind (as_number v) (\<lambda>n. Option.bind (exact_safe_integer n)
              (\<lambda>i. if 0 \<le> i then Some (nat i) else None))"

subsection \<open>Requests\<close>

text \<open>
  The byte length of the compact JSON token of a string. The escaped characters are single bytes
  and every other character counts its UTF-8 bytes, so the sum runs over the bytes.
\<close>

definition token_cost :: "char \<Rightarrow> nat" where
  "token_cost c =
     (if byte c \<in> {34, 92, 8, 9, 10, 12, 13} then 2 else if byte c < 32 then 6 else 1)"

definition compact_string_token_len :: "string \<Rightarrow> nat" where
  "compact_string_token_len s = 2 + sum_list (map token_cost s)"

datatype id_key = IdString string | IdInteger int

record request =
  rq_id :: "json option"
  rq_key :: "id_key option"
  rq_method :: string
  rq_params :: "json option"

record protocol_error =
  pe_code :: int
  pe_message :: string
  pe_id :: json
  pe_data :: "json option"

definition error_message :: "int \<Rightarrow> string" where
  "error_message code =
     (if code = -32700 then ''Parse error''
      else if code = -32600 then ''Invalid Request''
      else if code = -32601 then ''Method not found''
      else if code = -32602 then ''Invalid params''
      else if code = -32603 then ''Internal error''
      else if code = -32022 then ''Unsupported protocol version''
      else ''Internal error'')"

definition protocol_error :: "int \<Rightarrow> json \<Rightarrow> protocol_error" where
  "protocol_error code i =
     \<lparr>pe_code = code, pe_message = error_message code, pe_id = i, pe_data = None\<rparr>"

definition error_response :: "protocol_error \<Rightarrow> json" where
  "error_response e =
     JObj [(''jsonrpc'', JStr ''2.0''), (''id'', pe_id e),
           (''error'', JObj ([(''code'', JNum (int_text (pe_code e))),
                              (''message'', JStr (pe_message e))]
                             @ (case pe_data e of None \<Rightarrow> [] | Some d \<Rightarrow> [(''data'', d)])))]"

definition decode_id :: "(string \<times> json) list \<Rightarrow> protocol_error + (json option \<times> id_key option)" where
  "decode_id obj =
     (case map_of obj ''id'' of
        None \<Rightarrow> Inr (None, None)
      | Some (JStr s) \<Rightarrow>
          if compact_string_token_len s \<le> 256 then Inr (Some (JStr s), Some (IdString s))
          else Inl (protocol_error (-32600) JNull)
      | Some (JNum n) \<Rightarrow>
          (case exact_safe_integer n of
             None \<Rightarrow> Inl (protocol_error (-32600) JNull)
           | Some i \<Rightarrow> Inr (Some (JNum (int_text i)), Some (IdInteger i)))
      | Some _ \<Rightarrow> Inl (protocol_error (-32600) JNull))"

definition envelope_bad :: "(string \<times> json) list \<Rightarrow> bool" where
  "envelope_bad obj \<longleftrightarrow>
     Option.bind (map_of obj ''jsonrpc'') as_str \<noteq> Some ''2.0''
     \<or> (case map_of obj ''method'' of None \<Rightarrow> True | Some m \<Rightarrow> \<not> is_string m)
     \<or> (case map_of obj ''params'' of None \<Rightarrow> False | Some p \<Rightarrow> \<not> is_object p \<and> \<not> is_array p)
     \<or> has_key obj ''result'' \<or> has_key obj ''error''"

definition decode ::
  "(string \<Rightarrow> json option) \<Rightarrow> frame \<Rightarrow> protocol_error + request option" where
  "decode from_slice f =
     (case f of
        Eof \<Rightarrow> Inr None
      | Oversized \<Rightarrow> Inl (protocol_error (-32600) JNull)
      | Line bytes \<Rightarrow>
          bind_result (ok_or (from_slice bytes) (protocol_error (-32700) JNull)) (\<lambda>v.
          bind_result (ok_or (as_object v) (protocol_error (-32600) JNull)) (\<lambda>obj.
          bind_result (decode_id obj) (\<lambda>(i, key).
            if envelope_bad obj
            then Inl (protocol_error (-32600) (case i of None \<Rightarrow> JNull | Some j \<Rightarrow> j))
            else Inr (Some
              \<lparr>rq_id = i, rq_key = key,
               rq_method = the (Option.bind (map_of obj ''method'') as_str),
               rq_params = map_of obj ''params''\<rparr>)))))"

text \<open>The bytes handed to the writer, or the error that stops the response.\<close>

definition write_response :: "(json \<Rightarrow> string result) \<Rightarrow> json \<Rightarrow> string result" where
  "write_response to_vec response =
     bind_result (to_vec response) (\<lambda>encoded.
       if length encoded + 1 > RESPONSE_BYTES then Inl ''response too large''
       else Inr (encoded @ [LF]))"


subsection \<open>Frames do not depend on how the input arrives\<close>

fun piece :: "chunk \<Rightarrow> string" where
  "piece (Chunk a) = a"
| "piece (Broken e) = []"

definition pieces :: "chunk list \<Rightarrow> bool" where
  "pieces r \<longleftrightarrow> list_all (\<lambda>c. \<exists>a. c = Chunk a \<and> a \<noteq> []) r"

definition flat :: "chunk list \<Rightarrow> string" where
  "flat r = concat (map piece r)"

text \<open>The frame at the front of the whole remaining input, and the input behind it.\<close>

definition first_line :: "string \<Rightarrow> frame \<times> string" where
  "first_line bs =
     (let l = takeWhile (\<lambda>b. b \<noteq> LF) bs in
      if length l = length bs then (Eof, [])
      else (if length l \<le> REQUEST_BYTES then Line l else Oversized, drop (length l + 1) bs))"

lemma takeWhile_short: "length (takeWhile P xs) = length xs \<longleftrightarrow> (\<forall>x \<in> set xs. P x)"
  by (metis takeWhile_eq_all_conv takeWhile_eq_take length_takeWhile_le order_refl take_all_iff)

lemma takeWhile_take: "take (length (takeWhile P xs)) xs = takeWhile P xs"
  by (metis takeWhile_eq_take)

lemma pieces_simps [simp]:
  "pieces []" "pieces (Chunk a # r) \<longleftrightarrow> a \<noteq> [] \<and> pieces r" "\<not> pieces (Broken e # r)"
  by (simp_all add: pieces_def)

lemma flat_simps [simp]: "flat [] = []" "flat (c # r) = piece c @ flat r"
  by (simp_all add: flat_def)

text \<open>
  What the loop has seen is \<open>seen\<close>: it keeps all of it while that fits, and only a prefix of
  16384 bytes and the mark once it does not.
\<close>

definition retained :: "string \<Rightarrow> string \<Rightarrow> bool \<Rightarrow> bool" where
  "retained seen bytes oversized \<longleftrightarrow>
     bytes = take REQUEST_BYTES seen \<and> (oversized \<longleftrightarrow> length seen > REQUEST_BYTES)"

lemma retained_step:
  assumes "retained seen bytes oversized" and n: "n \<le> length a"
    and keep_def: "keep = min (REQUEST_BYTES - length bytes) n"
  shows "retained (seen @ take n a) (if oversized then bytes else bytes @ take keep a)
           (if oversized then True else keep < n)"
proof (cases oversized)
  case False
  with assms(1) have "bytes = seen" and "length seen \<le> REQUEST_BYTES"
    by (auto simp: retained_def)
  with n False show ?thesis by (auto simp: retained_def keep_def min_def)
qed (use assms(1) in \<open>auto simp: retained_def\<close>)

lemma read_loop_flat:
  assumes "pieces r" "retained seen bytes oversized" "LF \<notin> set seen"
  shows "\<exists>f r'. read_loop bytes oversized r = (Inr f, r') \<and> pieces r'
           \<and> (f, flat r') = first_line (seen @ flat r)"
  using assms
proof (induction bytes oversized r arbitrary: seen rule: read_loop.induct)
  case (1 bytes oversized)
  then have "length (takeWhile (\<lambda>b. b \<noteq> LF) seen) = length seen" by (subst takeWhile_short) auto
  then show ?case by (simp add: first_line_def)
next
  case (3 bytes oversized a r)
  define n where "n = length (takeWhile (\<lambda>b. b \<noteq> LF) a)"
  define keep where "keep = min (REQUEST_BYTES - length bytes) n"
  define bytes' where "bytes' = (if oversized then bytes else bytes @ take keep a)"
  define over' where "over' = (if oversized then True else keep < n)"
  have n: "n \<le> length a" by (simp add: n_def length_takeWhile_le)
  have ret: "retained (seen @ take n a) bytes' over'"
    using retained_step [OF 3(3) n keep_def] by (simp add: bytes'_def over'_def keep_def)
  have take_n: "take n a = takeWhile (\<lambda>b. b \<noteq> LF) a" by (simp add: n_def takeWhile_take)
  have a: "a \<noteq> []" and r: "pieces r" using 3(2) by auto
  show ?case
  proof (cases "n < length a")
    case True
    then have "LF \<in> set a" using takeWhile_short [of "\<lambda>b. b \<noteq> LF" a] by (auto simp: n_def)
    then have tw: "takeWhile (\<lambda>b. b \<noteq> LF) (seen @ a @ flat r) = seen @ take n a"
      using 3(4) by (subst takeWhile_append2) (auto simp: take_n takeWhile_append1)
    have "flat (consume (n + 1) a r) = drop (n + 1) a @ flat r" "pieces (consume (n + 1) a r)"
      using r by (auto simp: consume_def)
    moreover have "read_loop bytes oversized (Chunk a # r)
        = (Inr (if over' then Oversized else Line bytes'), consume (n + 1) a r)"
      using a True by (simp add: Let_def n_def keep_def bytes'_def over'_def)
    moreover have "first_line (seen @ a @ flat r)
        = (if length seen + n \<le> REQUEST_BYTES then Line (seen @ take n a) else Oversized,
           drop (n + 1) a @ flat r)"
      using True n by (simp add: first_line_def tw)
    ultimately show ?thesis using ret n by (auto simp: retained_def)
  next
    case False
    with n have all: "n = length a" by simp
    then have "LF \<notin> set a" using takeWhile_short [of "\<lambda>b. b \<noteq> LF" a] by (auto simp: n_def)
    with 3(4) have "LF \<notin> set (seen @ a)" by simp
    with all ret have "retained (seen @ a) bytes' over'" "LF \<notin> set (seen @ a)" by simp_all
    moreover note 3(1) [OF a n_def refl keep_def bytes'_def over'_def refl _ r]
    ultimately have "\<exists>f r'. read_loop bytes' over' r = (Inr f, r') \<and> pieces r'
        \<and> (f, flat r') = first_line ((seen @ a) @ flat r)"
      using all by blast
    moreover have "read_loop bytes oversized (Chunk a # r) = read_loop bytes' over' r"
      using a all by (simp add: Let_def n_def [symmetric] keep_def bytes'_def over'_def)
    ultimately show ?thesis by simp
  qed
qed simp


subsection \<open>Exact values of numbers\<close>

definition int_shape :: "string \<Rightarrow> bool" where
  "int_shape s \<longleftrightarrow>
     (let ds = (if s \<noteq> [] \<and> (hd s = CHR ''-'' \<or> hd s = CHR ''+'') then tl s else s)
      in ds \<noteq> [] \<and> list_all is_digit ds)"

definition int_val :: "string \<Rightarrow> int" where
  "int_val s =
     (let ds = (if s \<noteq> [] \<and> (hd s = CHR ''-'' \<or> hd s = CHR ''+'') then tl s else s)
      in if s \<noteq> [] \<and> hd s = CHR ''-'' then - int (digits_val ds) else int (digits_val ds))"

lemma parse_int_iff:
  "parse_int lo hi s = Some v \<longleftrightarrow> int_shape s \<and> v = int_val s \<and> lo \<le> v \<and> v \<le> hi"
  by (auto simp: parse_int_def int_shape_def int_val_def Let_def)

lemma parse_int_None:
  "parse_int lo hi s = None \<longleftrightarrow> \<not> int_shape s \<or> int_val s < lo \<or> hi < int_val s"
  by (auto simp: parse_int_def int_shape_def int_val_def Let_def)

text \<open>
  A decimal number as JSON writes it, and the integer it denotes: with \<open>m\<close> the digits read
  without the point, \<open>f\<close> of them behind it, and \<open>x\<close> the exponent, the number is
  \<open>m * 10 ^ (x - f)\<close>.
\<close>

definition number_text :: "string \<Rightarrow> bool" where
  "number_text raw \<longleftrightarrow>
     (case number_parts raw of (_, whole, fraction, ex) \<Rightarrow>
        whole \<noteq> [] \<and> list_all is_digit whole \<and> list_all is_digit fraction \<and> int_shape ex)"

definition scale_of :: "string \<Rightarrow> string \<Rightarrow> int" where
  "scale_of fraction ex = int_val ex - int (length fraction)"

definition denotes :: "string \<Rightarrow> int \<Rightarrow> bool" where
  "denotes raw i \<longleftrightarrow>
     (case number_parts raw of (negative, whole, fraction, ex) \<Rightarrow>
        (if negative then -1 else 1) * int (digits_val (whole @ fraction))
            * 10 ^ nat (scale_of fraction ex)
          = i * 10 ^ nat (- scale_of fraction ex))"

lemma digits_val_trim: "digits_val (trim_zeros s) = digits_val s"
  by (induction s) (auto simp: trim_zeros_def digits_val_Cons digit_val_def byte_def)

lemma trim_zeros_digits: "list_all is_digit s \<Longrightarrow> list_all is_digit (trim_zeros s)"
  by (auto simp: trim_zeros_def list_all_iff dest: set_dropWhileD)

lemma trim_zeros_hd: "trim_zeros s \<noteq> [] \<Longrightarrow> hd (trim_zeros s) \<noteq> CHR ''0''"
  using hd_dropWhile [of "\<lambda>c. c = CHR ''0''" s] by (auto simp: trim_zeros_def)

lemma digit_zero: "is_digit d \<Longrightarrow> digit_val d = 0 \<longleftrightarrow> d = CHR ''0''"
proof -
  assume "is_digit d"
  then have "digit_val d = 0 \<longleftrightarrow> byte d = byte (CHR ''0'')"
    by (auto simp: is_digit_def digit_val_def byte_def)
  then show ?thesis unfolding byte_def by (simp only: of_char_eq_iff)
qed

lemma digits_val_lower:
  assumes "list_all is_digit ds" "ds \<noteq> []" "hd ds \<noteq> CHR ''0''"
  shows "10 ^ (length ds - 1) \<le> digits_val ds"
proof (cases ds)
  case (Cons d r)
  with assms have "digit_val d \<ge> 1" using digit_zero [of d] by (cases "digit_val d") auto
  then have "10 ^ length r \<le> digit_val d * 10 ^ length r" by simp
  then have "10 ^ length r \<le> digit_val d * 10 ^ length r + digits_val r" by (rule trans_le_add1)
  with Cons show ?thesis by (simp only: digits_val_Cons) simp
qed (use assms in simp)

lemma trailing_zeros_le: "trailing_zeros s \<le> length s"
  unfolding trailing_zeros_def by (metis length_rev length_takeWhile_le)

lemma trailing_zeros_snoc:
  "trailing_zeros (s @ [d]) = (if d = CHR ''0'' then Suc (trailing_zeros s) else 0)"
  by (simp add: trailing_zeros_def)

text \<open>Removing \<open>k\<close> digits divides exactly when they are zeros.\<close>

lemma digits_val_drop:
  "k \<le> trailing_zeros s \<Longrightarrow> digits_val s = digits_val (take (length s - k) s) * 10 ^ k"
proof (induction s arbitrary: k rule: rev_induct)
  case (snoc d s)
  show ?case
  proof (cases k)
    case (Suc j)
    with snoc.prems have d: "d = CHR ''0''" and "j \<le> trailing_zeros s"
      by (auto simp: trailing_zeros_snoc split: if_splits)
    with snoc.IH have "digits_val s = digits_val (take (length s - j) s) * 10 ^ j" by blast
    with Suc d show ?thesis by (simp add: digit_val_def byte_def)
  qed simp
qed (simp add: trailing_zeros_def)

lemma trailing_zeros_dvd:
  "list_all is_digit s \<Longrightarrow> digits_val s \<noteq> 0 \<Longrightarrow> 10 ^ k dvd digits_val s \<Longrightarrow> k \<le> trailing_zeros s"
proof (induction s arbitrary: k rule: rev_induct)
  case (snoc d s)
  then have d: "digit_val d < 10" "is_digit d" "list_all is_digit s" by (auto intro: is_digit_val)
  show ?case
  proof (cases k)
    case (Suc j)
    have "10 dvd digits_val (s @ [d])"
      using snoc.prems(3) Suc by (auto intro: dvd_trans [of _ "10 ^ k"])
    then have "10 dvd digit_val d" by (simp add: dvd_add_right_iff)
    with d(1) have "digit_val d = 0" by (auto simp: dvd_def)
    with d(2) have zero: "d = CHR ''0''" using digit_zero by blast
    with snoc.prems Suc have "10 ^ j dvd digits_val s" "digits_val s \<noteq> 0"
      by (auto simp: digit_val_def byte_def)
    with snoc.IH d(3) have "j \<le> trailing_zeros s" by blast
    with zero Suc show ?thesis by (simp add: trailing_zeros_snoc)
  qed simp
qed simp

lemma accumulate_eq:
  assumes "list_all is_digit ds" "0 \<le> v" "(v + 1) * 10 ^ length ds \<le> 10 ^ 18"
  shows "accumulate v ds = Some (v * 10 ^ length ds + int (digits_val ds))"
  using assms
proof (induction ds arbitrary: v)
  case (Cons d ds)
  have dv: "int (digit_val d) < 10" using Cons.prems by (auto dest: is_digit_val)
  have p: "(1::int) \<le> 10 ^ length ds" by simp
  have b: "(10 * v + 10) * 10 ^ length ds \<le> 10 ^ 18" using Cons.prems(3) by (simp add: algebra_simps)
  have "(10 * v + 10) * 1 \<le> (10 * v + 10) * 10 ^ length ds"
    using p Cons.prems(2) by (intro mult_left_mono) auto
  with b have le: "10 * v + 10 \<le> 10 ^ 18" by simp
  have "(v * 10 + int (digit_val d) + 1) * 10 ^ length ds \<le> (10 * v + 10) * 10 ^ length ds"
    using dv p by (intro mult_right_mono) auto
  with b have "(v * 10 + int (digit_val d) + 1) * 10 ^ length ds \<le> 10 ^ 18" by linarith
  then have "accumulate (v * 10 + int (digit_val d)) ds
      = Some ((v * 10 + int (digit_val d)) * 10 ^ length ds + int (digits_val ds))"
    using Cons.IH [of "v * 10 + int (digit_val d)"] Cons.prems by simp
  moreover have "checked_i64 (v * 10) = Some (v * 10)"
    "checked_i64 (v * 10 + int (digit_val d)) = Some (v * 10 + int (digit_val d))"
    using le dv Cons.prems(2) by (auto simp: checked_i64_def I64_MIN_def I64_MAX_def)
  ultimately show ?case by (simp add: digits_val_Cons algebra_simps)
qed simp

lemma scale_up_eq: "0 \<le> v \<Longrightarrow> v * 10 ^ n \<le> 10 ^ 18 \<Longrightarrow> scale_up n v = Some (v * 10 ^ n)"
proof (induction n arbitrary: v)
  case (Suc n)
  have "(v * 10) * 1 \<le> (v * 10) * 10 ^ n" using Suc.prems(1) by (intro mult_left_mono) auto
  with Suc.prems have "checked_i64 (v * 10) = Some (v * 10)"
    by (auto simp: checked_i64_def I64_MIN_def I64_MAX_def)
  with Suc show ?case by (simp add: algebra_simps)
qed simp


text \<open>The digits kept and the zeros appended at scale \<open>e\<close>, as both branches of the code choose them.\<close>

definition kept_digits :: "int \<Rightarrow> string \<Rightarrow> string" where
  "kept_digits e s = (if e < 0 then take (length s - nat (- e)) s else s)"

definition zeros_added :: "int \<Rightarrow> nat" where
  "zeros_added e = (if e < 0 then 0 else nat e)"

text \<open>A significand: digits, at least one, the first not zero.\<close>

definition significand :: "string \<Rightarrow> bool" where
  "significand s \<longleftrightarrow> s \<noteq> [] \<and> list_all is_digit s \<and> hd s \<noteq> CHR ''0''"

lemma significand_trim: "list_all is_digit s \<Longrightarrow> trim_zeros s \<noteq> [] \<Longrightarrow> significand (trim_zeros s)"
  by (simp add: significand_def trim_zeros_digits trim_zeros_hd)

lemma significand_pos: "significand s \<Longrightarrow> 0 < digits_val s"
  using digits_val_lower [of s] by (cases "digits_val s") (auto simp: significand_def)

lemma significand_trailing: "significand s \<Longrightarrow> trailing_zeros s < length s"
proof (rule ccontr)
  assume s: "significand s" and "\<not> trailing_zeros s < length s"
  then have "trailing_zeros s = length s" using trailing_zeros_le [of s] by simp
  then have "length (takeWhile (\<lambda>c. c = CHR ''0'') (rev s)) = length (rev s)"
    by (simp add: trailing_zeros_def)
  then have "\<forall>c \<in> set s. c = CHR ''0''" by (subst (asm) takeWhile_short) simp
  with s show False by (cases s) (auto simp: significand_def)
qed

lemma significand_kept:
  assumes "significand s" "nat (- e) \<le> trailing_zeros s"
  shows "significand (kept_digits e s)"
proof -
  from assms have "nat (- e) < length s" using significand_trailing [of s] by linarith
  with assms(1) show ?thesis
    by (auto simp: kept_digits_def significand_def list_all_iff dest: in_set_takeD)
qed

lemma kept_value:
  assumes "nat (- e) \<le> trailing_zeros s"
  shows "digits_val s * 10 ^ nat e
           = digits_val (kept_digits e s) * 10 ^ zeros_added e * 10 ^ nat (- e)"
proof (cases "e < 0")
  case True
  then show ?thesis by (simp add: kept_digits_def zeros_added_def flip: digits_val_drop [OF assms])
qed (simp add: kept_digits_def zeros_added_def)

lemma scaled_integral:
  assumes s: "significand s"
  shows "(10 ^ nat (- e) dvd int (digits_val s) * 10 ^ nat e) \<longleftrightarrow> nat (- e) \<le> trailing_zeros s"
proof
  assume d: "10 ^ nat (- e) dvd int (digits_val s) * 10 ^ nat e"
  show "nat (- e) \<le> trailing_zeros s"
  proof (cases "e < 0")
    case True
    with d have "int (10 ^ nat (- e)) dvd int (digits_val s)" by simp
    then have "10 ^ nat (- e) dvd digits_val s" by (simp only: int_dvd_int_iff)
    with s show ?thesis using trailing_zeros_dvd significand_pos [OF s]
      by (auto simp: significand_def)
  qed simp
next
  assume "nat (- e) \<le> trailing_zeros s"
  from kept_value [OF this] have "10 ^ nat (- e) dvd digits_val s * 10 ^ nat e" by simp
  then have "int (10 ^ nat (- e)) dvd int (digits_val s * 10 ^ nat e)" by (simp only: int_dvd_int_iff)
  then show "10 ^ nat (- e) dvd int (digits_val s) * 10 ^ nat e" by simp
qed

text \<open>The value at a scale: what an integer with these digits and this scale must be.\<close>

definition scaled :: "int \<Rightarrow> string \<Rightarrow> int" where
  "scaled e s = int (digits_val (kept_digits e s)) * 10 ^ zeros_added e"

lemma scaled_unique:
  assumes s: "significand s" and sg: "sg = 1 \<or> sg = (-1::int)"
  shows "sg * int (digits_val s) * 10 ^ nat e = i * 10 ^ nat (- e)
           \<longleftrightarrow> nat (- e) \<le> trailing_zeros s \<and> i = sg * scaled e s"
proof -
  have val: "int (digits_val s) * 10 ^ nat e = scaled e s * 10 ^ nat (- e)"
    if "nat (- e) \<le> trailing_zeros s"
    using arg_cong [OF kept_value [OF that], of int] by (simp add: scaled_def)
  have "nat (- e) \<le> trailing_zeros s" if "sg * int (digits_val s) * 10 ^ nat e = i * 10 ^ nat (- e)"
  proof -
    from that sg have "int (digits_val s) * 10 ^ nat e = (sg * i) * 10 ^ nat (- e)" by auto
    then have "10 ^ nat (- e) dvd int (digits_val s) * 10 ^ nat e" by simp
    then show ?thesis by (simp only: scaled_integral [OF s])
  qed
  moreover have "sg * int (digits_val s) * 10 ^ nat e = i * 10 ^ nat (- e) \<longleftrightarrow> i = sg * scaled e s"
    if "nat (- e) \<le> trailing_zeros s"
    using val [OF that] by (auto simp: mult.assoc)
  ultimately show ?thesis by blast
qed

lemma scaled_bounds:
  assumes "significand s" "nat (- e) \<le> trailing_zeros s"
  shows "10 ^ (length (kept_digits e s) + zeros_added e - 1) \<le> scaled e s"
    and "scaled e s < 10 ^ (length (kept_digits e s) + zeros_added e)"
proof -
  let ?k = "kept_digits e s" and ?z = "zeros_added e"
  from significand_kept [OF assms] have k: "?k \<noteq> []" "list_all is_digit ?k" "hd ?k \<noteq> CHR ''0''"
    by (auto simp: significand_def)
  have "10 ^ (length ?k - 1) * 10 ^ ?z \<le> digits_val ?k * 10 ^ ?z"
    using digits_val_lower k by simp
  moreover have "length ?k + ?z - 1 = (length ?k - 1) + ?z" using k(1) by (cases ?k) auto
  ultimately have "10 ^ (length ?k + ?z - 1) \<le> digits_val ?k * 10 ^ ?z" by (simp only: power_add)
  then have "int (10 ^ (length ?k + ?z - 1)) \<le> int (digits_val ?k * 10 ^ ?z)"
    by (simp only: of_nat_le_iff)
  then show "10 ^ (length ?k + ?z - 1) \<le> scaled e s" by (simp add: scaled_def)
  have "digits_val ?k * 10 ^ ?z < 10 ^ length ?k * 10 ^ ?z"
    using digits_val_bound [OF k(2)] by simp
  then have "int (digits_val ?k * 10 ^ ?z) < int (10 ^ length ?k * 10 ^ ?z)"
    by (simp only: of_nat_less_iff)
  then show "scaled e s < 10 ^ (length ?k + ?z)" by (simp add: scaled_def power_add)
qed


lemma power_range:
  assumes "significand s" "nat (- e) \<le> trailing_zeros s" "scaled e s \<le> SAFE_INTEGER"
  shows "length (kept_digits e s) + zeros_added e \<le> 16"
proof (rule ccontr)
  let ?n = "length (kept_digits e s) + zeros_added e"
  assume "\<not> ?n \<le> 16"
  then have "(10::int) ^ 16 \<le> 10 ^ (?n - 1)" by (intro power_increasing) auto
  also have "\<dots> \<le> scaled e s" by (rule scaled_bounds(1) [OF assms(1,2)])
  finally show False using assms(3) by (simp add: SAFE_INTEGER_def)
qed

text \<open>The two loops compute the scaled value whenever at most 16 digits remain.\<close>

lemma loops_scaled:
  assumes s: "significand s" "nat (- e) \<le> trailing_zeros s"
    and n: "length (kept_digits e s) + zeros_added e \<le> 16"
  shows "Option.bind (accumulate 0 (kept_digits e s)) (scale_up (zeros_added e)) = Some (scaled e s)"
proof -
  let ?k = "kept_digits e s" and ?z = "zeros_added e"
  have k: "list_all is_digit ?k" using significand_kept [OF s] by (simp add: significand_def)
  have "(10::int) ^ length ?k \<le> 10 ^ 18" using n by (intro power_increasing) auto
  then have acc: "accumulate 0 ?k = Some (int (digits_val ?k))"
    using accumulate_eq [OF k, of 0] by simp
  have "scaled e s \<le> 10 ^ (length ?k + ?z)" using scaled_bounds(2) [OF s] by simp
  also have "\<dots> \<le> 10 ^ 18" using n by (intro power_increasing) auto
  finally have "int (digits_val ?k) * 10 ^ ?z \<le> 10 ^ 18" by (simp add: scaled_def)
  then show ?thesis using scale_up_eq [of "int (digits_val ?k)" ?z] acc by (simp add: scaled_def)
qed

text \<open>What the code computes from a significand and a parsed exponent.\<close>

lemma exact_significand:
  assumes "number_parts raw = (negative, whole, fraction, ex)" "whole \<noteq> []"
    "list_all is_digit whole" "list_all is_digit fraction" "parse_i64 ex = Some x"
    and s: "trim_zeros (whole @ fraction) = s" "s \<noteq> []"
    and e: "x - int (length fraction) = e"
  shows "exact_safe_integer raw = Some i \<longleftrightarrow>
     nat (- e) \<le> trailing_zeros s \<and> scaled e s \<le> SAFE_INTEGER
     \<and> i = (if negative then - scaled e s else scaled e s)"
proof -
  have sig: "significand s" using significand_trim assms by auto
  have code: "exact_safe_integer raw =
     (if e < 0 \<and> nat (- e) > trailing_zeros s then None
      else if length (kept_digits e s) + zeros_added e > 16 then None
      else Option.bind (Option.bind (accumulate 0 (kept_digits e s)) (scale_up (zeros_added e)))
        (\<lambda>v. if v \<le> SAFE_INTEGER then Some (if negative then - v else v) else None))"
    using assms by (simp add: exact_safe_integer_def kept_digits_def zeros_added_def Let_def
        del: minus_diff_eq)
  show ?thesis
  proof (cases "nat (- e) \<le> trailing_zeros s")
    case True
    show ?thesis
    proof (cases "length (kept_digits e s) + zeros_added e \<le> 16")
      case n: True
      show ?thesis using True n by (auto simp: code loops_scaled [OF sig True n])
    next
      case n: False
      with power_range [OF sig True] True show ?thesis by (auto simp: code)
    qed
  qed (auto simp: code)
qed

lemma number_parts_short:
  assumes "number_parts raw = (negative, whole, fraction, ex)"
  shows "length fraction \<le> length raw" and "length whole + length fraction \<le> length raw"
  using assms
  by (cases raw; auto simp: number_parts_def Let_def split_once_Some split: option.splits if_splits)+

lemma pow_beyond:
  assumes "20 \<le> n"
  shows "SAFE_INTEGER < 10 ^ n"
proof -
  have "(10::int) ^ 20 \<le> 10 ^ n" using assms by (intro power_increasing) auto
  then show ?thesis by (simp add: SAFE_INTEGER_def)
qed

text \<open>An exponent outside \<open>i64\<close> cannot belong to a safe integer of a short text.\<close>

lemma far_exponent:
  assumes s: "significand s" and len: "length s \<le> len" and l: "int len < 2 ^ 62"
    and f: "f \<le> len" and x: "x < I64_MIN \<or> I64_MAX < x"
    and ok: "nat (- (x - int f)) \<le> trailing_zeros s"
  shows "SAFE_INTEGER < scaled (x - int f) s"
proof -
  let ?e = "x - int f"
  from x have "20 \<le> ?e"
  proof
    assume "x < I64_MIN"
    then have "?e < - (2 ^ 62)" using l f by (simp add: I64_MIN_def)
    then have "int len < int (nat (- ?e))" using l by linarith
    with ok significand_trailing [OF s] len show ?thesis by linarith
  next
    assume "I64_MAX < x"
    with l f show ?thesis by (simp add: I64_MAX_def)
  qed
  then have "20 \<le> zeros_added ?e" by (simp add: zeros_added_def)
  moreover have "length (kept_digits ?e s) \<noteq> 0"
    using significand_kept [OF s ok] by (simp add: significand_def)
  ultimately have "SAFE_INTEGER < 10 ^ (length (kept_digits ?e s) + zeros_added ?e - 1)"
    by (intro pow_beyond) linarith
  also have "\<dots> \<le> scaled ?e s" by (rule scaled_bounds(1) [OF s ok])
  finally show ?thesis .
qed

lemma exact_number_iff:
  assumes num: "number_text raw" and len: "length raw < 2 ^ 62"
  shows "exact_safe_integer raw = Some i \<longleftrightarrow> denotes raw i \<and> \<bar>i\<bar> \<le> SAFE_INTEGER"
proof -
  obtain negative whole fraction ex where parts: "number_parts raw = (negative, whole, fraction, ex)"
    by (metis prod_cases4)
  with num have ok: "whole \<noteq> []" "list_all is_digit whole" "list_all is_digit fraction" "int_shape ex"
    by (auto simp: number_text_def)
  define s where "s = trim_zeros (whole @ fraction)"
  define sg :: int where "sg = (if negative then -1 else 1)"
  define e where "e = scale_of fraction ex"
  have den: "denotes raw i \<longleftrightarrow> sg * int (digits_val s) * 10 ^ nat e = i * 10 ^ nat (- e)"
    using parts by (simp add: denotes_def s_def digits_val_trim sg_def e_def)
  show ?thesis
  proof (cases "s = []")
    case True
    then have "exact_safe_integer raw = Some 0"
      using parts ok by (simp add: exact_safe_integer_def s_def [symmetric])
    with den True show ?thesis by (auto simp: SAFE_INTEGER_def)
  next
    case False
    then have sig: "significand s" using ok by (simp add: s_def significand_trim)
    have sg: "sg = 1 \<or> sg = -1" by (simp add: sg_def)
    have pos: "0 \<le> scaled e s" by (simp add: scaled_def)
    have lens: "length s \<le> length raw" "length fraction \<le> length raw"
      using number_parts_short [OF parts] length_dropWhile_le [of "\<lambda>c. c = CHR ''0''" "whole @ fraction"]
      by (auto simp: s_def trim_zeros_def)
    show ?thesis
    proof (cases "parse_i64 ex")
      case None
      then have "exact_safe_integer raw = None"
        using parts ok False by (simp add: exact_safe_integer_def s_def [symmetric])
      moreover have "int_val ex < I64_MIN \<or> I64_MAX < int_val ex"
        using None ok(4) by (auto simp: parse_i64_def parse_int_None)
      then have "SAFE_INTEGER < scaled e s" if "nat (- e) \<le> trailing_zeros s"
        using far_exponent [OF sig lens(1) _ lens(2)] that len by (simp add: e_def scale_of_def)
      ultimately show ?thesis using den scaled_unique [OF sig sg, of e i] sg pos by auto
    next
      case (Some x)
      then have "x = int_val ex" by (simp add: parse_i64_def parse_int_iff)
      then have "x - int (length fraction) = e" by (simp add: e_def scale_of_def)
      from exact_significand [OF parts ok(1-3) Some s_def [symmetric] False this]
      show ?thesis using den scaled_unique [OF sig sg, of e i] pos by (auto simp: sg_def)
    qed
  qed
qed


lemma json_integer_iff:
  assumes num: "number_text raw" and len: "length raw < 2 ^ 62"
  shows "exact_json_integer raw \<longleftrightarrow> (\<exists>i. denotes raw i)"
proof -
  obtain negative whole fraction ex where parts: "number_parts raw = (negative, whole, fraction, ex)"
    by (metis prod_cases4)
  with num have ok: "whole \<noteq> []" "list_all is_digit whole" "list_all is_digit fraction" "int_shape ex"
    by (auto simp: number_text_def)
  define s where "s = trim_zeros (whole @ fraction)"
  define sg :: int where "sg = (if negative then -1 else 1)"
  define e where "e = scale_of fraction ex"
  have den: "denotes raw i \<longleftrightarrow> sg * int (digits_val s) * 10 ^ nat e = i * 10 ^ nat (- e)" for i
    using parts by (simp add: denotes_def s_def digits_val_trim sg_def e_def)
  show ?thesis
  proof (cases "s = []")
    case True
    with den have "denotes raw 0" by simp
    moreover have "exact_json_integer raw"
      using parts ok True by (simp add: exact_json_integer_def s_def [symmetric])
    ultimately show ?thesis by blast
  next
    case False
    then have sig: "significand s" using ok by (simp add: s_def significand_trim)
    have sg: "sg = 1 \<or> sg = -1" by (simp add: sg_def)
    have lens: "length s \<le> length raw" "length fraction \<le> length raw"
      using number_parts_short [OF parts] length_dropWhile_le [of "\<lambda>c. c = CHR ''0''" "whole @ fraction"]
      by (auto simp: s_def trim_zeros_def)
    have tz: "int (trailing_zeros s) < 2 ^ 62"
      using le_less_trans [OF le_trans [OF trailing_zeros_le lens(1)] len] by simp
    have fr: "int (length fraction) < 2 ^ 62" using le_less_trans [OF lens(2) len] by simp
    have "(\<exists>i. denotes raw i) \<longleftrightarrow> nat (- e) \<le> trailing_zeros s"
      using den scaled_unique [OF sig sg, of e] by blast
    also have "\<dots> \<longleftrightarrow> int (length fraction) \<le> int_val ex + int (trailing_zeros s)"
      by (auto simp: e_def scale_of_def)
    also have "\<dots> \<longleftrightarrow> exact_json_integer raw"
    proof (cases "parse_int I128_MIN I128_MAX ex")
      case None
      then have out: "int_val ex < I128_MIN \<or> I128_MAX < int_val ex"
        using ok(4) by (simp add: parse_int_None)
      have sign: "starts_with ''-'' ex \<longleftrightarrow> int_val ex < I128_MIN"
        using out ok(4) by (cases ex)
          (auto simp: starts_with_def int_val_def I128_MIN_def I128_MAX_def int_shape_def Let_def)
      have "exact_json_integer raw \<longleftrightarrow> \<not> starts_with ''-'' ex"
        using parts ok False None by (simp add: exact_json_integer_def s_def [symmetric])
      with sign out tz fr show ?thesis by (auto simp: I128_MIN_def I128_MAX_def)
    next
      case (Some x)
      then have x: "x = int_val ex" "I128_MIN \<le> x" "x \<le> I128_MAX" by (auto simp: parse_int_iff)
      have "exact_json_integer raw \<longleftrightarrow> int (length fraction) \<le>
          max I128_MIN (min I128_MAX (x + int (trailing_zeros s)))"
        using parts ok False Some by (simp add: exact_json_integer_def s_def [symmetric])
      also have "\<dots> \<longleftrightarrow> int (length fraction) \<le> x + int (trailing_zeros s)"
        using x(2,3) tz fr by (auto simp: I128_MIN_def I128_MAX_def max_def min_def)
      finally show ?thesis using x(1) by simp
    qed
    finally show ?thesis by simp
  qed
qed

lemma checked_i64_Some [simp]: "checked_i64 v = Some w \<longleftrightarrow> w = v \<and> I64_MIN \<le> v \<and> v \<le> I64_MAX"
  by (auto simp: checked_i64_def)

lemma accumulate_nonneg: "0 \<le> v \<Longrightarrow> accumulate v ds = Some w \<Longrightarrow> 0 \<le> w"
proof (induction ds arbitrary: v)
  case (Cons d ds)
  then have "accumulate (v * 10 + int (digit_val d)) ds = Some w"
    by (auto simp: bind_eq_Some_conv)
  with Cons.IH [of "v * 10 + int (digit_val d)"] Cons.prems(1) show ?case by simp
qed simp

lemma scale_up_nonneg: "0 \<le> v \<Longrightarrow> scale_up n v = Some w \<Longrightarrow> 0 \<le> w"
proof (induction n arbitrary: v)
  case (Suc n)
  then have "scale_up n (v * 10) = Some w" by (auto simp: bind_eq_Some_conv)
  with Suc.IH [of "v * 10"] Suc.prems(1) show ?case by simp
qed simp

lemma exact_safe_bounded:
  assumes "exact_safe_integer raw = Some i"
  shows "\<bar>i\<bar> \<le> SAFE_INTEGER"
proof -
  obtain negative whole fraction ex where parts: "number_parts raw = (negative, whole, fraction, ex)"
    by (metis prod_cases4)
  show ?thesis
  proof (cases "i = 0")
    case False
    with assms parts obtain ds v z u where "accumulate 0 ds = Some v" "scale_up z v = Some u"
      "u \<le> SAFE_INTEGER" "i = u \<or> i = - u"
      by (auto simp: exact_safe_integer_def bind_eq_Some_conv Let_def simp del: scale_up.simps split: if_splits)
    then show ?thesis using accumulate_nonneg [of 0 ds v] scale_up_nonneg [of v z u] by auto
  qed (simp add: SAFE_INTEGER_def)
qed

text \<open>An identifier as the session keys it: what is echoed is the canonical spelling of the key.\<close>

definition identified :: "request \<Rightarrow> bool" where
  "identified q \<longleftrightarrow>
     (case rq_key q of
        None \<Rightarrow> rq_id q = None
      | Some (IdString s) \<Rightarrow> rq_id q = Some (JStr s) \<and> compact_string_token_len s \<le> 256
      | Some (IdInteger i) \<Rightarrow> rq_id q = Some (JNum (int_text i)) \<and> \<bar>i\<bar> \<le> SAFE_INTEGER)"

lemma decode_id_cases:
  assumes "decode_id obj = r"
  shows "case r of
       Inl e \<Rightarrow> e = protocol_error (-32600) JNull
     | Inr (i, key) \<Rightarrow> identified \<lparr>rq_id = i, rq_key = key, rq_method = m, rq_params = p\<rparr>"
  using assms exact_safe_bounded
  by (auto simp: decode_id_def identified_def split: option.splits json.splits if_splits)

lemma decode_cases:
  assumes "decode from_slice f = r"
  shows "case r of
       Inl e \<Rightarrow> pe_data e = None \<and> (pe_code e = -32600 \<or> pe_code e = -32700 \<and> pe_id e = JNull)
     | Inr None \<Rightarrow> f = Eof
     | Inr (Some q) \<Rightarrow> identified q \<and> (case rq_params q of None \<Rightarrow> True | Some v \<Rightarrow> is_object v \<or> is_array v)"
proof (cases f)
  case (Line bytes)
  show ?thesis
  proof (cases "from_slice bytes")
    case (Some v)
    show ?thesis
    proof (cases v)
      case (JObj obj)
      show ?thesis
        using assms Line Some JObj decode_id_cases [OF refl,
            of "the (Option.bind (map_of obj ''method'') as_str)" "map_of obj ''params''" obj]
        by (cases "decode_id obj")
          (auto simp: decode_def protocol_error_def envelope_bad_def split: option.splits)
    qed (use assms Line Some in \<open>auto simp: decode_def protocol_error_def\<close>)
  qed (use assms Line in \<open>auto simp: decode_def protocol_error_def\<close>)
qed (use assms in \<open>auto simp: decode_def protocol_error_def\<close>)

subsection \<open>Properties\<close>

text \<open>C1: \<open>read_frame\<close> returns the first line of the remaining input, whatever the pieces in which
  the input arrives: a line of at most 16384 bytes as it is, a longer one as \<open>Oversized\<close> with its
  bytes drained, and \<open>Eof\<close> for an input with no line feed left; it consumes exactly that line.\<close>

theorem read_frame_first_line:
  assumes "pieces r"
  shows "\<exists>f r'. read_frame r = (Inr f, r') \<and> pieces r' \<and> (f, flat r') = first_line (flat r)"
  using read_loop_flat [OF assms, of "[]" "[]" False] by (simp add: read_frame_def retained_def)

theorem read_frame_first_line_witness:
  "\<exists>f r'. read_frame [Chunk ''a'', Chunk (''b'' @ [LF] @ ''c'')] = (Inr f, r') \<and> pieces r'
     \<and> (f, flat r') = first_line (''ab'' @ [LF] @ ''c'')"
  using read_frame_first_line [of "[Chunk ''a'', Chunk (''b'' @ [LF] @ ''c'')]"] by simp

text \<open>\<open>exact_safe_integer\<close> accepts a JSON number exactly when its exact decimal value is an
  integer of the safe range, and returns that value: no rounding, and no spelling of such an
  integer (fraction zeros, exponents of either sign) is refused.\<close>

theorem exact_safe_integer_iff:
  assumes "number_text raw" "length raw < 2 ^ 62"
  shows "exact_safe_integer raw = Some i \<longleftrightarrow> denotes raw i \<and> \<bar>i\<bar> \<le> SAFE_INTEGER"
  using assms by (rule exact_number_iff)

theorem exact_safe_integer_iff_witness:
  "exact_safe_integer ''-12.50e1'' = Some (-125) \<longleftrightarrow> denotes ''-12.50e1'' (-125) \<and> \<bar>-125\<bar> \<le> SAFE_INTEGER"
  by (rule exact_safe_integer_iff) (simp_all add: number_text_def number_parts_def is_digit_def
      byte_def int_shape_def)

text \<open>\<open>exact_json_integer\<close>, which has no safe bound, accepts a number exactly when its decimal
  value is an integer.\<close>

theorem exact_json_integer_iff:
  assumes "number_text raw" "length raw < 2 ^ 62"
  shows "exact_json_integer raw \<longleftrightarrow> (\<exists>i. denotes raw i)"
  using assms by (rule json_integer_iff)

theorem exact_json_integer_iff_witness:
  "exact_json_integer ''1.5e400'' \<longleftrightarrow> (\<exists>i. denotes ''1.5e400'' i)"
  by (rule exact_json_integer_iff) (simp_all add: number_text_def number_parts_def is_digit_def
      byte_def int_shape_def)

text \<open>\<open>decode\<close> either reports end of input, or a request whose identifier key is safe (a short
  string or a safe integer) and echoed canonically and whose parameters are structured, or a parse
  error with a null identifier or an invalid-request error.\<close>

theorem decode_contract:
  "case decode from_slice f of
     Inl e \<Rightarrow> pe_data e = None \<and> (pe_code e = -32600 \<or> pe_code e = -32700 \<and> pe_id e = JNull)
   | Inr None \<Rightarrow> f = Eof
   | Inr (Some q) \<Rightarrow> identified q
       \<and> (case rq_params q of None \<Rightarrow> True | Some v \<Rightarrow> is_object v \<or> is_array v)"
  using decode_cases [OF refl] .

end
