(* ===== verification/Session.thy ===== *)
theory Session
  imports Wire
begin

section \<open>The connection reducer (\<open>mcp/session.rs\<close>)\<close>

text \<open>
  One connection's state: the protocol revision it has settled on, the admission counter (a 64-bit
  word, so the overflow check of the source is a branch) and the requests that are admitted and not
  yet answered, keyed by their identifier. \<open>reqwest\<close>'s URL parser and the tool catalogue are
  arguments. A hash map is an association list; its order matters to no operation.
\<close>

datatype mode = Unselected | Modern | LegacyAwaitInitialized | LegacyReady

datatype action = Discover | Initialize | ListTools | Call string "json option" | Unknown

record admission =
  ad_token :: u64
  ad_id :: json
  ad_action :: action

record prepared =
  pr_token :: u64
  pr_response :: json

datatype event = Ignore | EventError protocol_error | Admitted admission

record session =
  s_mode :: mode
  s_next_token :: u64
  s_pending :: "(id_key \<times> admission) list"

definition new_session :: session where
  "new_session = \<lparr>s_mode = Unselected, s_next_token = 0, s_pending = []\<rparr>"

definition pending_count :: "session \<Rightarrow> nat" where
  "pending_count s = length (s_pending s)"

definition pending_entry :: "u64 \<Rightarrow> session \<Rightarrow> admission option" where
  "pending_entry token s = find (\<lambda>a. ad_token a = token) (map snd (s_pending s))"

definition eof :: "session \<Rightarrow> session" where
  "eof s = s\<lparr>s_pending := []\<rparr>"

definition key_for :: "json \<Rightarrow> id_key option" where
  "key_for v =
     (case v of
        JStr s \<Rightarrow> if compact_string_token_len s \<le> 256 then Some (IdString s) else None
      | JNum n \<Rightarrow> map_option IdInteger (exact_safe_integer n)
      | _ \<Rightarrow> None)"

definition cancel :: "json \<Rightarrow> session \<Rightarrow> session" where
  "cancel v s = (case key_for v of
                   None \<Rightarrow> s
                 | Some key \<Rightarrow> s\<lparr>s_pending := drop_key key (s_pending s)\<rparr>)"

subsection \<open>Validators of the parameters\<close>

type_synonym members = "(string \<times> json) list"
type_synonym field_validator = "string \<times> (json \<Rightarrow> bool)"

definition only :: "members \<Rightarrow> string list \<Rightarrow> bool" where
  "only p keys = list_all (\<lambda>(k, _). k \<in> set keys) p"

definition recognized :: "members \<Rightarrow> field_validator list \<Rightarrow> bool" where
  "recognized obj keys =
     list_all (\<lambda>(k, v). case map_of keys k of None \<Rightarrow> True | Some check \<Rightarrow> check v) obj"

definition object_with :: "field_validator list \<Rightarrow> json \<Rightarrow> bool" where
  "object_with keys v = (case as_object v of None \<Rightarrow> False | Some obj \<Rightarrow> recognized obj keys)"

definition object_values :: "json \<Rightarrow> bool" where
  "object_values v = (case as_object v of None \<Rightarrow> False
                      | Some obj \<Rightarrow> list_all (\<lambda>(_, w). is_object w) obj)"

definition roots_legacy :: "json \<Rightarrow> bool" where
  "roots_legacy = object_with [(''listChanged'', is_boolean)]"

definition sampling :: "json \<Rightarrow> bool" where
  "sampling = object_with [(''context'', is_object), (''tools'', is_object)]"

definition elicitation :: "json \<Rightarrow> bool" where
  "elicitation = object_with [(''form'', is_object), (''url'', is_object)]"

definition task_elicitation :: "json \<Rightarrow> bool" where
  "task_elicitation = object_with [(''create'', is_object)]"

definition task_sampling :: "json \<Rightarrow> bool" where
  "task_sampling = object_with [(''createMessage'', is_object)]"

definition task_requests :: "json \<Rightarrow> bool" where
  "task_requests = object_with [(''elicitation'', task_elicitation), (''sampling'', task_sampling)]"

definition tasks :: "json \<Rightarrow> bool" where
  "tasks = object_with [(''cancel'', is_object), (''list'', is_object), (''requests'', task_requests)]"

definition capabilities :: "bool \<Rightarrow> json \<Rightarrow> bool" where
  "capabilities modern v =
     (case as_object v of None \<Rightarrow> False
      | Some obj \<Rightarrow> recognized obj
          ([(''elicitation'', elicitation), (''experimental'', object_values), (''sampling'', sampling)]
           @ (if modern then [(''roots'', is_object), (''extensions'', object_values)]
              else [(''roots'', roots_legacy), (''tasks'', tasks)])))"

definition uri :: "(string \<Rightarrow> bool) \<Rightarrow> json \<Rightarrow> bool" where
  "uri url_ok v = (case as_str v of None \<Rightarrow> False | Some s \<Rightarrow> url_ok s)"

definition str_array :: "json \<Rightarrow> bool" where
  "str_array v = (case as_array v of None \<Rightarrow> False | Some xs \<Rightarrow> list_all is_string xs)"

definition theme :: "json \<Rightarrow> bool" where
  "theme v \<longleftrightarrow> as_str v = Some ''dark'' \<or> as_str v = Some ''light''"

text \<open>\<open>o.get(k).is_some_and(check)\<close>.\<close>

definition required :: "members \<Rightarrow> string \<Rightarrow> (json \<Rightarrow> bool) \<Rightarrow> bool" where
  "required obj k check = (case map_of obj k of None \<Rightarrow> False | Some v \<Rightarrow> check v)"

definition icon :: "(string \<Rightarrow> bool) \<Rightarrow> json \<Rightarrow> bool" where
  "icon url_ok v =
     (case as_object v of None \<Rightarrow> False
      | Some obj \<Rightarrow> required obj ''src'' (uri url_ok)
          \<and> recognized obj [(''src'', uri url_ok), (''mimeType'', is_string),
                            (''sizes'', str_array), (''theme'', theme)])"

definition icons :: "(string \<Rightarrow> bool) \<Rightarrow> json \<Rightarrow> bool" where
  "icons url_ok v = (case as_array v of None \<Rightarrow> False | Some xs \<Rightarrow> list_all (icon url_ok) xs)"

definition client_info :: "(string \<Rightarrow> bool) \<Rightarrow> json \<Rightarrow> bool" where
  "client_info url_ok v =
     (case as_object v of None \<Rightarrow> False
      | Some obj \<Rightarrow> required obj ''name'' is_string \<and> required obj ''version'' is_string
          \<and> recognized obj [(''name'', is_string), (''version'', is_string), (''title'', is_string),
                            (''description'', is_string), (''websiteUrl'', uri url_ok),
                            (''icons'', icons url_ok)])"

definition progress_token :: "json \<Rightarrow> bool" where
  "progress_token v \<longleftrightarrow>
     is_string v \<or> (case as_number v of None \<Rightarrow> False | Some n \<Rightarrow> exact_json_integer n)"

definition legacy_meta :: "json \<Rightarrow> bool" where
  "legacy_meta = object_with [(''progressToken'', progress_token)]"

definition legacy_initialize :: "(string \<Rightarrow> bool) \<Rightarrow> json option \<Rightarrow> bool" where
  "legacy_initialize url_ok params =
     (case Option.bind params as_object of None \<Rightarrow> False
      | Some obj \<Rightarrow>
          required obj ''protocolVersion'' is_string
          \<and> required obj ''capabilities'' (capabilities False)
          \<and> required obj ''clientInfo'' (client_info url_ok)
          \<and> recognized obj [(''protocolVersion'', is_string), (''capabilities'', capabilities False),
                            (''clientInfo'', client_info url_ok), (''_meta'', legacy_meta)])"

text \<open>An error with a version is kept for a well-typed but unsupported revision.\<close>

definition modern_metadata :: "(string \<Rightarrow> bool) \<Rightarrow> json option \<Rightarrow> string option + bool" where
  "modern_metadata url_ok params =
     bind_result (ok_or (Option.bind (Option.bind (Option.bind params as_object)
                     (\<lambda>obj. map_of obj ''_meta'')) as_object) None) (\<lambda>meta.
     bind_result (ok_or (Option.bind (map_of meta ''io.modelcontextprotocol/protocolVersion'') as_str)
                     None) (\<lambda>version.
       if \<not> required meta ''io.modelcontextprotocol/clientCapabilities'' (capabilities True)
          \<or> (case map_of meta ''io.modelcontextprotocol/clientInfo'' of
               None \<Rightarrow> False | Some v \<Rightarrow> \<not> client_info url_ok v)
       then Inl None
       else if version \<noteq> ''2026-07-28'' then Inl (Some version)
       else Inr True))"

subsection \<open>Admission\<close>

definition bad :: "json \<Rightarrow> int \<Rightarrow> protocol_error" where
  "bad i code = protocol_error code i"

definition unsupported_version :: "json \<Rightarrow> string \<Rightarrow> protocol_error" where
  "unsupported_version i requested =
     (bad i (-32022))\<lparr>pe_data := Some (JObj
        [(''supported'', JArr [JStr ''2026-07-28'', JStr ''2025-11-25'']),
         (''requested'', JStr requested)])\<rparr>"

definition call_action ::
  "(string \<Rightarrow> bool) \<Rightarrow> bool \<Rightarrow> members option \<Rightarrow> json \<Rightarrow> protocol_error + action" where
  "call_action known modern obj i =
     bind_result (ok_or obj (bad i (-32602))) (\<lambda>p.
       if \<not> only p (if modern then [''name'', ''arguments'', ''_meta''] else [''name'', ''arguments''])
       then Inl (bad i (-32602))
       else bind_result (ok_or (Option.bind (map_of p ''name'') as_str) (bad i (-32602))) (\<lambda>name.
         if \<not> known name then Inl (bad i (-32602))
         else Inr (Call name (map_of p ''arguments''))))"

definition empty_params :: "json option \<Rightarrow> bool" where
  "empty_params params = (case params of None \<Rightarrow> True | Some p \<Rightarrow> as_object p = Some [])"

definition method_action ::
  "(string \<Rightarrow> bool) \<Rightarrow> bool \<Rightarrow> string \<Rightarrow> json option \<Rightarrow> json \<Rightarrow> protocol_error + action" where
  "method_action known modern mth params i =
     (let obj = Option.bind params as_object;
          meta_only = (case obj of None \<Rightarrow> False | Some p \<Rightarrow> only p [''_meta''])
      in if mth = ''server/discover'' \<and> modern \<and> meta_only then Inr Discover
         else if mth = ''tools/list'' \<and> modern \<and> meta_only then Inr ListTools
         else if mth = ''tools/list'' \<and> \<not> modern \<and> empty_params params then Inr ListTools
         else if mth = ''tools/call'' then call_action known modern obj i
         else if mth = ''server/discover'' \<or> mth = ''tools/list'' then Inl (bad i (-32602))
         else Inr Unknown)"

definition check_revision ::
  "(string \<Rightarrow> bool) \<Rightarrow> bool \<Rightarrow> string \<Rightarrow> json option \<Rightarrow> json \<Rightarrow> protocol_error + unit" where
  "check_revision url_ok modern mth params i =
     (if modern then
        (case modern_metadata url_ok params of
           Inl (Some requested) \<Rightarrow> Inl (unsupported_version i requested)
         | Inl None \<Rightarrow> Inl (bad i (-32602))
         | Inr _ \<Rightarrow> Inr ())
      else if mth = ''server/discover''
              \<or> (case Option.bind params as_object of None \<Rightarrow> False | Some p \<Rightarrow> has_key p ''_meta'')
      then Inl (bad i (-32600))
      else Inr ())"

definition validate ::
  "(string \<Rightarrow> bool) \<Rightarrow> (string \<Rightarrow> bool) \<Rightarrow> mode \<Rightarrow> string \<Rightarrow> json option \<Rightarrow> json
     \<Rightarrow> protocol_error + (mode \<times> action)" where
  "validate url_ok known m mth params i =
     (if mth = ''initialize'' then
        if m \<noteq> Unselected then Inl (bad i (-32600))
        else if \<not> legacy_initialize url_ok params then Inl (bad i (-32602))
        else Inr (LegacyAwaitInitialized, Initialize)
      else if m = LegacyAwaitInitialized then Inl (bad i (-32600))
      else
        let modern = (m \<noteq> LegacyReady) in
        bind_result (check_revision url_ok modern mth params i) (\<lambda>_.
        bind_result (method_action known modern mth params i) (\<lambda>act.
          Inr (if modern then Modern else LegacyReady, act))))"

definition cancelled_target :: "json option \<Rightarrow> json option" where
  "cancelled_target params =
     (case Option.bind params as_object of
        None \<Rightarrow> None
      | Some p \<Rightarrow>
          if only p [''requestId'', ''reason'']
             \<and> (case map_of p ''reason'' of None \<Rightarrow> True | Some v \<Rightarrow> is_string v)
          then map_of p ''requestId'' else None)"

definition notification :: "string \<Rightarrow> json option \<Rightarrow> session \<Rightarrow> session" where
  "notification mth params s =
     (if mth = ''notifications/cancelled'' then
        (case cancelled_target params of None \<Rightarrow> s | Some v \<Rightarrow> cancel v s)
      else if mth = ''notifications/initialized'' \<and> s_mode s = LegacyAwaitInitialized
              \<and> empty_params params
      then s\<lparr>s_mode := LegacyReady\<rparr>
      else s)"

definition accept ::
  "(string \<Rightarrow> bool) \<Rightarrow> (string \<Rightarrow> bool) \<Rightarrow> request \<Rightarrow> session \<Rightarrow> event \<times> session" where
  "accept url_ok known q s =
     (case rq_key q of
        None \<Rightarrow> (Ignore, notification (rq_method q) (rq_params q) s)
      | Some key \<Rightarrow>
          let i = the (rq_id q) in
          if has_key (s_pending s) key then (EventError (protocol_error (-32600) i), s)
          else
            (case validate url_ok known (s_mode s) (rq_method q) (rq_params q) i of
               Inl err \<Rightarrow> (EventError err, s)
             | Inr (target, act) \<Rightarrow>
                 if s_next_token s = - 1
                 then (EventError (protocol_error (-32603) i), s)
                 else
                   let token = s_next_token s + 1;
                       entry = \<lparr>ad_token = token, ad_id = i, ad_action = act\<rparr>
                   in (Admitted entry,
                       s\<lparr>s_next_token := token, s_mode := target,
                         s_pending := set_key key entry (s_pending s)\<rparr>)))"

definition prepare :: "u64 \<Rightarrow> json \<Rightarrow> session \<Rightarrow> prepared option" where
  "prepare token response s =
     map_option (\<lambda>_. \<lparr>pr_token = token, pr_response = response\<rparr>) (pending_entry token s)"

definition commit :: "prepared \<Rightarrow> session \<Rightarrow> json option \<times> session" where
  "commit p s =
     (case find (\<lambda>(_, entry). ad_token entry = pr_token p) (s_pending s) of
        None \<Rightarrow> (None, s)
      | Some (key, _) \<Rightarrow> (Some (pr_response p), s\<lparr>s_pending := drop_key key (s_pending s)\<rparr>))"


subsection \<open>The invariant of a session\<close>

text \<open>
  What the coordinator does to a session, as one step function. \<open>Complete\<close> is a commit of a
  result that was prepared under an admission token, possibly long before.
\<close>

datatype input =
    Accept "string \<Rightarrow> bool" "string \<Rightarrow> bool" request
  | Complete prepared
  | Cancel json
  | EndOfInput

definition session_step :: "session \<Rightarrow> input \<Rightarrow> session" where
  "session_step s i =
     (case i of
        Accept url_ok known q \<Rightarrow> snd (accept url_ok known q s)
      | Complete p \<Rightarrow> snd (commit p s)
      | Cancel v \<Rightarrow> cancel v s
      | EndOfInput \<Rightarrow> eof s)"

text \<open>The answers a run writes, with the admission token each belongs to.\<close>

definition answer_of :: "session \<Rightarrow> input \<Rightarrow> (u64 \<times> json) list" where
  "answer_of s i =
     (case i of
        Complete p \<Rightarrow> (case fst (commit p s) of None \<Rightarrow> [] | Some v \<Rightarrow> [(pr_token p, v)])
      | _ \<Rightarrow> [])"

definition answers :: "session \<Rightarrow> input list \<Rightarrow> (u64 \<times> json) list" where
  "answers = trace_out session_step answer_of"

text \<open>The tokens of admitted, unanswered requests.\<close>

definition live_tokens :: "session \<Rightarrow> u64 list" where
  "live_tokens s = map (\<lambda>(_, a). ad_token a) (s_pending s)"

definition session_ok :: "session \<Rightarrow> bool" where
  "session_ok s \<longleftrightarrow> distinct (map fst (s_pending s)) \<and> distinct (live_tokens s)
     \<and> (\<forall>t \<in> set (live_tokens s). t \<le> s_next_token s)"

lemma set_key_fresh: "\<not> has_key m k \<Longrightarrow> set_key k v m = m @ [(k, v)]"
  by (induction m) (auto simp: has_key_def)

lemma distinct_live_drop:
  "distinct (map (\<lambda>(_, a). ad_token a) m) \<Longrightarrow> distinct (map (\<lambda>(_, a). ad_token a) (drop_key k m))"
  unfolding drop_key_def by (rule distinct_map_filter)

lemma session_ok_drop: "session_ok s \<Longrightarrow> session_ok (s\<lparr>s_pending := drop_key k (s_pending s)\<rparr>)"
  by (auto simp: session_ok_def live_tokens_def distinct_drop_key distinct_live_drop set_drop_key)

lemma session_ok_cancel: "session_ok s \<Longrightarrow> session_ok (cancel v s)"
  by (auto simp: cancel_def session_ok_drop split: option.split)

lemma session_ok_notification: "session_ok s \<Longrightarrow> session_ok (notification mth params s)"
  using session_ok_cancel
  by (auto simp: notification_def session_ok_def live_tokens_def split: option.split)

lemma session_ok_commit: "session_ok s \<Longrightarrow> session_ok (snd (commit p s))"
  by (auto simp: commit_def session_ok_drop split: option.split)

text \<open>What an admission does, in one statement; every other outcome of \<open>accept\<close> is apart.\<close>

lemma accept_cases:
  obtains (notified) "rq_key q = None" "accept url_ok known q s
              = (Ignore, notification (rq_method q) (rq_params q) s)"
    | (refused) err key where "rq_key q = Some key" "accept url_ok known q s = (EventError err, s)"
    | (admitted) key entry target where "rq_key q = Some key" "\<not> has_key (s_pending s) key"
        "s_next_token s \<noteq> -1" "ad_token entry = s_next_token s + 1"
        "validate url_ok known (s_mode s) (rq_method q) (rq_params q) (the (rq_id q))
           = Inr (target, ad_action entry)"
        "accept url_ok known q s = (Admitted entry,
           s\<lparr>s_next_token := ad_token entry, s_mode := target,
             s_pending := s_pending s @ [(key, entry)]\<rparr>)"
proof (cases "rq_key q")
  case None
  then show ?thesis using that(1) by (simp add: accept_def)
next
  case (Some key)
  show ?thesis
  proof (cases "has_key (s_pending s) key \<or> s_next_token s = -1
      \<or> \<not> is_ok (validate url_ok known (s_mode s) (rq_method q) (rq_params q) (the (rq_id q)))")
    case True
    then have "\<exists>err. accept url_ok known q s = (EventError err, s)"
      using Some by (auto simp: accept_def Let_def is_ok_def split: sum.splits)
    then show ?thesis using that(2) Some by blast
  next
    case False
    then obtain target act where v: "validate url_ok known (s_mode s) (rq_method q) (rq_params q)
        (the (rq_id q)) = Inr (target, act)" by (auto simp: is_ok_iff)
    let ?entry = "\<lparr>ad_token = s_next_token s + 1, ad_id = the (rq_id q), ad_action = act\<rparr>"
    show ?thesis
      by (rule that(3) [of key ?entry target]) (use False Some v in \<open>simp_all add: accept_def set_key_fresh Let_def\<close>)
  qed
qed

lemma token_step: "s_next_token s \<noteq> -1 \<Longrightarrow> s_next_token s < s_next_token s + (1::u64)"
  using inc_less_eq_iff [of "s_next_token s" "s_next_token s + 1"] by auto

lemma session_ok_accept: "session_ok s \<Longrightarrow> session_ok (snd (accept url_ok known q s))"
proof (cases rule: accept_cases [of q url_ok known s])
  case (admitted key entry target)
  assume ok: "session_ok s"
  then have "\<forall>t \<in> set (live_tokens s). t < ad_token entry"
    using token_step [OF admitted(3)] admitted(4) by (auto simp: session_ok_def)
  with ok admitted show ?thesis
    by (fastforce simp: session_ok_def live_tokens_def has_key_def intro: less_imp_le)
qed (auto intro: session_ok_notification)

lemma session_ok_step: "session_ok s \<Longrightarrow> session_ok (session_step s i)"
  by (cases i) (auto simp: session_step_def session_ok_accept session_ok_commit session_ok_cancel,
      simp add: eof_def session_ok_def live_tokens_def)

lemma find_live:
  "find (\<lambda>(_, a). ad_token a = t) m = None \<longleftrightarrow> t \<notin> set (map (\<lambda>(_, a). ad_token a) m)"
  by (auto simp: find_None_iff)

text \<open>A commit under a live token answers it and removes exactly that entry.\<close>

lemma commit_live:
  assumes ok: "session_ok s" and t: "pr_token p \<in> set (live_tokens s)"
  obtains key entry where "(key, entry) \<in> set (s_pending s)" "ad_token entry = pr_token p"
    "commit p s = (Some (pr_response p), s\<lparr>s_pending := drop_key key (s_pending s)\<rparr>)"
    "\<And>k a. (k, a) \<in> set (drop_key key (s_pending s))
        \<longleftrightarrow> (k, a) \<in> set (s_pending s) \<and> ad_token a \<noteq> pr_token p"
proof -
  obtain ke where f: "find (\<lambda>(_, a). ad_token a = pr_token p) (s_pending s) = Some ke"
    using t find_live [of "pr_token p" "s_pending s"] by (auto simp: live_tokens_def)
  obtain key entry where ke: "ke = (key, entry)" by (cases ke)
  from f obtain n where "n < length (s_pending s)" "s_pending s ! n = ke"
    "case ke of (_, a) \<Rightarrow> ad_token a = pr_token p"
    by (auto simp: find_Some_iff)
  with ke have e: "(key, entry) \<in> set (s_pending s)" "ad_token entry = pr_token p"
    using nth_mem [of n "s_pending s"] by auto
  have same: "a = entry" if "(key, a) \<in> set (s_pending s)" for a
    using ok eq_key_imp_eq_value [OF _ that e(1)] by (simp add: session_ok_def)
  have inj: "inj_on (\<lambda>(_, a). ad_token a) (set (s_pending s))"
    using ok by (simp add: session_ok_def live_tokens_def distinct_map)
  have "k = key" if "(k, a) \<in> set (s_pending s)" "ad_token a = pr_token p" for k a
    using inj_onD [OF inj _ that(1) e(1)] that(2) e(2) by simp
  with same e(2) have "(k, a) \<in> set (drop_key key (s_pending s))
      \<longleftrightarrow> (k, a) \<in> set (s_pending s) \<and> ad_token a \<noteq> pr_token p" for k a
    unfolding set_drop_key mem_Collect_eq fst_conv by metis
  moreover have "commit p s = (Some (pr_response p), s\<lparr>s_pending := drop_key key (s_pending s)\<rparr>)"
    using f ke by (simp add: commit_def)
  ultimately show ?thesis using that [OF e] by blast
qed

lemma commit_dead: "pr_token p \<notin> set (live_tokens s) \<Longrightarrow> commit p s = (None, s)"
  using find_live [of "pr_token p" "s_pending s"] by (simp add: commit_def live_tokens_def)

lemma commit_answers:
  "session_ok s \<Longrightarrow> fst (commit p s)
      = (if pr_token p \<in> set (live_tokens s) then Some (pr_response p) else None)"
  using commit_live [of s p] commit_dead [of p s] by (auto elim: commit_live)

lemma commit_tokens:
  assumes "session_ok s"
  shows "set (live_tokens (snd (commit p s))) = set (live_tokens s) - {pr_token p}"
proof (cases "pr_token p \<in> set (live_tokens s)")
  case True
  then obtain key where "commit p s = (Some (pr_response p), s\<lparr>s_pending := drop_key key (s_pending s)\<rparr>)"
    "\<And>k a. (k, a) \<in> set (drop_key key (s_pending s))
        \<longleftrightarrow> (k, a) \<in> set (s_pending s) \<and> ad_token a \<noteq> pr_token p"
    using commit_live [OF assms] by metis
  then show ?thesis by (force simp: live_tokens_def)
next
  case False
  then show ?thesis by (simp add: commit_dead)
qed

lemma notification_fields:
  "set (live_tokens (notification mth params s)) \<subseteq> set (live_tokens s)"
  "s_next_token (notification mth params s) = s_next_token s"
  by (auto simp: notification_def cancel_def live_tokens_def set_drop_key split: option.split)

lemma step_fields:
  assumes "session_ok s"
  shows "t \<in> set (live_tokens (session_step s i)) \<Longrightarrow> t \<in> set (live_tokens s) \<or> s_next_token s < t"
    and "s_next_token s \<le> s_next_token (session_step s i)"
proof -
  have "(t \<in> set (live_tokens (session_step s i)) \<longrightarrow> t \<in> set (live_tokens s) \<or> s_next_token s < t)
      \<and> s_next_token s \<le> s_next_token (session_step s i)"
  proof (cases i)
    case (Accept url_ok known q)
    show ?thesis
    proof (cases rule: accept_cases [of q url_ok known s])
      case (admitted key entry target)
      with token_step [OF admitted(3)] show ?thesis
        by (auto simp: Accept session_step_def live_tokens_def)
    qed (use notification_fields in \<open>auto simp: Accept session_step_def\<close>)
  next
    case (Complete p)
    then show ?thesis using commit_tokens [OF assms, of p]
      by (auto simp: session_step_def commit_def split: option.split)
  qed (auto simp: session_step_def cancel_def eof_def live_tokens_def set_drop_key split: option.split)
  then show "t \<in> set (live_tokens (session_step s i)) \<Longrightarrow> t \<in> set (live_tokens s) \<or> s_next_token s < t"
    and "s_next_token s \<le> s_next_token (session_step s i)" by auto
qed

interpretation office: ticket_office session_step session_ok "\<lambda>s. set (live_tokens s)" s_next_token
  "\<lambda>s i. map fst (answer_of s i)"
proof unfold_locales
  fix s e assume ok: "session_ok s"
  show "session_ok (session_step s e)" using ok by (rule session_ok_step)
  show "s_next_token s \<le> s_next_token (session_step s e)" using ok by (rule step_fields)
  show "distinct (map fst (answer_of s e))"
    by (auto simp: answer_of_def split: input.split option.split)
  fix t
  show "t \<in> set (live_tokens (session_step s e)) \<Longrightarrow> t \<in> set (live_tokens s) \<or> s_next_token s < t"
    using ok by (rule step_fields)
  assume "t \<in> set (map fst (answer_of s e))"
  then obtain p where p: "e = Complete p" "t = pr_token p" "t \<in> set (live_tokens s)"
    using commit_answers [OF ok]
    by (auto simp: answer_of_def split: input.splits option.splits if_splits)
  then show "t \<in> set (live_tokens s) \<or> s_next_token s < t" by simp
  show "t \<le> s_next_token (session_step s e)"
    using p(3) ok step_fields(2) [OF ok, of e] by (auto simp: session_ok_def intro: order_trans)
  show "t \<notin> set (live_tokens (session_step s e))"
    using commit_tokens [OF ok] p(1,2) by (simp add: session_step_def)
qed

lemma session_ok_new: "session_ok new_session"
  by (simp add: session_ok_def new_session_def live_tokens_def)

subsection \<open>Modes\<close>

definition mode_moves :: "(mode \<times> mode) set" where
  "mode_moves = {(Unselected, Modern), (Unselected, LegacyAwaitInitialized),
                 (LegacyAwaitInitialized, LegacyReady)}"

lemma validate_mode:
  "validate url_ok known m mth params i = Inr (target, act)
     \<Longrightarrow> m \<noteq> LegacyAwaitInitialized \<and> (m = target \<or> (m, target) \<in> mode_moves)
       \<and> (act = Initialize \<longrightarrow> m = Unselected \<and> target = LegacyAwaitInitialized)"
proof -
  have call: "call_action known b obj i \<noteq> Inr Initialize" for b obj
    by (auto simp: call_action_def)
  then have "method_action known b mth params i \<noteq> Inr Initialize" for b
    by (auto simp: method_action_def Let_def)
  then show "validate url_ok known m mth params i = Inr (target, act) \<Longrightarrow> ?thesis"
    by (cases m) (auto simp: validate_def mode_moves_def Let_def split: if_splits)
qed

lemma mode_step: "s_mode s = s_mode (session_step s i) \<or> (s_mode s, s_mode (session_step s i)) \<in> mode_moves"
proof (cases i)
  case (Accept url_ok known q)
  show ?thesis
  proof (cases rule: accept_cases [of q url_ok known s])
    case (admitted key entry target)
    with validate_mode [OF admitted(5)] show ?thesis by (auto simp: Accept session_step_def)
  qed (auto simp: Accept session_step_def notification_def cancel_def mode_moves_def split: option.split)
qed (auto simp: session_step_def cancel_def eof_def commit_def split: option.split)


subsection \<open>Properties\<close>

text \<open>C2: in any run of a connection (requests, notifications, completions in any order, also of
  results prepared long before, and cancellations) no admission is answered twice.\<close>

theorem session_answers_once:
  "distinct (map fst (answers new_session is))"
  using office.at_most_once [OF session_ok_new, of "is"] by (simp add: answers_def trace_out_map)

text \<open>a completion is matched by its admission token and never by the request identifier: under a
  live token it answers and removes that one entry; a stale one, even when a newer request reuses
  the identifier, answers nothing and changes nothing.\<close>

theorem commit_by_token:
  assumes "session_ok s"
  shows "fst (commit p s) = (if pr_token p \<in> set (live_tokens s) then Some (pr_response p) else None)
       \<and> s_mode (snd (commit p s)) = s_mode s \<and> s_next_token (snd (commit p s)) = s_next_token s
       \<and> (\<forall>k a. (k, a) \<in> set (s_pending (snd (commit p s)))
            \<longleftrightarrow> (k, a) \<in> set (s_pending s) \<and> ad_token a \<noteq> pr_token p)"
proof (cases "pr_token p \<in> set (live_tokens s)")
  case True
  then show ?thesis by (rule commit_live [OF assms]) (simp add: True)
next
  case False
  then show ?thesis by (force simp: commit_dead live_tokens_def)
qed

theorem commit_by_token_witness:
  "let s = \<lparr>s_mode = Modern, s_next_token = 2,
            s_pending = [(IdInteger 7, \<lparr>ad_token = 2, ad_id = JNum ''7'', ad_action = Discover\<rparr>)]\<rparr>;
       p = \<lparr>pr_token = 1, pr_response = JNull\<rparr>
   in fst (commit p s) = None \<and> s_pending (snd (commit p s)) = s_pending s"
  using commit_by_token [of "\<lparr>s_mode = Modern, s_next_token = 2,
            s_pending = [(IdInteger 7, \<lparr>ad_token = 2, ad_id = JNum ''7'', ad_action = Discover\<rparr>)]\<rparr>"
         "\<lparr>pr_token = 1, pr_response = JNull\<rparr>"]
  by (simp add: session_ok_def live_tokens_def commit_def)

text \<open>a cancelled request is never answered afterwards, whatever still completes or arrives.\<close>

theorem cancelled_never_answered:
  assumes ok: "session_ok s" and a: "(k, a) \<in> set (s_pending s)" "key_for v = Some k"
  shows "ad_token a \<notin> fst ` set (answers (cancel v s) is)"
proof -
  have ok': "session_ok (cancel v s)" using ok by (rule session_ok_cancel)
  have inj: "inj_on (\<lambda>(_, a). ad_token a) (set (s_pending s))"
    using ok by (simp add: session_ok_def live_tokens_def distinct_map)
  have gone: "ad_token a \<notin> set (live_tokens (cancel v s))"
    using inj_onD [OF inj _ _ a(1)] a(2) by (fastforce simp: cancel_def live_tokens_def set_drop_key)
  have "ad_token a \<le> s_next_token (cancel v s)"
    using ok a by (force simp: session_ok_def live_tokens_def cancel_def)
  from office.dead_stays [OF ok' gone this, of "is"] show ?thesis
    by (simp add: answers_def flip: trace_out_map)
qed

theorem cancelled_never_answered_witness:
  "let s = \<lparr>s_mode = Modern, s_next_token = 2,
            s_pending = [(IdString ''x'', \<lparr>ad_token = 2, ad_id = JStr ''x'', ad_action = ListTools\<rparr>)]\<rparr>
   in 2 \<notin> fst ` set (answers (cancel (JStr ''x'') s) [Complete \<lparr>pr_token = 2, pr_response = JNull\<rparr>])"
  using cancelled_never_answered [of "\<lparr>s_mode = Modern, s_next_token = 2,
            s_pending = [(IdString ''x'', \<lparr>ad_token = 2, ad_id = JStr ''x'', ad_action = ListTools\<rparr>)]\<rparr>"
         "IdString ''x''" "\<lparr>ad_token = 2, ad_id = JStr ''x'', ad_action = ListTools\<rparr>" "JStr ''x''"
         "[Complete \<lparr>pr_token = 2, pr_response = JNull\<rparr>]"]
  by (simp add: session_ok_def live_tokens_def key_for_def compact_string_token_len_def token_cost_def
      byte_def)

text \<open>validation comes first: a refused request leaves the whole session as it was, an admitted one
  carries a free identifier, a fresh token and an action the current mode allows, and the only
  changes of mode are unselected to modern, unselected to legacy initialisation, and from there to
  legacy ready.\<close>

theorem accept_contract:
  "(case accept url_ok known q s of
      (Ignore, s') \<Rightarrow> rq_key q = None \<and> s_next_token s' = s_next_token s
    | (EventError e, s') \<Rightarrow> s' = s
    | (Admitted a, s') \<Rightarrow>
        (\<exists>k. rq_key q = Some k \<and> \<not> has_key (s_pending s) k \<and> s_pending s' = s_pending s @ [(k, a)])
        \<and> s_next_token s < ad_token a \<and> s_next_token s' = ad_token a
        \<and> validate url_ok known (s_mode s) (rq_method q) (rq_params q) (the (rq_id q))
            = Inr (s_mode s', ad_action a)
        \<and> s_mode s \<noteq> LegacyAwaitInitialized)
   \<and> (s_mode (snd (accept url_ok known q s)) = s_mode s
      \<or> (s_mode s, s_mode (snd (accept url_ok known q s))) \<in> mode_moves)"
proof (cases rule: accept_cases [of q url_ok known s])
  case notified
  then show ?thesis using mode_step [of s "Accept url_ok known q"] notification_fields(2)
    by (auto simp: session_step_def)
next
  case (refused err key)
  then show ?thesis by simp
next
  case (admitted key entry target)
  then show ?thesis using token_step [OF admitted(3)] validate_mode [OF admitted(5)] by auto
qed

end
