(* ===== verification/Tools.thy ===== *)
theory Tools
  imports Session
begin

section \<open>The closed tool catalogue (\<open>mcp/tools.rs\<close>, \<open>mcp/catalog.rs\<close>, \<open>mcp/mod.rs\<close>)\<close>

text \<open>
  The four read-only tools: validation of their arguments, which does not look at the workspace,
  and the envelopes of their answers. What the file system says of the workspace root and what
  \<open>WorkspaceIdentity::verify\<close> returns are observations handed to \<open>check_workspace\<close>; the JSON
  serialiser and the text of the static catalogue are arguments.
\<close>

definition NAMES :: "string list" where
  "NAMES = [''trellis_workspace_describe'', ''trellis_find_symbols'', ''trellis_inspect'',
            ''trellis_read_source'']"

definition known :: "string \<Rightarrow> bool" where
  "known name \<longleftrightarrow> name \<in> set NAMES"

definition discover :: "string \<Rightarrow> json" where
  "discover version = JObj
     [(''resultType'', JStr ''complete''), (''ttlMs'', JNum ''0''), (''cacheScope'', JStr ''private''),
      (''supportedVersions'', JArr [JStr ''2026-07-28'', JStr ''2025-11-25'']),
      (''capabilities'', JObj [(''tools'', JObj [])]),
      (''_meta'', JObj [(''io.modelcontextprotocol/serverInfo'',
          JObj [(''name'', JStr ''trellis''), (''version'', JStr version)])])]"

definition initialize :: "string \<Rightarrow> json" where
  "initialize version = JObj
     [(''protocolVersion'', JStr ''2025-11-25''), (''capabilities'', JObj [(''tools'', JObj [])]),
      (''serverInfo'', JObj [(''name'', JStr ''trellis''), (''version'', JStr version)])]"

definition list_tools :: "json list \<Rightarrow> bool \<Rightarrow> json" where
  "list_tools entries modern =
     (if modern then JObj [(''resultType'', JStr ''complete''), (''ttlMs'', JNum ''0''),
                           (''cacheScope'', JStr ''private''), (''tools'', JArr entries)]
      else JObj [(''tools'', JArr entries)])"

subsection \<open>The opened workspace\<close>

record workspace_identity =
  wi_root :: string
  wi_root_key :: string
  wi_record_id :: string
  wi_device :: u64
  wi_inode :: u64

record opened_workspace =
  ow_identity :: workspace_identity
  ow_label :: string

datatype identity_error = RootChanged | StoreUnavailable

text \<open>What \<open>symlink_metadata\<close> reports of the root.\<close>

record root_stat =
  st_is_dir :: bool
  st_is_symlink :: bool
  st_dev :: u64
  st_ino :: u64

definition path_file_name :: "string \<Rightarrow> string option" where
  "path_file_name p =
     (case rev (filter (\<lambda>c. c \<noteq> [] \<and> c \<noteq> ''.'') (split_on (CHR ''/'') p)) of
        [] \<Rightarrow> None
      | c # _ \<Rightarrow> if c = ''..'' then None else Some c)"

definition new_workspace :: "workspace_identity \<Rightarrow> opened_workspace" where
  "new_workspace w =
     \<lparr>ow_identity = w,
      ow_label = (case path_file_name (wi_root w) of
                    Some s \<Rightarrow> if s = [] then ''workspace'' else s
                  | None \<Rightarrow> ''workspace'')\<rparr>"

definition check_workspace ::
  "root_stat option \<Rightarrow> bool \<Rightarrow> opened_workspace \<Rightarrow> identity_error + unit" where
  "check_workspace stat verified ws =
     (case stat of
        None \<Rightarrow> Inl RootChanged
      | Some m \<Rightarrow>
          if \<not> st_is_dir m \<or> st_is_symlink m
             \<or> (st_dev m, st_ino m) \<noteq> (wi_device (ow_identity ws), wi_inode (ow_identity ws))
          then Inl RootChanged
          else if verified then Inr () else Inl StoreUnavailable)"

subsection \<open>Validation of the arguments\<close>

definition closed_object :: "members \<Rightarrow> string list \<Rightarrow> string list \<Rightarrow> bool" where
  "closed_object obj allowed req \<longleftrightarrow>
     list_all (\<lambda>(k, _). k \<in> set allowed) obj \<and> list_all (\<lambda>k. has_key obj k) req"

definition string_at :: "members \<Rightarrow> string \<Rightarrow> string option" where
  "string_at obj k = Option.bind (map_of obj k) as_str"

definition uint_at :: "members \<Rightarrow> string \<Rightarrow> nat option" where
  "uint_at obj k = Option.bind (map_of obj k) uint_of"

definition hyphens :: "nat set" where
  "hyphens = {8, 13, 18, 23}"

definition valid_uuid :: "string \<Rightarrow> bool" where
  "valid_uuid s \<longleftrightarrow> length s = 36
     \<and> list_all (\<lambda>i. s ! i = CHR ''-'') [8, 13, 18, 23]
     \<and> list_all (\<lambda>(i, x). i \<in> hyphens \<or> lower_hex x) (zip [0..<length s] s)
     \<and> list_ex (\<lambda>(i, x). i \<notin> hyphens \<and> x \<noteq> CHR ''0'') (zip [0..<length s] s)"

definition hash :: "string \<Rightarrow> bool" where
  "hash s \<longleftrightarrow> hex_string 64 s"

definition basis :: "json \<Rightarrow> bool" where
  "basis v =
     (case as_object v of None \<Rightarrow> False
      | Some obj \<Rightarrow>
          closed_object obj [''indexGeneration'', ''indexRevision''] [''indexGeneration'', ''indexRevision'']
          \<and> (case string_at obj ''indexGeneration'' of None \<Rightarrow> False | Some s \<Rightarrow> valid_uuid s)
          \<and> uint_at obj ''indexRevision'' \<noteq> None)"

definition expected_basis :: "members \<Rightarrow> bool" where
  "expected_basis obj = (case map_of obj ''expectedBasis'' of None \<Rightarrow> True | Some v \<Rightarrow> basis v)"

definition limit :: "members \<Rightarrow> unit result" where
  "limit obj =
     (case map_of obj ''limit'' of
        None \<Rightarrow> Inr ()
      | Some v \<Rightarrow>
          (case uint_of v of
             None \<Rightarrow> Inl ''invalid_request''
           | Some n \<Rightarrow> if 1 \<le> n \<and> n \<le> 50 then Inr () else Inl ''range_too_large''))"

definition valid_path :: "string \<Rightarrow> bool" where
  "valid_path s \<longleftrightarrow> s \<noteq> [] \<and> length s \<le> 4096 \<and> \<not> starts_with ''/'' s
     \<and> list_all (\<lambda>c. c \<noteq> CHR 0x5C \<and> c \<noteq> CHR '':'' \<and> c \<noteq> CHR 0x00) s
     \<and> list_all (\<lambda>part. part \<noteq> [] \<and> part \<noteq> ''.'' \<and> part \<noteq> ''..'') (split_on (CHR ''/'') s)"

definition tool_fields :: "string \<Rightarrow> string list \<times> string list" where
  "tool_fields name =
     (if name = ''trellis_workspace_describe''
      then ([''schemaVersion'', ''workspace''], [''schemaVersion''])
      else if name = ''trellis_find_symbols''
      then ([''schemaVersion'', ''query'', ''limit'', ''expectedBasis'', ''workspace''],
            [''schemaVersion'', ''query''])
      else if name = ''trellis_inspect''
      then ([''schemaVersion'', ''symbolId'', ''view'', ''limit'', ''expectedBasis'', ''workspace''],
            [''schemaVersion'', ''symbolId'', ''view''])
      else ([''schemaVersion'', ''path'', ''startLine'', ''endLine'', ''expectedBasis'',
             ''expectedContentHash'', ''workspace''],
            [''schemaVersion'', ''path'', ''startLine'', ''endLine'']))"

definition validate_find :: "members \<Rightarrow> unit result" where
  "validate_find obj =
     bind_result (ok_or (string_at obj ''query'') ''invalid_request'') (\<lambda>q.
       if q = [] \<or> length q > 256 then Inl ''invalid_request'' else limit obj)"

definition validate_inspect :: "members \<Rightarrow> unit result" where
  "validate_inspect obj =
     bind_result (ok_or (string_at obj ''symbolId'') ''invalid_request'') (\<lambda>sid.
       if length sid > 8192 \<or> length sid \<noteq> 39 \<or> \<not> starts_with ''sid:v1:'' sid
          \<or> \<not> list_all lower_hex (drop 7 sid)
       then Inl ''invalid_request''
       else if string_at obj ''view'' = Some ''declaration'' \<and> \<not> has_key obj ''limit'' then Inr ()
       else if string_at obj ''view'' = Some ''outgoing_calls'' then limit obj
       else Inl ''invalid_request'')"

definition validate_read :: "members \<Rightarrow> unit result" where
  "validate_read obj =
     bind_result (ok_or (string_at obj ''path'') ''invalid_request'') (\<lambda>path.
       if \<not> valid_path path
          \<or> \<not> (case map_of obj ''expectedContentHash'' of None \<Rightarrow> True
                | Some v \<Rightarrow> (case as_str v of None \<Rightarrow> False | Some s \<Rightarrow> hash s))
       then Inl ''invalid_request''
       else bind_result (ok_or (uint_at obj ''startLine'') ''invalid_request'') (\<lambda>start.
         bind_result (ok_or (uint_at obj ''endLine'') ''invalid_request'') (\<lambda>last.
           if start = 0 \<or> last = 0 \<or> last < start then Inl ''invalid_request''
           else if last - start \<ge> 200 then Inl ''range_too_large''
           else Inr ())))"

definition bad_workspace :: "json \<Rightarrow> bool" where
  "bad_workspace v = (case as_str v of None \<Rightarrow> True | Some path \<Rightarrow> length path > 4096)"

definition validate_tool :: "string \<Rightarrow> json option \<Rightarrow> unit result" where
  "validate_tool name args =
     (if name \<notin> set NAMES then Inl ''invalid_request''
      else bind_result (ok_or (Option.bind args as_object) ''invalid_request'') (\<lambda>obj.
        let (allowed, req) = tool_fields name in
        if \<not> closed_object obj allowed req \<or> uint_at obj ''schemaVersion'' \<noteq> Some 1
           \<or> \<not> expected_basis obj
        then Inl ''invalid_request''
        else bind_result
          (if name = ''trellis_workspace_describe'' then Inr ()
           else if name = ''trellis_find_symbols'' then validate_find obj
           else if name = ''trellis_inspect'' then validate_inspect obj
           else validate_read obj) (\<lambda>_.
          if (case map_of obj ''workspace'' of None \<Rightarrow> False | Some v \<Rightarrow> bad_workspace v)
          then Inl ''invalid_request'' else Inr ())))"

subsection \<open>Envelopes\<close>

text \<open>Why a checkout could not be selected (\<open>daemon/registry.rs\<close>).\<close>

datatype selection_error =
    NotAbsolute | NotCheckout | DifferentRepository | IdentityChanged | Unavailable
  | CheckoutCapacity | RegistrationConflict

fun selection_code :: "selection_error \<Rightarrow> string" where
  "selection_code CheckoutCapacity = ''checkout_capacity''"
| "selection_code RegistrationConflict = ''registration_conflict''"
| "selection_code e = ''workspace_selection_failed''"

fun selection_reason :: "selection_error \<Rightarrow> string" where
  "selection_reason NotAbsolute = ''not_absolute''"
| "selection_reason NotCheckout = ''not_checkout''"
| "selection_reason DifferentRepository = ''different_repository''"
| "selection_reason IdentityChanged = ''identity_changed''"
| "selection_reason Unavailable = ''unavailable''"
| "selection_reason CheckoutCapacity = ''checkout_capacity''"
| "selection_reason RegistrationConflict = ''registration_conflict''"

definition selection_retryable :: "selection_error \<Rightarrow> bool" where
  "selection_retryable e \<longleftrightarrow> e = Unavailable \<or> e = CheckoutCapacity"

text \<open>\<open>value[k] = v\<close> on an object; the sources index objects only.\<close>

fun json_set :: "string \<Rightarrow> json \<Rightarrow> json \<Rightarrow> json" where
  "json_set k v (JObj m) = JObj (set_key k v m)"
| "json_set k v w = w"

definition details :: "string \<Rightarrow> string \<times> bool" where
  "details code =
     (case map_of
        [(''invalid_request'', (''Invalid tool arguments'', False)),
         (''range_too_large'', (''Requested range is too large'', False)),
         (''unsupported_encoding'', (''Unsupported source encoding'', False)),
         (''revision_conflict'', (''Revision conflict'', False)),
         (''index_not_ready'', (''Index is not ready'', True)),
         (''not_found'', (''Not found'', False)),
         (''too_many_requests'', (''Too many requests'', True)),
         (''deadline_exceeded'', (''Deadline exceeded'', True)),
         (''root_changed'', (''Workspace root changed'', False)),
         (''store_unavailable'', (''Store is unavailable'', False)),
         (''checkout_capacity'', (''Checkout capacity reached'', True)),
         (''daemon_unavailable'', (''Daemon is unavailable'', True)),
         (''outcome_unknown'', (''Outcome unknown; inspect request status'', False))] code of
        Some d \<Rightarrow> d | None \<Rightarrow> (''Store is unavailable'', False))"

definition failure :: "json \<Rightarrow> string \<Rightarrow> json" where
  "failure i code =
     (let (message, retryable) = details code in JObj
        [(''schemaVersion'', JNum ''1''), (''requestId'', i),
         (''error'', JObj [(''code'', JStr code), (''message'', JStr message),
            (''retryable'', JBool retryable), (''currentBasis'', JNull),
            (''currentContentHash'', JNull)])])"

definition describe :: "json \<Rightarrow> string \<Rightarrow> json" where
  "describe i label = JObj
     [(''schemaVersion'', JNum ''1''), (''requestId'', i), (''evidenceBasis'', JNull),
      (''data'', JObj
        [(''workspaceLabel'', JStr label), (''indexState'', JStr ''unavailable''),
         (''progress'', JNull), (''watcherDegraded'', JBool False), (''languages'', JArr []),
         (''toolVersion'', JNum ''1''), (''schemaVersion'', JNum ''1''),
         (''limits'', JObj
           [(''requestBytes'', JNum ''16384''), (''responseBytes'', JNum ''65536''),
            (''sourceBytes'', JNum ''16384''), (''sourceLines'', JNum ''200''),
            (''defaultLimit'', JNum ''20''), (''maxLimit'', JNum ''50''),
            (''calleeTextBytes'', JNum ''1024''), (''hintWorkMs'', JNum ''1000''),
            (''deadlineMs'', JNum ''5000''), (''concurrency'', JNum ''4'')])]),
      (''warnings'', JArr []), (''partial'', JBool True), (''truncated'', JBool False),
      (''truncationReason'', JNull)]"

text \<open>\<open>while !path.is_char_boundary(end) { end -= 1 }\<close>; index 0 is always a boundary.\<close>

fun boundary_at_most :: "string \<Rightarrow> nat \<Rightarrow> nat" where
  "boundary_at_most s 0 = 0"
| "boundary_at_most s (Suc n) = (if char_boundary s (Suc n) then Suc n else boundary_at_most s n)"

definition attempted :: "json \<Rightarrow> json" where
  "attempted v =
     (case v of
        JStr path \<Rightarrow>
          (let cut = boundary_at_most path (min (length path) 256) in JObj
             [(''kind'', JStr ''path''), (''value'', JStr (take cut path)),
              (''utf8Bytes'', JNum (nat_text (length path))),
              (''truncated'', JBool (cut < length path))])
      | _ \<Rightarrow> JObj
          [(''kind'', JStr ''invalid_type''),
           (''jsonType'', JStr (case v of JNull \<Rightarrow> ''null'' | JBool _ \<Rightarrow> ''boolean''
              | JNum _ \<Rightarrow> ''number'' | JArr _ \<Rightarrow> ''array'' | _ \<Rightarrow> ''object''))])"

definition selection_failure :: "json \<Rightarrow> selection_error \<Rightarrow> json \<Rightarrow> json" where
  "selection_failure i e v =
     (let envelope = failure i (selection_code e);
          err = (case json_get ''error'' envelope of None \<Rightarrow> JNull | Some x \<Rightarrow> x)
      in json_set ''error''
           (json_set ''attemptedWorkspace'' (attempted v)
             (json_set ''reason'' (JStr (selection_reason e))
               (json_set ''retryable'' (JBool (selection_retryable e))
                 (json_set ''message'' (JStr ''Workspace selection failed'') err))))
           envelope)"

definition attributed_root :: "json \<Rightarrow> string \<Rightarrow> bool \<Rightarrow> json" where
  "attributed_root envelope root catching_up =
     json_set ''catchingUp'' (JBool catching_up) (json_set ''workspace'' (JStr root) envelope)"

definition attributed :: "json \<Rightarrow> opened_workspace \<Rightarrow> bool \<Rightarrow> json" where
  "attributed envelope ws catching_up =
     attributed_root envelope (wi_root (ow_identity ws)) catching_up"

definition tool_result :: "(json \<Rightarrow> string) \<Rightarrow> json \<Rightarrow> bool \<Rightarrow> json" where
  "tool_result to_string envelope modern =
     JObj ([(''isError'', JBool (json_get ''error'' envelope \<noteq> None)),
            (''structuredContent'', envelope),
            (''content'', JArr [JObj [(''type'', JStr ''text''), (''text'', JStr (to_string envelope))]])]
           @ (if modern then [(''resultType'', JStr ''complete'')] else []))"

definition resolved_root_changed ::
  "(json \<Rightarrow> string) \<Rightarrow> json \<Rightarrow> string \<Rightarrow> bool \<Rightarrow> bool \<Rightarrow> json" where
  "resolved_root_changed to_string i root catching_up modern =
     tool_result to_string (attributed_root (failure i ''root_changed'') root catching_up) modern"

fun identity_code :: "identity_error \<Rightarrow> string" where
  "identity_code RootChanged = ''root_changed''"
| "identity_code StoreUnavailable = ''store_unavailable''"

record prepared_tool =
  pt_response :: json
  pt_valid_arguments :: bool
  pt_id :: json
  pt_modern :: bool
  pt_answered :: bool

text \<open>The rejected \<open>workspace\<close> of arguments that are valid without it.\<close>

definition invalid_workspace :: "string \<Rightarrow> json option \<Rightarrow> json option" where
  "invalid_workspace name args =
     Option.bind (Option.bind args as_object) (\<lambda>obj.
     Option.bind (map_of obj ''workspace'') (\<lambda>v.
       if \<not> bad_workspace v then None
       else if is_ok (validate_tool name (Some (JObj (drop_key ''workspace'' obj)))) then Some v
       else None))"

definition prepare_tool ::
  "(json \<Rightarrow> string) \<Rightarrow> string \<Rightarrow> json option \<Rightarrow> json \<Rightarrow> bool \<Rightarrow> identity_error + unit
     \<Rightarrow> opened_workspace \<Rightarrow> prepared_tool" where
  "prepare_tool to_string name args i modern checked ws =
     (let validation = validate_tool name args;
          envelope =
            (case validation of
               Inl code \<Rightarrow>
                 (case invalid_workspace name args of
                    None \<Rightarrow> failure i code
                  | Some v \<Rightarrow>
                      (let f = failure i code;
                           err = (case json_get ''error'' f of None \<Rightarrow> JNull | Some x \<Rightarrow> x)
                       in json_set ''error'' (json_set ''attemptedWorkspace'' (attempted v) err) f))
             | Inr _ \<Rightarrow>
                 attributed
                   (case checked of
                      Inl e \<Rightarrow> failure i (identity_code e)
                    | Inr _ \<Rightarrow> if name = ''trellis_workspace_describe'' then describe i (ow_label ws)
                              else failure i ''index_not_ready'')
                   ws False)
      in \<lparr>pt_response = tool_result to_string envelope modern, pt_valid_arguments = is_ok validation,
          pt_id = i, pt_modern = modern, pt_answered = is_ok validation\<rparr>)"

definition final_check ::
  "(json \<Rightarrow> string) \<Rightarrow> identity_error + unit \<Rightarrow> opened_workspace \<Rightarrow> prepared_tool \<Rightarrow> prepared_tool" where
  "final_check to_string checked ws p =
     (case checked of
        Inl e \<Rightarrow>
          if pt_valid_arguments p
          then p\<lparr>pt_response := tool_result to_string
                   (attributed (failure (pt_id p) (identity_code e)) ws False) (pt_modern p)\<rparr>
          else p
      | Inr _ \<Rightarrow> p)"

subsection \<open>Paths below the root\<close>

lemma valid_path_walk:
  assumes "valid_path s"
  shows "walk dir (split_on (CHR ''/'') s) = dir @ split_on (CHR ''/'') s"
  using assms by (intro walk_plain) (simp add: valid_path_def)

lemma read_valid:
  assumes "validate_tool ''trellis_read_source'' args = Inr ()"
  obtains obj path first last where "args = Some (JObj obj)" "string_at obj ''path'' = Some path"
    "valid_path path" "uint_at obj ''startLine'' = Some first" "uint_at obj ''endLine'' = Some last"
    "1 \<le> first" "first \<le> last" "last < first + 200"
proof -
  obtain v where v: "args = Some v" using assms by (cases args) (auto simp: validate_tool_def split: if_splits)
  obtain obj where obj: "args = Some (JObj obj)" and read: "validate_read obj = Inr ()"
    using assms v by (cases v) (auto simp: validate_tool_def tool_fields_def split: if_splits)
  then show ?thesis
    by (auto simp: validate_read_def not_less not_le intro!: that split: if_splits)
qed

lemma boundary_at_most_spec:
  "boundary_at_most s n \<le> n \<and> char_boundary s (boundary_at_most s n)
     \<and> (\<forall>i. boundary_at_most s n < i \<and> i \<le> n \<longrightarrow> \<not> char_boundary s i)"
proof (induction n)
  case 0
  show ?case by (auto simp: char_boundary_def)
next
  case (Suc n)
  show ?case
  proof (cases "char_boundary s (Suc n)")
    case False
    with Suc show ?thesis by (auto simp: le_Suc_eq)
  qed auto
qed

subsection \<open>Properties\<close>

text \<open>C3: arguments that pass validation for reading source name a file below the workspace root, by
  plain components only (no parent step, no empty or dot component, no drive or backslash), and a
  range of 1 to 200 lines.\<close>

theorem read_source_confined:
  assumes "validate_tool ''trellis_read_source'' args = Inr ()"
  shows "\<exists>obj path first last. args = Some (JObj obj) \<and> string_at obj ''path'' = Some path
     \<and> (\<forall>dir. walk dir (split_on (CHR ''/'') path) = dir @ split_on (CHR ''/'') path)
     \<and> CHR '':'' \<notin> set path \<and> CHR 0x5C \<notin> set path \<and> CHR 0x00 \<notin> set path \<and> length path \<le> 4096
     \<and> uint_at obj ''startLine'' = Some first \<and> uint_at obj ''endLine'' = Some last
     \<and> 1 \<le> first \<and> first \<le> last \<and> last < first + 200"
proof -
  from assms obtain obj path first last where *: "args = Some (JObj obj)"
    "string_at obj ''path'' = Some path" "valid_path path"
    "uint_at obj ''startLine'' = Some first" "uint_at obj ''endLine'' = Some last"
    "1 \<le> first" "first \<le> last" "last < first + 200"
    by (rule read_valid)
  have "CHR '':'' \<notin> set path \<and> CHR 0x5C \<notin> set path \<and> CHR 0x00 \<notin> set path \<and> length path \<le> 4096"
    using *(3) by (auto simp: valid_path_def list_all_iff)
  with * show ?thesis using valid_path_walk by blast
qed

definition sample_read :: json where
  "sample_read = JObj [(''schemaVersion'', JNum ''1''), (''path'', JStr ''a/b''),
     (''startLine'', JNum ''1''), (''endLine'', JNum ''2e2'')]"

theorem read_source_confined_witness:
  "\<exists>obj path first last. Some sample_read = Some (JObj obj) \<and> string_at obj ''path'' = Some path
     \<and> (\<forall>dir. walk dir (split_on (CHR ''/'') path) = dir @ split_on (CHR ''/'') path)
     \<and> CHR '':'' \<notin> set path \<and> CHR 0x5C \<notin> set path \<and> CHR 0x00 \<notin> set path \<and> length path \<le> 4096
     \<and> uint_at obj ''startLine'' = Some first \<and> uint_at obj ''endLine'' = Some last
     \<and> 1 \<le> first \<and> first \<le> last \<and> last < first + 200"
  by (rule read_source_confined) code_simp

text \<open>the attempted workspace of a selection failure is echoed as a prefix of at most 256 bytes
  that ends on a character boundary, the longest such, with the true length and the mark of
  truncation.\<close>

theorem attempted_prefix:
  "\<exists>cut. attempted (JStr path) = JObj [(''kind'', JStr ''path''), (''value'', JStr (take cut path)),
        (''utf8Bytes'', JNum (nat_text (length path))), (''truncated'', JBool (cut < length path))]
     \<and> cut \<le> min (length path) 256 \<and> char_boundary path cut
     \<and> \<not> (\<exists>i. cut < i \<and> i \<le> min (length path) 256 \<and> char_boundary path i)"
  using boundary_at_most_spec [of path "min (length path) 256"]
  by (intro exI [of _ "boundary_at_most path (min (length path) 256)"]) (auto simp: attempted_def Let_def)

end
