(* ===== verification/Transport.thy ===== *)
theory Transport
  imports Tools "HOL-Library.Sublist"
begin

section \<open>The transport coordinator (\<open>mcp/mod.rs\<close>)\<close>

text \<open>
  The loop of \<open>run_transport\<close>, one turn at a time. What the outside decides is the turn's
  environment: the frames waiting in the channel at each of its three reads, what the registry and
  the file system answer, and whether the write succeeds. The reader thread hands over the frames
  of \<open>Wire\<close>; the fixture hook \<open>phase_hook\<close> is off, as it is without its environment variable.
\<close>

datatype outcome = OutError protocol_error | OutRequest admission

record transport =
  tr_session :: session
  tr_outcomes :: "outcome list"
  tr_done :: bool

definition new_transport :: transport where
  "new_transport = \<lparr>tr_session = new_session, tr_outcomes = [], tr_done = False\<rparr>"

text \<open>Parameters: the JSON parser and serialiser, the URL parser, the catalogue and the version.\<close>

record outside =
  os_from_slice :: "string \<Rightarrow> json option"
  os_to_vec :: "json \<Rightarrow> string result"
  os_to_string :: "json \<Rightarrow> string"
  os_url_ok :: "string \<Rightarrow> bool"
  os_entries :: "json list"
  os_version :: string

definition push_outcome :: "outcome \<Rightarrow> transport \<Rightarrow> transport" where
  "push_outcome out st = st\<lparr>tr_outcomes := tr_outcomes st @ [out]\<rparr>"

definition close :: "transport \<Rightarrow> transport" where
  "close st = st\<lparr>tr_session := eof (tr_session st), tr_done := True\<rparr>"

definition receive :: "outside \<Rightarrow> frame \<Rightarrow> transport \<Rightarrow> transport" where
  "receive out f st =
     (if f = Eof then close st
      else (case decode (os_from_slice out) f of
              Inl e \<Rightarrow> push_outcome (OutError e) st
            | Inr None \<Rightarrow> close st
            | Inr (Some q) \<Rightarrow>
                (let (ev, s') = accept (os_url_ok out) known q (tr_session st);
                     st' = st\<lparr>tr_session := s'\<rparr>
                 in case ev of
                      EventError e \<Rightarrow> push_outcome (OutError e) st'
                    | Admitted a \<Rightarrow> push_outcome (OutRequest a) st'
                    | Ignore \<Rightarrow> st')))"

text \<open>A non-blocking pass over the channel: the frames waiting, then whether it is disconnected.\<close>

fun drain :: "outside \<Rightarrow> frame list \<Rightarrow> bool \<Rightarrow> transport \<Rightarrow> transport" where
  "drain out [] disconnected st = (if disconnected then close st else st)"
| "drain out (f # fs) disconnected st =
     (let st' = receive out f st in if tr_done st' then st' else drain out fs disconnected st')"

text \<open>What the registry, the file system and the writer answer during one turn.\<close>

record turn_env =
  te_first :: "frame option"
  te_waiting :: "frame list"
  te_disconnected :: bool
  te_registry :: bool
  te_select :: "string \<Rightarrow> selection_error + workspace_identity"
  te_check :: "identity_error + unit"
  te_runtime_catching_up :: "string \<Rightarrow> bool option"
  te_clone_ok :: bool
  te_prepare_check :: "identity_error + unit"
  te_capacity :: "string \<Rightarrow> selection_error + workspace_identity"
  te_late :: "frame list"
  te_late_disconnected :: bool
  te_changed :: bool
  te_write_ok :: bool

definition catching_up :: "turn_env \<Rightarrow> string \<Rightarrow> bool" where
  "catching_up env key =
     (if te_registry env then (case te_runtime_catching_up env key of None \<Rightarrow> True | Some b \<Rightarrow> b)
      else True)"

text \<open>What is looked at again just before the commit.\<close>

datatype final_guard =
    NoGuard
  | ToolGuard prepared_tool string bool
  | CapacityGuard string bool

definition selection_path :: "json option \<Rightarrow> json option" where
  "selection_path arguments = Option.bind (Option.bind arguments as_object) (\<lambda>obj. map_of obj ''workspace'')"

definition select_checkout ::
  "turn_env \<Rightarrow> json option \<Rightarrow> selection_error + workspace_identity option" where
  "select_checkout env selection =
     (let unselected = (case te_check env of Inl _ \<Rightarrow> Inl IdentityChanged | Inr _ \<Rightarrow> Inr None)
      in if te_registry env
         then (case Option.bind selection as_str of
                 Some path \<Rightarrow> (case te_select env path of Inl e \<Rightarrow> Inl e | Inr w \<Rightarrow> Inr (Some w))
               | None \<Rightarrow> unselected)
         else unselected)"

definition answer_selected ::
  "outside \<Rightarrow> turn_env \<Rightarrow> opened_workspace \<Rightarrow> bool \<Rightarrow> json \<Rightarrow> string \<Rightarrow> json option
     \<Rightarrow> workspace_identity option \<Rightarrow> json \<times> final_guard" where
  "answer_selected out env ws modern i name arguments selected =
     (let w = (case selected of None \<Rightarrow> ow_identity ws | Some w \<Rightarrow> w);
          behind = catching_up env (wi_root_key w)
      in if selected \<noteq> None \<and> \<not> te_clone_ok env
         then (resolved_root_changed (os_to_string out) i (wi_root w) behind modern, NoGuard)
         else
           let answering = (case selected of None \<Rightarrow> ws | Some w \<Rightarrow> new_workspace w);
               tool = prepare_tool (os_to_string out) name arguments i modern (te_prepare_check env) answering;
               envelope = (case json_get ''structuredContent'' (pt_response tool) of
                             None \<Rightarrow> JNull | Some v \<Rightarrow> v);
               response = tool_result (os_to_string out)
                            (json_set ''catchingUp'' (JBool behind) envelope) modern
           in (response, ToolGuard (tool\<lparr>pt_response := response\<rparr>) (wi_root w) behind))"

definition call_result ::
  "outside \<Rightarrow> turn_env \<Rightarrow> opened_workspace \<Rightarrow> bool \<Rightarrow> json \<Rightarrow> string \<Rightarrow> json option
     \<Rightarrow> json \<times> final_guard" where
  "call_result out env ws modern i name arguments =
     (let selection = selection_path arguments in
      if \<not> is_ok (validate_tool name arguments) then
        let tool = prepare_tool (os_to_string out) name arguments i modern (te_prepare_check env) ws
        in (pt_response tool, ToolGuard tool (wi_root (ow_identity ws)) False)
      else
        case select_checkout env selection of
          Inr selected \<Rightarrow> answer_selected out env ws modern i name arguments selected
        | Inl CheckoutCapacity \<Rightarrow>
            (case Option.bind selection as_str of
               None \<Rightarrow> (JNull, NoGuard)
             | Some path \<Rightarrow>
                 (case te_capacity env path of
                    Inr w \<Rightarrow>
                      (let behind = catching_up env (wi_root_key w)
                       in (tool_result (os_to_string out)
                             (attributed_root (failure i ''checkout_capacity'') (wi_root w) behind) modern,
                           CapacityGuard (wi_root w) behind))
                  | Inl e \<Rightarrow> (tool_result (os_to_string out) (selection_failure i e (JStr path)) modern,
                             NoGuard)))
        | Inl e \<Rightarrow>
            (tool_result (os_to_string out)
               (selection_failure i e
                 (case selection of None \<Rightarrow> JStr (wi_root (ow_identity ws)) | Some v \<Rightarrow> v)) modern,
             NoGuard))"

definition respond ::
  "outside \<Rightarrow> turn_env \<Rightarrow> opened_workspace \<Rightarrow> bool \<Rightarrow> admission \<Rightarrow> json \<times> final_guard" where
  "respond out env ws modern a =
     (let wrap = (\<lambda>r. JObj [(''jsonrpc'', JStr ''2.0''), (''id'', ad_id a), (''result'', r)])
      in case ad_action a of
           Discover \<Rightarrow> (wrap (discover (os_version out)), NoGuard)
         | Initialize \<Rightarrow> (wrap (initialize (os_version out)), NoGuard)
         | ListTools \<Rightarrow> (wrap (list_tools (os_entries out) modern), NoGuard)
         | Call name arguments \<Rightarrow>
             (let (r, g) = call_result out env ws modern (ad_id a) name arguments in (wrap r, g))
         | Unknown \<Rightarrow> (error_response (protocol_error (-32601) (ad_id a)), NoGuard))"

definition finalize ::
  "outside \<Rightarrow> turn_env \<Rightarrow> bool \<Rightarrow> json \<Rightarrow> final_guard \<Rightarrow> json \<Rightarrow> json" where
  "finalize out env modern i guard response =
     (case guard of
        NoGuard \<Rightarrow> response
      | ToolGuard tool root behind \<Rightarrow>
          json_set ''result''
            (if pt_valid_arguments tool \<and> te_changed env
             then resolved_root_changed (os_to_string out) i root behind modern
             else pt_response tool) response
      | CapacityGuard root behind \<Rightarrow>
          if te_changed env
          then json_set ''result'' (resolved_root_changed (os_to_string out) i root behind modern) response
          else response)"

text \<open>Writing a response; a failed write ends the transport.\<close>

definition emit :: "outside \<Rightarrow> turn_env \<Rightarrow> json \<Rightarrow> transport \<Rightarrow> bool \<times> transport" where
  "emit out env v st =
     (if is_ok (write_response (os_to_vec out) v) \<and> te_write_ok env then (True, st)
      else (False, st\<lparr>tr_done := True\<rparr>))"

text \<open>The state after the turn and what it wrote, with the outcome it answers.\<close>

definition answer_outcome ::
  "outside \<Rightarrow> opened_workspace \<Rightarrow> turn_env \<Rightarrow> outcome \<Rightarrow> transport
     \<Rightarrow> (outcome \<times> json) list \<times> transport" where
  "answer_outcome out ws env o1 st =
     (case o1 of
        OutError e \<Rightarrow>
          (let (ok, st') = emit out env (error_response e) st
           in (if ok then [(o1, error_response e)] else [], st'))
      | OutRequest a \<Rightarrow>
          if pending_entry (ad_token a) (tr_session st) = None then ([], st)
          else
            let modern = (s_mode (tr_session st) = Modern);
                (response, guard) = respond out env ws modern a
            in case prepare (ad_token a) response (tr_session st) of
                 None \<Rightarrow> ([], st)
               | Some p \<Rightarrow>
                   let st' = drain out (te_late env) (te_late_disconnected env) st in
                   if tr_done st' then ([], st')
                   else
                     let p' = p\<lparr>pr_response := finalize out env modern (ad_id a) guard (pr_response p)\<rparr>;
                         (v, s') = commit p' (tr_session st');
                         st'' = st'\<lparr>tr_session := s'\<rparr>
                     in case v of
                          None \<Rightarrow> ([], st'')
                        | Some response' \<Rightarrow>
                            let (ok, st3) = emit out env response' st''
                            in (if ok then [(o1, response')] else [], st3))"

text \<open>With no outcome waiting the coordinator blocks for one input event.\<close>

definition first_input :: "outside \<Rightarrow> turn_env \<Rightarrow> transport \<Rightarrow> transport" where
  "first_input out env st =
     (if tr_outcomes st = [] then
        (case te_first env of None \<Rightarrow> close st | Some f \<Rightarrow> receive out f st)
      else st)"

definition turn ::
  "outside \<Rightarrow> opened_workspace \<Rightarrow> transport \<Rightarrow> turn_env \<Rightarrow> (outcome \<times> json) list \<times> transport" where
  "turn out ws st env =
     (if tr_done st then ([], st)
      else
        let st1 = first_input out env st
        in if tr_done st1 then ([], st1)
           else
             let st2 = drain out (te_waiting env) (te_disconnected env) st1 in
             if tr_done st2 then ([], st2)
             else case tr_outcomes st2 of
                    [] \<Rightarrow> ([], st2)
                  | o1 # rest \<Rightarrow> answer_outcome out ws env o1 (st2\<lparr>tr_outcomes := rest\<rparr>))"

subsection \<open>Every turn drives the session by its own steps\<close>

definition reaches :: "session \<Rightarrow> session \<Rightarrow> bool" where
  "reaches s s' \<longleftrightarrow> (\<exists>is. s' = foldl session_step s is)"

lemma reaches_refl [simp, intro]: "reaches s s"
  by (auto simp: reaches_def intro: exI [of _ "[]"])

lemma reaches_step: "reaches s (session_step s i)"
  by (auto simp: reaches_def intro: exI [of _ "[i]"])

lemma reaches_trans [trans]: "reaches s t \<Longrightarrow> reaches t u \<Longrightarrow> reaches s u"
  by (auto simp: reaches_def simp flip: foldl_append)

lemma reaches_eof: "reaches s (eof s)"
  using reaches_step [of s EndOfInput] by (simp add: session_step_def)

lemma reaches_accept: "reaches s (snd (accept url_ok k q s))"
  using reaches_step [of s "Accept url_ok k q"] by (simp add: session_step_def)

lemma reaches_commit: "reaches s (snd (commit p s))"
  using reaches_step [of s "Complete p"] by (simp add: session_step_def)

lemma reaches_facts:
  assumes "reaches s s'" "session_ok s"
  shows "session_ok s'" "s_next_token s \<le> s_next_token s'"
    and "t \<in> set (live_tokens s') \<Longrightarrow> t \<in> set (live_tokens s) \<or> s_next_token s < t"
proof -
  from assms(1) obtain "is" where s': "s' = foldl session_step s is" by (auto simp: reaches_def)
  show "session_ok s'" "s_next_token s \<le> s_next_token s'"
    unfolding s' using assms(2) by (rule office.run_keeps, rule office.run_counter)
  show "t \<in> set (live_tokens s') \<Longrightarrow> t \<in> set (live_tokens s) \<or> s_next_token s < t"
    unfolding s' using assms(2) by (rule office.run_live)
qed

lemma receive_session:
  "tr_session (receive out f st) =
     (if f = Eof then eof (tr_session st)
      else case decode (os_from_slice out) f of
             Inl e \<Rightarrow> tr_session st
           | Inr None \<Rightarrow> eof (tr_session st)
           | Inr (Some q) \<Rightarrow> snd (accept (os_url_ok out) known q (tr_session st)))"
  by (auto simp: receive_def close_def push_outcome_def Let_def
      split: sum.split option.split prod.split event.split)

lemma receive_reaches: "reaches (tr_session st) (tr_session (receive out f st))"
  by (simp add: receive_session reaches_eof reaches_accept split: sum.split option.split)

lemma drain_reaches: "reaches (tr_session st) (tr_session (drain out fs d st))"
proof (induction out fs d st rule: drain.induct)
  case (2 out f fs d st)
  then show ?case using receive_reaches [of st out f] reaches_trans by (auto simp: Let_def)
qed (auto simp: close_def reaches_eof)

lemma emit_session [simp]: "tr_session (snd (emit out env v st)) = tr_session st"
  by (simp add: emit_def)

lemma emit_queue [simp]: "tr_outcomes (snd (emit out env v st)) = tr_outcomes st"
  by (simp add: emit_def)

text \<open>What answering one outcome can do: nothing is written, the error itself, or one committed result.\<close>

lemma answer_outcome_cases:
  assumes "answer_outcome out ws env o1 st = (w, st')"
  obtains (silent) "w = []" "reaches (tr_session st) (tr_session st')"
    | (err) e where "o1 = OutError e" "w = [(o1, error_response e)]" "tr_session st' = tr_session st"
    | (answer) a mid p v where "o1 = OutRequest a" "reaches (tr_session st) mid"
        "pr_token p = ad_token a" "commit p mid = (Some v, tr_session st')" "w = [(o1, v)]"
proof (cases o1)
  case (OutError e)
  then show ?thesis using assms that(1,2) by (auto simp: answer_outcome_def Let_def emit_def split: if_splits)
next
  case (OutRequest a)
  let ?s = "tr_session st"
  let ?d = "drain out (te_late env) (te_late_disconnected env) st"
  show ?thesis
  proof (cases "pending_entry (ad_token a) ?s = None \<or> tr_done ?d")
    case True
    then have "w = []" "st' = st \<or> st' = ?d"
      using assms OutRequest by (auto simp: answer_outcome_def prepare_def Let_def split: prod.splits if_splits option.splits)
    then show ?thesis using that(1) drain_reaches by auto
  next
    case False
    obtain response guard where r: "respond out env ws (s_mode ?s = Modern) a = (response, guard)"
      by (cases "respond out env ws (s_mode ?s = Modern) a")
    let ?p = "\<lparr>pr_token = ad_token a,
        pr_response = finalize out env (s_mode ?s = Modern) (ad_id a) guard response\<rparr>"
    obtain v s' where c: "commit ?p (tr_session ?d) = (v, s')" by (cases "commit ?p (tr_session ?d)")
    have s': "reaches ?s s'"
      using drain_reaches reaches_commit [of "tr_session ?d" ?p] c reaches_trans by fastforce
    have eq: "(w, st') = (case v of None \<Rightarrow> ([], ?d\<lparr>tr_session := s'\<rparr>)
        | Some r \<Rightarrow> (let (ok, st3) = emit out env r (?d\<lparr>tr_session := s'\<rparr>)
                    in (if ok then [(o1, r)] else [], st3)))"
      using assms OutRequest False r c by (auto simp: answer_outcome_def prepare_def Let_def)
    show ?thesis
    proof (cases "v = None \<or> w = []")
      case True
      then have "w = []" "tr_session st' = s'" using eq
        by (auto simp: Let_def emit_def split: option.splits if_splits)
      then show ?thesis using that(1) s' by simp
    next
      case False
      then obtain r where "v = Some r" "w = [(o1, r)]" "tr_session st' = s'"
        using eq by (auto simp: Let_def emit_def split: option.splits if_splits)
      then show ?thesis
        using that(3) [OF OutRequest drain_reaches [of st out "te_late env" "te_late_disconnected env"],
            of ?p r] c by simp
    qed
  qed
qed


subsection \<open>The order of the answers\<close>

definition outcome_tokens :: "outcome list \<Rightarrow> u64 list" where
  "outcome_tokens os = concat (map (\<lambda>o1. case o1 of OutRequest a \<Rightarrow> [ad_token a] | OutError e \<Rightarrow> []) os)"

definition queue_tokens :: "transport \<Rightarrow> u64 list" where
  "queue_tokens st = outcome_tokens (tr_outcomes st)"

definition written_tokens :: "(outcome \<times> json) list \<Rightarrow> u64 list" where
  "written_tokens w = outcome_tokens (map fst w)"

lemma outcome_tokens_simps [simp]:
  "outcome_tokens [] = []"
  "outcome_tokens (OutError e # os) = outcome_tokens os"
  "outcome_tokens (OutRequest a # os) = ad_token a # outcome_tokens os"
  "outcome_tokens (os @ ps) = outcome_tokens os @ outcome_tokens ps"
  by (simp_all add: outcome_tokens_def)

text \<open>Waiting requests stand in the order of their tokens, none above the counter.\<close>

definition ordered :: "transport \<Rightarrow> bool" where
  "ordered st \<longleftrightarrow> session_ok (tr_session st) \<and> sorted_wrt (<) (queue_tokens st)
     \<and> (\<forall>t \<in> set (queue_tokens st). t \<le> s_next_token (tr_session st))"

text \<open>What receiving input does to an ordered transport.\<close>

definition grows :: "transport \<Rightarrow> transport \<Rightarrow> bool" where
  "grows st st' \<longleftrightarrow> ordered st' \<and> reaches (tr_session st) (tr_session st')
     \<and> (\<exists>new. queue_tokens st' = queue_tokens st @ new
              \<and> (\<forall>t \<in> set new. s_next_token (tr_session st) < t))"

lemma grows_refl: "ordered st \<Longrightarrow> grows st st"
  by (simp add: grows_def)

lemma grows_trans:
  assumes "ordered st" "grows st st'" "grows st' st''"
  shows "grows st st''"
proof -
  from assms(2) obtain n1 where 1: "queue_tokens st' = queue_tokens st @ n1"
    "\<forall>t \<in> set n1. s_next_token (tr_session st) < t" by (auto simp: grows_def)
  from assms(3) obtain n2 where 2: "queue_tokens st'' = queue_tokens st' @ n2"
    "\<forall>t \<in> set n2. s_next_token (tr_session st') < t" by (auto simp: grows_def)
  have "s_next_token (tr_session st) \<le> s_next_token (tr_session st')"
    using assms by (intro reaches_facts(2)) (auto simp: grows_def ordered_def)
  then have "\<forall>t \<in> set (n1 @ n2). s_next_token (tr_session st) < t" using 1(2) 2(2) by auto
  moreover have "reaches (tr_session st) (tr_session st'')"
    using assms(2,3) reaches_trans by (auto simp: grows_def)
  ultimately show ?thesis using assms(3) 1(1) 2(1) by (auto simp: grows_def)
qed

lemma close_grows: "ordered st \<Longrightarrow> grows st (close st)"
proof -
  assume st: "ordered st"
  have "reaches (tr_session st) (tr_session (close st))" by (simp add: close_def reaches_eof)
  moreover from this st have "session_ok (tr_session (close st))"
    using reaches_facts(1) by (auto simp: ordered_def)
  ultimately show ?thesis using st
    by (auto simp: grows_def ordered_def close_def eof_def queue_tokens_def)
qed

lemma push_error_grows: "ordered st \<Longrightarrow> grows st (push_outcome (OutError e) st)"
  by (simp add: grows_def ordered_def push_outcome_def queue_tokens_def)

lemma accept_grows:
  assumes st: "ordered st" and acc: "accept url_ok k q (tr_session st) = (ev, s')"
  defines "st' \<equiv> st\<lparr>tr_session := s'\<rparr>"
  shows "grows st (case ev of EventError e \<Rightarrow> push_outcome (OutError e) st'
                   | Admitted a \<Rightarrow> push_outcome (OutRequest a) st' | Ignore \<Rightarrow> st')"
proof -
  have r: "reaches (tr_session st) s'" using acc reaches_accept [of "tr_session st"] by (metis snd_conv)
  have ok: "session_ok s'" "s_next_token (tr_session st) \<le> s_next_token s'"
    using reaches_facts [OF r] st by (auto simp: ordered_def)
  show ?thesis
  proof (cases rule: accept_cases [of q url_ok k "tr_session st"])
    case (admitted key entry target)
    then have "s_next_token (tr_session st) < ad_token entry" "s_next_token s' = ad_token entry"
      "ev = Admitted entry"
      using token_step [OF admitted(3)] acc by auto
    with st ok r show ?thesis
      by (fastforce simp: grows_def ordered_def st'_def push_outcome_def queue_tokens_def sorted_wrt_append)
  qed (use acc st ok r in \<open>auto simp: grows_def ordered_def st'_def push_outcome_def queue_tokens_def\<close>)
qed

lemma receive_grows: "ordered st \<Longrightarrow> grows st (receive out f st)"
  using close_grows push_error_grows accept_grows
  by (auto simp: receive_def Let_def split: sum.split option.split prod.split)

lemma drain_grows: "ordered st \<Longrightarrow> grows st (drain out fs d st)"
proof (induction out fs d st rule: drain.induct)
  case (1 out d st)
  then show ?case by (simp add: close_grows grows_refl)
next
  case (2 out f fs d st)
  have g: "grows st (receive out f st)" using 2(2) by (rule receive_grows)
  then have "ordered (receive out f st)" by (simp add: grows_def)
  with 2 g show ?case by (auto simp: Let_def intro: grows_trans)
qed

lemma commit_counter [simp]: "s_next_token (snd (commit p s)) = s_next_token s"
  by (simp add: commit_def split: option.split)

lemma commit_grows: "ordered st \<Longrightarrow> grows st (st\<lparr>tr_session := snd (commit p (tr_session st))\<rparr>)"
  using reaches_commit session_ok_commit by (auto simp: grows_def ordered_def queue_tokens_def)

lemma emit_grows: "ordered st \<Longrightarrow> grows st (snd (emit out env v st))"
  by (simp add: grows_def ordered_def queue_tokens_def)

lemma answer_outcome_grows:
  assumes st: "ordered st"
  shows "grows st (snd (answer_outcome out ws env o1 st))"
proof -
  let ?d = "drain out (te_late env) (te_late_disconnected env) st"
  have d: "grows st ?d" using st by (rule drain_grows)
  then have od: "ordered ?d" by (simp add: grows_def)
  have c: "grows st (?d\<lparr>tr_session := snd (commit p (tr_session ?d))\<rparr>)" for p
    using grows_trans [OF st d commit_grows [OF od]] .
  then have oc: "ordered (?d\<lparr>tr_session := snd (commit p (tr_session ?d))\<rparr>)" for p
    by (simp add: grows_def)
  have e: "grows st (snd (emit out env v (?d\<lparr>tr_session := snd (commit p (tr_session ?d))\<rparr>)))" for p v
    using grows_trans [OF st c emit_grows [OF oc]] .
  show ?thesis
    using grows_refl [OF st] d c e emit_grows [OF st]
    by (auto simp: answer_outcome_def Let_def split: outcome.split option.split prod.split)
      (metis snd_conv)+
qed

text \<open>A turn receives input, then perhaps answers the outcome at the head of the queue.\<close>

lemma turn_cases:
  assumes "ordered st" "turn out ws st env = (w, st')"
  obtains (waiting) "w = []" "grows st st'"
    | (answering) mid o1 rest where "grows st mid" "tr_outcomes mid = o1 # rest"
        "answer_outcome out ws env o1 (mid\<lparr>tr_outcomes := rest\<rparr>) = (w, st')"
proof -
  define st1 where "st1 = first_input out env st"
  define st2 where "st2 = drain out (te_waiting env) (te_disconnected env) st1"
  have g1: "grows st st1"
    using assms(1)
    by (auto simp: st1_def first_input_def close_grows receive_grows grows_refl split: option.split)
  then have "ordered st1" by (simp add: grows_def)
  then have g2: "grows st st2" unfolding st2_def using grows_trans [OF assms(1) g1 drain_grows] by blast
  have t: "(w, st') = (if tr_done st then ([], st) else if tr_done st1 then ([], st1)
      else if tr_done st2 then ([], st2)
      else case tr_outcomes st2 of [] \<Rightarrow> ([], st2)
           | o1 # rest \<Rightarrow> answer_outcome out ws env o1 (st2\<lparr>tr_outcomes := rest\<rparr>))"
    using assms(2) [symmetric] by (simp only: turn_def Let_def st1_def st2_def)
  show ?thesis
  proof (cases "tr_done st \<or> tr_done st1 \<or> tr_done st2 \<or> tr_outcomes st2 = []")
    case True
    with t have "w = [] \<and> (st' = st \<or> st' = st1 \<or> st' = st2)" by (auto split: if_splits)
    then show ?thesis using that(1) g1 g2 grows_refl [OF assms(1)] by metis
  next
    case False
    then obtain o1 rest where q: "tr_outcomes st2 = o1 # rest" by (cases "tr_outcomes st2") auto
    show ?thesis by (rule that(2) [OF g2 q]) (use t q False in simp)
  qed
qed

text \<open>The answers of a turn and the queue it leaves stand in the order of the queue it found.\<close>

lemma turn_order:
  assumes st: "ordered st" and t: "turn out ws st env = (w, st')"
  shows "ordered st'"
    and "s_next_token (tr_session st) \<le> s_next_token (tr_session st')"
    and "sorted_wrt (<) (written_tokens w @ queue_tokens st')"
    and "\<forall>t \<in> set (written_tokens w @ queue_tokens st'). t \<le> s_next_token (tr_session st')"
    and "\<forall>t \<in> set (written_tokens w @ queue_tokens st').
           t \<in> set (queue_tokens st) \<or> s_next_token (tr_session st) < t"
proof -
  have "ordered st' \<and> s_next_token (tr_session st) \<le> s_next_token (tr_session st')
      \<and> sorted_wrt (<) (written_tokens w @ queue_tokens st')
      \<and> (\<forall>t \<in> set (written_tokens w @ queue_tokens st'). t \<le> s_next_token (tr_session st'))
      \<and> (\<forall>t \<in> set (written_tokens w @ queue_tokens st').
           t \<in> set (queue_tokens st) \<or> s_next_token (tr_session st) < t)"
    using st t
  proof (cases rule: turn_cases)
    case waiting
    then show ?thesis using reaches_facts(2) st
      by (auto simp: grows_def ordered_def written_tokens_def)
  next
    case (answering mid o1 rest)
    let ?mid = "mid\<lparr>tr_outcomes := rest\<rparr>"
    have om: "ordered mid" using answering(1) by (simp add: grows_def)
    have qm: "queue_tokens mid = outcome_tokens [o1] @ queue_tokens ?mid"
      using answering(2) by (cases o1) (simp_all add: queue_tokens_def)
    then have omr: "ordered ?mid" using om by (auto simp: ordered_def sorted_wrt_append)
    have g: "grows ?mid st'" using answer_outcome_grows [OF omr, of out ws env o1] answering(3) by simp
    have w: "written_tokens w = [] \<or> written_tokens w = outcome_tokens [o1]"
      using answering(3) by (cases rule: answer_outcome_cases) (auto simp: written_tokens_def)
    from g obtain new where new: "queue_tokens st' = queue_tokens ?mid @ new"
      "\<forall>t \<in> set new. s_next_token (tr_session mid) < t" by (auto simp: grows_def)
    have c1: "s_next_token (tr_session st) \<le> s_next_token (tr_session mid)"
      using answering(1) st by (intro reaches_facts(2)) (auto simp: grows_def ordered_def)
    have c2: "s_next_token (tr_session mid) \<le> s_next_token (tr_session st')"
      using g omr by (intro reaches_facts(2)) (auto simp: grows_def ordered_def)
    have o': "ordered st'" using g by (simp add: grows_def)
    have all: "sorted_wrt (<) (outcome_tokens [o1] @ queue_tokens st')"
    proof -
      have "sorted_wrt (<) (queue_tokens mid @ new)"
        using om o' new by (fastforce simp: ordered_def sorted_wrt_append)
      then show ?thesis by (simp only: qm new(1) append_assoc)
    qed
    have sub: "set (written_tokens w @ queue_tokens st') \<subseteq> set (queue_tokens mid @ new)"
      using w by (auto simp: qm new(1))
    have srt: "sorted_wrt (<) (written_tokens w @ queue_tokens st')"
      using w all by (auto simp: sorted_wrt_append)
    have old: "t \<in> set (queue_tokens st) \<or> s_next_token (tr_session st) < t"
      if "t \<in> set (queue_tokens mid @ new)" for t
    proof (cases "t \<in> set new")
      case True
      with new(2) c1 show ?thesis by auto
    next
      case False
      with that answering(1) show ?thesis by (auto simp: grows_def)
    qed
    have bound: "t \<le> s_next_token (tr_session st')" if "t \<in> set (written_tokens w @ queue_tokens st')" for t
    proof (cases "t \<in> set (queue_tokens st')")
      case True
      with o' show ?thesis by (simp add: ordered_def)
    next
      case False
      with that w have "t \<in> set (queue_tokens mid)" by (auto simp: qm)
      with om c2 show ?thesis by (auto simp: ordered_def)
    qed
    from o' order_trans [OF c1 c2] srt bound old sub show ?thesis by blast
  qed
  then show "ordered st'" and "s_next_token (tr_session st) \<le> s_next_token (tr_session st')"
    and "sorted_wrt (<) (written_tokens w @ queue_tokens st')"
    and "\<forall>t \<in> set (written_tokens w @ queue_tokens st'). t \<le> s_next_token (tr_session st')"
    and "\<forall>t \<in> set (written_tokens w @ queue_tokens st').
           t \<in> set (queue_tokens st) \<or> s_next_token (tr_session st) < t"
    by blast+
qed

subsection \<open>Runs\<close>

definition transport_step :: "outside \<Rightarrow> opened_workspace \<Rightarrow> transport \<Rightarrow> turn_env \<Rightarrow> transport" where
  "transport_step out ws st env = snd (turn out ws st env)"

definition transport_out ::
  "outside \<Rightarrow> opened_workspace \<Rightarrow> transport \<Rightarrow> turn_env list \<Rightarrow> (outcome \<times> json) list" where
  "transport_out out ws = trace_out (transport_step out ws) (\<lambda>st env. fst (turn out ws st env))"

lemma written_tokens_append [simp]: "written_tokens (v @ w) = written_tokens v @ written_tokens w"
  by (simp add: written_tokens_def)

lemma transport_out_Cons:
  "turn out ws st env = (w, st') \<Longrightarrow> transport_out out ws st (env # envs) = w @ transport_out out ws st' envs"
  by (simp add: transport_out_def transport_step_def)

lemma written_trace:
  "written_tokens (transport_out out ws st envs)
     = trace_out (transport_step out ws) (\<lambda>st env. written_tokens (fst (turn out ws st env))) st envs"
  by (induction envs arbitrary: st) (auto simp: transport_out_def written_tokens_def)

lemma turn_live:
  assumes st: "ordered st" and t: "turn out ws st env = (w, st')"
  shows "reaches (tr_session st) (tr_session st')"
    and "t \<in> set (written_tokens w) \<Longrightarrow>
           (t \<in> set (live_tokens (tr_session st)) \<or> s_next_token (tr_session st) < t)
           \<and> t \<notin> set (live_tokens (tr_session st'))"
    and "length (written_tokens w) \<le> 1"
proof -
  have "reaches (tr_session st) (tr_session st')
      \<and> (t \<in> set (written_tokens w) \<longrightarrow>
           (t \<in> set (live_tokens (tr_session st)) \<or> s_next_token (tr_session st) < t)
           \<and> t \<notin> set (live_tokens (tr_session st')))
      \<and> length (written_tokens w) \<le> 1"
    using st t
  proof (cases rule: turn_cases)
    case waiting
    then show ?thesis by (simp add: grows_def written_tokens_def)
  next
    case (answering m o1 rest)
    have rm: "reaches (tr_session st) (tr_session m)" using answering(1) by (simp add: grows_def)
    show ?thesis using answering(3)
    proof (cases rule: answer_outcome_cases)
      case silent
      with rm show ?thesis by (auto simp: written_tokens_def intro: reaches_trans)
    next
      case (err e)
      with rm show ?thesis by (auto simp: written_tokens_def)
    next
      case (answer a mid p v)
      have r: "reaches (tr_session st) mid" using rm answer(2) reaches_trans by auto
      have ok: "session_ok mid" using reaches_facts(1) [OF r] st by (simp add: ordered_def)
      have "reaches mid (tr_session st')" using answer(4) reaches_commit [of mid p] by simp
      moreover have "ad_token a \<in> set (live_tokens mid)"
        using commit_answers [OF ok, of p] answer(3,4) by (auto split: if_splits)
      moreover have "ad_token a \<notin> set (live_tokens (tr_session st'))"
        using commit_tokens [OF ok, of p] answer(3,4) by simp
      ultimately show ?thesis
        using r reaches_trans answer(1,5) reaches_facts(3) [OF r] st
        by (auto simp: written_tokens_def ordered_def)
    qed
  qed
  then show "reaches (tr_session st) (tr_session st')"
    and "t \<in> set (written_tokens w) \<Longrightarrow>
           (t \<in> set (live_tokens (tr_session st)) \<or> s_next_token (tr_session st) < t)
           \<and> t \<notin> set (live_tokens (tr_session st'))"
    and "length (written_tokens w) \<le> 1" by blast+
qed

interpretation counter_desk: ticket_office "transport_step out ws" ordered
  "\<lambda>st. set (live_tokens (tr_session st))" "\<lambda>st. s_next_token (tr_session st)"
  "\<lambda>st env. written_tokens (fst (turn out ws st env))" for out ws
proof unfold_locales
  fix st env assume st: "ordered st"
  obtain w st' where t: "turn out ws st env = (w, st')" by (cases "turn out ws st env")
  have r: "reaches (tr_session st) (tr_session st')" using turn_live(1) [OF st t] .
  have ok: "session_ok (tr_session st)" using st by (simp add: ordered_def)
  show "ordered (transport_step out ws st env)" using turn_order(1) [OF st t] t
    by (simp add: transport_step_def)
  show "s_next_token (tr_session st) \<le> s_next_token (tr_session (transport_step out ws st env))"
    using turn_order(2) [OF st t] t by (simp add: transport_step_def)
  show "distinct (written_tokens (fst (turn out ws st env)))"
    using turn_live(3) [OF st t] t by (cases "written_tokens w") auto
  fix k
  show "k \<in> set (live_tokens (tr_session (transport_step out ws st env))) \<Longrightarrow>
      k \<in> set (live_tokens (tr_session st)) \<or> s_next_token (tr_session st) < k"
    using reaches_facts(3) [OF r ok] t by (simp add: transport_step_def)
  assume k: "k \<in> set (written_tokens (fst (turn out ws st env)))"
  then have kw: "k \<in> set (written_tokens w)" using t by simp
  show "k \<in> set (live_tokens (tr_session st)) \<or> s_next_token (tr_session st) < k"
    using turn_live(2) [OF st t kw] by blast
  show "k \<notin> set (live_tokens (tr_session (transport_step out ws st env)))"
    using turn_live(2) [OF st t kw] t by (simp add: transport_step_def)
  show "k \<le> s_next_token (tr_session (transport_step out ws st env))"
    using turn_order(4) [OF st t] kw t by (simp add: transport_step_def)
qed

lemma ordered_new: "ordered new_transport"
  by (simp add: ordered_def new_transport_def session_ok_new queue_tokens_def)

lemma run_order:
  "ordered st \<Longrightarrow> sorted_wrt (<) (written_tokens (transport_out out ws st envs))
     \<and> (\<forall>t \<in> set (written_tokens (transport_out out ws st envs)).
          t \<in> set (queue_tokens st) \<or> s_next_token (tr_session st) < t)"
proof (induction envs arbitrary: st)
  case Nil
  then show ?case by (simp add: transport_out_def written_tokens_def)
next
  case (Cons env envs)
  obtain w st' where t: "turn out ws st env = (w, st')" by (cases "turn out ws st env")
  note o1 = turn_order [OF Cons.prems t]
  note ih = Cons.IH [OF o1(1)]
  have later: "x < y" if "x \<in> set (written_tokens w)"
    "y \<in> set (written_tokens (transport_out out ws st' envs))" for x y
  proof -
    from ih that(2) have "y \<in> set (queue_tokens st') \<or> s_next_token (tr_session st') < y" by blast
    then show ?thesis using o1(3,4) that(1) by (auto simp: sorted_wrt_append intro: le_less_trans)
  qed
  have "y \<in> set (queue_tokens st) \<or> s_next_token (tr_session st) < y"
    if "y \<in> set (written_tokens (transport_out out ws st' envs))" for y
  proof -
    from ih that have "y \<in> set (queue_tokens st') \<or> s_next_token (tr_session st') < y" by blast
    then show ?thesis using o1(2,5) by auto
  qed
  with later ih o1(3,5) show ?case by (auto simp: transport_out_Cons [OF t] sorted_wrt_append)
qed

subsection \<open>Answers after a changed root\<close>

definition is_error_result :: "json \<Rightarrow> bool" where
  "is_error_result v \<longleftrightarrow>
     Option.bind (json_get ''result'' v) (json_get ''isError'') = Some (JBool True)"

lemma get_set_same: "is_object v \<Longrightarrow> json_get k (json_set k x v) = Some x"
  by (cases v) auto

lemma get_set_other: "k \<noteq> l \<Longrightarrow> json_get k (json_set l x v) = json_get k v"
  by (cases v) auto

lemma set_object [simp]: "is_object (json_set k x v) = is_object v"
  by (cases v) auto

lemma failure_object [simp]: "is_object (failure i code)"
  by (simp add: failure_def Let_def split: prod.split)

lemma failure_error: "json_get ''error'' (failure i code) \<noteq> None"
  by (simp add: failure_def Let_def split: prod.split)

lemma tool_result_error: "json_get ''isError'' (tool_result f envelope modern)
    = Some (JBool (json_get ''error'' envelope \<noteq> None))"
  by (simp add: tool_result_def)

lemma selection_failure_error: "json_get ''error'' (selection_failure i e v) \<noteq> None"
  by (simp add: selection_failure_def Let_def get_set_same)

lemma attributed_failure_error:
  "json_get ''error'' (attributed_root (failure i code) root b) \<noteq> None"
  using failure_error by (simp add: attributed_root_def get_set_other)

lemma root_changed_error:
  "json_get ''isError'' (resolved_root_changed f i root b modern) = Some (JBool True)"
  using attributed_failure_error by (simp add: resolved_root_changed_def tool_result_error)

lemma prepare_invalid_error:
  "\<not> is_ok (validate_tool name args) \<Longrightarrow>
     json_get ''isError'' (pt_response (prepare_tool f name args i modern checked ws)) = Some (JBool True)
     \<and> \<not> pt_valid_arguments (prepare_tool f name args i modern checked ws)"
  using failure_error
  by (cases "validate_tool name args")
    (auto simp: prepare_tool_def Let_def tool_result_error get_set_same split: option.splits)

lemma select_capacity_path:
  "select_checkout env sel = Inl CheckoutCapacity \<Longrightarrow> Option.bind sel as_str \<noteq> None"
  by (auto simp: select_checkout_def Let_def split: if_splits sum.splits option.splits)

text \<open>The result of a call either fails already, or is guarded by the final check.\<close>

lemma call_result_guard:
  assumes "call_result out env ws modern i name arguments = (r, g)"
  shows "(\<exists>tool root b. g = ToolGuard tool root b \<and> pt_valid_arguments tool
            \<and> is_ok (validate_tool name arguments))
       \<or> (json_get ''isError'' r = Some (JBool True)
          \<and> (\<forall>tool root b. g = ToolGuard tool root b \<longrightarrow>
               \<not> pt_valid_arguments tool \<and> json_get ''isError'' (pt_response tool) = Some (JBool True)))"
proof (cases "is_ok (validate_tool name arguments)")
  case False
  then show ?thesis
    using assms prepare_invalid_error [OF False, of "os_to_string out" i modern "te_prepare_check env" ws]
    by (auto simp: call_result_def Let_def)
next
  case True
  show ?thesis
  proof (cases "select_checkout env (selection_path arguments)")
    case (Inl e)
    then show ?thesis
      using assms True selection_failure_error attributed_failure_error
        select_capacity_path [of env "selection_path arguments"]
      by (cases e) (auto simp: call_result_def Let_def tool_result_error split: option.splits sum.splits)
  next
    case (Inr selected)
    then show ?thesis
      using assms True root_changed_error
      by (auto simp: call_result_def answer_selected_def Let_def prepare_tool_def split: if_splits)
  qed
qed

lemma answer_request_value:
  assumes "answer_outcome out ws env (OutRequest a) st = ([(o1, v)], st')"
  obtains response guard modern where "o1 = OutRequest a" "respond out env ws modern a = (response, guard)"
    "v = finalize out env modern (ad_id a) guard response"
proof -
  obtain response guard where r: "respond out env ws (s_mode (tr_session st) = Modern) a = (response, guard)"
    by (cases "respond out env ws (s_mode (tr_session st) = Modern) a")
  show ?thesis
    by (rule that [OF _ r])
      (use assms r in \<open>auto simp: answer_outcome_def prepare_def commit_def emit_def Let_def
          split: option.splits if_splits\<close>)
qed

lemma wrapped_get: "json_get ''result'' (JObj [(''jsonrpc'', a), (''id'', b), (''result'', r)]) = Some r"
  by simp

lemma changed_call_error:
  assumes a: "ad_action a = Call name arguments" and changed: "te_changed env"
    and r: "respond out env ws modern a = (response, guard)"
  shows "is_error_result (finalize out env modern (ad_id a) guard response)"
proof -
  obtain r0 where c: "call_result out env ws modern (ad_id a) name arguments = (r0, guard)"
    and w: "response = JObj [(''jsonrpc'', JStr ''2.0''), (''id'', ad_id a), (''result'', r0)]"
    using a r by (auto simp: respond_def Let_def split: prod.splits)
  have res: "is_object response" "json_get ''result'' response = Some r0" by (simp_all add: w)
  show ?thesis
  proof (cases guard)
    case NoGuard
    then show ?thesis using call_result_guard [OF c] res
      by (auto simp: finalize_def is_error_result_def)
  next
    case (ToolGuard tool root b)
    then show ?thesis
      using call_result_guard [OF c] res changed root_changed_error
      by (auto simp: finalize_def is_error_result_def get_set_same)
  next
    case (CapacityGuard root b)
    then show ?thesis using changed res root_changed_error
      by (simp add: finalize_def is_error_result_def get_set_same)
  qed
qed

subsection \<open>Properties\<close>

text \<open>C4: whatever arrives and however the turns fall, the admitted requests are answered in the order of
  their admission and each at most once: the admission tokens of the written responses increase
  strictly.\<close>

theorem transport_in_order:
  "sorted_wrt (<) (written_tokens (transport_out out ws new_transport envs))"
  using run_order [OF ordered_new] by blast


text \<open>if the checkout's identity has changed by the final check, the response written for a tool call
  is an error result: no data of a workspace that is not the selected one any more goes out.\<close>

theorem changed_root_answers_error:
  assumes "ordered st" "turn out ws st env = ([(OutRequest a, v)], st')"
    "ad_action a = Call name arguments" "te_changed env"
  shows "is_error_result v"
  using assms(1,2)
proof (cases rule: turn_cases)
  case (answering mid o1 rest)
  have o1: "o1 = OutRequest a" using answering(3) by (cases rule: answer_outcome_cases) auto
  from answering(3) obtain response guard modern where
    "respond out env ws modern a = (response, guard)" "v = finalize out env modern (ad_id a) guard response"
    unfolding o1 by (rule answer_request_value)
  then show ?thesis using changed_call_error [OF assms(3,4)] by simp
qed simp

definition sample_outside :: outside where
  "sample_outside = \<lparr>os_from_slice = (\<lambda>_. None), os_to_vec = (\<lambda>_. Inr []), os_to_string = (\<lambda>_. []),
     os_url_ok = (\<lambda>_. True), os_entries = [], os_version = ''0''\<rparr>"

definition sample_workspace :: opened_workspace where
  "sample_workspace = \<lparr>ow_identity = \<lparr>wi_root = ''/w'', wi_root_key = ''k'', wi_record_id = ''r'',
     wi_device = 1, wi_inode = 2\<rparr>, ow_label = ''w''\<rparr>"

definition sample_env :: turn_env where
  "sample_env = \<lparr>te_first = None, te_waiting = [], te_disconnected = False, te_registry = False,
     te_select = (\<lambda>_. Inl NotAbsolute), te_check = Inr (), te_runtime_catching_up = (\<lambda>_. None),
     te_clone_ok = True, te_prepare_check = Inr (), te_capacity = (\<lambda>_. Inl NotAbsolute),
     te_late = [], te_late_disconnected = False, te_changed = True, te_write_ok = True\<rparr>"


definition sample_call :: admission where
  "sample_call = \<lparr>ad_token = 1, ad_id = JNum ''5'',
     ad_action = Call ''trellis_workspace_describe'' (Some (JObj [(''schemaVersion'', JNum ''1'')]))\<rparr>"

definition sample_transport :: transport where
  "sample_transport = \<lparr>tr_session = \<lparr>s_mode = Modern, s_next_token = 1,
       s_pending = [(IdInteger 5, sample_call)]\<rparr>,
     tr_outcomes = [OutRequest sample_call], tr_done = False\<rparr>"

lemma sample_call_valid:
  "validate_tool ''trellis_workspace_describe'' (Some (JObj [(''schemaVersion'', JNum ''1'')])) = Inr ()"
  by code_simp

theorem changed_root_answers_error_witness:
  "is_error_result (snd (hd (fst (turn sample_outside sample_workspace sample_transport sample_env))))"
proof (rule changed_root_answers_error)
  show "ordered sample_transport"
    by (simp add: ordered_def sample_transport_def session_ok_def live_tokens_def queue_tokens_def
        sample_call_def)
  show "turn sample_outside sample_workspace sample_transport sample_env
    = ([(OutRequest sample_call, snd (hd (fst (turn sample_outside sample_workspace sample_transport sample_env))))],
       snd (turn sample_outside sample_workspace sample_transport sample_env))"
    by (simp add: turn_def first_input_def sample_transport_def sample_env_def sample_outside_def
        sample_workspace_def sample_call_def answer_outcome_def pending_entry_def prepare_def respond_def
        call_result_def sample_call_valid selection_path_def select_checkout_def answer_selected_def
        commit_def emit_def write_response_def RESPONSE_BYTES_def prepare_tool_def Let_def)
  show "ad_action sample_call = Call ''trellis_workspace_describe''
      (Some (JObj [(''schemaVersion'', JNum ''1'')]))"
    by (simp add: sample_call_def)
  show "te_changed sample_env" by (simp add: sample_env_def)
qed

end
