(* ===== verification/Daemon_Protocol.thy ===== *)
theory Daemon_Protocol
  imports Json
begin

unbundle bit_operations_syntax

section \<open>Length-delimited daemon messages (\<open>daemon/protocol.rs\<close>)\<close>

text \<open>
  A message is four bytes of big-endian length and that many bytes of JSON, at most 1 MiB.
  \<open>serde\<close>'s encoder and decoder are arguments; a stream is the bytes it still holds, and
  \<open>read_exact\<close> fails when they run out.
\<close>

definition MAX_FRAME :: nat where "MAX_FRAME = 1024 * 1024"

record daemon_request =
  dr_id :: u64
  dr_operation :: string
  dr_payload :: json

record daemon_reply =
  dy_id :: u64
  dy_payload :: json

text \<open>\<open>u32::to_be_bytes\<close> and its inverse.\<close>

definition to_be_bytes :: "u32 \<Rightarrow> string" where
  "to_be_bytes w = map (\<lambda>k. char_of (unat (drop_bit k w AND 255))) [24, 16, 8, 0]"

definition from_be_bytes :: "string \<Rightarrow> u32" where
  "from_be_bytes bs = foldl (\<lambda>v c. push_bit 8 v OR of_nat (byte c)) 0 bs"

definition write_message :: "('a \<Rightarrow> string result) \<Rightarrow> 'a \<Rightarrow> string result" where
  "write_message to_vec m =
     bind_result (to_vec m) (\<lambda>bytes.
       if length bytes > MAX_FRAME then Inl ''daemon frame too large''
       else Inr (to_be_bytes (of_nat (length bytes)) @ bytes))"

definition read_exact :: "nat \<Rightarrow> string \<Rightarrow> (string \<times> string) result" where
  "read_exact n s = (if length s < n then Inl ''failed to fill whole buffer'' else Inr (take n s, drop n s))"

definition read_message :: "(string \<Rightarrow> 'a result) \<Rightarrow> string \<Rightarrow> ('a \<times> string) result" where
  "read_message from_slice s =
     bind_result (read_exact 4 s) (\<lambda>(len, r).
       let size = unat (from_be_bytes len) in
       if size > MAX_FRAME then Inl ''daemon frame too large''
       else bind_result (read_exact size r) (\<lambda>(bytes, r').
         bind_result (from_slice bytes) (\<lambda>m. Inr (m, r'))))"

subsection \<open>Framed streams\<close>

fun read_many :: "(string \<Rightarrow> ('a \<times> string) result) \<Rightarrow> nat \<Rightarrow> string \<Rightarrow> ('a list \<times> string) result" where
  "read_many rd 0 s = Inr ([], s)"
| "read_many rd (Suc n) s =
     bind_result (rd s) (\<lambda>(m, r). bind_result (read_many rd n r) (\<lambda>(ms, r'). Inr (m # ms, r')))"

fun write_many :: "('a \<Rightarrow> string result) \<Rightarrow> 'a list \<Rightarrow> string result" where
  "write_many wr [] = Inr []"
| "write_many wr (m # ms) =
     bind_result (wr m) (\<lambda>bs. bind_result (write_many wr ms) (\<lambda>cs. Inr (bs @ cs)))"

text \<open>
  A framing is self-delimiting: a reader finds exactly the message that was written, whatever
  follows it in the stream.
\<close>

locale framing =
  fixes wr :: "'a \<Rightarrow> string result" and rd :: "string \<Rightarrow> ('a \<times> string) result" and codable :: "'a \<Rightarrow> bool"
  assumes read_written: "codable m \<Longrightarrow> wr m = Inr bs \<Longrightarrow> rd (bs @ rest) = Inr (m, rest)"
begin

lemma stream_roundtrip:
  "list_all codable ms \<Longrightarrow> write_many wr ms = Inr bs \<Longrightarrow>
     read_many rd (length ms) (bs @ rest) = Inr (ms, rest)"
proof (induction ms arbitrary: bs)
  case (Cons m ms)
  then obtain b c where "wr m = Inr b" "write_many wr ms = Inr c" "bs = b @ c" by auto
  with Cons show ?case using read_written [of m b "c @ rest"] by simp
qed simp

end

lemma byte_of_word: "of_nat (byte (char_of (unat (w AND 255 :: u32)))) = (w AND 255 :: u32)"
proof -
  have "w AND 255 \<le> 255" by (rule word_and_le1)
  then have "unat (w AND 255) < 256" by (simp add: word_le_nat_alt)
  then show ?thesis by (simp add: byte_def)
qed

lemma from_to_be_bytes: "from_be_bytes (to_be_bytes w) = w"
proof (rule bit_word_eqI)
  fix n assume n: "n < LENGTH(32)"
  have m: "mask 8 = (255 :: u32)" by (simp add: mask_eq_exp_minus_1)
  have eq: "from_be_bytes (to_be_bytes w) =
     push_bit 8 (push_bit 8 (push_bit 8 (drop_bit 24 w AND mask 8) OR (drop_bit 16 w AND mask 8))
        OR (drop_bit 8 w AND mask 8)) OR (w AND mask 8)"
    unfolding m by (simp add: from_be_bytes_def to_be_bytes_def byte_of_word)
  have "n < 8 \<or> (8 \<le> n \<and> n < 16) \<or> (16 \<le> n \<and> n < 24) \<or> (24 \<le> n \<and> n < 32)"
    using n by auto
  then show "bit (from_be_bytes (to_be_bytes w)) n = bit w n"
    unfolding eq
    by (elim disjE conjE) (simp_all add: bit_or_iff bit_and_iff bit_push_bit_iff bit_drop_bit_eq
        bit_mask_iff not_less less_diff_conv2)
qed

lemma to_be_length [simp]: "length (to_be_bytes w) = 4"
  by (simp add: to_be_bytes_def)

lemma read_exact_Inr: "read_exact n s = Inr (a, b) \<longleftrightarrow> s = a @ b \<and> length a = n"
  by (auto simp: read_exact_def)

lemma read_written_message:
  assumes "to_vec m = Inr bytes" "from_slice bytes = Inr m" "write_message to_vec m = Inr bs"
  shows "read_message from_slice (bs @ rest) = Inr (m, rest)"
proof -
  from assms have len: "length bytes \<le> MAX_FRAME" and bs: "bs = to_be_bytes (of_nat (length bytes)) @ bytes"
    by (auto simp: write_message_def split: if_splits)
  from len have small: "unat (of_nat (length bytes) :: u32) = length bytes"
    by (simp add: unat_of_nat MAX_FRAME_def)
  have "read_exact 4 (bs @ rest) = Inr (to_be_bytes (of_nat (length bytes)), bytes @ rest)"
    by (simp add: read_exact_Inr bs)
  moreover have "read_exact (length bytes) (bytes @ rest) = Inr (bytes, rest)"
    by (simp add: read_exact_Inr)
  ultimately show ?thesis using assms(2) len by (simp add: read_message_def from_to_be_bytes small)
qed

interpretation daemon_frames: framing "write_message to_vec" "read_message from_slice"
  "\<lambda>m. \<exists>bytes. to_vec m = Inr bytes \<and> from_slice bytes = Inr m" for to_vec from_slice
  by unfold_locales (auto intro: read_written_message)

subsection \<open>Properties\<close>

text \<open>messages written one after the other are read back one by one, the same and in order, and
  what follows them in the stream is untouched, for every encoder that the decoder inverts.\<close>

theorem daemon_stream_roundtrip:
  assumes "list_all (\<lambda>m. \<exists>bytes. to_vec m = Inr bytes \<and> from_slice bytes = Inr m) ms"
    and "write_many (write_message to_vec) ms = Inr bs"
  shows "read_many (read_message from_slice) (length ms) (bs @ rest) = Inr (ms, rest)"
  using daemon_frames.stream_roundtrip [OF assms] .

theorem daemon_stream_roundtrip_witness:
  "read_many (read_message Inr) 2 (to_be_bytes 2 @ ''{}'' @ to_be_bytes 1 @ ''7'' @ ''x'')
     = Inr ([''{}'', ''7''], ''x'')"
  using daemon_stream_roundtrip [of Inr Inr "[''{}'', ''7'']" "to_be_bytes 2 @ ''{}'' @ to_be_bytes 1 @ ''7''" "''x''"]
  by (simp add: write_message_def MAX_FRAME_def numeral_2_eq_2 del: read_many.simps)

text \<open>a message is accepted only if the announced length is at most 1 MiB and that many bytes are
  there; the reader consumes the header and those bytes and nothing else.\<close>

theorem read_message_bounded:
  assumes "read_message from_slice s = Inr (m, r)"
  shows "\<exists>header body. s = header @ body @ r \<and> length header = 4 \<and> length body \<le> 1048576
     \<and> unat (from_be_bytes header) = length body \<and> from_slice body = Inr m"
proof -
  from assms obtain header body where "s = header @ body @ r" "length header = 4"
    "length body = unat (from_be_bytes header)" "\<not> 1048576 < unat (from_be_bytes header)"
    "from_slice body = Inr m"
    by (auto simp: read_message_def read_exact_Inr Let_def MAX_FRAME_def split: if_splits)
  then show ?thesis by (intro exI [of _ header] exI [of _ body]) simp
qed

theorem read_message_bounded_witness:
  "\<exists>header body. to_be_bytes 1 @ ''7'' @ ''x'' = header @ body @ ''x'' \<and> length header = 4
     \<and> length body \<le> 1048576 \<and> unat (from_be_bytes header) = length body \<and> Inr body = (Inr ''7'' :: string result)"
  by (rule read_message_bounded [of Inr])
    (simp add: read_message_def read_exact_def from_to_be_bytes MAX_FRAME_def)

end
