(* ===== verification/Model.thy ===== *)
theory Model
  imports Complex_Main Prelude
begin

section \<open>The data model (\<open>model.rs\<close>)\<close>

text \<open>
  The records of the index graph, the view queries and the saved documents, with the validators
  that guard what is stored. Rust's \<open>usize\<close> fields are natural numbers; a 64-bit float is only
  ever tested for being finite and for its size, so it is its class or its exact value. The
  UUID parser and printer and the JSON reader of anchors are arguments.
\<close>

unbundle bit_operations_syntax

definition SCHEMA_VERSION :: u32 where "SCHEMA_VERSION = 1"

type_synonym uuid = "128 word"

record index_pin =
  ip_generation :: uuid
  ip_revision :: nat

definition uuid_version :: "uuid \<Rightarrow> nat" where
  "uuid_version u = unat (drop_bit 76 u AND 15)"

definition try_pin :: "(string \<Rightarrow> uuid result) \<Rightarrow> (uuid \<Rightarrow> string) \<Rightarrow> string \<Rightarrow> nat \<Rightarrow> index_pin result" where
  "try_pin parse_str to_string generation revision =
     bind_result (parse_str generation) (\<lambda>g.
       if g = 0 \<or> uuid_version g \<noteq> 4 \<or> to_string g \<noteq> generation
       then Inl ''indexGeneration must be a canonical non-nil UUIDv4''
       else if revision > 9007199254740991
       then Inl ''indexRevision exceeds the safe integer range''
       else Inr \<lparr>ip_generation = g, ip_revision = revision\<rparr>)"

subsection \<open>The index graph\<close>

record source_range =
  start_byte :: nat
  end_byte :: nat
  start_line :: nat
  start_column :: nat
  end_line :: nat
  end_column :: nat

record source_file =
  sf_path :: string
  sf_hash :: string
  sf_language :: string
  sf_text :: string

datatype symbol_kind =
    KModule | KFunction | KMethod | KClass | KField | KVariable | KParameter | KTypeParameter | KAlias

datatype semantic_state = SemFresh | SemStale | SemUnavailable

record provenance =
  pv_source :: string
  pv_semantic :: semantic_state

record symbol =
  sy_id :: string
  sy_name :: string
  sy_display_label :: "string option"
  sy_kind :: symbol_kind
  sy_path :: string
  sy_range :: source_range
  sy_parent :: "string option"
  sy_accessor :: bool
  sy_provenance :: provenance

datatype resolution = Internal | External | Unresolved | Ambiguous

record call_site =
  cs_id :: string
  cs_caller :: string
  cs_callee_text :: "string option"
  cs_path :: string
  cs_range :: source_range
  cs_callee_range :: "source_range option"
  cs_ordinal :: nat
  cs_regions :: "string list"
  cs_provenance :: provenance

record control_region =
  cr_id :: string
  cr_kind :: string
  cr_label :: string
  cr_parent :: "string option"
  cr_owner :: string
  cr_path :: string
  cr_range :: source_range

record diagnostic =
  dg_path :: "string option"
  dg_code :: string
  dg_message :: string

record index_stats =
  is_files :: nat
  is_symbols :: nat
  is_calls :: nat
  is_regions :: nat
  is_internal :: nat
  is_external :: nat
  is_unresolved :: nat
  is_ambiguous :: nat
  is_parse_error_files :: nat
  is_semantic_state :: semantic_state
  is_changed_files :: "string list"

definition default_stats :: index_stats where
  "default_stats = \<lparr>is_files = 0, is_symbols = 0, is_calls = 0, is_regions = 0, is_internal = 0,
     is_external = 0, is_unresolved = 0, is_ambiguous = 0, is_parse_error_files = 0,
     is_semantic_state = SemUnavailable, is_changed_files = []\<rparr>"

record graph =
  g_schema_version :: u32
  g_files :: "source_file list"
  g_nodes :: "symbol list"
  g_calls :: "call_site list"
  g_regions :: "control_region list"
  g_diagnostics :: "diagnostic list"
  g_stats :: index_stats

definition default_graph :: graph where
  "default_graph = \<lparr>g_schema_version = SCHEMA_VERSION, g_files = [], g_nodes = [], g_calls = [],
     g_regions = [], g_diagnostics = [], g_stats = default_stats\<rparr>"

record index_status =
  ix_workspace_root :: string
  ix_catching_up :: bool
  ix_revision :: index_pin
  ix_indexed_at :: "string option"
  ix_evidence_format :: "string option"
  ix_stats :: index_stats
  ix_diagnostics :: "diagnostic list"

subsection \<open>View queries\<close>

record view_query =
  vq_seed :: string
  vq_depth :: nat
  vq_max_nodes :: nat
  vq_max_calls :: nat
  vq_include_callbacks :: bool
  vq_exclude_paths :: "string list"

definition default_query :: "string \<Rightarrow> view_query" where
  "default_query seed = \<lparr>vq_seed = seed, vq_depth = 1, vq_max_nodes = 40, vq_max_calls = 200,
     vq_include_callbacks = False, vq_exclude_paths = []\<rparr>"

definition validate_query :: "view_query \<Rightarrow> unit result" where
  "validate_query q =
     ensure (vq_seed q \<noteq> [] \<and> length (vq_seed q) \<le> 8192) ''seed must contain 1..8192 bytes'' (
     ensure (vq_depth q \<le> 5) ''depth must be at most 5'' (
     ensure (1 \<le> vq_max_nodes q \<and> vq_max_nodes q \<le> 150) ''maxNodes must be 1..150'' (
     ensure (1 \<le> vq_max_calls q \<and> vq_max_calls q \<le> 500) ''maxCalls must be 1..500'' (
     ensure (length (vq_exclude_paths q) \<le> 100
             \<and> list_all (\<lambda>x. length x \<le> 1024) (vq_exclude_paths q))
       ''too many or oversized excluded path prefixes'' (Inr ())))))"

record view_result =
  vr_revision :: index_pin
  vr_query :: view_query
  vr_nodes :: "symbol list"
  vr_calls :: "call_site list"
  vr_regions :: "control_region list"
  vr_truncated :: bool
  vr_omitted_nodes :: nat
  vr_warnings :: "string list"

subsection \<open>Saved views, annotations and their anchors\<close>

datatype f64 = NaN | Infinite bool | Finite rat

fun is_finite :: "f64 \<Rightarrow> bool" where
  "is_finite (Finite r) = True"
| "is_finite _ = False"

text \<open>\<open>v.abs() <= bound\<close>: false for a NaN.\<close>

fun abs_le :: "f64 \<Rightarrow> rat \<Rightarrow> bool" where
  "abs_le (Finite r) bound = (\<bar>r\<bar> \<le> bound)"
| "abs_le _ bound = False"

record position =
  pos_x :: f64
  pos_y :: f64

record saved_view =
  sv_id :: string
  sv_title :: string
  sv_query :: view_query
  sv_pins :: "(string \<times> position) list"
  sv_hidden :: "string list"

record annotation =
  an_id :: string
  an_node_id :: string
  an_body :: string

record document_key =
  dk_source_set_id :: string
  dk_language :: string
  dk_path :: string

record durable_anchor =
  da_syntax_id :: string
  da_document :: document_key
  da_captured_revision_id :: string
  da_header_hash :: string
  da_sibling_group_hash :: string
  da_sibling_count :: nat
  da_identical_header_count :: nat

definition anchor_path_ok :: "string \<Rightarrow> bool" where
  "anchor_path_ok path \<longleftrightarrow> path \<noteq> [] \<and> \<not> starts_with ''/'' path
     \<and> CHR 0x5C \<notin> set path \<and> CHR 0x00 \<notin> set path
     \<and> list_all (\<lambda>part. part \<noteq> [] \<and> part \<noteq> ''.'' \<and> part \<noteq> ''..'') (split_on (CHR ''/'') path)"

definition syntax_id_ok :: "string \<Rightarrow> bool" where
  "syntax_id_ok s \<longleftrightarrow> length s = 39 \<and> starts_with ''sid:v1:'' s \<and> list_all lower_hex (drop 7 s)"

definition validate_anchor :: "durable_anchor \<Rightarrow> unit result" where
  "validate_anchor a =
     ensure (syntax_id_ok (da_syntax_id a)) ''invalid durable anchor syntaxId'' (
     ensure (dk_source_set_id (da_document a) \<noteq> [] \<and> da_captured_revision_id a \<noteq> [])
       ''invalid durable anchor document/revision'' (
     ensure (dk_language (da_document a) \<in> {''java'', ''rust'', ''python'', ''javascript''})
       ''invalid durable anchor document language'' (
     ensure (anchor_path_ok (dk_path (da_document a))) ''invalid durable anchor document path'' (
     ensure (hex_string 64 (da_header_hash a) \<and> hex_string 64 (da_sibling_group_hash a))
       ''invalid durable anchor hash'' (
     ensure (da_sibling_count a > 0 \<and> da_identical_header_count a > 0
             \<and> da_identical_header_count a \<le> da_sibling_count a)
       ''invalid durable anchor counts'' (Inr ()))))))"

datatype anchor_status = Attached | Orphaned

datatype anchor_reason = ReasonNone | Missing | HeaderMismatch | GroupChanged | UnprovenContinuity

record anchor_result =
  ar_status :: anchor_status
  ar_target_id :: "string option"
  ar_reason :: anchor_reason

definition attached :: "string \<Rightarrow> anchor_result" where
  "attached i = \<lparr>ar_status = Attached, ar_target_id = Some i, ar_reason = ReasonNone\<rparr>"

definition orphaned :: "anchor_reason \<Rightarrow> anchor_result" where
  "orphaned r = \<lparr>ar_status = Orphaned, ar_target_id = None, ar_reason = r\<rparr>"

definition validate_record_id :: "string \<Rightarrow> unit result" where
  "validate_record_id i =
     ensure (i \<noteq> [] \<and> length i \<le> 128
             \<and> list_all (\<lambda>b. ascii_alnum b \<or> b = CHR ''.'' \<or> b = CHR ''_'' \<or> b = CHR ''-'') i)
       (''id must contain 1..128 ASCII letters, digits, '.', '_' or '-'' @ [CHR 0x27]) (Inr ())"

definition validate_pin :: "string \<times> position \<Rightarrow> unit result" where
  "validate_pin e =
     (case e of (i, p) \<Rightarrow>
        ensure (i \<noteq> [] \<and> length i \<le> 8192 \<and> is_finite (pos_x p) \<and> is_finite (pos_y p)
                \<and> abs_le (pos_x p) 10000000 \<and> abs_le (pos_y p) 10000000)
          ''invalid pin'' (Inr ()))"

definition validate_view :: "saved_view \<Rightarrow> unit result" where
  "validate_view v =
     bind_result (validate_record_id (sv_id v)) (\<lambda>_.
     ensure (\<not> blank (sv_title v) \<and> length (sv_title v) \<le> 256) ''title must contain 1..256 bytes'' (
     bind_result (validate_query (sv_query v)) (\<lambda>_.
     ensure (length (sv_pins v) \<le> 150 \<and> length (sv_hidden v) \<le> 150)
       ''at most 150 pins/hidden symbols'' (
     bind_result (for_each validate_pin (sv_pins v)) (\<lambda>_.
     ensure (list_all (\<lambda>i. i \<noteq> [] \<and> length i \<le> 8192) (sv_hidden v))
       ''invalid hidden symbol'' (Inr ()))))))"

definition validate_annotation :: "annotation \<Rightarrow> unit result" where
  "validate_annotation a =
     bind_result (validate_record_id (an_id a)) (\<lambda>_.
     ensure (an_node_id a \<noteq> [] \<and> length (an_node_id a) \<le> 8192) ''invalid nodeId'' (
     ensure (\<not> blank (an_body a) \<and> length (an_body a) \<le> 65536)
       ''annotation body must contain 1..65536 bytes'' (Inr ())))"

text \<open>
  The stored forms keep the anchor as the raw text it was written with; it is read and checked
  when it is needed.
\<close>

record saved_view_record =
  svr_base :: saved_view
  svr_anchor :: "string option"

record annotation_record =
  anr_base :: annotation
  anr_title :: "string option"
  anr_anchor :: "string option"

definition view_from_base :: "saved_view \<Rightarrow> string option \<Rightarrow> saved_view_record" where
  "view_from_base v a = \<lparr>svr_base = v, svr_anchor = a\<rparr>"

definition annotation_from_base ::
  "annotation \<Rightarrow> string option \<Rightarrow> string option \<Rightarrow> annotation_record" where
  "annotation_from_base n t a = \<lparr>anr_base = n, anr_title = t, anr_anchor = a\<rparr>"

definition typed_anchor ::
  "(string \<Rightarrow> durable_anchor result) \<Rightarrow> string option \<Rightarrow> durable_anchor option result" where
  "typed_anchor from_str anchor =
     (case anchor of
        None \<Rightarrow> Inr None
      | Some raw \<Rightarrow>
          bind_result (from_str raw) (\<lambda>a. bind_result (validate_anchor a) (\<lambda>_. Inr (Some a))))"

definition validate_view_record ::
  "(string \<Rightarrow> durable_anchor result) \<Rightarrow> saved_view_record \<Rightarrow> unit result" where
  "validate_view_record from_str r =
     bind_result (validate_view (svr_base r)) (\<lambda>_.
     bind_result (typed_anchor from_str (svr_anchor r)) (\<lambda>_. Inr ()))"

definition title_ok :: "string option \<Rightarrow> bool" where
  "title_ok t = (case t of None \<Rightarrow> True | Some s \<Rightarrow> length s \<le> 256)"

definition validate_annotation_record ::
  "(string \<Rightarrow> durable_anchor result) \<Rightarrow> annotation_record \<Rightarrow> unit result" where
  "validate_annotation_record from_str r =
     bind_result (validate_annotation (anr_base r)) (\<lambda>_.
     ensure (title_ok (anr_title r)) ''annotation title must be at most 256 bytes'' (
     bind_result (typed_anchor from_str (anr_anchor r)) (\<lambda>_. Inr ())))"

record annotation_request =
  anq_base :: annotation
  anq_title :: "string option"

definition validate_annotation_request :: "annotation_request \<Rightarrow> unit result" where
  "validate_annotation_request r =
     bind_result (validate_annotation (anq_base r)) (\<lambda>_.
     ensure (title_ok (anq_title r)) ''annotation title must be at most 256 bytes'' (Inr ()))"

datatype attachment_availability = AttachReady | AttachAnchorless | AttachIndexUnavailable

record anchor_attachment =
  at_availability :: attachment_availability
  at_result :: "anchor_result option"

record saved_view_state =
  svs_view :: saved_view_record
  svs_orphaned_ids :: "string list"
  svs_index_generation :: "string option"
  svs_index_revision :: "nat option"
  svs_attachment :: anchor_attachment

record annotation_state =
  ans_annotation :: annotation_record
  ans_orphaned :: bool
  ans_index_generation :: "string option"
  ans_index_revision :: "nat option"
  ans_attachment :: anchor_attachment

subsection \<open>What the validators guarantee\<close>

text \<open>Stored views stay within fixed bounds.\<close>

definition view_bounded :: "saved_view \<Rightarrow> bool" where
  "view_bounded v \<longleftrightarrow>
     (sv_id v \<noteq> [] \<and> length (sv_id v) \<le> 128 \<and> CHR ''/'' \<notin> set (sv_id v) \<and> CHR 0x00 \<notin> set (sv_id v))
     \<and> sv_title v \<noteq> [] \<and> length (sv_title v) \<le> 256
     \<and> vq_depth (sv_query v) \<le> 5 \<and> vq_max_nodes (sv_query v) \<in> {1..150}
     \<and> vq_max_calls (sv_query v) \<in> {1..500} \<and> length (vq_seed (sv_query v)) \<in> {1..8192}
     \<and> (\<forall>(i, p) \<in> set (sv_pins v). \<exists>x y. p = \<lparr>pos_x = Finite x, pos_y = Finite y\<rparr>
            \<and> \<bar>x\<bar> \<le> 10000000 \<and> \<bar>y\<bar> \<le> 10000000)
     \<and> length (sv_pins v) \<le> 150 \<and> length (sv_hidden v) \<le> 150"

lemma abs_le_Finite: "abs_le f b \<longleftrightarrow> (\<exists>x. f = Finite x \<and> \<bar>x\<bar> \<le> b)"
  by (cases f) auto

lemma record_id_chars:
  assumes "validate_record_id i = Inr ()"
  shows "i \<noteq> []" "length i \<le> 128" "CHR ''/'' \<notin> set i" "CHR 0x00 \<notin> set i"
proof -
  from assms have i: "i \<noteq> []" "length i \<le> 128"
    "\<forall>b \<in> set i. ascii_alnum b \<or> b = CHR ''.'' \<or> b = CHR ''_'' \<or> b = CHR ''-''"
    by (auto simp: validate_record_id_def list_all_iff)
  then show "i \<noteq> []" "length i \<le> 128" by auto
  have "\<not> ascii_alnum (CHR ''/'')" "\<not> ascii_alnum (CHR 0x00)"
    by (simp_all add: ascii_alnum_def is_digit_def byte_def)
  with i(3) show "CHR ''/'' \<notin> set i" "CHR 0x00 \<notin> set i" by auto
qed

lemma pin_bounds:
  "validate_pin (i, p) = Inr () \<Longrightarrow>
     \<exists>x y. p = \<lparr>pos_x = Finite x, pos_y = Finite y\<rparr> \<and> \<bar>x\<bar> \<le> 10000000 \<and> \<bar>y\<bar> \<le> 10000000"
  by (cases p) (auto simp: validate_pin_def abs_le_Finite)

lemma view_bounds:
  assumes "validate_view v = Inr ()"
  shows "view_bounded v"
proof -
  from assms have i: "validate_record_id (sv_id v) = Inr ()"
    and t: "\<not> blank (sv_title v)" "length (sv_title v) \<le> 256"
    and q: "validate_query (sv_query v) = Inr ()"
    and p: "\<forall>e \<in> set (sv_pins v). validate_pin e = Inr ()"
    and n: "length (sv_pins v) \<le> 150" "length (sv_hidden v) \<le> 150"
    by (auto simp: validate_view_def)
  have "vq_seed (sv_query v) \<noteq> []" "length (vq_seed (sv_query v)) \<le> 8192"
    "vq_depth (sv_query v) \<le> 5" "vq_max_nodes (sv_query v) \<in> {1..150}"
    "vq_max_calls (sv_query v) \<in> {1..500}"
    using q by (auto simp: validate_query_def)
  moreover from this have "length (vq_seed (sv_query v)) \<in> {1..8192}" by (simp add: Suc_le_eq)
  moreover have "sv_title v \<noteq> []" using t(1) by auto
  ultimately show ?thesis
    using record_id_chars [OF i] p pin_bounds t(2) n by (auto simp: view_bounded_def)
qed

text \<open>What a stored anchor may name: a document below the root and a declaration of its group.\<close>

definition anchor_sound :: "durable_anchor \<Rightarrow> bool" where
  "anchor_sound a \<longleftrightarrow>
     (\<forall>dir. walk dir (split_on (CHR ''/'') (dk_path (da_document a)))
              = dir @ split_on (CHR ''/'') (dk_path (da_document a)))
     \<and> 1 \<le> da_identical_header_count a \<and> da_identical_header_count a \<le> da_sibling_count a
     \<and> hex_string 64 (da_header_hash a) \<and> hex_string 64 (da_sibling_group_hash a)
     \<and> dk_language (da_document a) \<in> {''java'', ''rust'', ''python'', ''javascript''}"

lemma validate_anchor_sound: "validate_anchor a = Inr () \<Longrightarrow> anchor_sound a"
  by (auto simp: validate_anchor_def anchor_sound_def anchor_path_ok_def intro!: walk_plain)

lemma typed_anchor_sound: "typed_anchor from_str anchor = Inr (Some a) \<Longrightarrow> anchor_sound a"
  by (auto simp: typed_anchor_def validate_anchor_sound split: option.splits)

subsection \<open>Properties\<close>

text \<open>a view record that passes validation is bounded in every part (identifier, title, query
  limits, finite pins) and carries either no anchor or a readable one that names a document below
  the workspace root and a consistent group.\<close>

theorem stored_view_sound:
  assumes "validate_view_record from_str r = Inr ()"
  shows "view_bounded (svr_base r)
     \<and> (case svr_anchor r of None \<Rightarrow> True | Some raw \<Rightarrow> \<exists>a. from_str raw = Inr a \<and> anchor_sound a)"
  using assms view_bounds
  by (auto simp: validate_view_record_def typed_anchor_def validate_anchor_sound split: option.splits)

definition sample_view_record :: saved_view_record where
  "sample_view_record =
     \<lparr>svr_base = \<lparr>sv_id = ''v.1'', sv_title = ''Main'', sv_query = default_query ''main'',
        sv_pins = [(''n'', \<lparr>pos_x = Finite 3, pos_y = Finite (- 4)\<rparr>)], sv_hidden = []\<rparr>,
      svr_anchor = None\<rparr>"

theorem stored_view_sound_witness:
  "view_bounded (svr_base sample_view_record)
     \<and> (case svr_anchor sample_view_record of None \<Rightarrow> True
        | Some raw \<Rightarrow> \<exists>a. (Inl raw :: durable_anchor result) = Inr a \<and> anchor_sound a)"
proof (rule stored_view_sound)
  show "validate_view_record Inl sample_view_record = Inr ()"
    by (simp add: sample_view_record_def validate_view_record_def validate_view_def validate_query_def
        validate_record_id_def validate_pin_def default_query_def typed_anchor_def ascii_alnum_def
        is_digit_def byte_def blank_def blank_bytes.simps)
qed

end
