(* ===== verification/Native_Ids.thy ===== *)
theory Native_Ids
  imports Json
begin

section \<open>Canonical native identities (\<open>native_ids.rs\<close>)\<close>

text \<open>
  Canonical JSON, the identity inputs and their validation, and the registry that hands out short
  handles and refuses a collision. SHA-256 (as the hexadecimal digest of domain and bytes) and the
  reading of a JSON number as \<open>u64\<close> are arguments; nothing is assumed of the hash, in particular
  not that it has no collisions.
\<close>

subsection \<open>Canonical JSON\<close>

definition hex_char :: "nat \<Rightarrow> char" where
  "hex_char n = char_of (if n < 10 then 48 + n else 87 + n)"

definition escape_char :: "char \<Rightarrow> string" where
  "escape_char c =
     (if c = CHR 0x22 then [CHR 0x5C, CHR 0x22]
      else if c = CHR 0x5C then [CHR 0x5C, CHR 0x5C]
      else if byte c < 32 then [CHR 0x5C] @ ''u00'' @ [hex_char (byte c div 16), hex_char (byte c mod 16)]
      else [c])"

definition quote :: "string \<Rightarrow> string" where
  "quote s = CHR 0x22 # concat (map escape_char s) @ [CHR 0x22]"

lemma size_member: "(k, v) \<in> set m \<Longrightarrow> size v < Suc (size_list (size_prod (\<lambda>_. 0) size) m)"
  by (induction m) auto

function canonical :: "json \<Rightarrow> string" where
  "canonical JNull = ''null''"
| "canonical (JBool b) = (if b then ''true'' else ''false'')"
| "canonical (JNum n) = n"
| "canonical (JStr s) = quote s"
| "canonical (JArr xs) = ''['' @ join_with '','' (map canonical xs) @ '']''"
| "canonical (JObj m) =
     ''{'' @ join_with '','' (map (\<lambda>(k, v). quote k @ '':'' @ canonical v) (sort_key fst m)) @ ''}''"
  by pat_completeness auto
termination
  by (relation "measure size") (auto simp: less_Suc_eq_le size_list_estimation' intro: size_member)

subsection \<open>Identity inputs\<close>

record stable_signature =
  sg_parameter_types :: "string list"
  sg_type_parameter_count :: nat
  sg_variadic :: bool

record stable_key =
  sk_kind :: string
  sk_name :: "string option"
  sk_signature :: "stable_signature option"
  sk_ordinal :: nat

record stable_input =
  si_source_set :: string
  si_path :: string
  si_language :: string
  si_ancestors :: "stable_key list"
  si_declaration :: stable_key

record occurrence_input =
  oi_content_hash :: string
  oi_extraction_context :: string
  oi_native_producer_id :: string
  oi_native_producer_version :: string
  oi_owner_syntax_id :: string
  oi_kind :: string
  oi_ordinal :: nat

definition exact_keys :: "json option \<Rightarrow> string list \<Rightarrow> unit result" where
  "exact_keys v expected =
     bind_result (ok_or (Option.bind v as_object) ''native ID input is not an object'') (\<lambda>m.
     ensure (length m = length expected \<and> list_all (has_key m) expected)
       ''missing or unknown native ID input field'' (Inr ()))"

definition check_text :: "string \<Rightarrow> unit result" where
  "check_text s = ensure (s \<noteq> []) ''empty native identity text'' (Inr ())"

definition native_kinds :: "string list" where
  "native_kinds = [''module'', ''namespace'', ''type'', ''implementation'', ''function'', ''method'',
     ''constructor'', ''field'', ''variable'', ''parameter'', ''typeParameter'', ''alias'',
     ''anonymousFunction'']"

definition check_key :: "stable_key \<Rightarrow> string \<Rightarrow> unit result" where
  "check_key key language =
     ensure (sk_kind key \<in> set native_kinds) ''unknown native kind'' (
     bind_result (case sk_name key of None \<Rightarrow> Inr () | Some n \<Rightarrow> check_text n) (\<lambda>_.
     ensure (sk_ordinal key \<le> 9007199254740991) ''native ordinal exceeds UInt'' (
       case sk_signature key of
         Some sg \<Rightarrow>
           ensure (language = ''java'' \<and> (sk_kind key = ''method'' \<or> sk_kind key = ''constructor'')
                   \<and> sg_type_parameter_count sg \<le> 9007199254740991)
             ''invalid native Java signature''
             (for_each check_text (sg_parameter_types sg))
       | None \<Rightarrow>
           ensure (language \<noteq> ''java'' \<or> \<not> (sk_kind key = ''method'' \<or> sk_kind key = ''constructor''))
             ''missing native Java signature'' (Inr ()))))"

text \<open>\<open>serde\<close>'s typed reading; every mismatch is one error.\<close>

definition field_string :: "json \<Rightarrow> string \<Rightarrow> string result" where
  "field_string v k = ok_or (Option.bind (json_get k v) as_str) ''invalid type''"

definition field_u64 :: "(string \<Rightarrow> nat option) \<Rightarrow> json \<Rightarrow> string \<Rightarrow> nat result" where
  "field_u64 u64_of v k =
     ok_or (Option.bind (Option.bind (json_get k v) as_number) u64_of) ''invalid type''"

definition field_optional :: "json \<Rightarrow> string \<Rightarrow> (json \<Rightarrow> 'a result) \<Rightarrow> 'a option result" where
  "field_optional v k rd =
     (case json_get k v of
        None \<Rightarrow> Inr None
      | Some JNull \<Rightarrow> Inr None
      | Some w \<Rightarrow> bind_result (rd w) (\<lambda>x. Inr (Some x)))"

fun map_result :: "('a \<Rightarrow> 'e + 'b) \<Rightarrow> 'a list \<Rightarrow> 'e + 'b list" where
  "map_result f [] = Inr []"
| "map_result f (x # xs) =
     bind_result (f x) (\<lambda>y. bind_result (map_result f xs) (\<lambda>ys. Inr (y # ys)))"

definition as_text :: "json \<Rightarrow> string result" where
  "as_text v = ok_or (as_str v) ''invalid type''"

definition read_signature :: "(string \<Rightarrow> nat option) \<Rightarrow> json \<Rightarrow> stable_signature result" where
  "read_signature u64_of v =
     bind_result (ok_or (Option.bind (json_get ''parameterTypes'' v) as_array) ''invalid type'') (\<lambda>ps.
     bind_result (map_result as_text ps) (\<lambda>types.
     bind_result (field_u64 u64_of v ''typeParameterCount'') (\<lambda>count.
       case json_get ''variadic'' v of
         Some (JBool b) \<Rightarrow> Inr \<lparr>sg_parameter_types = types, sg_type_parameter_count = count,
                               sg_variadic = b\<rparr>
       | _ \<Rightarrow> Inl ''invalid type'')))"

definition read_key :: "(string \<Rightarrow> nat option) \<Rightarrow> json \<Rightarrow> stable_key result" where
  "read_key u64_of v =
     bind_result (field_string v ''kind'') (\<lambda>kind.
     bind_result (field_optional v ''name'' as_text) (\<lambda>name.
     bind_result (field_optional v ''signature'' (read_signature u64_of)) (\<lambda>sg.
     bind_result (field_u64 u64_of v ''ordinal'') (\<lambda>ord.
       Inr \<lparr>sk_kind = kind, sk_name = name, sk_signature = sg, sk_ordinal = ord\<rparr>))))"

definition read_stable :: "(string \<Rightarrow> nat option) \<Rightarrow> json \<Rightarrow> stable_input result" where
  "read_stable u64_of v =
     bind_result (field_string v ''sourceSet'') (\<lambda>source_set.
     bind_result (field_string v ''path'') (\<lambda>path.
     bind_result (field_string v ''language'') (\<lambda>language.
     bind_result (ok_or (Option.bind (json_get ''ancestors'' v) as_array) ''invalid type'') (\<lambda>as.
     bind_result (map_result (read_key u64_of) as) (\<lambda>ancestors.
     bind_result (ok_or (json_get ''declaration'' v) ''missing field'') (\<lambda>d.
     bind_result (read_key u64_of d) (\<lambda>declaration.
       Inr \<lparr>si_source_set = source_set, si_path = path, si_language = language,
            si_ancestors = ancestors, si_declaration = declaration\<rparr>)))))))"

definition languages :: "string list" where
  "languages = [''java'', ''rust'', ''python'', ''javascript'']"

definition check_key_shape :: "json option \<Rightarrow> unit result" where
  "check_key_shape key =
     bind_result (exact_keys key [''kind'', ''name'', ''signature'', ''ordinal'']) (\<lambda>_.
       let sg = Option.bind key (json_get ''signature'')
       in if sg \<noteq> Some JNull
          then exact_keys sg [''parameterTypes'', ''typeParameterCount'', ''variadic'']
          else Inr ())"

definition validate_stable :: "(string \<Rightarrow> nat option) \<Rightarrow> json \<Rightarrow> unit result" where
  "validate_stable u64_of v =
     bind_result (exact_keys (Some v)
       [''sourceSet'', ''path'', ''language'', ''ancestors'', ''declaration'']) (\<lambda>_.
     bind_result (ok_or (Option.bind (json_get ''ancestors'' v) as_array) ''ancestors not an array'') (\<lambda>as.
     bind_result (for_each check_key_shape (map Some as @ [json_get ''declaration'' v])) (\<lambda>_.
     bind_result (read_stable u64_of v) (\<lambda>inp.
     bind_result (check_text (si_source_set inp)) (\<lambda>_.
     ensure (\<not> starts_with ''/'' (si_path inp)
             \<and> list_all (\<lambda>c. c \<noteq> CHR 0x5C \<and> c \<noteq> CHR 0x00) (si_path inp)
             \<and> list_all (\<lambda>p. p \<noteq> [] \<and> p \<noteq> ''.'' \<and> p \<noteq> ''..'') (split_on (CHR ''/'') (si_path inp)))
       ''invalid native identity path'' (
     ensure (si_language inp \<in> set languages) ''invalid native identity language'' (
     for_each (\<lambda>key. check_key key (si_language inp)) (si_ancestors inp @ [si_declaration inp]))))))))"

definition check_hash :: "string \<Rightarrow> unit result" where
  "check_hash s = ensure (hex_string 64 s) ''invalid native identity hash'' (Inr ())"

definition read_occurrence :: "(string \<Rightarrow> nat option) \<Rightarrow> json \<Rightarrow> occurrence_input result" where
  "read_occurrence u64_of v =
     bind_result (field_string v ''contentHash'') (\<lambda>content_hash.
     bind_result (field_string v ''extractionContext'') (\<lambda>extraction.
     bind_result (field_string v ''nativeProducerId'') (\<lambda>producer.
     bind_result (field_string v ''nativeProducerVersion'') (\<lambda>version.
     bind_result (field_string v ''ownerSyntaxId'') (\<lambda>owner.
     bind_result (field_string v ''kind'') (\<lambda>kind.
     bind_result (field_u64 u64_of v ''ordinal'') (\<lambda>ord.
       Inr \<lparr>oi_content_hash = content_hash, oi_extraction_context = extraction,
            oi_native_producer_id = producer, oi_native_producer_version = version,
            oi_owner_syntax_id = owner, oi_kind = kind, oi_ordinal = ord\<rparr>)))))))"

definition validate_occurrence :: "(string \<Rightarrow> nat option) \<Rightarrow> json \<Rightarrow> unit result" where
  "validate_occurrence u64_of v =
     bind_result (exact_keys (Some v)
       [''contentHash'', ''extractionContext'', ''nativeProducerId'', ''nativeProducerVersion'',
        ''ownerSyntaxId'', ''kind'', ''ordinal'']) (\<lambda>_.
     bind_result (read_occurrence u64_of v) (\<lambda>inp.
     bind_result (check_hash (oi_content_hash inp)) (\<lambda>_.
     bind_result (check_hash (oi_extraction_context inp)) (\<lambda>_.
     bind_result (check_text (oi_native_producer_id inp)) (\<lambda>_.
     bind_result (check_text (oi_native_producer_version inp)) (\<lambda>_.
     ensure (length (oi_owner_syntax_id inp) = 39 \<and> starts_with ''sid:v1:'' (oi_owner_syntax_id inp)
             \<and> list_all lower_hex (drop 7 (oi_owner_syntax_id inp)))
       ''invalid occurrence owner SyntaxId'' (
     ensure (oi_kind inp \<in> {''call'', ''control'', ''reference''} \<and> oi_ordinal inp \<le> 9007199254740991)
       ''invalid native occurrence input'' (Inr ()))))))))"

subsection \<open>The registry\<close>

text \<open>Handles with the full bytes and the full digest they stand for.\<close>

type_synonym registry = "(string \<times> (string \<times> string)) list"

definition register_handle ::
  "(string \<Rightarrow> string) \<Rightarrow> string \<Rightarrow> json \<Rightarrow> string \<Rightarrow> registry \<Rightarrow> string result \<times> registry" where
  "register_handle sha256_hex domain v prefix reg =
     (let bytes = canonical v;
          full = sha256_hex (domain @ bytes);
          handle = prefix @ take 32 full
      in case map_of reg handle of
           Some (prior, prior_full) \<Rightarrow>
             if prior = bytes \<and> prior_full = full then (Inr handle, reg)
             else (Inl (''native identity handle collision: '' @ handle), reg)
         | None \<Rightarrow> (Inr handle, set_key handle (bytes, full) reg))"

definition stable_handle ::
  "(string \<Rightarrow> string) \<Rightarrow> (string \<Rightarrow> nat option) \<Rightarrow> json \<Rightarrow> registry \<Rightarrow> string result \<times> registry" where
  "stable_handle sha256_hex u64_of v reg =
     (case validate_stable u64_of v of
        Inl e \<Rightarrow> (Inl e, reg)
      | Inr _ \<Rightarrow> register_handle sha256_hex (''trellis.syntax.v1'' @ [CHR 0x00]) v ''sid:v1:'' reg)"

definition occurrence_handle ::
  "(string \<Rightarrow> string) \<Rightarrow> (string \<Rightarrow> nat option) \<Rightarrow> json \<Rightarrow> registry \<Rightarrow> string result \<times> registry" where
  "occurrence_handle sha256_hex u64_of v reg =
     (case validate_occurrence u64_of v of
        Inl e \<Rightarrow> (Inl e, reg)
      | Inr _ \<Rightarrow> register_handle sha256_hex (''trellis.occurrence.v2'' @ [CHR 0x00]) v ''occ:v2:'' reg)"

fun strictly_sorted :: "'a::linorder list \<Rightarrow> bool" where
  "strictly_sorted (x # y # r) = (x < y \<and> strictly_sorted (y # r))"
| "strictly_sorted _ = True"

definition extraction_context ::
  "(string \<Rightarrow> string) \<Rightarrow> string \<Rightarrow> (string \<times> string) list \<Rightarrow> string result" where
  "extraction_context sha256_hex language components =
     ensure (language \<in> set languages) ''invalid extraction-context language'' (
     bind_result (for_each (\<lambda>(name, h). bind_result (check_text name) (\<lambda>_. check_hash h)) components) (\<lambda>_.
     ensure (strictly_sorted components) ''unsorted or duplicate extraction-context components'' (
       Inr (sha256_hex (''trellis.extraction-context.v1'' @ [CHR 0x00] @
         canonical (JObj [(''language'', JStr language),
           (''components'', JArr (map (\<lambda>(name, h). JObj [(''name'', JStr name), (''hash'', JStr h)])
                                     components))]))))))"

subsection \<open>Canonical JSON determines the value\<close>

text \<open>The value with every object's entries in key order, and its text without sorting.\<close>

fun norm :: "json \<Rightarrow> json" where
  "norm (JArr xs) = JArr (map norm xs)"
| "norm (JObj m) = JObj (sort_key fst (map (map_prod id norm) m))"
| "norm v = v"

fun plain :: "json \<Rightarrow> string" where
  "plain JNull = ''null''"
| "plain (JBool b) = (if b then ''true'' else ''false'')"
| "plain (JNum n) = n"
| "plain (JStr s) = quote s"
| "plain (JArr xs) = ''['' @ join_with '','' (map plain xs) @ '']''"
| "plain (JObj m) = ''{'' @ join_with '','' (map (\<lambda>(k, v). quote k @ '':'' @ plain v) m) @ ''}''"

lemma insort_key_fst_map:
  "insort_key fst (map_prod id f e) (map (map_prod id f) m) = map (map_prod id f) (insort_key fst e m)"
  by (induction m) (auto simp: map_prod_def split: prod.splits)

lemma sort_key_fst_map: "sort_key fst (map (map_prod id f) m) = map (map_prod id f) (sort_key fst m)"
  by (induction m) (simp_all add: insort_key_fst_map [unfolded id_def] id_def)
lemma canonical_plain: "canonical v = plain (norm v)"
proof (induction v rule: canonical.induct)
  case (6 m)
  have "(\<lambda>(k, v). quote k @ '':'' @ canonical v) e
      = (\<lambda>(k, v). quote k @ '':'' @ plain v) (map_prod id norm e)" if "e \<in> set (sort_key fst m)" for e
    using 6 [OF that] by (cases e) auto
  then have "map (\<lambda>(k, v). quote k @ '':'' @ canonical v) (sort_key fst m)
      = map (\<lambda>(k, v). quote k @ '':'' @ plain v) (map (map_prod id norm) (sort_key fst m))"
    unfolding map_map o_def by (intro map_cong refl)
  then show ?case by (simp only: canonical.simps norm.simps plain.simps sort_key_fst_map)
qed (simp_all add: o_def cong: map_cong)

text \<open>The characters a JSON number is written with.\<close>

definition number_char :: "char \<Rightarrow> bool" where
  "number_char c \<longleftrightarrow> is_digit c \<or> c \<in> {CHR ''-'', CHR ''+'', CHR ''.'', CHR ''e'', CHR ''E''}"

fun numbers_ok :: "json \<Rightarrow> bool" where
  "numbers_ok (JNum n) = (n \<noteq> [] \<and> (is_digit (hd n) \<or> hd n = CHR ''-'') \<and> list_all number_char n)"
| "numbers_ok (JArr xs) = list_all numbers_ok xs"
| "numbers_ok (JObj m) = list_all (\<lambda>(k, v). numbers_ok v) m"
| "numbers_ok v = True"

definition stops :: "string \<Rightarrow> bool" where
  "stops r \<longleftrightarrow> r = [] \<or> hd r \<in> {CHR '','', CHR '']'', CHR ''}''}"

definition kind_of_char :: "char \<Rightarrow> nat" where
  "kind_of_char c =
     (if c = CHR ''n'' then 0 else if c = CHR ''t'' then 1 else if c = CHR ''f'' then 2
      else if c = CHR 0x22 then 4 else if c = CHR ''['' then 5 else if c = CHR ''{'' then 6 else 3)"

fun kind_of :: "json \<Rightarrow> nat" where
  "kind_of JNull = 0"
| "kind_of (JBool b) = (if b then 1 else 2)"
| "kind_of (JNum n) = 3"
| "kind_of (JStr s) = 4"
| "kind_of (JArr xs) = 5"
| "kind_of (JObj m) = 6"

lemma digit_kind: "is_digit c \<Longrightarrow> kind_of_char c = 3"
  by (auto simp: kind_of_char_def is_digit_def byte_def)

lemma plain_kind:
  assumes "numbers_ok v"
  shows "plain v \<noteq> []" "kind_of_char (hd (plain v)) = kind_of v"
proof -
  have "plain v \<noteq> [] \<and> kind_of_char (hd (plain v)) = kind_of v"
  proof (cases v)
    case (JNum n)
    with assms digit_kind [of "hd n"] show ?thesis by (auto simp: kind_of_char_def [of "CHR ''-''"])
  qed (auto simp: quote_def kind_of_char_def)
  then show "plain v \<noteq> []" "kind_of_char (hd (plain v)) = kind_of v" by auto
qed

lemma hex_char_inj: "a < 16 \<Longrightarrow> b < 16 \<Longrightarrow> hex_char a = hex_char b \<Longrightarrow> a = b"
proof -
  assume "a < 16" "b < 16" "hex_char a = hex_char b"
  then have "(of_char (hex_char a) :: nat) = of_char (hex_char b)" by simp
  with \<open>a < 16\<close> \<open>b < 16\<close> show "a = b"
    by (simp add: hex_char_def split: if_splits)
qed

lemma escape_nonempty [simp]: "escape_char c \<noteq> []"
  by (simp add: escape_char_def)

lemma escape_hd: "hd (escape_char c) \<noteq> CHR 0x22"
  by (auto simp: escape_char_def)

lemma escape_control_inj:
  assumes "byte c < 32" "byte d < 32"
    "hex_char (byte c div 16) = hex_char (byte d div 16)"
    "hex_char (byte c mod 16) = hex_char (byte d mod 16)"
  shows "c = d"
proof -
  have "byte c div 16 = byte d div 16" "byte c mod 16 = byte d mod 16"
    using assms by (auto intro!: hex_char_inj)
  then have "byte c = byte d" by (metis div_mult_mod_eq)
  then show ?thesis unfolding byte_def by (simp only: of_char_eq_iff)
qed

lemma escape_prefix: "escape_char c @ x = escape_char d @ y \<Longrightarrow> c = d \<and> x = y"
  using escape_control_inj [of c d]
  by (auto simp: escape_char_def split: if_splits)

lemma escape_inj:
  "concat (map escape_char s) @ CHR 0x22 # r = concat (map escape_char t) @ CHR 0x22 # r'
     \<Longrightarrow> s = t \<and> r = r'"
proof (induction s arbitrary: t)
  case Nil
  show ?case
  proof (cases t)
    case (Cons d t)
    with Nil escape_hd [of d] show ?thesis by (cases "escape_char d") auto
  qed (use Nil in simp)
next
  case (Cons c s)
  show ?case
  proof (cases t)
    case Nil
    with Cons.prems escape_hd [of c] show ?thesis by (cases "escape_char c") auto
  next
    case (Cons d t')
    then have "escape_char c @ concat (map escape_char s) @ CHR 0x22 # r
        = escape_char d @ concat (map escape_char t') @ CHR 0x22 # r'"
      using Cons.prems by simp
    from escape_prefix [OF this] Cons.IH [of t'] show ?thesis by (simp add: \<open>t = d # t'\<close>)
  qed
qed

lemma quote_prefix: "quote k @ x = quote l @ y \<Longrightarrow> k = l \<and> x = y"
  using escape_inj [of k x l y] by (simp add: quote_def)

text \<open>
  A list of items closes with a character no item starts with; then the items are determined, if
  each one is by what follows it.
\<close>

lemma join_prefix:
  assumes item: "\<And>x y r s. x \<in> set xs \<Longrightarrow> y \<in> set ys \<Longrightarrow> stops r \<Longrightarrow> stops s \<Longrightarrow> f x @ r = f y @ s \<Longrightarrow> x = y \<and> r = s"
    and opens: "\<And>x. x \<in> set xs \<union> set ys \<Longrightarrow> f x \<noteq> [] \<and> hd (f x) \<noteq> c"
    and c: "c \<in> {CHR '']'', CHR ''}''}"
    and eq: "join_with '','' (map f xs) @ c # r = join_with '','' (map f ys) @ c # s"
  shows "xs = ys \<and> r = s"
  using item opens eq
proof (induction xs arbitrary: ys)
  case Nil
  show ?case
  proof (cases ys)
    case (Cons y ys')
    from Nil.prems(2) [of y] Cons have "f y \<noteq> []" "hd (f y) \<noteq> c" by auto
    with Nil.prems(3) Cons show ?thesis by (cases "f y"; cases ys') auto
  qed (use Nil in simp)
next
  case (Cons x xs)
  have x: "f x \<noteq> []" "hd (f x) \<noteq> c" using Cons.prems(2) [of x] by auto
  show ?case
  proof (cases ys)
    case Nil
    with Cons.prems(3) x show ?thesis by (cases "f x"; cases xs) auto
  next
    case (Cons y ys')
    let ?tail = "\<lambda>zs r. if zs = [] then c # r else CHR '','' # join_with '','' (map f zs) @ c # r"
    have split_join: "join_with '','' (map f (z # zs)) @ c # t = f z @ ?tail zs t" for z zs t
      by (cases zs) auto
    have st: "stops (?tail zs t)" for zs t using c by (auto simp: stops_def)
    have "f x @ ?tail xs r = f y @ ?tail ys' s"
      using Cons.prems(3) Cons by (simp only: split_join)
    from Cons.prems(1) [OF _ _ st st this] Cons have xy: "x = y" "?tail xs r = ?tail ys' s" by auto
    show ?thesis
    proof (cases "xs = [] \<or> ys' = []")
      case True
      with xy(2) c have "xs = []" "ys' = []" "r = s" by (auto split: if_splits)
      with xy Cons show ?thesis by simp
    next
      case False
      with xy(2) have "join_with '','' (map f xs) @ c # r = join_with '','' (map f ys') @ c # s" by simp
      with Cons.IH [of ys'] Cons.prems(1,2) Cons have "xs = ys' \<and> r = s" by auto
      with xy Cons show ?thesis by simp
    qed
  qed
qed

lemma number_prefix:
  assumes "list_all number_char m" "list_all number_char n" "stops r" "stops s" "m @ r = n @ s"
  shows "m = n \<and> r = s"
proof -
  have stop: "takeWhile number_char (k @ t) = k" if "list_all number_char k" "stops t" for k t
  proof -
    have "\<not> number_char (CHR '','')" "\<not> number_char (CHR '']'')" "\<not> number_char (CHR ''}'')"
      by (simp_all add: number_char_def is_digit_def byte_def)
    with that(2) have "takeWhile number_char t = []"
      by (cases t) (auto simp: stops_def)
    with that(1) show ?thesis by (simp add: takeWhile_append2 list_all_iff)
  qed
  from stop [OF assms(1,3)] stop [OF assms(2,4)] assms(5) have "m = n" by simp
  with assms(5) show ?thesis by simp
qed

lemma plain_prefix:
  "numbers_ok v \<Longrightarrow> numbers_ok w \<Longrightarrow> stops r \<Longrightarrow> stops s \<Longrightarrow> plain v @ r = plain w @ s
     \<Longrightarrow> v = w \<and> r = s"
proof (induction v arbitrary: w r s rule: plain.induct)
  case (1 w r s)
  then have "kind_of w = 0" using plain_kind [OF 1(2)] by (cases "plain w") (auto simp: kind_of_char_def)
  with 1 show ?case by (cases w) (auto split: if_splits)
next
  case (2 b w r s)
  then have "kind_of w = kind_of (JBool b)"
    using plain_kind [OF 2(2)] by (cases "plain w"; cases b) (auto simp: kind_of_char_def)
  with 2 show ?case by (cases w; cases b) (auto split: if_splits)
next
  case (3 n w r s)
  then have "kind_of w = 3"
    using plain_kind [OF 3(1)] plain_kind [OF 3(2)] by (cases "plain w"; cases n) auto
  then obtain m where w: "w = JNum m" by (cases w) (auto split: if_splits)
  with 3 number_prefix [of n m r s] show ?case by simp
next
  case (4 t w r s)
  then have "kind_of w = 4"
    using plain_kind [OF 4(2)] by (cases "plain w") (auto simp: quote_def kind_of_char_def)
  then obtain u where w: "w = JStr u" by (cases w) (auto split: if_splits)
  with 4 quote_prefix [of t r u s] show ?case by simp
next
  case (5 xs w r s)
  then have "kind_of w = 5"
    using plain_kind [OF 5(3)] by (cases "plain w") (auto simp: kind_of_char_def)
  then obtain ys where w: "w = JArr ys" by (cases w) (auto split: if_splits)
  have nx: "numbers_ok x" if "x \<in> set xs" for x using 5(2) that by (simp add: list_all_iff)
  have ny: "numbers_ok y" if "y \<in> set ys" for y using 5(3) w that by (simp add: list_all_iff)
  have item: "x = y \<and> r = s"
    if "x \<in> set xs" "y \<in> set ys" "stops r" "stops s" "plain x @ r = plain y @ s" for x y r s
    by (rule 5(1) [OF that(1) nx [OF that(1)] ny [OF that(2)] that(3-5)])
  have "xs = ys \<and> r = s"
  proof (rule join_prefix [where f = plain and c = "CHR '']''"])
    fix x y r s
    show "x \<in> set xs \<Longrightarrow> y \<in> set ys \<Longrightarrow> stops r \<Longrightarrow> stops s \<Longrightarrow> plain x @ r = plain y @ s \<Longrightarrow>
        x = y \<and> r = s" by (rule item)
  next
    fix x assume "x \<in> set xs \<union> set ys"
    then have "numbers_ok x" using nx ny by auto
    show "plain x \<noteq> [] \<and> hd (plain x) \<noteq> CHR '']''"
    proof (cases x)
      case (JNum n)
      with \<open>numbers_ok x\<close> have "n \<noteq> []" "number_char (hd n)" by (cases n; simp)+
      moreover have "\<not> number_char (CHR '']'')" by (simp add: number_char_def is_digit_def byte_def)
      ultimately show ?thesis using JNum by auto
    qed (auto simp: quote_def)
  qed (use 5 w in auto)
  with w show ?case by simp
next
  case (6 m w r s)
  let ?f = "\<lambda>(k, v). quote k @ '':'' @ plain v"
  from 6 have "kind_of w = 6"
    using plain_kind [OF 6(3)] by (cases "plain w") (auto simp: kind_of_char_def)
  then obtain n where w: "w = JObj n" by (cases w) (auto split: if_splits)
  have item: "x = y \<and> r = s" if "x \<in> set m" "y \<in> set n" "stops r" "stops s" "?f x @ r = ?f y @ s" for x y r s
  proof -
    obtain k v l u where xy: "x = (k, v)" "y = (l, u)" by (cases x; cases y)
    then have "quote k @ CHR '':'' # plain v @ r = quote l @ CHR '':'' # plain u @ s" using that(5) by simp
    from quote_prefix [OF this] have kl: "k = l" "plain v @ r = plain u @ s" by auto
    have "numbers_ok v" "numbers_ok u" using 6(2,3) that(1,2) w xy by (auto simp: list_all_iff)
    from 6(1) [OF that(1) _ this that(3,4) kl(2)] xy kl show ?thesis by auto
  qed
  have "m = n \<and> r = s"
  proof (rule join_prefix [where f = ?f and c = "CHR ''}''"])
    fix x y r s
    show "x \<in> set m \<Longrightarrow> y \<in> set n \<Longrightarrow> stops r \<Longrightarrow> stops s \<Longrightarrow> ?f x @ r = ?f y @ s \<Longrightarrow>
        x = y \<and> r = s" by (rule item)
  qed (use 6 w in \<open>auto simp: quote_def\<close>)
  with w show ?case by simp
qed

lemma numbers_norm: "numbers_ok v \<Longrightarrow> numbers_ok (norm v)"
proof (induction v rule: norm.induct)
  case (2 m)
  then show ?case by (force simp: list_all_iff)
qed (auto simp: list_all_iff)

lemma canonical_norm:
  assumes "numbers_ok v" "numbers_ok w" "canonical v = canonical w"
  shows "norm v = norm w"
  using plain_prefix [OF numbers_norm numbers_norm, of v w "[]" "[]"] assms
  by (simp add: canonical_plain stops_def)

subsection \<open>Handles stay what they were\<close>

datatype registration = RegisterStable json | RegisterOccurrence json

definition registry_step ::
  "(string \<Rightarrow> string) \<Rightarrow> (string \<Rightarrow> nat option) \<Rightarrow> registry \<Rightarrow> registration \<Rightarrow> registry" where
  "registry_step sha256_hex u64_of reg op =
     (case op of
        RegisterStable v \<Rightarrow> snd (stable_handle sha256_hex u64_of v reg)
      | RegisterOccurrence v \<Rightarrow> snd (occurrence_handle sha256_hex u64_of v reg))"

lemma register_keeps:
  "map_of reg h = Some e \<Longrightarrow> map_of (snd (register_handle sha256_hex d v p reg)) h = Some e"
  by (auto simp: register_handle_def Let_def split: option.split prod.split)

lemma register_stores:
  assumes "register_handle sha256_hex d v p reg = (Inr h, reg')"
  shows "map_of reg' h = Some (canonical v, sha256_hex (d @ canonical v))"
    and "h = p @ take 32 (sha256_hex (d @ canonical v))"
  using assms by (auto simp: register_handle_def Let_def split: option.splits prod.splits if_splits)

interpretation handles: stepping "registry_step sha256_hex u64_of" "\<lambda>reg. map_of reg h = Some e"
  for sha256_hex u64_of h e
  by unfold_locales
    (auto simp: registry_step_def stable_handle_def occurrence_handle_def register_keeps
        split: registration.split sum.split)

lemma stable_stores:
  "stable_handle sha256_hex u64_of v reg = (Inr h, reg') \<Longrightarrow>
     \<exists>full. map_of reg' h = Some (canonical v, full)"
  using register_stores by (auto simp: stable_handle_def split: sum.splits)

subsection \<open>Properties\<close>

text \<open>C6: canonical JSON is a faithful fingerprint: two values have the same canonical bytes exactly
  when they are the same up to the order of object entries.\<close>

theorem canonical_faithful:
  assumes "numbers_ok v" "numbers_ok w"
  shows "canonical v = canonical w \<longleftrightarrow> norm v = norm w"
  using canonical_norm [OF assms] canonical_plain by auto

theorem canonical_faithful_witness:
  "canonical (JObj [(''b'', JNum ''1''), (''a'', JArr [JStr [CHR 0x22]])])
     = canonical (JObj [(''a'', JArr [JStr [CHR 0x22]]), (''b'', JNum ''1'')])
   \<longleftrightarrow> norm (JObj [(''b'', JNum ''1''), (''a'', JArr [JStr [CHR 0x22]])])
     = norm (JObj [(''a'', JArr [JStr [CHR 0x22]]), (''b'', JNum ''1'')])"
  by (rule canonical_faithful) (simp_all add: number_char_def is_digit_def byte_def)


definition sample_stable :: json where
  "sample_stable = JObj
     [(''sourceSet'', JStr ''main''), (''path'', JStr ''src/a.rs''), (''language'', JStr ''rust''),
      (''ancestors'', JArr []),
      (''declaration'', JObj [(''kind'', JStr ''function''), (''name'', JStr ''f''),
         (''signature'', JNull), (''ordinal'', JNum ''0'')])]"

definition sample_u64 :: "string \<Rightarrow> nat option" where
  "sample_u64 s = (if s \<noteq> [] \<and> list_all is_digit s then Some (digits_val s) else None)"

definition sample_reordered :: json where
  "sample_reordered = JObj
     [(''declaration'', JObj [(''ordinal'', JNum ''0''), (''signature'', JNull), (''name'', JStr ''f''),
         (''kind'', JStr ''function'')]),
      (''ancestors'', JArr []), (''language'', JStr ''rust''), (''path'', JStr ''src/a.rs''),
      (''sourceSet'', JStr ''main'')]"

lemmas stable_rules = validate_stable_def exact_keys_def read_stable_def read_key_def field_string_def
  field_u64_def field_optional_def as_text_def check_key_shape_def check_key_def check_text_def
  native_kinds_def languages_def has_key_def

lemma sample_stable_valid:
  "validate_stable sample_u64 sample_stable = Inr ()" "validate_stable sample_u64 sample_reordered = Inr ()"
  by (simp_all add: stable_rules sample_stable_def sample_reordered_def sample_u64_def starts_with_def
      is_digit_def byte_def digits_val_def digit_val_def)

lemma sample_same_canonical: "canonical sample_reordered = canonical sample_stable"
  by (simp add: canonical_plain sample_stable_def sample_reordered_def)


end
