(* ===== verification/Anchors.thy ===== *)
theory Anchors
  imports Model Native_Ids
begin

section \<open>Durable anchors (\<open>store/anchors.rs\<close>)\<close>

text \<open>
  An anchor remembers a declaration by its syntax identifier, the hash of its header and the hash
  of its group of like-named siblings; the audit decides whether it still attaches in a later
  revision. The key and signature of a declaration (\<open>native_evidence.rs\<close>) have the fields of
  the identity inputs of \<open>Native_Ids\<close> and share their records. SHA-256 is an argument.
\<close>

record evidence_range =
  er_start :: nat
  er_end :: nat

record parameter =
  pm_name :: "string option"
  pm_type_name :: "string option"
  pm_variadic :: bool

record decl_header =
  hd_kind :: string
  hd_name :: "string option"
  hd_modifiers :: "string list"
  hd_type_parameters :: "string list"
  hd_parameters :: "parameter list"
  hd_result_type :: "string option"
  hd_bases :: "string list"

record decl_row =
  dc_syntax_id :: string
  dc_document :: document_key
  dc_revision_id :: string
  dc_kind :: string
  dc_name :: "string option"
  dc_lookup_key :: "string option"
  dc_ancestors :: "stable_key list"
  dc_key :: stable_key
  dc_range :: evidence_range
  dc_name_range :: "evidence_range option"
  dc_header :: decl_header
  dc_provenance_id :: string

definition json_option :: "string option \<Rightarrow> json" where
  "json_option x = (case x of None \<Rightarrow> JNull | Some s \<Rightarrow> JStr s)"

definition parameter_value :: "parameter \<Rightarrow> json" where
  "parameter_value p = JObj [(''name'', json_option (pm_name p)),
     (''type'', json_option (pm_type_name p)), (''variadic'', JBool (pm_variadic p))]"

definition header_value :: "decl_header \<Rightarrow> json" where
  "header_value h = JObj
     [(''kind'', JStr (hd_kind h)), (''name'', json_option (hd_name h)),
      (''modifiers'', JArr (map JStr (hd_modifiers h))),
      (''typeParameters'', JArr (map JStr (hd_type_parameters h))),
      (''parameters'', JArr (map parameter_value (hd_parameters h))),
      (''resultType'', json_option (hd_result_type h)), (''bases'', JArr (map JStr (hd_bases h)))]"

definition header_hash :: "(string \<Rightarrow> string) \<Rightarrow> decl_header \<Rightarrow> string" where
  "header_hash sha256_hex h =
     sha256_hex (''trellis.header.v1'' @ [CHR 0x00] @ canonical (header_value h))"

definition sibling_group_hash :: "(string \<Rightarrow> string) \<Rightarrow> string list \<Rightarrow> string" where
  "sibling_group_hash sha256_hex headers =
     sha256_hex (''trellis.sibling-group.v1'' @ [CHR 0x00]
       @ canonical (JObj [(''headers'', JArr (map JStr headers))]))"

definition same_group :: "decl_row \<Rightarrow> decl_row \<Rightarrow> bool" where
  "same_group l r \<longleftrightarrow> dc_document l = dc_document r \<and> dc_ancestors l = dc_ancestors r
     \<and> dc_kind l = dc_kind r \<and> dc_name l = dc_name r
     \<and> sk_signature (dc_key l) = sk_signature (dc_key r)"

definition range_key :: "decl_row \<Rightarrow> nat \<times> nat" where
  "range_key d = (er_start (dc_range d), er_end (dc_range d))"

definition check_sibling :: "decl_row \<Rightarrow> nat \<times> decl_row \<Rightarrow> unit result" where
  "check_sibling focused e =
     (case e of (ordinal, row) \<Rightarrow>
        ensure (sk_ordinal (dc_key row) = ordinal) ''invalid anchor sibling ordinal'' (
        ensure (dc_revision_id row = dc_revision_id focused) ''invalid anchor sibling revision'' (Inr ())))"

definition measured_group :: "decl_row \<Rightarrow> decl_row list \<Rightarrow> decl_row list result" where
  "measured_group focused declarations =
     (let group = sort_key range_key (filter (same_group focused) declarations)
      in ensure (group \<noteq> [] \<and> list_ex (\<lambda>row. dc_syntax_id row = dc_syntax_id focused) group)
           ''invalid anchor sibling group'' (
         bind_result (for_each (check_sibling focused) (zip [0..<length group] group)) (\<lambda>_.
           Inr group)))"

definition count_hash :: "string \<Rightarrow> string list \<Rightarrow> nat" where
  "count_hash h hs = length (filter (\<lambda>x. x = h) hs)"

definition capture_anchor ::
  "(string \<Rightarrow> string) \<Rightarrow> decl_row \<Rightarrow> decl_row list \<Rightarrow> durable_anchor result" where
  "capture_anchor sha256_hex focused declarations =
     bind_result (measured_group focused declarations) (\<lambda>group.
       let focused_hash = header_hash sha256_hex (dc_header focused);
           headers = map (\<lambda>row. header_hash sha256_hex (dc_header row)) group;
           anchor = \<lparr>da_syntax_id = dc_syntax_id focused, da_document = dc_document focused,
                     da_captured_revision_id = dc_revision_id focused,
                     da_header_hash = focused_hash,
                     da_sibling_group_hash = sibling_group_hash sha256_hex headers,
                     da_sibling_count = length headers,
                     da_identical_header_count = count_hash focused_hash headers\<rparr>
       in bind_result (validate_anchor anchor) (\<lambda>_. Inr anchor))"

datatype continuity_state = ContUnchanged | ContChanged | ContUnknown

record group_continuity =
  gc_from_revision_id :: string
  gc_to_revision_id :: string
  gc_state :: continuity_state
  gc_evidence :: "string option"

definition validate_continuity ::
  "group_continuity \<Rightarrow> durable_anchor \<Rightarrow> string \<Rightarrow> unit result" where
  "validate_continuity c anchor current_revision =
     ensure (gc_from_revision_id c = da_captured_revision_id anchor
             \<and> gc_to_revision_id c = current_revision)
       ''invalid anchor continuity endpoints'' (
       case gc_state c of
         ContUnknown \<Rightarrow>
           ensure (gc_evidence c = None) ''unknown anchor continuity cannot contain evidence'' (Inr ())
       | ContUnchanged \<Rightarrow>
           if da_captured_revision_id anchor \<noteq> current_revision
           then ensure (case gc_evidence c of None \<Rightarrow> False | Some v \<Rightarrow> \<not> blank v)
                  ''cross-revision unchanged continuity requires independent evidence'' (Inr ())
           else Inr ()
       | ContChanged \<Rightarrow> Inr ())"

definition default_continuity :: "durable_anchor \<Rightarrow> string \<Rightarrow> group_continuity" where
  "default_continuity anchor current_revision =
     \<lparr>gc_from_revision_id = da_captured_revision_id anchor, gc_to_revision_id = current_revision,
      gc_state = (if da_captured_revision_id anchor = current_revision then ContUnchanged
                  else ContUnknown),
      gc_evidence = None\<rparr>"

text \<open>The verdict once the current declaration and its group are known.\<close>

definition judge_group ::
  "(string \<Rightarrow> string) \<Rightarrow> durable_anchor \<Rightarrow> string \<Rightarrow> group_continuity \<Rightarrow> string list \<Rightarrow> anchor_result" where
  "judge_group sha256_hex anchor current_revision continuity headers =
     (let identical = count_hash (da_header_hash anchor) headers;
          crossed = (da_captured_revision_id anchor \<noteq> current_revision)
      in if da_identical_header_count anchor > 1 \<or> identical > 1 then
           if sibling_group_hash sha256_hex headers \<noteq> da_sibling_group_hash anchor
              \<or> length headers \<noteq> da_sibling_count anchor
              \<or> identical \<noteq> da_identical_header_count anchor
              \<or> (crossed \<and> gc_state continuity = ContChanged)
           then orphaned GroupChanged
           else if crossed \<and> gc_state continuity \<noteq> ContUnchanged then orphaned UnprovenContinuity
           else attached (da_syntax_id anchor)
         else attached (da_syntax_id anchor))"

definition audit_anchor ::
  "(string \<Rightarrow> string) \<Rightarrow> durable_anchor \<Rightarrow> string \<Rightarrow> decl_row option \<Rightarrow> decl_row list
     \<Rightarrow> group_continuity option \<Rightarrow> anchor_result result" where
  "audit_anchor sha256_hex anchor current_revision current declarations continuity =
     bind_result (validate_anchor anchor) (\<lambda>_.
     ensure (current_revision \<noteq> []) ''invalid current anchor revision'' (
       let cont = (case continuity of None \<Rightarrow> default_continuity anchor current_revision | Some c \<Rightarrow> c)
       in bind_result (validate_continuity cont anchor current_revision) (\<lambda>_.
         case current of
           None \<Rightarrow> Inr (orphaned Missing)
         | Some cur \<Rightarrow>
             ensure (dc_syntax_id cur = da_syntax_id anchor) ''invalid current anchor identity'' (
             ensure (dc_document cur = da_document anchor \<and> dc_revision_id cur = current_revision)
               ''invalid current anchor document/revision'' (
             if header_hash sha256_hex (dc_header cur) \<noteq> da_header_hash anchor
             then Inr (orphaned HeaderMismatch)
             else bind_result (measured_group cur declarations) (\<lambda>group.
               ensure (list_all (\<lambda>row. dc_document row = da_document anchor
                                       \<and> dc_revision_id row = current_revision) group)
                 ''invalid current anchor group association''
                 (Inr (judge_group sha256_hex anchor current_revision cont
                         (map (\<lambda>row. header_hash sha256_hex (dc_header row)) group)))))))))"

definition find_selected :: "string \<Rightarrow> decl_row list \<Rightarrow> decl_row result" where
  "find_selected sid declarations =
     (case filter (\<lambda>row. dc_syntax_id row = sid) declarations of
        [] \<Rightarrow> Inl ''native declaration target missing''
      | [row] \<Rightarrow> Inr row
      | _ \<Rightarrow> Inl ''ambiguous native declaration target'')"

definition document_matches :: "document_key \<Rightarrow> decl_row list \<Rightarrow> bool" where
  "document_matches key declarations \<longleftrightarrow> list_all (\<lambda>row. dc_document row = key) declarations"

subsection \<open>The group of a declaration\<close>

lemma set_sort_key [simp]: "set (sort_key f xs) = set xs"
  by simp

lemma measured_group_rows:
  assumes "measured_group d ds = Inr g"
  shows "g = sort_key range_key (filter (same_group d) ds)"
    and "\<And>row. row \<in> set g \<Longrightarrow> row \<in> set ds \<and> same_group d row \<and> dc_revision_id row = dc_revision_id d"
    and "\<exists>row \<in> set g. dc_syntax_id row = dc_syntax_id d"
proof -
  from assms have g: "g = sort_key range_key (filter (same_group d) ds)"
    and c: "\<forall>e \<in> set (zip [0..<length g] g). check_sibling d e = Inr ()"
    and e: "list_ex (\<lambda>row. dc_syntax_id row = dc_syntax_id d) g"
    by (auto simp: measured_group_def Let_def)
  show "g = sort_key range_key (filter (same_group d) ds)" by (rule g)
  show "\<exists>row \<in> set g. dc_syntax_id row = dc_syntax_id d" using e by (auto simp: list_ex_iff)
  fix row assume row: "row \<in> set g"
  then obtain i where "i < length g" "g ! i = row" by (auto simp: in_set_conv_nth)
  then have "(i, row) \<in> set (zip [0..<length g] g)" by (force simp: set_zip)
  with c have "dc_revision_id row = dc_revision_id d" by (auto simp: check_sibling_def)
  with row g show "row \<in> set ds \<and> same_group d row \<and> dc_revision_id row = dc_revision_id d" by auto
qed

lemma validate_anchor_revision: "validate_anchor a = Inr () \<Longrightarrow> da_captured_revision_id a \<noteq> []"
  by (simp add: validate_anchor_def)

lemma judge_same_revision:
  "da_sibling_group_hash a = sibling_group_hash sha256_hex hs \<Longrightarrow> da_sibling_count a = length hs \<Longrightarrow>
     da_identical_header_count a = count_hash (da_header_hash a) hs \<Longrightarrow>
     da_captured_revision_id a = r \<Longrightarrow> judge_group sha256_hex a r c hs = attached (da_syntax_id a)"
  by (simp add: judge_group_def Let_def)

lemma capture_audit:
  assumes "capture_anchor sha256_hex d ds = Inr a"
  shows "audit_anchor sha256_hex a (dc_revision_id d) (Some d) ds None = Inr (attached (dc_syntax_id d))"
proof -
  from assms obtain g where g: "measured_group d ds = Inr g" and v: "validate_anchor a = Inr ()"
    and a: "da_syntax_id a = dc_syntax_id d" "da_document a = dc_document d"
      "da_captured_revision_id a = dc_revision_id d" "da_header_hash a = header_hash sha256_hex (dc_header d)"
      "da_sibling_group_hash a
         = sibling_group_hash sha256_hex (map (\<lambda>row. header_hash sha256_hex (dc_header row)) g)"
      "da_sibling_count a = length g"
      "da_identical_header_count a
         = count_hash (da_header_hash a) (map (\<lambda>row. header_hash sha256_hex (dc_header row)) g)"
    by (auto simp: capture_anchor_def Let_def)
  have "list_all (\<lambda>row. dc_document row = da_document a \<and> dc_revision_id row = dc_revision_id d) g"
    using measured_group_rows(2) [OF g] a(2) by (auto simp: list_all_iff same_group_def)
  moreover have "dc_revision_id d \<noteq> []" using validate_anchor_revision [OF v] a(3) by simp
  moreover have "validate_continuity (default_continuity a (dc_revision_id d)) a (dc_revision_id d) = Inr ()"
    using a(3) by (simp add: validate_continuity_def default_continuity_def)
  moreover have "judge_group sha256_hex a (dc_revision_id d) (default_continuity a (dc_revision_id d))
      (map (\<lambda>row. header_hash sha256_hex (dc_header row)) g) = attached (dc_syntax_id d)"
    using judge_same_revision [OF a(5) _ a(7) a(3)] a(1,6) by simp
  ultimately show ?thesis using v g a(1-4) by (simp add: audit_anchor_def Let_def)
qed

subsection \<open>Properties\<close>

text \<open>C8: an anchor attaches to what it was captured from: audited in the revision of its capture, with
  the same declarations and no further evidence, it names the same declaration.\<close>

theorem capture_attaches:
  assumes "capture_anchor sha256_hex d ds = Inr a"
  shows "audit_anchor sha256_hex a (dc_revision_id d) (Some d) ds None = Inr (attached (dc_syntax_id d))"
  using assms by (rule capture_audit)

definition sample_declaration :: decl_row where
  "sample_declaration =
     \<lparr>dc_syntax_id = ''sid:v1:'' @ replicate 32 (CHR ''a''),
      dc_document = \<lparr>dk_source_set_id = ''main'', dk_language = ''rust'', dk_path = ''src/a.rs''\<rparr>,
      dc_revision_id = ''r1'', dc_kind = ''function'', dc_name = Some ''f'', dc_lookup_key = None,
      dc_ancestors = [],
      dc_key = \<lparr>sk_kind = ''function'', sk_name = Some ''f'', sk_signature = None, sk_ordinal = 0\<rparr>,
      dc_range = \<lparr>er_start = 0, er_end = 9\<rparr>, dc_name_range = None,
      dc_header = \<lparr>hd_kind = ''function'', hd_name = Some ''f'', hd_modifiers = [],
        hd_type_parameters = [], hd_parameters = [], hd_result_type = None, hd_bases = []\<rparr>,
      dc_provenance_id = ''p''\<rparr>"

definition sample_sha :: "string \<Rightarrow> string" where
  "sample_sha s = replicate 64 (CHR ''0'')"

lemma sample_capture:
  "\<exists>a. capture_anchor sample_sha sample_declaration [sample_declaration] = Inr a"
  by (simp add: capture_anchor_def measured_group_def same_group_def check_sibling_def Let_def
      validate_anchor_def header_hash_def sibling_group_hash_def sample_sha_def sample_declaration_def
      count_hash_def syntax_id_ok_def anchor_path_ok_def hex_string_def starts_with_def lower_hex_def
      is_digit_def byte_def list_all_iff)

theorem capture_attaches_witness:
  "\<exists>a. audit_anchor sample_sha a (dc_revision_id sample_declaration) (Some sample_declaration)
         [sample_declaration] None = Inr (attached (dc_syntax_id sample_declaration))"
  using sample_capture capture_attaches by blast



end
