(* ===== verification/Registry.thy ===== *)
theory Registry
  imports Tools
begin

section \<open>Checkout admission and lifecycle (\<open>daemon/registry.rs\<close>)\<close>

text \<open>
  The daemon's registry of checkouts: which sessions and browsers hold a checkout, which runtimes
  are active, and the deadlines of release and exit. Time is in milliseconds. A checkout's identity
  is the metadata by which the registry compares it. What the registry observes of the outside (the
  identity checks, rediscovering a root, the state of a runtime, the durable queues of unattached
  roots) is a record \<open>world\<close>, indexed by the number of the observation where a call repeats it.
\<close>

definition MAX_ACTIVE_CHECKOUTS :: nat where "MAX_ACTIVE_CHECKOUTS = 64"
definition BROWSER_IDLE_DELAY :: nat where "BROWSER_IDLE_DELAY = 15 * 60 * 1000"
definition CHECKOUT_RELEASE_DELAY :: nat where "CHECKOUT_RELEASE_DELAY = 15 * 60 * 1000"
definition DAEMON_IDLE_DELAY :: nat where "DAEMON_IDLE_DELAY = 30 * 60 * 1000"

record lifecycle_tick =
  tick_released :: "string list"
  tick_exit :: bool

record metadata =
  md_root :: string
  root_key :: string
  record_id :: string
  md_device :: nat
  md_inode :: nat

definition metadata_matches :: "metadata \<Rightarrow> metadata \<Rightarrow> bool" where
  "metadata_matches m identity \<longleftrightarrow> md_root m = md_root identity \<and> root_key m = root_key identity
     \<and> record_id m = record_id identity \<and> (md_device m, md_inode m) = (md_device identity, md_inode identity)"

record entry =
  e_identity :: metadata
  registration :: "json option"
  sessions :: "nat list"
  released :: bool
  pending_work :: bool
  external_work :: bool
  browser_until :: "nat option"
  release_at :: "nat option"

text \<open>The maps of runtimes, permits and epochs are the lists of their keys.\<close>

record checkout_registry =
  entries :: "(string \<times> entry) list"
  runtimes :: "string list"
  idle_permits :: "string list"
  idle_epochs :: "string list"
  idle_exit_at :: "nat option"
  orphan_scan_cache :: "(nat \<times> bool) option"
  orphan_scan_count :: nat

definition starting_at :: "nat \<Rightarrow> checkout_registry" where
  "starting_at now = \<lparr>entries = [], runtimes = [], idle_permits = [], idle_epochs = [],
     idle_exit_at = Some (now + DAEMON_IDLE_DELAY), orphan_scan_cache = None, orphan_scan_count = 0\<rparr>"

text \<open>A runtime as the release decision sees it: at first, and again under the phase lock.\<close>

record runtime_view =
  resources_held :: bool
  h_in_flight :: bool
  still_catching_up :: bool
  retry_waiting :: bool
  active_reads :: nat
  queue_pending :: bool
  locked_h_in_flight :: bool
  locked_transitional :: bool
  locked_retry_waiting :: bool
  locked_active_reads :: nat
  permit_offered :: bool

record world =
  verifies :: "nat \<Rightarrow> metadata \<Rightarrow> bool"
  found :: "nat \<Rightarrow> metadata \<Rightarrow> metadata option"
  views :: "nat \<Rightarrow> string \<Rightarrow> runtime_view"
  orphans_pending :: bool

definition entry_of :: "checkout_registry \<Rightarrow> string \<Rightarrow> entry option" where
  "entry_of s k = map_of (entries s) k"

definition put_entry :: "string \<Rightarrow> entry \<Rightarrow> checkout_registry \<Rightarrow> checkout_registry" where
  "put_entry k e s = s\<lparr>entries := set_key k e (entries s)\<rparr>"

definition active_count :: "checkout_registry \<Rightarrow> nat" where
  "active_count s = length (filter (\<lambda>(_, e). \<not> released e \<or> pending_work e) (entries s))"

definition attached_client :: "entry \<Rightarrow> bool" where
  "attached_client e \<longleftrightarrow> sessions e \<noteq> [] \<or> browser_until e \<noteq> None"

subsection \<open>Releasing\<close>

type_synonym 'a checked = "selection_error + 'a"

definition refresh_pending_work ::
  "(string \<Rightarrow> runtime_view) \<Rightarrow> string \<Rightarrow> checkout_registry \<Rightarrow> bool checked \<times> checkout_registry" where
  "refresh_pending_work see key s = (case entry_of s key of
       None \<Rightarrow> (Inl Unavailable, s)
     | Some e \<Rightarrow>
         if external_work e then (Inr True, put_entry key (e\<lparr>pending_work := True\<rparr>) s)
         else if key \<notin> set (runtimes s) then (Inr (pending_work e), s)
         else (let r = see key in
           if \<not> resources_held r then (Inl Unavailable, s)
           else (let pending = (still_catching_up r \<and> \<not> retry_waiting r) \<or> active_reads r \<noteq> 0 \<or> queue_pending r
             in (Inr pending, put_entry key (e\<lparr>pending_work := pending\<rparr>) s))))"

text \<open>\<open>release_runtime\<close>: whether the runtime went, with its prior-head permit kept when it offers one.\<close>

definition release_runtime ::
  "(string \<Rightarrow> runtime_view) \<Rightarrow> string \<Rightarrow> checkout_registry \<Rightarrow> bool checked \<times> checkout_registry" where
  "release_runtime see key s =
     (if key \<notin> set (runtimes s) then (Inr True, s)
      else (let r = see key in
        if \<not> resources_held r then (Inl Unavailable, s)
        else if h_in_flight r \<or> (still_catching_up r \<and> \<not> retry_waiting r) \<or> active_reads r \<noteq> 0 \<or> queue_pending r
        then (Inr False, s)
        else if locked_h_in_flight r \<or> (locked_transitional r \<and> \<not> locked_retry_waiting r) \<or> locked_active_reads r \<noteq> 0
        then (Inr False, s)
        else (Inr True, s\<lparr>runtimes := removeAll key (runtimes s),
               idle_epochs := (if permit_offered r then List.insert key (idle_epochs s) else idle_epochs s),
               idle_permits := (if permit_offered r then List.insert key (idle_permits s) else idle_permits s)\<rparr>)))"

definition release ::
  "(string \<Rightarrow> runtime_view) \<Rightarrow> (string \<Rightarrow> runtime_view) \<Rightarrow> string \<Rightarrow> checkout_registry \<Rightarrow> bool checked \<times> checkout_registry" where
  "release see see' key s = (case refresh_pending_work see key s of
       (Inl e, s1) \<Rightarrow> (Inl e, s1)
     | (Inr _, s1) \<Rightarrow> (case entry_of s1 key of
         None \<Rightarrow> (Inl Unavailable, s1)
       | Some e \<Rightarrow>
           if attached_client e \<or> pending_work e then (Inr False, s1)
           else (case release_runtime see' key s1 of
               (Inl er, s2) \<Rightarrow> (Inl er, s2)
             | (Inr False, s2) \<Rightarrow> (Inr False, s2)
             | (Inr True, s2) \<Rightarrow> (Inr True, put_entry key (e\<lparr>released := True\<rparr>) s2))))"

subsection \<open>Identity replacement\<close>

definition can_retire_replaced :: "world \<Rightarrow> nat \<Rightarrow> metadata \<Rightarrow> checkout_registry \<Rightarrow> bool" where
  "can_retire_replaced w k identity s = (case entry_of s (root_key identity) of
       None \<Rightarrow> True
     | Some e \<Rightarrow>
         if metadata_matches (e_identity e) identity then True
         else if attached_client e \<or> pending_work e \<or> external_work e then False
         else (case found w k identity of None \<Rightarrow> False
           | Some f \<Rightarrow> \<not> metadata_matches (e_identity e) f \<and> record_id f = record_id identity
               \<and> (md_device f, md_inode f) = (md_device identity, md_inode identity)))"

definition forget :: "string \<Rightarrow> checkout_registry \<Rightarrow> checkout_registry" where
  "forget key s = s\<lparr>entries := drop_key key (entries s),
     idle_permits := removeAll key (idle_permits s), idle_epochs := removeAll key (idle_epochs s)\<rparr>"

definition retire_replaced :: "world \<Rightarrow> nat \<Rightarrow> metadata \<Rightarrow> checkout_registry \<Rightarrow> unit checked \<times> checkout_registry" where
  "retire_replaced w k identity s = (case entry_of s (root_key identity) of
       None \<Rightarrow> (Inr (), s)
     | Some e \<Rightarrow>
         if metadata_matches (e_identity e) identity then (Inr (), s)
         else if \<not> can_retire_replaced w k identity s then (Inl IdentityChanged, s)
         else (case release (views w 0) (views w 1) (root_key identity) s of
             (Inl er, s') \<Rightarrow> (Inl er, s')
           | (Inr False, s') \<Rightarrow> (Inl IdentityChanged, s')
           | (Inr True, s') \<Rightarrow> (Inr (), forget (root_key identity) s')))"

subsection \<open>Registration\<close>

definition bare_entry :: "metadata \<Rightarrow> json option \<Rightarrow> entry" where
  "bare_entry identity options = \<lparr>e_identity = identity, registration = options, sessions = [],
     released = True, pending_work = False, external_work = False, browser_until = None, release_at = None\<rparr>"

definition register_discovered :: "metadata \<Rightarrow> checkout_registry \<Rightarrow> checkout_registry" where
  "register_discovered identity s = put_entry (root_key identity) (bare_entry identity None) s"

definition registration_conflict :: "string \<Rightarrow> json \<Rightarrow> entry \<Rightarrow> checkout_registry \<Rightarrow> bool" where
  "registration_conflict key options e s \<longleftrightarrow> registration e \<noteq> Some options \<and>
     (registration e \<noteq> None \<or> key \<in> set (runtimes s)) \<and>
     (\<not> released e \<or> pending_work e \<or> sessions e \<noteq> [])"

definition can_register ::
  "world \<Rightarrow> unit checked \<Rightarrow> metadata \<Rightarrow> json \<Rightarrow> checkout_registry \<Rightarrow> unit checked \<times> checkout_registry" where
  "can_register w valid_options identity options s =
     (if \<not> verifies w 0 identity then (Inl IdentityChanged, s)
      else (case valid_options of Inl e \<Rightarrow> (Inl e, s) | Inr _ \<Rightarrow>
       (case retire_replaced w 0 identity s of
          (Inl e, s') \<Rightarrow> (Inl e, s')
        | (Inr _, s') \<Rightarrow> (case entry_of s' (root_key identity) of
            Some e \<Rightarrow> (if registration_conflict (root_key identity) options e s' then (Inl RegistrationConflict, s') else (Inr (), s'))
          | None \<Rightarrow> (Inr (), s')))))"

definition register :: "world \<Rightarrow> metadata \<Rightarrow> json \<Rightarrow> checkout_registry \<Rightarrow> unit checked \<times> checkout_registry" where
  "register w identity options s =
     (if \<not> verifies w 0 identity then (Inl IdentityChanged, s)
      else (case retire_replaced w 0 identity s of
          (Inl e, s') \<Rightarrow> (Inl e, s')
        | (Inr _, s') \<Rightarrow> (case entry_of s' (root_key identity) of
            Some e \<Rightarrow>
              if \<not> metadata_matches (e_identity e) identity then (Inl IdentityChanged, s')
              else if registration e = Some options then (Inr (), s')
              else if registration_conflict (root_key identity) options e s' then (Inl RegistrationConflict, s')
              else (Inr (), put_entry (root_key identity) (e\<lparr>registration := Some options\<rparr>) s')
          | None \<Rightarrow> (Inr (), put_entry (root_key identity) (bare_entry identity (Some options)) s'))))"

subsection \<open>Attaching\<close>

text \<open>\<open>HashSet::insert\<close> on the sessions, \<open>session\<close> being absent for a browser.\<close>

definition with_session :: "nat option \<Rightarrow> nat list \<Rightarrow> nat list" where
  "with_session session xs = (case session of None \<Rightarrow> xs | Some n \<Rightarrow> List.insert n xs)"

definition attach :: "world \<Rightarrow> nat \<Rightarrow> nat option \<Rightarrow> metadata \<Rightarrow> checkout_registry \<Rightarrow> metadata checked \<times> checkout_registry" where
  "attach w k session identity s = (case retire_replaced w k identity s of
       (Inl e, s') \<Rightarrow> (Inl e, s')
     | (Inr _, s') \<Rightarrow>
       (let at_capacity = active_count s' \<ge> MAX_ACTIVE_CHECKOUTS in
        case entry_of s' (root_key identity) of
          Some e \<Rightarrow>
            if \<not> metadata_matches (e_identity e) identity then (Inl IdentityChanged, s')
            else if released e \<and> at_capacity then (Inl CheckoutCapacity, s')
            else if \<not> verifies w k identity then (Inl IdentityChanged, s')
            else (Inr identity, (put_entry (root_key identity)
                (e\<lparr>sessions := with_session session (sessions e), release_at := None, released := False\<rparr>) s')
                \<lparr>idle_exit_at := None\<rparr>)
        | None \<Rightarrow>
            if at_capacity then (Inl CheckoutCapacity, s')
            else if \<not> verifies w k identity then (Inl IdentityChanged, s')
            else (Inr identity, (put_entry (root_key identity)
                ((bare_entry identity None)\<lparr>sessions := with_session session [], released := False\<rparr>) s')
                \<lparr>idle_exit_at := None\<rparr>)))"

definition attach_launch :: "world \<Rightarrow> nat \<Rightarrow> metadata \<Rightarrow> checkout_registry \<Rightarrow> metadata checked \<times> checkout_registry" where
  "attach_launch w session launch s =
     (if \<not> verifies w 0 launch then (Inl IdentityChanged, s) else attach w 1 (Some session) launch s)"

text \<open>
  What selecting a checkout observes, in the code's order: the root of the selected path, its
  identity before the marker, the marker's attachment, and the common directory of launch and
  selected checkout at each of the three times it is read.
\<close>

record membership =
  checkout_root :: "string checked"
  unattached :: "unit checked"
  marked :: "metadata option"
  launch_common :: "nat \<Rightarrow> (nat \<times> nat) checked"
  selected_common :: "nat \<Rightarrow> (nat \<times> nat) checked"

record selected_checkout =
  sel_identity :: metadata
  sel_launch :: metadata
  sel_launch_common :: "nat \<times> nat"
  sel_selected_common :: "nat \<times> nat"

definition verified :: "world \<Rightarrow> nat \<Rightarrow> metadata \<Rightarrow> unit checked" where
  "verified w k m = (if verifies w k m then Inr () else Inl IdentityChanged)"

text \<open>The fence before an answer, at the k-th reading of the common directories.\<close>

definition before_answer :: "world \<Rightarrow> nat \<Rightarrow> membership \<Rightarrow> nat \<Rightarrow> selected_checkout \<Rightarrow> unit checked" where
  "before_answer w k m n sel =
     bind_result (verified w k (sel_launch sel)) (\<lambda>_.
     bind_result (verified w (k + 1) (sel_identity sel)) (\<lambda>_.
     bind_result (launch_common m n) (\<lambda>lc.
     ensure (lc = sel_launch_common sel) IdentityChanged
    (bind_result (selected_common m n) (\<lambda>sc.
     ensure (sc = sel_selected_common sel \<and> sel_launch_common sel = sel_selected_common sel) IdentityChanged
    (bind_result (verified w (k + 2) (sel_launch sel)) (\<lambda>_.
     verified w (k + 3) (sel_identity sel))))))))"

text \<open>The checks of \<open>select\<close> before it attaches.\<close>

definition select_checks :: "world \<Rightarrow> metadata \<Rightarrow> membership \<Rightarrow> selected_checkout checked" where
  "select_checks w launch m =
     bind_result (verified w 0 launch) (\<lambda>_.
     bind_result (checkout_root m) (\<lambda>_.
     bind_result (unattached m) (\<lambda>_.
     bind_result (launch_common m 0) (\<lambda>lc.
     bind_result (selected_common m 0) (\<lambda>sc.
     ensure (lc = sc) DifferentRepository
    (bind_result (ok_or (marked m) Unavailable) (\<lambda>identity.
     bind_result (verified w 1 launch) (\<lambda>_.
     bind_result (verified w 2 identity) (\<lambda>_.
     bind_result (launch_common m 1) (\<lambda>lc'.
     ensure (lc' = lc) IdentityChanged
    (bind_result (selected_common m 1) (\<lambda>sc'.
     ensure (sc' = sc) IdentityChanged
    (bind_result (verified w 3 launch) (\<lambda>_.
     bind_result (verified w 4 identity) (\<lambda>_.
     let sel = \<lparr>sel_identity = identity, sel_launch = launch, sel_launch_common = lc, sel_selected_common = sc\<rparr> in
     bind_result (before_answer w 5 m 2 sel) (\<lambda>_. Inr sel))))))))))))))))"

definition select ::
  "world \<Rightarrow> nat \<Rightarrow> metadata \<Rightarrow> membership \<Rightarrow> checkout_registry \<Rightarrow> selected_checkout checked \<times> checkout_registry" where
  "select w session launch m s = (case select_checks w launch m of
       Inl e \<Rightarrow> (Inl e, s)
     | Inr sel \<Rightarrow> (case attach w 9 (Some session) (sel_identity sel) s of
           (Inl e, s') \<Rightarrow> (Inl e, s')
         | (Inr identity, s') \<Rightarrow> (Inr (sel\<lparr>sel_identity := identity\<rparr>), s')))"

text \<open>\<open>capacity_witness\<close>: the same membership, established read-only; \<open>marked\<close> is the existing marker.\<close>

definition capacity_witness :: "world \<Rightarrow> metadata \<Rightarrow> membership \<Rightarrow> selected_checkout checked" where
  "capacity_witness w launch m =
     bind_result (verified w 0 launch) (\<lambda>_.
     bind_result (checkout_root m) (\<lambda>_.
     bind_result (ok_or (marked m) IdentityChanged) (\<lambda>identity.
     bind_result (launch_common m 0) (\<lambda>lc.
     bind_result (selected_common m 0) (\<lambda>sc.
     ensure (lc = sc) IdentityChanged
    (bind_result (verified w 1 launch) (\<lambda>_.
     bind_result (verified w 2 identity) (\<lambda>_.
     let sel = \<lparr>sel_identity = identity, sel_launch = launch, sel_launch_common = lc, sel_selected_common = sc\<rparr> in
     bind_result (before_answer w 3 m 1 sel) (\<lambda>_. Inr sel)))))))))"

text \<open>\<open>browser_identity\<close>; \<open>listed\<close> is the identity behind an index that is not registered yet.\<close>

definition browser_identity ::
  "world \<Rightarrow> metadata checked \<Rightarrow> string \<Rightarrow> checkout_registry \<Rightarrow> metadata checked \<times> checkout_registry" where
  "browser_identity w listed key s =
     (if \<not> hex_string 64 key then (Inl NotCheckout, s)
      else (case (if entry_of s key = None
                  then bind_result listed (\<lambda>i. ensure (root_key i = key) IdentityChanged (Inr (register_discovered i s)))
                  else Inr s) of
          Inl e \<Rightarrow> (Inl e, s)
        | Inr s1 \<Rightarrow> (case entry_of s1 key of None \<Rightarrow> (Inl NotCheckout, s1) | Some e \<Rightarrow>
            (case found w 0 (e_identity e) of
               Some i \<Rightarrow> if metadata_matches (e_identity e) i then (Inr i, s1) else
                 (case found w 1 (e_identity e) of
                    None \<Rightarrow> (Inl IdentityChanged, s1)
                  | Some current \<Rightarrow>
                     if root_key current \<noteq> key \<or> metadata_matches (e_identity e) current then (Inl IdentityChanged, s1)
                     else (case retire_replaced w 2 current s1 of
                         (Inl er, s2) \<Rightarrow> (Inl er, s2)
                       | (Inr _, s2) \<Rightarrow> (Inr current, register_discovered current s2)))
             | None \<Rightarrow>
                 (case found w 1 (e_identity e) of
                    None \<Rightarrow> (Inl IdentityChanged, s1)
                  | Some current \<Rightarrow>
                     if root_key current \<noteq> key \<or> metadata_matches (e_identity e) current then (Inl IdentityChanged, s1)
                     else (case retire_replaced w 2 current s1 of
                         (Inl er, s2) \<Rightarrow> (Inl er, s2)
                       | (Inr _, s2) \<Rightarrow> (Inr current, register_discovered current s2)))))))"

subsection \<open>Leaving and the clocks\<close>

definition set_pending_work :: "string \<Rightarrow> bool \<Rightarrow> checkout_registry \<Rightarrow> unit checked \<times> checkout_registry" where
  "set_pending_work key pending s = (case entry_of s key of
       None \<Rightarrow> (Inl Unavailable, s)
     | Some e \<Rightarrow> (Inr (), put_entry key (e\<lparr>external_work := pending, pending_work := pending\<rparr>) s))"

text \<open>A loop over \<open>entries.values_mut()\<close>.\<close>

definition map_entries :: "(entry \<Rightarrow> entry) \<Rightarrow> checkout_registry \<Rightarrow> checkout_registry" where
  "map_entries f s = s\<lparr>entries := map (\<lambda>(k, e). (k, f e)) (entries s)\<rparr>"

definition expires :: "nat \<Rightarrow> entry \<Rightarrow> bool" where
  "expires now e \<longleftrightarrow> (case browser_until e of None \<Rightarrow> False | Some until \<Rightarrow> until \<le> now)"

definition expire_entry :: "nat \<Rightarrow> entry \<Rightarrow> entry" where
  "expire_entry now e = (if expires now e
     then (if sessions e = [] then e\<lparr>browser_until := None,
             release_at := map_option (\<lambda>until. until + CHECKOUT_RELEASE_DELAY) (browser_until e)\<rparr>
           else e\<lparr>browser_until := None\<rparr>)
     else e)"

text \<open>The latest expiry among the entries that lost their last client.\<close>

definition last_expired :: "nat \<Rightarrow> (string \<times> entry) list \<Rightarrow> nat option" where
  "last_expired now es = fold (\<lambda>(_, e) last.
       if expires now e \<and> sessions e = [] then
         (case browser_until e of None \<Rightarrow> last
          | Some until \<Rightarrow> Some (case last of None \<Rightarrow> until | Some previous \<Rightarrow> max previous until))
       else last) es None"

definition expire_browsers :: "nat \<Rightarrow> checkout_registry \<Rightarrow> nat option \<times> checkout_registry" where
  "expire_browsers now s = (last_expired now (entries s), map_entries (expire_entry now) s)"

definition update_exit_deadline :: "nat \<Rightarrow> checkout_registry \<Rightarrow> checkout_registry" where
  "update_exit_deadline now s =
     (if list_ex (\<lambda>(_, e). attached_client e) (entries s) then s\<lparr>idle_exit_at := None\<rparr>
      else if idle_exit_at s = None then s\<lparr>idle_exit_at := Some (now + DAEMON_IDLE_DELAY)\<rparr> else s)"

definition leave_entry :: "nat \<Rightarrow> nat \<Rightarrow> entry \<Rightarrow> entry" where
  "leave_entry session now e = (if session \<in> set (sessions e)
     then (let e' = e\<lparr>sessions := removeAll session (sessions e)\<rparr> in
           if \<not> attached_client e' then e'\<lparr>release_at := Some (now + CHECKOUT_RELEASE_DELAY)\<rparr> else e')
     else e)"

definition disconnect_at :: "nat \<Rightarrow> nat \<Rightarrow> checkout_registry \<Rightarrow> checkout_registry" where
  "disconnect_at session now s = (case expire_browsers now s of (expired_at, s1) \<Rightarrow>
     (let s2 = (case expired_at of None \<Rightarrow> s1 | Some t \<Rightarrow> update_exit_deadline t s1);
          disconnected = list_ex (\<lambda>(_, e). session \<in> set (sessions e)) (entries s2);
          s3 = map_entries (leave_entry session now) s2
      in if \<not> disconnected then s3
         else if list_all (\<lambda>(_, e). \<not> attached_client e) (entries s3)
         then s3\<lparr>idle_exit_at := Some (now + DAEMON_IDLE_DELAY)\<rparr>
         else update_exit_deadline now s3))"

definition browser_request_at ::
  "world \<Rightarrow> metadata \<Rightarrow> nat \<Rightarrow> checkout_registry \<Rightarrow> metadata checked \<times> checkout_registry" where
  "browser_request_at w identity now s = (case attach w 0 None identity s of
       (Inl e, s') \<Rightarrow> (Inl e, s')
     | (Inr i, s') \<Rightarrow> (case entry_of s' (root_key identity) of
           None \<Rightarrow> (Inl Unavailable, s')
         | Some e \<Rightarrow> (Inr i, (put_entry (root_key identity)
             (e\<lparr>browser_until := Some (now + BROWSER_IDLE_DELAY), release_at := None\<rparr>) s')\<lparr>idle_exit_at := None\<rparr>)))"

text \<open>The guard of \<open>activate\<close>, and the runtime it enters when everything it opens has opened.\<close>

definition activate :: "bool \<Rightarrow> string \<Rightarrow> checkout_registry \<Rightarrow> unit checked \<times> checkout_registry" where
  "activate opened key s = (case entry_of s key of
       None \<Rightarrow> (Inl Unavailable, s)
     | Some e \<Rightarrow>
         if released e \<or> \<not> attached_client e then (Inl Unavailable, s)
         else if key \<in> set (runtimes s) then (Inr (), s)
         else if \<not> opened then (Inl Unavailable, s)
         else (Inr (), s\<lparr>runtimes := key # runtimes s, idle_permits := removeAll key (idle_permits s),
                 idle_epochs := removeAll key (idle_epochs s)\<rparr>))"

subsection \<open>A tick\<close>

definition due_keys :: "nat \<Rightarrow> checkout_registry \<Rightarrow> string list" where
  "due_keys now s = map fst (filter (\<lambda>(_, e). case release_at e of None \<Rightarrow> False | Some t \<Rightarrow> t \<le> now) (entries s))"

definition clear_due :: "string \<Rightarrow> checkout_registry \<Rightarrow> checkout_registry" where
  "clear_due key s = (case entry_of s key of None \<Rightarrow> s | Some e \<Rightarrow> put_entry key (e\<lparr>release_at := None\<rparr>) s)"

fun release_due :: "world \<Rightarrow> string list \<Rightarrow> checkout_registry \<Rightarrow> string list checked \<times> checkout_registry" where
  "release_due w [] s = (Inr [], s)"
| "release_due w (key # keys) s = (case release (views w 0) (views w 1) key s of
       (Inl e, s1) \<Rightarrow> (Inl e, s1)
     | (Inr False, s1) \<Rightarrow> release_due w keys s1
     | (Inr True, s1) \<Rightarrow>
        (case release_due w keys (clear_due key s1) of
           (Inl e, s3) \<Rightarrow> (Inl e, s3) | (Inr ks, s3) \<Rightarrow> (Inr (key # ks), s3)))"

fun refresh_all :: "(string \<Rightarrow> runtime_view) \<Rightarrow> string list \<Rightarrow> checkout_registry \<Rightarrow> bool checked \<times> checkout_registry" where
  "refresh_all see [] s = (Inr False, s)"
| "refresh_all see (key # keys) s = (case refresh_pending_work see key s of
       (Inl e, s1) \<Rightarrow> (Inl e, s1)
     | (Inr busy, s1) \<Rightarrow> (case refresh_all see keys s1 of
           (Inl e, s2) \<Rightarrow> (Inl e, s2) | (Inr rest, s2) \<Rightarrow> (Inr (busy \<or> rest), s2)))"

text \<open>The scan of the other roots' queues, at most once in five seconds.\<close>

definition orphan_scan :: "world \<Rightarrow> nat \<Rightarrow> checkout_registry \<Rightarrow> bool \<times> checkout_registry" where
  "orphan_scan w now s = (case (case orphan_scan_cache s of None \<Rightarrow> None
         | Some (until, pending) \<Rightarrow> if now < until then Some pending else None) of
       Some pending \<Rightarrow> (pending, s)
     | None \<Rightarrow> (orphans_pending w, s\<lparr>orphan_scan_count := orphan_scan_count s + 1,
                  orphan_scan_cache := Some (now + 5000, orphans_pending w)\<rparr>))"

definition exit_candidate :: "nat \<Rightarrow> bool \<Rightarrow> checkout_registry \<Rightarrow> bool" where
  "exit_candidate now busy s \<longleftrightarrow> (case idle_exit_at s of None \<Rightarrow> False | Some t \<Rightarrow> t \<le> now)
     \<and> \<not> busy \<and> list_all (\<lambda>(_, e). \<not> attached_client e) (entries s)"

definition advance :: "world \<Rightarrow> nat \<Rightarrow> checkout_registry \<Rightarrow> lifecycle_tick checked \<times> checkout_registry" where
  "advance w now s = (case expire_browsers now s of (expired_at, s1) \<Rightarrow>
     (let s2 = update_exit_deadline (case expired_at of None \<Rightarrow> now | Some t \<Rightarrow> t) s1 in
      case release_due w (due_keys now s2) s2 of
        (Inl e, s3) \<Rightarrow> (Inl e, s3)
      | (Inr gone, s3) \<Rightarrow> (case refresh_all (views w 2) (map fst (entries s3)) s3 of
            (Inl e, s4) \<Rightarrow> (Inl e, s4)
          | (Inr busy, s4) \<Rightarrow>
              if exit_candidate now busy s4 then
                (case orphan_scan w now s4 of (pending, s5) \<Rightarrow>
                   (Inr \<lparr>tick_released = gone, tick_exit = \<not> pending\<rparr>, s5))
              else (Inr \<lparr>tick_released = gone, tick_exit = False\<rparr>, s4))))"

subsection \<open>Runs of the registry\<close>

datatype registry_event =
    Register world metadata json
  | CanRegister world "unit checked" metadata json
  | AttachLaunch world nat metadata
  | Select world nat metadata membership
  | BrowserIdentity world "metadata checked" string
  | BrowserRequest world metadata nat
  | Activate bool string
  | SetPending string bool
  | Refresh "string \<Rightarrow> runtime_view" string
  | Disconnect nat nat
  | Tick world nat

fun registry_step :: "checkout_registry \<Rightarrow> registry_event \<Rightarrow> checkout_registry" where
  "registry_step s (Register w i options) = snd (register w i options s)"
| "registry_step s (CanRegister w v i options) = snd (can_register w v i options s)"
| "registry_step s (AttachLaunch w n i) = snd (attach_launch w n i s)"
| "registry_step s (Select w n i m) = snd (select w n i m s)"
| "registry_step s (BrowserIdentity w listed key) = snd (browser_identity w listed key s)"
| "registry_step s (BrowserRequest w i now) = snd (browser_request_at w i now s)"
| "registry_step s (Activate opened key) = snd (activate opened key s)"
| "registry_step s (SetPending key b) = snd (set_pending_work key b s)"
| "registry_step s (Refresh see key) = snd (refresh_pending_work see key s)"
| "registry_step s (Disconnect n now) = disconnect_at n now s"
| "registry_step s (Tick w now) = snd (advance w now s)"

definition live_count :: "checkout_registry \<Rightarrow> nat" where
  "live_count s = length (filter (\<lambda>(_, e). \<not> released e) (entries s))"

definition entry_ok :: "string \<Rightarrow> entry \<Rightarrow> bool" where
  "entry_ok k e \<longleftrightarrow> root_key (e_identity e) = k
     \<and> (attached_client e \<longrightarrow> \<not> released e \<and> release_at e = None) \<and> distinct (sessions e)"

definition registry_ok :: "checkout_registry \<Rightarrow> bool" where
  "registry_ok s \<longleftrightarrow> distinct (map fst (entries s)) \<and> distinct (runtimes s) \<and>
     list_all (\<lambda>(k, e). entry_ok k e) (entries s) \<and>
     list_all (\<lambda>k. \<exists>e. entry_of s k = Some e \<and> \<not> released e) (runtimes s) \<and>
     live_count s \<le> MAX_ACTIVE_CHECKOUTS"

subsection \<open>The registry's invariant\<close>

lemma registry_ok_clocks [simp]:
  "registry_ok (s\<lparr>idle_exit_at := x\<rparr>) = registry_ok s"
  "registry_ok (s\<lparr>orphan_scan_cache := c\<rparr>) = registry_ok s"
  "registry_ok (s\<lparr>orphan_scan_count := n\<rparr>) = registry_ok s"
  "registry_ok (s\<lparr>idle_permits := ps\<rparr>) = registry_ok s"
  "registry_ok (s\<lparr>idle_epochs := qs\<rparr>) = registry_ok s"
  by (simp_all add: registry_ok_def entry_of_def live_count_def)

lemma entry_of_put [simp]: "entry_of (put_entry k e s) j = (if j = k then Some e else entry_of s j)"
  by (simp add: entry_of_def put_entry_def)

lemma put_entry_rest [simp]: "runtimes (put_entry k e s) = runtimes s"
  "idle_exit_at (put_entry k e s) = idle_exit_at s"
  by (simp_all add: put_entry_def)

lemma entry_of_clocks [simp]:
  "entry_of (s\<lparr>idle_exit_at := x\<rparr>) = entry_of s" "entry_of (s\<lparr>runtimes := rs\<rparr>) = entry_of s"
  "entry_of (s\<lparr>idle_permits := ps\<rparr>) = entry_of s" "entry_of (s\<lparr>idle_epochs := qs\<rparr>) = entry_of s"
  "entry_of (s\<lparr>orphan_scan_cache := c\<rparr>) = entry_of s" "entry_of (s\<lparr>orphan_scan_count := n\<rparr>) = entry_of s"
  by (simp_all add: entry_of_def fun_eq_iff)

lemma filter_set_key:
  "length (filter P (set_key k v m)) \<le> Suc (length (filter P m))"
  "\<not> P (k, v) \<Longrightarrow> length (filter P (set_key k v m)) \<le> length (filter P m)"
  "map_of m k = Some w \<Longrightarrow> P (k, w) \<Longrightarrow> length (filter P (set_key k v m)) \<le> length (filter P m)"
  by (induction k v m rule: set_key.induct) (auto split: if_splits)

lemma live_le_active: "live_count s \<le> active_count s"
proof -
  have "length (filter (\<lambda>(_, e). \<not> released e) es) \<le> length (filter (\<lambda>(_, e). \<not> released e \<or> pending_work e) es)"
    for es :: "(string \<times> entry) list"
    by (induction es) auto
  then show ?thesis by (simp add: live_count_def active_count_def)
qed

lemma ok_put:
  assumes ok: "registry_ok s" and e: "entry_ok k e" and run: "k \<in> set (runtimes s) \<Longrightarrow> \<not> released e"
    and room: "released e \<or> (\<exists>e0. entry_of s k = Some e0 \<and> \<not> released e0) \<or> active_count s < MAX_ACTIVE_CHECKOUTS"
  shows "registry_ok (put_entry k e s)"
proof -
  let ?P = "\<lambda>(_ :: string, e). \<not> released e"
  have "length (filter ?P (set_key k e (entries s))) \<le> MAX_ACTIVE_CHECKOUTS"
    using room
  proof (elim disjE exE conjE)
    assume "released e"
    then show ?thesis using filter_set_key(2) [of ?P k e "entries s"] ok
      by (simp add: registry_ok_def live_count_def)
  next
    fix e0 assume "entry_of s k = Some e0" "\<not> released e0"
    then show ?thesis using filter_set_key(3) [of "entries s" k e0 ?P e] ok
      by (simp add: registry_ok_def live_count_def entry_of_def)
  next
    assume "active_count s < MAX_ACTIVE_CHECKOUTS"
    then show ?thesis using filter_set_key(1) [of ?P k e "entries s"] live_le_active [of s]
      by (simp add: live_count_def)
  qed
  moreover have "list_all (\<lambda>(k, e). entry_ok k e) (set_key k e (entries s))"
    using ok e set_set_key [of k e "entries s"] by (auto simp: registry_ok_def list_all_iff)
  moreover have "list_all (\<lambda>j. \<exists>e'. entry_of (put_entry k e s) j = Some e' \<and> \<not> released e') (runtimes s)"
    using ok run by (auto simp: registry_ok_def list_all_iff)
  ultimately show ?thesis
    using ok by (simp add: registry_ok_def live_count_def distinct_set_key put_entry_def)
qed

lemma ok_entry: "registry_ok s \<Longrightarrow> entry_of s k = Some e \<Longrightarrow> entry_ok k e"
  using map_of_SomeD [of "entries s" k e] unfolding registry_ok_def entry_of_def list_all_iff by blast

lemma ok_runtime: "registry_ok s \<Longrightarrow> entry_of s k = Some e \<Longrightarrow> k \<in> set (runtimes s) \<Longrightarrow> \<not> released e"
  by (auto simp: registry_ok_def list_all_iff)

text \<open>A change of one entry that keeps it attached or not, and released or not.\<close>

lemma ok_keep:
  assumes "registry_ok s" and "entry_of s k = Some e0" and "entry_ok k e" and "released e = released e0"
  shows "registry_ok (put_entry k e s)"
proof (rule ok_put [OF assms(1,3)])
  show "\<not> released e" if "k \<in> set (runtimes s)"
    using ok_runtime [OF assms(1,2) that] assms(4) by simp
  show "released e \<or> (\<exists>e0. entry_of s k = Some e0 \<and> \<not> released e0) \<or> active_count s < MAX_ACTIVE_CHECKOUTS"
    using assms(2,4) by auto
qed

lemma map_entries_of: "entry_of (map_entries f s) k = map_option f (entry_of s k)"
proof -
  have "map_of (map (\<lambda>(k, e). (k, f e)) es) k = map_option f (map_of es k)" for es :: "(string \<times> entry) list"
    by (induction es) auto
  then show ?thesis by (simp add: entry_of_def map_entries_def)
qed

lemma ok_map:
  assumes ok: "registry_ok s" and f: "\<And>k e. entry_ok k e \<Longrightarrow> entry_ok k (f e)" and r: "\<And>e. released (f e) = released e"
  shows "registry_ok (map_entries f s)"
proof -
  have keys: "map fst (map (\<lambda>(k, e). (k, f e)) es) = map fst es"
    and len: "length (filter (\<lambda>(_, e). \<not> released e) (map (\<lambda>(k, e). (k, f e)) es)) = length (filter (\<lambda>(_, e). \<not> released e) es)"
    for es :: "(string \<times> entry) list" by (induction es) (auto simp: r)
  have "list_all (\<lambda>(k, e). entry_ok k e) (map (\<lambda>(k, e). (k, f e)) (entries s))"
    using ok f by (fastforce simp: registry_ok_def list_all_iff)
  moreover have "list_all (\<lambda>k. \<exists>e. entry_of (map_entries f s) k = Some e \<and> \<not> released e) (runtimes s)"
    using ok by (fastforce simp: registry_ok_def list_all_iff map_entries_of r)
  ultimately show ?thesis
    using ok unfolding registry_ok_def live_count_def map_entries_def by (simp add: keys len del: map_map length_filter_map)
qed

lemma ok_pending:
  assumes "registry_ok s" and "entry_of s k = Some e"
  shows "registry_ok (put_entry k (e\<lparr>pending_work := b\<rparr>) s)"
    "registry_ok (put_entry k (e\<lparr>external_work := b, pending_work := b\<rparr>) s)"
    "registry_ok (put_entry k (e\<lparr>registration := r\<rparr>) s)"
  using ok_entry [OF assms]
  by (intro ok_keep [OF assms]; simp add: entry_ok_def attached_client_def)+

lemma refresh_ok: "registry_ok s \<Longrightarrow> registry_ok (snd (refresh_pending_work see key s))"
  by (simp add: refresh_pending_work_def Let_def ok_pending split: option.split)

text \<open>Two states of an entry with the same clients and clocks; releasing and probing keep them.\<close>

definition same_clocks :: "entry \<Rightarrow> entry \<Rightarrow> bool" where
  "same_clocks e e' \<longleftrightarrow> e_identity e' = e_identity e \<and> registration e' = registration e \<and> sessions e' = sessions e
     \<and> external_work e' = external_work e \<and> browser_until e' = browser_until e \<and> release_at e' = release_at e"

definition clocks_kept :: "checkout_registry \<Rightarrow> checkout_registry \<Rightarrow> bool" where
  "clocks_kept s s' \<longleftrightarrow> idle_exit_at s' = idle_exit_at s \<and> (\<forall>k. rel_option same_clocks (entry_of s k) (entry_of s' k))"

lemma same_clocks_refl [simp]: "same_clocks e e"
  by (simp add: same_clocks_def)

lemma same_clocks_attached: "same_clocks e e' \<Longrightarrow> attached_client e' = attached_client e"
  by (simp add: same_clocks_def attached_client_def)

lemma clocks_kept_refl [simp]: "clocks_kept s s"
  by (simp add: clocks_kept_def option.rel_refl)

lemma clocks_kept_trans: "clocks_kept a b \<Longrightarrow> clocks_kept b c \<Longrightarrow> clocks_kept a c"
proof -
  assume ab: "clocks_kept a b" and bc: "clocks_kept b c"
  have "rel_option same_clocks (entry_of a k) (entry_of c k)" for k
    using ab [unfolded clocks_kept_def, THEN conjunct2, rule_format, of k]
      bc [unfolded clocks_kept_def, THEN conjunct2, rule_format, of k]
    by (cases "entry_of a k"; cases "entry_of b k"; cases "entry_of c k") (simp_all add: same_clocks_def)
  with ab bc show "clocks_kept a c" by (simp add: clocks_kept_def)
qed

lemma clocks_kept_put:
  "entry_of s k = Some e \<Longrightarrow> same_clocks e e' \<Longrightarrow> clocks_kept s (put_entry k e' s)"
  by (simp add: clocks_kept_def option.rel_refl)

lemma clocks_kept_entry:
  "clocks_kept s s' \<Longrightarrow> entry_of s' k = Some e' \<Longrightarrow> \<exists>e. entry_of s k = Some e \<and> same_clocks e e'"
  unfolding clocks_kept_def by (metis option_rel_Some2)

lemma refresh_clocks: "clocks_kept s (snd (refresh_pending_work see key s))"
  by (auto simp: refresh_pending_work_def Let_def same_clocks_def split: option.split intro!: clocks_kept_put)

lemma refresh_runtimes: "runtimes (snd (refresh_pending_work see key s)) = runtimes s"
  by (simp add: refresh_pending_work_def Let_def split: option.split)

lemma release_runtime_rest:
  assumes "release_runtime see key s = (answer, s')" and "registry_ok s"
  shows "registry_ok s'" "clocks_kept s s'" "entry_of s' = entry_of s"
    "answer = Inr True \<Longrightarrow> key \<notin> set (runtimes s')"
proof -
  have ok: "registry_ok (s\<lparr>runtimes := removeAll key (runtimes s)\<rparr>)"
    using assms(2) by (auto simp: registry_ok_def live_count_def list_all_iff distinct_removeAll)
  note d = assms(1) [unfolded release_runtime_def Let_def]
  show "registry_ok s'" using d ok assms(2) by (auto split: if_splits)
  show "clocks_kept s s'" using d by (auto simp: clocks_kept_def option.rel_refl split: if_splits)
  show "entry_of s' = entry_of s" using d by (auto split: if_splits)
  show "key \<notin> set (runtimes s')" if "answer = Inr True" using d that by (auto split: if_splits)
qed

text \<open>\<open>release\<close> keeps clients and clocks; it succeeds only without clients, and then the runtime is gone.\<close>

lemma release_rest:
  assumes rel: "release see see' key s = (answer, s')" and ok: "registry_ok s"
  shows "registry_ok s'" "clocks_kept s s'"
    "answer = Inr True \<Longrightarrow> key \<notin> set (runtimes s') \<and>
      (\<exists>e. entry_of s' key = Some e \<and> released e \<and> \<not> pending_work e \<and> \<not> attached_client e)"
proof -
  obtain a1 s1 where r1: "refresh_pending_work see key s = (a1, s1)" by (cases "refresh_pending_work see key s")
  have s1: "registry_ok s1" "clocks_kept s s1"
    using refresh_ok [OF ok, of see key] refresh_clocks [of s see key] by (simp_all add: r1)
  obtain a2 s2 where r2: "release_runtime see' key s1 = (a2, s2)" by (cases "release_runtime see' key s1")
  note s2 = release_runtime_rest [OF r2 s1(1)]
  have put: "registry_ok (put_entry key (e\<lparr>released := True\<rparr>) s2)" "clocks_kept s (put_entry key (e\<lparr>released := True\<rparr>) s2)"
    if e: "entry_of s1 key = Some e" "\<not> attached_client e" "key \<notin> set (runtimes s2)" for e
  proof -
    have ek: "entry_ok key e" by (rule ok_entry [OF s1(1) e(1)])
    show "registry_ok (put_entry key (e\<lparr>released := True\<rparr>) s2)"
      using ek e by (intro ok_put [OF s2(1)]) (auto simp: entry_ok_def attached_client_def)
    have "clocks_kept s2 (put_entry key (e\<lparr>released := True\<rparr>) s2)"
      using e s2(3) by (intro clocks_kept_put) (auto simp: same_clocks_def)
    then show "clocks_kept s (put_entry key (e\<lparr>released := True\<rparr>) s2)"
      using clocks_kept_trans s1(2) s2(2) by blast
  qed
  note d = rel [unfolded release_def r1 r2 prod.case]
  have "registry_ok s' \<and> clocks_kept s s' \<and> (answer = Inr True \<longrightarrow> key \<notin> set (runtimes s') \<and>
      (\<exists>e. entry_of s' key = Some e \<and> released e \<and> \<not> pending_work e \<and> \<not> attached_client e))"
    using d s1 s2 put clocks_kept_trans [OF s1(2) s2(2)]
    by (auto split: sum.splits option.splits if_splits bool.splits simp: attached_client_def)
  then show "registry_ok s'" "clocks_kept s s'"
    "answer = Inr True \<Longrightarrow> key \<notin> set (runtimes s') \<and>
      (\<exists>e. entry_of s' key = Some e \<and> released e \<and> \<not> pending_work e \<and> \<not> attached_client e)" by blast+
qed

subsection \<open>The grace after a departure\<close>

text \<open>
  What is watched: nothing but the invariant, or the invariant together with the deadlines that
  follow from a departure at time \<open>t\<close> from the checkout \<open>k\<close>: no browser expires earlier, the
  checkout is due no earlier than \<open>t\<close> and the release delay, the daemon no earlier than \<open>t\<close> and the
  idle delay.
\<close>

type_synonym watched = "(string \<times> nat) option"

definition later :: "watched \<Rightarrow> nat \<Rightarrow> bool" where
  "later w now \<longleftrightarrow> (case w of None \<Rightarrow> True | Some (_, t) \<Rightarrow> t \<le> now)"

definition entry_grace :: "watched \<Rightarrow> string \<Rightarrow> entry \<Rightarrow> bool" where
  "entry_grace w j e \<longleftrightarrow> (case w of None \<Rightarrow> True | Some (k, t) \<Rightarrow>
     (\<forall>u. browser_until e = Some u \<longrightarrow> t \<le> u) \<and>
     (j = k \<longrightarrow> (\<forall>a. release_at e = Some a \<longrightarrow> t + CHECKOUT_RELEASE_DELAY \<le> a)))"

definition exit_grace :: "watched \<Rightarrow> nat option \<Rightarrow> bool" where
  "exit_grace w x \<longleftrightarrow> (case w of None \<Rightarrow> True | Some (_, t) \<Rightarrow> (\<forall>a. x = Some a \<longrightarrow> t + DAEMON_IDLE_DELAY \<le> a))"

definition in_grace :: "watched \<Rightarrow> checkout_registry \<Rightarrow> bool" where
  "in_grace w s \<longleftrightarrow> registry_ok s \<and> exit_grace w (idle_exit_at s) \<and> (\<forall>j e. entry_of s j = Some e \<longrightarrow> entry_grace w j e)"

lemma in_grace_ok: "in_grace w s \<Longrightarrow> registry_ok s"
  by (simp add: in_grace_def)

lemma in_grace_None: "in_grace None s = registry_ok s"
  by (simp add: in_grace_def exit_grace_def entry_grace_def)

lemma exit_grace_None [simp]: "exit_grace w None"
  by (simp add: exit_grace_def split: option.split)

lemma exit_grace_new: "later w now \<Longrightarrow> exit_grace w (Some (now + DAEMON_IDLE_DELAY))"
  by (auto simp: exit_grace_def later_def split: option.splits)

lemma entry_grace_bare [simp]: "entry_grace w j (bare_entry i r)"
  "entry_grace w j ((bare_entry i r)\<lparr>sessions := ns, released := b\<rparr>)"
  by (simp_all add: entry_grace_def bare_entry_def split: option.split)

lemma same_clocks_grace: "same_clocks e e' \<Longrightarrow> entry_grace w j e' = entry_grace w j e"
  by (simp add: same_clocks_def entry_grace_def split: option.split)

lemma grace_kept: "in_grace w s \<Longrightarrow> registry_ok s' \<Longrightarrow> clocks_kept s s' \<Longrightarrow> in_grace w s'"
  unfolding in_grace_def
  using clocks_kept_entry same_clocks_grace by (metis clocks_kept_def)

lemma grace_put:
  "in_grace w s \<Longrightarrow> registry_ok (put_entry k e s) \<Longrightarrow> entry_grace w k e \<Longrightarrow> in_grace w (put_entry k e s)"
  by (simp add: in_grace_def)

lemma grace_idle: "in_grace w s \<Longrightarrow> exit_grace w x \<Longrightarrow> in_grace w (s\<lparr>idle_exit_at := x\<rparr>)"
  by (simp add: in_grace_def)

lemma grace_entry: "in_grace w s \<Longrightarrow> entry_of s k = Some e \<Longrightarrow> entry_grace w k e"
  by (simp add: in_grace_def)

lemma refresh_grace: "in_grace w s \<Longrightarrow> in_grace w (snd (refresh_pending_work see key s))"
  using grace_kept refresh_ok refresh_clocks in_grace_ok by blast

lemma release_grace: "in_grace w s \<Longrightarrow> release see see' key s = (answer, s') \<Longrightarrow> in_grace w s'"
  using release_rest grace_kept in_grace_ok by metis

lemma entry_of_forget [simp]: "entry_of (forget k s) j = (if j = k then None else entry_of s j)"
  by (simp add: entry_of_def forget_def)

lemma forget_grace:
  assumes g: "in_grace w s" and "k \<notin> set (runtimes s)"
  shows "in_grace w (forget k s)"
proof -
  have "length (filter P (drop_key k m)) \<le> length (filter P m)" for P and m :: "(string \<times> entry) list"
    by (induction m) (auto simp: drop_key_def)
  then have "live_count (forget k s) \<le> live_count s"
    by (simp add: live_count_def forget_def)
  moreover have "runtimes (forget k s) = runtimes s" "idle_exit_at (forget k s) = idle_exit_at s"
    "entries (forget k s) = drop_key k (entries s)" by (simp_all add: forget_def)
  ultimately have "registry_ok (forget k s)"
    using assms by (auto simp: in_grace_def registry_ok_def list_all_iff distinct_drop_key set_drop_key)
  with g \<open>idle_exit_at (forget k s) = idle_exit_at s\<close> show ?thesis
    by (auto simp: in_grace_def split: if_splits)
qed

text \<open>After \<open>retire_replaced\<close> an entry under the identity's key, if any, has that identity.\<close>

lemma retire_grace:
  assumes g: "in_grace w s" and r: "retire_replaced wld k identity s = (answer, s')"
  shows "in_grace w s'" "answer = Inr () \<Longrightarrow> entry_of s' (root_key identity) = Some e \<Longrightarrow>
    metadata_matches (e_identity e) identity"
proof -
  obtain a s1 where rel: "release (views wld 0) (views wld 1) (root_key identity) s = (a, s1)"
    by (cases "release (views wld 0) (views wld 1) (root_key identity) s")
  note s1 = release_grace [OF g rel]
  have gone: "in_grace w (forget (root_key identity) s1)" if "a = Inr True"
    using forget_grace [OF s1] release_rest(3) [OF rel in_grace_ok [OF g] that] by blast
  note d = r [unfolded retire_replaced_def rel prod.case]
  show "in_grace w s'"
    using d g s1 gone by (auto split: option.splits if_splits sum.splits bool.splits)
  show "metadata_matches (e_identity e) identity"
    if "answer = Inr ()" "entry_of s' (root_key identity) = Some e"
    using d that by (auto split: option.splits if_splits sum.splits bool.splits)
qed

lemma bare_ok: "entry_ok (root_key i) (bare_entry i r)"
  by (simp add: entry_ok_def bare_entry_def attached_client_def)

lemma attach_put:
  assumes g: "in_grace w s" and room: "active_count s < MAX_ACTIVE_CHECKOUTS \<or> (\<exists>e0. entry_of s k = Some e0 \<and> \<not> released e0)"
    and e: "root_key (e_identity e) = k" "distinct (sessions e)" "\<not> released e" "release_at e = None" "entry_grace w k e"
  shows "in_grace w ((put_entry k e s)\<lparr>idle_exit_at := None\<rparr>)"
  by (intro grace_idle grace_put g e(5) exit_grace_None ok_put in_grace_ok [OF g])
    (use e room in \<open>auto simp: entry_ok_def\<close>)

lemma with_session_distinct: "distinct xs \<Longrightarrow> distinct (with_session n xs)"
  by (simp add: with_session_def split: option.split)

lemma attach_grace:
  assumes g: "in_grace w s" and r: "attach wld n session identity s = (answer, s')"
  shows "in_grace w s'" "answer = Inr i \<Longrightarrow> idle_exit_at s' = None \<and>
    (\<exists>e. entry_of s' (root_key identity) = Some e \<and> \<not> released e \<and> release_at e = None
       \<and> (\<forall>m. session = Some m \<longrightarrow> m \<in> set (sessions e)))"
proof -
  obtain a s1 where ret: "retire_replaced wld n identity s = (a, s1)"
    by (cases "retire_replaced wld n identity s")
  note s1 = retire_grace [OF g ret]
  have old: "in_grace w ((put_entry (root_key identity)
      (e\<lparr>sessions := with_session session (sessions e), release_at := None, released := False\<rparr>) s1)\<lparr>idle_exit_at := None\<rparr>)"
    if "entry_of s1 (root_key identity) = Some e" "\<not> (released e \<and> MAX_ACTIVE_CHECKOUTS \<le> active_count s1)" for e
  proof (rule attach_put [OF s1(1)])
    show "active_count s1 < MAX_ACTIVE_CHECKOUTS \<or> (\<exists>e0. entry_of s1 (root_key identity) = Some e0 \<and> \<not> released e0)"
      using that by auto
  qed (use ok_entry [OF in_grace_ok [OF s1(1)] that(1)] grace_entry [OF s1(1) that(1)] in
      \<open>auto simp: entry_ok_def with_session_distinct entry_grace_def split: option.splits\<close>)
  have new: "in_grace w ((put_entry (root_key identity)
      ((bare_entry identity None)\<lparr>sessions := with_session session [], released := False\<rparr>) s1)\<lparr>idle_exit_at := None\<rparr>)"
    if "\<not> MAX_ACTIVE_CHECKOUTS \<le> active_count s1"
    by (rule attach_put [OF s1(1)]) (use that with_session_distinct [of "[]"] in \<open>auto simp: bare_entry_def entry_grace_def split: option.splits\<close>)
  note d = r [unfolded attach_def ret prod.case Let_def]
  show "in_grace w s'"
    using d s1(1) old new by (auto split: option.splits if_splits sum.splits)
  show "idle_exit_at s' = None \<and> (\<exists>e. entry_of s' (root_key identity) = Some e \<and> \<not> released e \<and> release_at e = None
       \<and> (\<forall>m. session = Some m \<longrightarrow> m \<in> set (sessions e)))" if "answer = Inr i"
    using d that by (auto split: option.splits if_splits sum.splits simp: with_session_def bare_entry_def)
qed

lemma discovered_grace:
  assumes g: "in_grace w s" and none: "entry_of s (root_key i) = None"
  shows "in_grace w (put_entry (root_key i) (bare_entry i r) s)"
proof (rule grace_put [OF g])
  have "root_key i \<notin> set (runtimes s)"
    using in_grace_ok [OF g] none by (force simp: registry_ok_def list_all_iff)
  then show "registry_ok (put_entry (root_key i) (bare_entry i r) s)"
    by (intro ok_put in_grace_ok [OF g] bare_ok) (auto simp: bare_entry_def)
qed simp

lemma register_grace:
  assumes g: "in_grace w s"
  shows "in_grace w (snd (register wld i options s))" "in_grace w (snd (can_register wld v i options s))"
proof -
  obtain a s1 where ret: "retire_replaced wld 0 i s = (a, s1)" by (cases "retire_replaced wld 0 i s")
  note s1 = retire_grace(1) [OF g ret]
  have "in_grace w (put_entry (root_key i) (e\<lparr>registration := Some options\<rparr>) s1)" if "entry_of s1 (root_key i) = Some e" for e
    using grace_put [OF s1 ok_pending(3) [OF in_grace_ok [OF s1] that]] grace_entry [OF s1 that]
    by (simp add: entry_grace_def split: option.splits)
  then show "in_grace w (snd (register wld i options s))"
    using g s1 discovered_grace [OF s1] unfolding register_def ret prod.case
    by (simp split: option.split sum.split)
  show "in_grace w (snd (can_register wld v i options s))"
    using g s1 unfolding can_register_def ret prod.case by (simp split: option.split sum.split)
qed

lemma select_grace: "in_grace w s \<Longrightarrow> in_grace w (snd (select wld n launch m s))"
  using attach_grace(1) by (auto simp: select_def split: sum.split prod.split)

lemma attach_launch_grace: "in_grace w s \<Longrightarrow> in_grace w (snd (attach_launch wld n launch s))"
  using attach_grace(1) by (cases "attach wld 1 (Some n) launch s") (auto simp: attach_launch_def)

lemma browser_request_grace:
  assumes g: "in_grace w s" and now: "later w now"
  shows "in_grace w (snd (browser_request_at wld i now s))"
proof -
  obtain a s1 where att: "attach wld 0 None i s = (a, s1)" by (cases "attach wld 0 None i s")
  note s1 = attach_grace [OF g att]
  have "in_grace w ((put_entry (root_key i)
      (e\<lparr>browser_until := Some (now + BROWSER_IDLE_DELAY), release_at := None\<rparr>) s1)\<lparr>idle_exit_at := None\<rparr>)"
    if e: "entry_of s1 (root_key i) = Some e" and a: "a = Inr x" for e x
  proof (rule attach_put [OF s1(1)])
    show "entry_grace w (root_key i) (e\<lparr>browser_until := Some (now + BROWSER_IDLE_DELAY), release_at := None\<rparr>)"
      using now by (auto simp: entry_grace_def later_def split: option.splits)
  qed (use s1(2) [OF a] e ok_entry [OF in_grace_ok [OF s1(1)] e] in \<open>auto simp: entry_ok_def\<close>)
  then show ?thesis using s1(1) unfolding browser_request_at_def att prod.case
    by (simp split: sum.split option.split)
qed

lemma activate_grace: "in_grace w s \<Longrightarrow> in_grace w (snd (activate opened key s))"
  by (auto simp: activate_def in_grace_def registry_ok_def live_count_def list_all_iff split: option.split)

lemma set_pending_grace: "in_grace w s \<Longrightarrow> in_grace w (snd (set_pending_work key b s))"
  using grace_entry ok_pending(2) in_grace_ok
  by (auto simp: set_pending_work_def split: option.split intro!: grace_put)
    (fastforce simp: entry_grace_def split: option.splits)

lemma browser_identity_grace:
  assumes g: "in_grace w s"
  shows "in_grace w (snd (browser_identity wld listed key s))"
proof -
  have listed: "in_grace w (register_discovered i s)" if "entry_of s key = None" "root_key i = key" for i
    using discovered_grace [OF g, of i None] that by (simp add: register_discovered_def)
  have replace: "in_grace w (snd (case retire_replaced wld 2 current s1 of (Inl er, s2) \<Rightarrow> (Inl er, s2)
      | (Inr _, s2) \<Rightarrow> (Inr current, register_discovered current s2)))"
    if s1: "in_grace w s1" "entry_of s1 key = Some e" "root_key current = key" "\<not> metadata_matches (e_identity e) current"
    for s1 e current
  proof -
    obtain a s2 where ret: "retire_replaced wld 2 current s1 = (a, s2)" by (cases "retire_replaced wld 2 current s1")
    have "entry_of s2 key = None" if "a = Inr ()"
      using ret that s1(2-4) unfolding retire_replaced_def
      by (auto split: option.splits if_splits sum.splits prod.splits bool.splits)
    then show ?thesis
      using retire_grace(1) [OF s1(1) ret] discovered_grace [of w s2 current None] s1(3) ret
      by (simp add: register_discovered_def split: sum.split)
  qed
  show ?thesis
  proof (cases "hex_string 64 key")
    case True
    then show ?thesis
      using g listed replace unfolding browser_identity_def
      by (auto split: sum.split option.split simp: ensure_def bind_result_def)
  qed (simp add: browser_identity_def g)
qed

lemma map_grace:
  assumes g: "in_grace w s" and f: "\<And>k e. entry_ok k e \<Longrightarrow> entry_ok k (f e)" "\<And>e. released (f e) = released e"
    and gr: "\<And>k e. entry_ok k e \<Longrightarrow> entry_grace w k e \<Longrightarrow> entry_grace w k (f e)"
  shows "in_grace w (map_entries f s)"
proof -
  have "idle_exit_at (map_entries f s) = idle_exit_at s" by (simp add: map_entries_def)
  moreover have "entry_grace w j e" if "entry_of (map_entries f s) j = Some e" for j e
    using that gr grace_entry [OF g] ok_entry [OF in_grace_ok [OF g]] by (auto simp: map_entries_of)
  ultimately show ?thesis
    using g ok_map [OF in_grace_ok [OF g], of f] f by (simp add: in_grace_def)
qed

lemma last_expired_bound:
  assumes "last_expired now es = Some x"
  shows "\<exists>(k, e) \<in> set es. browser_until e = Some x"
proof -
  define f where "f = (\<lambda>(_ :: string, e) last. if expires now e \<and> sessions e = [] then
         (case browser_until e of None \<Rightarrow> last
          | Some until \<Rightarrow> Some (case last of None \<Rightarrow> until | Some previous \<Rightarrow> max previous until)) else last)"
  have "fold f es init = Some x \<Longrightarrow> init = Some x \<or> (\<exists>(k, e) \<in> set es. browser_until e = Some x)" for init
  proof (induction es arbitrary: init)
    case (Cons p es)
    obtain k e where p: "p = (k, e)" by (cases p)
    from Cons.prems have "fold f es (f (k, e) init) = Some x" by (simp add: p)
    then have "f (k, e) init = Some x \<or> (\<exists>(k, e) \<in> set es. browser_until e = Some x)" by (rule Cons.IH)
    moreover have "f (k, e) init = Some x \<Longrightarrow> init = Some x \<or> browser_until e = Some x"
      by (auto simp: f_def max_def split: if_splits option.splits)
    ultimately show ?case by (auto simp: p)
  qed simp
  from this [of None] assms show ?thesis by (simp add: last_expired_def f_def)
qed

lemma expire_entry_ok: "entry_ok k e \<Longrightarrow> entry_ok k (expire_entry now e)"
  by (auto simp: entry_ok_def expire_entry_def attached_client_def)

lemma expire_entry_grace: "entry_grace w k e \<Longrightarrow> entry_grace w k (expire_entry now e)"
  by (auto simp: entry_grace_def expire_entry_def expires_def split: option.splits)

lemma expire_grace:
  assumes g: "in_grace w s" and now: "later w now" and r: "expire_browsers now s = (x, s')"
  shows "in_grace w s'" "x = Some t \<Longrightarrow> later w t"
proof -
  have "s' = map_entries (expire_entry now) s" using r by (simp add: expire_browsers_def)
  then show "in_grace w s'"
    using map_grace [OF g, of "expire_entry now"] expire_entry_ok expire_entry_grace
    by (simp add: expire_entry_def)
  show "later w t" if "x = Some t"
  proof -
    from that r have "last_expired now (entries s) = Some t" by (simp add: expire_browsers_def)
    from last_expired_bound [OF this] obtain k e where e: "(k, e) \<in> set (entries s)" "browser_until e = Some t" by auto
    with in_grace_ok [OF g] have "entry_of s k = Some e" by (simp add: registry_ok_def entry_of_def)
    from grace_entry [OF g this] e(2) show ?thesis
      by (auto simp: entry_grace_def later_def split: option.splits)
  qed
qed

lemma update_exit_grace: "in_grace w s \<Longrightarrow> later w now \<Longrightarrow> in_grace w (update_exit_deadline now s)"
  by (simp add: update_exit_deadline_def grace_idle exit_grace_new)

lemma leave_entry_ok: "entry_ok k e \<Longrightarrow> entry_ok k (leave_entry n now e)"
  by (auto simp: entry_ok_def leave_entry_def Let_def attached_client_def distinct_removeAll)

lemma leave_entry_grace: "later w now \<Longrightarrow> entry_grace w k e \<Longrightarrow> entry_grace w k (leave_entry n now e)"
  by (auto simp: entry_grace_def leave_entry_def Let_def later_def split: option.splits)

lemma disconnect_grace:
  assumes g: "in_grace w s" and now: "later w now"
  shows "in_grace w (disconnect_at n now s)"
proof -
  obtain x s1 where e: "expire_browsers now s = (x, s1)" by (cases "expire_browsers now s")
  note s1 = expire_grace [OF g now e]
  define s2 where "s2 = (case x of None \<Rightarrow> s1 | Some t \<Rightarrow> update_exit_deadline t s1)"
  have s2: "in_grace w s2" using s1 update_exit_grace by (simp add: s2_def split: option.split)
  have "in_grace w (map_entries (leave_entry n now) s2)"
    by (rule map_grace [OF s2 leave_entry_ok _ leave_entry_grace [OF now]])
      (simp_all add: leave_entry_def Let_def)
  then show ?thesis
    using update_exit_grace [OF _ now] grace_idle exit_grace_new [OF now]
    unfolding disconnect_at_def e prod.case s2_def [symmetric] Let_def by simp
qed

lemma release_due_grace: "in_grace w s \<Longrightarrow> in_grace w (snd (release_due wld keys s))"
proof (induction keys arbitrary: s)
  case (Cons key keys)
  obtain a s1 where rel: "release (views wld 0) (views wld 1) key s = (a, s1)"
    by (cases "release (views wld 0) (views wld 1) key s")
  have s1: "in_grace w s1" by (rule release_grace [OF Cons.prems rel])
  have "in_grace w (put_entry key (e\<lparr>release_at := None\<rparr>) s1)" if "entry_of s1 key = Some e" for e
    using ok_keep [OF in_grace_ok [OF s1] that, of "e\<lparr>release_at := None\<rparr>"] grace_entry [OF s1 that]
      ok_entry [OF in_grace_ok [OF s1] that]
    by (intro grace_put [OF s1]) (auto simp: entry_ok_def attached_client_def entry_grace_def split: option.splits)
  then have put: "in_grace w (clear_due key s1)" using s1 by (simp add: clear_due_def split: option.split)
  obtain b s2 where due: "release_due wld keys (clear_due key s1) = (b, s2)" by (cases "release_due wld keys (clear_due key s1)")
  have "in_grace w s2" using Cons.IH [OF put] by (simp add: due)
  with s1 Cons.IH [OF s1] show ?case
    by (simp add: rel [simplified] due split: sum.split bool.split)
qed simp

lemma refresh_all_grace: "in_grace w s \<Longrightarrow> in_grace w (snd (refresh_all see keys s))"
proof (induction keys arbitrary: s)
  case (Cons key keys)
  obtain a s1 where r: "refresh_pending_work see key s = (a, s1)" by (cases "refresh_pending_work see key s")
  have "in_grace w s1" using refresh_grace [OF Cons.prems, of see key] by (simp add: r)
  then show ?case using Cons.IH [of s1] by (auto simp: r split: sum.split prod.split)
qed simp

lemma orphan_scan_grace: "in_grace w s \<Longrightarrow> in_grace w (snd (orphan_scan wld now s))"
  by (auto simp: orphan_scan_def in_grace_def split: option.split)

lemma release_due_subset: "release_due wld keys s = (Inr gone, s') \<Longrightarrow> set gone \<subseteq> set keys"
proof (induction keys arbitrary: s gone)
  case (Cons key keys)
  from Cons.prems show ?case
    by (auto split: sum.splits prod.splits bool.splits dest!: Cons.IH)
qed simp

definition tick_start :: "nat \<Rightarrow> checkout_registry \<Rightarrow> checkout_registry" where
  "tick_start now s = (case expire_browsers now s of (x, s1) \<Rightarrow>
     update_exit_deadline (case x of None \<Rightarrow> now | Some t \<Rightarrow> t) s1)"

lemma tick_start_grace: "in_grace w s \<Longrightarrow> later w now \<Longrightarrow> in_grace w (tick_start now s)"
proof -
  assume g: "in_grace w s" and now: "later w now"
  obtain x s1 where e: "expire_browsers now s = (x, s1)" by (cases "expire_browsers now s")
  have "later w (case x of None \<Rightarrow> now | Some t \<Rightarrow> t)"
    using expire_grace(2) [OF g now e] now by (cases x) auto
  then show "in_grace w (tick_start now s)"
    unfolding tick_start_def e prod.case by (rule update_exit_grace [OF expire_grace(1) [OF g now e]])
qed

lemma advance_parts:
  "advance wld now s = (case release_due wld (due_keys now (tick_start now s)) (tick_start now s) of
        (Inl e, s3) \<Rightarrow> (Inl e, s3)
      | (Inr gone, s3) \<Rightarrow> (case refresh_all (views wld 2) (map fst (entries s3)) s3 of
            (Inl e, s4) \<Rightarrow> (Inl e, s4)
          | (Inr busy, s4) \<Rightarrow>
              if exit_candidate now busy s4 then
                (case orphan_scan wld now s4 of (pending, s5) \<Rightarrow>
                   (Inr \<lparr>tick_released = gone, tick_exit = \<not> pending\<rparr>, s5))
              else (Inr \<lparr>tick_released = gone, tick_exit = False\<rparr>, s4)))"
  by (cases "expire_browsers now s") (simp add: advance_def tick_start_def Let_def)

lemma advance_cases:
  assumes "advance wld now s = (answer, s')"
  obtains s3 s4 r1 r2 where
    "release_due wld (due_keys now (tick_start now s)) (tick_start now s) = (r1, s3)"
    "refresh_all (views wld 2) (map fst (entries s3)) s3 = (r2, s4)"
    "s' = s3 \<or> s' = s4 \<or> s' = snd (orphan_scan wld now s4)"
    "\<And>tick. answer = Inr tick \<Longrightarrow> r1 = Inr (tick_released tick) \<and>
       (tick_exit tick \<longrightarrow> r2 = Inr False \<and> exit_candidate now False s4 \<and> \<not> fst (orphan_scan wld now s4))"
proof -
  obtain r1 s3 where r1: "release_due wld (due_keys now (tick_start now s)) (tick_start now s) = (r1, s3)"
    by (cases "release_due wld (due_keys now (tick_start now s)) (tick_start now s)")
  obtain r2 s4 where r2: "refresh_all (views wld 2) (map fst (entries s3)) s3 = (r2, s4)"
    by (cases "refresh_all (views wld 2) (map fst (entries s3)) s3")
  obtain p s5 where o: "orphan_scan wld now s4 = (p, s5)" by (cases "orphan_scan wld now s4")
  note d = assms [unfolded advance_parts r1 r2 prod.case o]
  show thesis
    by (rule that [OF r1 r2]) (use d in \<open>auto simp: o exit_candidate_def split: sum.splits if_splits\<close>)
qed

lemma advance_grace:
  assumes g: "in_grace w s" and now: "later w now"
  shows "in_grace w (snd (advance wld now s))"
proof -
  obtain answer s' where a: "advance wld now s = (answer, s')" by (cases "advance wld now s")
  from a show ?thesis
  proof (cases rule: advance_cases)
    case (1 s3 s4 r1 r2)
    have "in_grace w s3" using release_due_grace [OF tick_start_grace [OF g now], of wld] 1(1) by (metis snd_conv)
    moreover from this have "in_grace w s4" using refresh_all_grace 1(2) by (metis snd_conv)
    ultimately show ?thesis using 1(3) orphan_scan_grace a by auto
  qed
qed

lemma due_entry:
  assumes "registry_ok s" and "k \<in> set (due_keys now s)"
  shows "\<exists>e a. entry_of s k = Some e \<and> release_at e = Some a \<and> a \<le> now"
proof -
  from assms(2) obtain e a where "(k, e) \<in> set (entries s)" "release_at e = Some a" "a \<le> now"
    by (auto simp: due_keys_def split: option.splits)
  then show ?thesis using assms(1) by (auto simp: registry_ok_def entry_of_def)
qed

lemma advance_waits:
  assumes g: "in_grace (Some (k, t)) s" and now: "t \<le> now" and a: "advance wld now s = (Inr tick, s')"
  shows "(k \<in> set (tick_released tick) \<longrightarrow> t + CHECKOUT_RELEASE_DELAY \<le> now)
    \<and> (tick_exit tick \<longrightarrow> t + DAEMON_IDLE_DELAY \<le> now)"
  using a
proof (cases rule: advance_cases)
  case (1 s3 s4 r1 r2)
  have l: "later (Some (k, t)) now" using now by (simp add: later_def)
  have s2: "in_grace (Some (k, t)) (tick_start now s)" by (rule tick_start_grace [OF g l])
  have s3: "in_grace (Some (k, t)) s3" using release_due_grace [OF s2, of wld] 1(1) by (metis snd_conv)
  have s4: "in_grace (Some (k, t)) s4" using refresh_all_grace [OF s3] 1(2) by (metis snd_conv)
  have "t + CHECKOUT_RELEASE_DELAY \<le> now" if "k \<in> set (tick_released tick)"
  proof -
    have "k \<in> set (due_keys now (tick_start now s))"
      using 1(4) [OF refl] 1(1) release_due_subset that by blast
    from due_entry [OF in_grace_ok [OF s2] this] obtain e b
      where "entry_of (tick_start now s) k = Some e" "release_at e = Some b" "b \<le> now" by auto
    with grace_entry [OF s2 this(1)] show ?thesis by (simp add: entry_grace_def)
  qed
  moreover have "t + DAEMON_IDLE_DELAY \<le> now" if "tick_exit tick"
    using 1(4) [OF refl] that s4 by (auto simp: exit_candidate_def in_grace_def exit_grace_def split: option.splits)
  ultimately show ?thesis by blast
qed

text \<open>A departure starts the grace.\<close>

lemma departure_starts:
  assumes ok: "registry_ok s" and e: "entry_of s k = Some e" "n \<in> set (sessions e)"
  shows "in_grace (Some (k, t)) (disconnect_at n t s)"
proof -
  have ok': "registry_ok (disconnect_at n t s)"
    using disconnect_grace [of None] ok by (simp add: in_grace_None later_def)
  obtain x s1 where ex: "expire_browsers t s = (x, s1)" by (cases "expire_browsers t s")
  have s1: "s1 = map_entries (expire_entry t) s" using ex by (simp add: expire_browsers_def)
  define s2 where "s2 = (case x of None \<Rightarrow> s1 | Some u \<Rightarrow> update_exit_deadline u s1)"
  have s2: "entries s2 = entries s1" by (simp add: s2_def update_exit_deadline_def split: option.split)
  let ?s3 = "map_entries (leave_entry n t) s2"
  have of3: "entry_of ?s3 j = map_option (leave_entry n t \<circ> expire_entry t) (entry_of s j)" for j
  proof -
    have "entry_of s2 j = entry_of s1 j" by (simp add: entry_of_def s2)
    then show ?thesis by (simp add: map_entries_of s1 option.map_comp)
  qed
  have gone: "list_ex (\<lambda>(_, e). n \<in> set (sessions e)) (entries s2)"
  proof -
    have "entry_of s1 k = Some (expire_entry t e)" by (simp add: s1 map_entries_of e(1))
    then have "(k, expire_entry t e) \<in> set (entries s2)"
      unfolding s2 entry_of_def by (rule map_of_SomeD)
    then show ?thesis
      unfolding list_ex_iff by (rule rev_bexI) (use e(2) in \<open>auto simp: expire_entry_def\<close>)
  qed
  note d = disconnect_at_def [of n t s, unfolded ex prod.case s2_def [symmetric] Let_def]
  have entries: "entry_of (disconnect_at n t s) = entry_of ?s3"
    unfolding d using gone by (simp add: update_exit_deadline_def fun_eq_iff entry_of_def)
  have idle: "exit_grace (Some (k, t)) (idle_exit_at (disconnect_at n t s))"
    unfolding d using gone
    by (auto simp: update_exit_deadline_def exit_grace_def list_ex_iff list_all_iff)
  have "entry_grace (Some (k, t)) j e'" if "entry_of (disconnect_at n t s) j = Some e'" for j e'
  proof -
    from that obtain e0 where e0: "entry_of s j = Some e0" "e' = leave_entry n t (expire_entry t e0)"
      by (auto simp: entries of3)
    show ?thesis
      using e0(2) ok_entry [OF ok e0(1)] e0(1) e
      by (auto simp: entry_grace_def leave_entry_def expire_entry_def expires_def Let_def entry_ok_def attached_client_def
          split: option.splits if_splits)
  qed
  with ok' idle show ?thesis by (simp add: in_grace_def)
qed

subsection \<open>Runs\<close>

text \<open>When an event happens; registering and probing have no time of their own.\<close>

fun event_time :: "registry_event \<Rightarrow> nat option" where
  "event_time (BrowserRequest w i now) = Some now"
| "event_time (Disconnect n now) = Some now"
| "event_time (Tick w now) = Some now"
| "event_time e = None"

definition no_earlier :: "nat \<Rightarrow> registry_event \<Rightarrow> bool" where
  "no_earlier t e \<longleftrightarrow> (case event_time e of None \<Rightarrow> True | Some now \<Rightarrow> t \<le> now)"

lemma step_grace:
  assumes g: "in_grace w s" and t: "\<And>now. event_time e = Some now \<Longrightarrow> later w now"
  shows "in_grace w (registry_step s e)"
proof (cases e)
  case (BrowserRequest wld i now)
  then show ?thesis using browser_request_grace [OF g t] by simp
next
  case (Disconnect n now)
  then show ?thesis using disconnect_grace [OF g t] by simp
next
  case (Tick wld now)
  then show ?thesis using advance_grace [OF g t] by simp
qed (use g in \<open>simp_all add: register_grace select_grace attach_launch_grace activate_grace set_pending_grace
    browser_identity_grace refresh_grace\<close>)

interpretation lifecycle: stepping registry_step registry_ok
proof
  fix s e assume "registry_ok s"
  then show "registry_ok (registry_step s e)"
    using step_grace [of None s e] by (simp add: in_grace_None later_def)
qed

text \<open>The runs after a departure: an event of an earlier time does not happen any more.\<close>

definition step_from :: "nat \<Rightarrow> checkout_registry \<Rightarrow> registry_event \<Rightarrow> checkout_registry" where
  "step_from t s e = (if no_earlier t e then registry_step s e else s)"

interpretation departed: stepping "step_from t" "in_grace (Some (k, t))" for k t
proof
  fix s e assume "in_grace (Some (k, t)) s"
  then show "in_grace (Some (k, t)) (step_from t s e)"
    by (auto simp: step_from_def no_earlier_def later_def split: option.splits intro!: step_grace)
qed

lemma starting_ok: "registry_ok (starting_at now)"
  by (simp add: registry_ok_def starting_at_def live_count_def)



definition sample_checkout :: metadata where
  "sample_checkout = \<lparr>md_root = ''/w'', root_key = ''k'', record_id = ''r'', md_device = 1, md_inode = 2\<rparr>"

definition sample_world :: world where
  "sample_world = \<lparr>verifies = (\<lambda>_ _. True), found = (\<lambda>_ m. Some m),
     views = (\<lambda>_ _. \<lparr>resources_held = True, h_in_flight = False, still_catching_up = False, retry_waiting = False,
       active_reads = 0, queue_pending = False, locked_h_in_flight = False, locked_transitional = False,
       locked_retry_waiting = False, locked_active_reads = 0, permit_offered = True\<rparr>),
     orphans_pending = False\<rparr>"

lemmas registry_evals = sample_checkout_def sample_world_def attach_launch_def attach_def retire_replaced_def
  starting_at_def entry_of_def put_entry_def bare_entry_def with_session_def active_count_def MAX_ACTIVE_CHECKOUTS_def
  advance_def expire_browsers_def last_expired_def map_entries_def expire_entry_def expires_def
  update_exit_deadline_def attached_client_def due_keys_def exit_candidate_def disconnect_at_def leave_entry_def
  refresh_pending_work_def release_def release_runtime_def clear_due_def orphan_scan_def
  CHECKOUT_RELEASE_DELAY_def DAEMON_IDLE_DELAY_def



text \<open>A session is never attached to another repository: \<open>select\<close> succeeds only if launch and selected
  checkout had the same common directory at each of its three readings, and then the session
  holds the selected checkout; if any reading differs, the answer is an error and the registry,
  its capacity included, is as before.\<close>

theorem select_same_repository:
  assumes "select wld session launch m s = (answer, s')"
  shows "(\<forall>sel. answer = Inr sel \<longrightarrow> marked m = Some (sel_identity sel)
        \<and> (\<exists>c. launch_common m 0 = Inr c \<and> selected_common m 0 = Inr c \<and> launch_common m 1 = Inr c
              \<and> selected_common m 1 = Inr c \<and> launch_common m 2 = Inr c \<and> selected_common m 2 = Inr c)
        \<and> (registry_ok s \<longrightarrow> (\<exists>e. entry_of s' (root_key (sel_identity sel)) = Some e \<and> session \<in> set (sessions e))))
    \<and> ((\<exists>n < 3. launch_common m n \<noteq> launch_common m 0 \<or> selected_common m n \<noteq> launch_common m 0) \<longrightarrow>
        \<not> is_ok answer \<and> s' = s)"
proof -
  have same: "marked m = Some (sel_identity sel)
      \<and> (\<exists>c. launch_common m 0 = Inr c \<and> selected_common m 0 = Inr c \<and> launch_common m 1 = Inr c
              \<and> selected_common m 1 = Inr c \<and> launch_common m 2 = Inr c \<and> selected_common m 2 = Inr c)"
    if "select_checks wld launch m = Inr sel" for sel
    using that by (auto simp: select_checks_def before_answer_def Let_def)
  have attached: "i = identity" if "attach wld k sess identity s = (Inr i, s1)" for k sess identity i s1
    using that by (auto simp: attach_def Let_def split: sum.splits prod.splits option.splits if_splits)
  have holds: "\<exists>e. entry_of s1 (root_key identity) = Some e \<and> session \<in> set (sessions e)"
    if "registry_ok s" "attach wld k (Some session) identity s = (Inr i, s1)" for k identity i s1
    using attach_grace(2) [of None s wld k "Some session" identity "Inr i" s1] that by (auto simp: in_grace_None)
  show ?thesis
  proof (cases "select_checks wld launch m")
    case (Inl e)
    then have "answer = Inl e \<and> s' = s" using assms by (auto simp: select_def)
    then show ?thesis by simp
  next
    case (Inr sel)
    have "launch_common m n = launch_common m 0 \<and> selected_common m n = launch_common m 0" if "n < 3" for n
    proof -
      from that have "n = 0 \<or> n = 1 \<or> n = 2" by arith
      with same [OF Inr] show ?thesis by auto
    qed
    then have never: "\<not> (\<exists>n < 3. launch_common m n \<noteq> launch_common m 0 \<or> selected_common m n \<noteq> launch_common m 0)"
      by blast
    obtain a s1 where att: "attach wld 9 (Some session) (sel_identity sel) s = (a, s1)"
      by (cases "attach wld 9 (Some session) (sel_identity sel) s")
    show ?thesis
    proof (cases a)
      case (Inl e)
      with assms have "answer = Inl e" by (simp add: select_def \<open>select_checks wld launch m = Inr sel\<close> att)
      then have "answer \<noteq> Inr sel'" for sel' by simp
      with never show ?thesis by blast
    next
      case (Inr i)
      with att have "i = sel_identity sel" by (simp add: attached)
      with assms Inr have "answer = Inr (sel\<lparr>sel_identity := i\<rparr>)" "s' = s1" "sel\<lparr>sel_identity := i\<rparr> = sel"
        by (simp_all add: select_def \<open>select_checks wld launch m = Inr sel\<close> att)
      then have sel: "answer = Inr sel" "s' = s1" by simp_all
      have "\<exists>e. entry_of s1 (root_key (sel_identity sel)) = Some e \<and> session \<in> set (sessions e)"
        if "registry_ok s" by (rule holds [OF that att [unfolded Inr]])
      with sel same [OF \<open>select_checks wld launch m = Inr sel\<close>] never show ?thesis
        by (simp only: sum.inject) blast
    qed
  qed
qed

definition sample_membership :: membership where
  "sample_membership = \<lparr>checkout_root = Inr ''/w'', unattached = Inr (), marked = Some sample_checkout,
     launch_common = (\<lambda>_. Inr (1, 2)), selected_common = (\<lambda>_. Inr (1, 3))\<rparr>"

theorem select_same_repository_witness:
  "snd (select sample_world 1 sample_checkout sample_membership (starting_at 0)) = starting_at 0"
proof -
  obtain a s' where sel: "select sample_world 1 sample_checkout sample_membership (starting_at 0) = (a, s')"
    by (cases "select sample_world 1 sample_checkout sample_membership (starting_at 0)")
  have "\<exists>n < 3. selected_common sample_membership n \<noteq> launch_common sample_membership 0"
    by (rule exI [of _ 0]) (simp add: sample_membership_def)
  then show ?thesis using select_same_repository [OF sel] sel by auto
qed

end
