(* ===== verification/Planning.thy ===== *)
theory Planning
  imports Model Json
begin

section \<open>Question evidence and its display (\<open>planning.rs\<close>)\<close>

text \<open>
  A question packet is the bounded evidence around one declaration; a selection classifies its
  calls; \<open>assemble\<close> is the focused view. Serialisation with its hash (\<open>digest\<close>) and size
  (\<open>encoded_size\<close>, of a packet and of a source file) and Unicode's lower case, trimming and word
  splitting are arguments, collected in the record \<open>codec\<close>. The evidence response of the store is the record \<open>evidence\<close> of its
  answers.
\<close>

definition MAX_PACKET_BYTES :: nat where "MAX_PACKET_BYTES = 1024 * 1024"

record question_request =
  qr_seed :: string
  qr_question :: string
  qr_expected :: index_pin
  qr_depth :: nat
  qr_max_visible :: nat
  qr_allow_deeper :: bool
  qr_focus_terms :: "string list"

definition validate_question :: "question_request \<Rightarrow> unit result" where
  "validate_question q =
     ensure (\<not> blank (qr_seed q) \<and> length (qr_seed q) \<le> 8192) ''seed must contain 1..8192 bytes'' (
     ensure (\<not> blank (qr_question q) \<and> length (qr_question q) \<le> 8192) ''question must contain 1..8192 bytes'' (
     ensure (qr_depth q \<le> 3) ''evidenceDepth must be at most 3'' (
     ensure (1 \<le> qr_max_visible q \<and> qr_max_visible q \<le> 12) ''maxVisible must be 1..12'' (
     ensure (length (qr_focus_terms q) \<le> 12
             \<and> list_all (\<lambda>t. \<not> blank t \<and> length t \<le> 256) (qr_focus_terms q))
       ''focusTerms must contain at most 12 nonempty terms of at most 256 bytes'' (Inr ())))))"

record question_packet =
  qp_id :: string
  qp_revision :: index_pin
  qp_request :: question_request
  qp_context :: view_result
  qp_sources :: "source_file list"
  qp_warnings :: "string list"

datatype relevance = Essential | Supporting | Incidental | Uncertain

record call_decision =
  cd_candidate :: string
  cd_relevance :: relevance
  cd_score :: "f64 option"

record selection_envelope =
  se_packet :: string
  se_decisions :: "call_decision list"

record focused_view =
  fv_packet :: string
  fv_revision :: index_pin
  fv_question :: string
  fv_source :: string
  fv_nodes :: "symbol list"
  fv_calls :: "call_site list"
  fv_regions :: "control_region list"
  fv_supporting :: nat
  fv_omitted :: nat
  fv_uncertain :: nat
  fv_policy_hidden :: nat
  fv_warnings :: "string list"

text \<open>\<open>digest\<close> is the hex SHA-256 of the JSON of everything in the packet but its own identifier.\<close>

record codec =
  digest :: "question_packet \<Rightarrow> string"
  encoded_size :: "question_packet \<Rightarrow> nat"
  source_size :: "source_file \<Rightarrow> nat"
  lowercase :: "string \<Rightarrow> string"
  trimmed :: "string \<Rightarrow> string"
  words_of :: "string \<Rightarrow> string list"

definition packet_id :: "codec \<Rightarrow> question_packet \<Rightarrow> string" where
  "packet_id c p = digest c (p\<lparr>qp_id := []\<rparr>)"

definition validate_packet :: "codec \<Rightarrow> question_packet \<Rightarrow> unit result" where
  "validate_packet c p =
     bind_result (validate_question (qp_request p)) (\<lambda>_.
     ensure (qp_revision p = qr_expected (qp_request p) \<and> qp_revision p = vr_revision (qp_context p))
       ''revision conflict in packet'' (
     ensure (vq_seed (vr_query (qp_context p)) = qr_seed (qp_request p)) ''packet seed mismatch'' (
     ensure (qp_id p = packet_id c p) ''packet integrity mismatch'' (
     ensure (encoded_size c p \<le> MAX_PACKET_BYTES) ''complete question packet exceeds 1 MiB'' (Inr ())))))"

subsection \<open>Preparing a packet\<close>

record evidence =
  ev_revision :: "index_pin result"
  ev_view :: "view_query \<Rightarrow> view_result option result"
  ev_source :: "string \<Rightarrow> source_file option result"

definition question_view :: "question_request \<Rightarrow> view_query" where
  "question_view q = \<lparr>vq_seed = qr_seed q, vq_depth = qr_depth q, vq_max_nodes = 80, vq_max_calls = 300,
     vq_include_callbacks = False, vq_exclude_paths = []\<rparr>"

definition callable :: "symbol \<Rightarrow> bool" where
  "callable n \<longleftrightarrow> sy_kind n = KFunction \<or> sy_kind n = KMethod"

definition noncallable :: "view_result \<Rightarrow> bool" where
  "noncallable v = (case vr_nodes v of [] \<Rightarrow> False | n # _ \<Rightarrow> \<not> callable n)"

definition evidence_paths :: "view_result \<Rightarrow> string list" where
  "evidence_paths v = sorted_list_of_set (set (map sy_path (vr_nodes v) @ map cs_path (vr_calls v) @ map cr_path (vr_regions v)))"

text \<open>The loop over the paths: the sources in order and the bytes so far, saturating like \<open>usize\<close>.\<close>

fun gather :: "codec \<Rightarrow> (string \<Rightarrow> source_file option result) \<Rightarrow> string list \<Rightarrow> nat \<Rightarrow> source_file list result" where
  "gather c src [] bytes = Inr []"
| "gather c src (path # paths) bytes =
     bind_result (src path) (\<lambda>found.
     bind_result (ok_or found ''missing indexed source file'') (\<lambda>file.
       let bytes' = min (bytes + source_size c file) 18446744073709551615 in
       ensure (bytes' \<le> MAX_PACKET_BYTES)
         ''complete question packet exceeds 1 MiB; sources are never truncated''
         (bind_result (gather c src paths bytes') (\<lambda>files. Inr (file # files)))))"

definition SOURCE_ONLY :: string where
  "SOURCE_ONLY = ''Bounded source-only evidence: selected noncallable declaration, with no executable calls, target, or callback traversal. This is not a complete program or answer.''"

definition TERMINAL_ONLY :: string where
  "TERMINAL_ONLY = ''Bounded terminal evidence only: selected declaration and its measured calls/regions; no target or callback traversal. This is not a complete program or answer.''"

definition prepare_in :: "codec \<Rightarrow> evidence \<Rightarrow> question_request \<Rightarrow> question_packet result" where
  "prepare_in c ev q =
     bind_result (validate_question q) (\<lambda>_.
     bind_result (ev_revision ev) (\<lambda>revision.
     ensure (revision = qr_expected q) ''revision conflict: requested snapshot is no longer current''
    (bind_result (ev_view ev (question_view q)) (\<lambda>found.
     bind_result (ok_or found ''question seed not found'') (\<lambda>context.
     ensure (vr_revision context = qr_expected q)
       ''revision conflict: graph changed during question preparation''
    (ensure (noncallable context \<longrightarrow> length (vr_nodes context) = 1 \<and> vr_calls context = [] \<and> vr_regions context = [])
       ''noncallable question seed cannot carry executable evidence''
    (bind_result (gather c (ev_source ev) (evidence_paths context) 0) (\<lambda>files.
       let packet = \<lparr>qp_id = [], qp_revision = vr_revision context, qp_request = q, qp_context = context,
             qp_sources = files, qp_warnings = vr_warnings context @
               [if noncallable context then SOURCE_ONLY else TERMINAL_ONLY]\<rparr>;
           packet' = packet\<lparr>qp_id := packet_id c packet\<rparr> in
       bind_result (validate_packet c packet') (\<lambda>_. Inr packet')))))))))"

text \<open>\<open>prepare\<close>: the response's final fence decides whether the packet goes out.\<close>

definition prepare_question :: "codec \<Rightarrow> evidence result \<Rightarrow> unit result \<Rightarrow> question_request \<Rightarrow> question_packet result" where
  "prepare_question c response fence q =
     bind_result response (\<lambda>ev. bind_result (prepare_in c ev q) (\<lambda>p. bind_result fence (\<lambda>_. Inr p)))"

subsection \<open>The local preview\<close>

definition STOP_WORDS :: "string list" where
  "STOP_WORDS = [''the'', ''and'', ''are'', ''does'', ''how'', ''what'', ''where'', ''when'', ''which'', ''why'',
     ''this'', ''that'', ''with'', ''from'', ''for'', ''into'', ''calls'', ''call'', ''function'']"

definition question_terms :: "codec \<Rightarrow> question_request \<Rightarrow> string list" where
  "question_terms c q =
     (if qr_focus_terms q \<noteq> [] then map (\<lambda>t. lowercase c (trimmed c t)) (qr_focus_terms q)
      else sorted_list_of_set (set (filter (\<lambda>t. length t > 2 \<and> t \<notin> set STOP_WORDS)
             (map (lowercase c) (words_of c (qr_question q))))))"

text \<open>\<open>str::contains\<close>.\<close>

fun contains_str :: "string \<Rightarrow> string \<Rightarrow> bool" where
  "contains_str [] t \<longleftrightarrow> t = []"
| "contains_str (x # s) t \<longleftrightarrow> starts_with t (x # s) \<or> contains_str s t"

definition callee_lower :: "codec \<Rightarrow> call_site \<Rightarrow> string" where
  "callee_lower c call = lowercase c (case cs_callee_text call of None \<Rightarrow> [] | Some t \<Rightarrow> t)"

definition literal_match :: "codec \<Rightarrow> call_site \<Rightarrow> string list \<Rightarrow> bool" where
  "literal_match c call ts = list_ex (contains_str (callee_lower c call)) ts"

definition preview_decision :: "codec \<Rightarrow> question_request \<Rightarrow> string list \<Rightarrow> call_site \<Rightarrow> call_decision" where
  "preview_decision c q ts call = \<lparr>cd_candidate = cs_id call,
     cd_relevance = (if literal_match c call ts then
        (if cs_caller call = qr_seed q \<or> qr_allow_deeper q then Essential else Supporting) else Uncertain),
     cd_score = None\<rparr>"

definition preview :: "codec \<Rightarrow> question_packet \<Rightarrow> selection_envelope result" where
  "preview c p = bind_result (validate_packet c p) (\<lambda>_.
     Inr \<lparr>se_packet = qp_id p, se_decisions =
       map (preview_decision c (qp_request p) (question_terms c (qp_request p)))
         (sort_key (\<lambda>call. cs_caller call \<noteq> qr_seed (qp_request p)) (vr_calls (qp_context p)))\<rparr>)"

subsection \<open>Validating a selection\<close>

text \<open>\<open>score.is_finite() && (0.0..=1.0).contains(&score)\<close>.\<close>

fun unit_score :: "f64 \<Rightarrow> bool" where
  "unit_score (Finite r) \<longleftrightarrow> 0 \<le> r \<and> r \<le> 1"
| "unit_score _ = False"

fun check_decisions :: "string list \<Rightarrow> call_decision list \<Rightarrow> string list \<Rightarrow> string list result" where
  "check_decisions candidates [] seen = Inr seen"
| "check_decisions candidates (d # ds) seen =
     ensure (case cd_score d of None \<Rightarrow> True | Some s \<Rightarrow> unit_score s)
       ''displayScore must be finite and within 0..1''
    (ensure (cd_candidate d \<in> set candidates) ''unknown candidate ID''
    (ensure (cd_candidate d \<notin> set seen) ''duplicate candidate decision''
       (check_decisions candidates ds (cd_candidate d # seen))))"

definition validate_selection :: "codec \<Rightarrow> selection_envelope \<Rightarrow> question_packet \<Rightarrow> unit result" where
  "validate_selection c s p =
     bind_result (validate_packet c p) (\<lambda>_.
     ensure (se_packet s = qp_id p) ''selection packetId mismatch''
    (let candidates = map cs_id (vr_calls (qp_context p)) in
     ensure (distinct candidates) ''duplicate context call IDs''
    (bind_result (check_decisions candidates (se_decisions s) []) (\<lambda>seen.
     ensure (set seen = set candidates) ''missing candidate decisions'' (Inr ())))))"

subsection \<open>The focused view\<close>

text \<open>
  The orders of \<open>assemble\<close>: direct calls of the seed first, then higher scores, then the source
  order by path, start, the longer range first, and identifier. A missing score counts as zero.
\<close>

definition score_of :: "selection_envelope \<Rightarrow> string \<Rightarrow> rat" where
  "score_of s candidate = (case find (\<lambda>d. cd_candidate d = candidate) (rev (se_decisions s)) of
       None \<Rightarrow> 0
     | Some d \<Rightarrow> (case cd_score d of Some (Finite r) \<Rightarrow> r | _ \<Rightarrow> 0))"

definition relevance_of :: "selection_envelope \<Rightarrow> string \<Rightarrow> relevance option" where
  "relevance_of s candidate =
     map_option cd_relevance (find (\<lambda>d. cd_candidate d = candidate) (rev (se_decisions s)))"

definition source_order :: "call_site \<Rightarrow> string \<times> nat \<times> int \<times> string" where
  "source_order call = (cs_path call, start_byte (cs_range call), - int (end_byte (cs_range call)), cs_id call)"

definition rank :: "question_packet \<Rightarrow> selection_envelope \<Rightarrow> call_site \<Rightarrow> bool \<times> rat \<times> string \<times> nat \<times> int \<times> string" where
  "rank p s call = (cs_caller call \<noteq> qr_seed (qp_request p), - score_of s (cs_id call), source_order call)"

definition essential_calls :: "question_packet \<Rightarrow> selection_envelope \<Rightarrow> call_site list" where
  "essential_calls p s = filter (\<lambda>call. relevance_of s (cs_id call) = Some Essential) (vr_calls (qp_context p))"

definition eligible_calls :: "question_packet \<Rightarrow> selection_envelope \<Rightarrow> call_site list" where
  "eligible_calls p s = filter (\<lambda>call. qr_allow_deeper (qp_request p) \<or> cs_caller call = qr_seed (qp_request p))
     (essential_calls p s)"

definition visible_calls :: "question_packet \<Rightarrow> selection_envelope \<Rightarrow> call_site list" where
  "visible_calls p s = sort_key source_order
     (take (qr_max_visible (qp_request p)) (sort_key (rank p s) (eligible_calls p s)))"

text \<open>
  The walk from a region to its ancestors, \<open>while let Some(id) = current\<close>: it stops at a region that
  is in the set already or that has no parent, and so ends even if the parents form a cycle.
\<close>

definition parent_of :: "control_region list \<Rightarrow> string \<Rightarrow> string option" where
  "parent_of regions i = Option.bind (map_of (rev (map (\<lambda>r. (cr_id r, cr_parent r)) regions)) i) (\<lambda>x. x)"

lemma unseen_less:
  assumes "parent_of regions i = Some j" and "i \<notin> set acc"
  shows "length (filter (\<lambda>r. cr_id r \<noteq> i \<and> cr_id r \<notin> set acc) regions)
    < length (filter (\<lambda>r. cr_id r \<notin> set acc) regions)"
proof -
  from assms(1) have "map_of (rev (map (\<lambda>r. (cr_id r, cr_parent r)) regions)) i = Some (Some j)"
    by (simp add: parent_of_def bind_eq_Some_conv)
  from map_of_SomeD [OF this] obtain r where r: "r \<in> set (filter (\<lambda>r. cr_id r \<notin> set acc) regions)" "cr_id r = i"
    using assms(2) by auto
  have "filter (\<lambda>r. cr_id r \<noteq> i \<and> cr_id r \<notin> set acc) regions
      = filter (\<lambda>r. cr_id r \<noteq> i) (filter (\<lambda>r. cr_id r \<notin> set acc) regions)" by (simp add: conj_commute)
  also have "length \<dots> < length (filter (\<lambda>r. cr_id r \<notin> set acc) regions)"
    by (rule length_filter_less [OF r(1)]) (simp add: r(2))
  finally show ?thesis .
qed

lemma unseen_le: "length (filter (\<lambda>r. cr_id r \<noteq> i \<and> cr_id r \<notin> set acc) regions)
    < Suc (length (filter (\<lambda>r. cr_id r \<notin> set acc) regions))"
  by (induction regions) auto

function climb :: "control_region list \<Rightarrow> string option \<Rightarrow> string list \<Rightarrow> string list" where
  "climb regions current acc = (case current of
       None \<Rightarrow> acc
     | Some i \<Rightarrow> if i \<in> set acc then acc else climb regions (parent_of regions i) (i # acc))"
  by pat_completeness auto
termination
  by (relation "measure (\<lambda>(regions, current, acc). length (filter (\<lambda>r. cr_id r \<notin> set acc) regions) + (if current = None then 0 else 1))")
    (auto simp: unseen_le unseen_less)

declare climb.simps [simp del]

definition region_closure :: "control_region list \<Rightarrow> call_site list \<Rightarrow> string list" where
  "region_closure regions calls = fold (\<lambda>call acc. fold (\<lambda>i. climb regions (Some i)) (cs_regions call) acc) calls []"

definition count_relevance :: "relevance \<Rightarrow> selection_envelope \<Rightarrow> nat" where
  "count_relevance r s = length (filter (\<lambda>d. cd_relevance d = r) (se_decisions s))"

definition RELEVANCE_ONLY :: string where
  "RELEVANCE_ONLY = ''Selection is relevance display, not proof of a target, class relation, callback execution, or answer.''"

definition SCORES_ARE_HINTS :: string where
  "SCORES_ARE_HINTS = ''Relative display scores are ranking hints, not calibrated confidence''"

definition local_source :: "string \<Rightarrow> bool" where
  "local_source source \<longleftrightarrow> source = ''localPreview'' \<or> source = ''local'' \<or> source = ''preview''"

text \<open>The em dash of the local preview's warning is its three UTF-8 bytes.\<close>

definition LOCAL_PREVIEW :: string where
  "LOCAL_PREVIEW = ''Local preview'' @ [CHR 0xE2, CHR 0x80, CHR 0x94] @
     ''not Jev/ACP: deterministic literal callee-name matching only; no question understanding or semantic completeness claim.''"

definition UNMATCHED_TERMS :: string where
  "UNMATCHED_TERMS = ''Some question/focus terms have no literal callee-name match. Their meaning was not resolved; use manual selection or review evidence.''"

definition view_warnings :: "codec \<Rightarrow> question_packet \<Rightarrow> selection_envelope \<Rightarrow> string \<Rightarrow> nat \<Rightarrow> string list" where
  "view_warnings c p s source hidden = qp_warnings p
     @ (if list_ex (\<lambda>d. cd_score d \<noteq> None) (se_decisions s) then [SCORES_ARE_HINTS] else [])
     @ [RELEVANCE_ONLY]
     @ (if local_source source then [LOCAL_PREVIEW] @
          (let ts = question_terms c (qp_request p) in
           if ts = [] \<or> list_ex (\<lambda>t. \<not> list_ex (\<lambda>call. contains_str (callee_lower c call) t) (vr_calls (qp_context p))) ts
           then [UNMATCHED_TERMS] else [])
        else [])
     @ (if hidden > 0 then [''Display policy hid '' @ nat_text hidden @
          '' essential calls (direct-only policy or maxVisible); no lower-relevance calls were promoted.''] else [])"

definition assemble :: "codec \<Rightarrow> question_packet \<Rightarrow> selection_envelope \<Rightarrow> string \<Rightarrow> focused_view result" where
  "assemble c p s source =
     bind_result (validate_selection c s p) (\<lambda>_.
       let calls = visible_calls p s;
           hidden = length (essential_calls p s) - length calls;
           node_ids = qr_seed (qp_request p) # map cs_caller calls;
           region_ids = region_closure (vr_regions (qp_context p)) calls
       in Inr \<lparr>fv_packet = qp_id p, fv_revision = qp_revision p, fv_question = qr_question (qp_request p),
            fv_source = source,
            fv_nodes = filter (\<lambda>n. sy_id n \<in> set node_ids) (vr_nodes (qp_context p)),
            fv_calls = calls,
            fv_regions = filter (\<lambda>r. cr_id r \<in> set region_ids) (vr_regions (qp_context p)),
            fv_supporting = count_relevance Supporting s,
            fv_omitted = length (vr_calls (qp_context p)) - length calls,
            fv_uncertain = count_relevance Uncertain s, fv_policy_hidden = hidden,
            fv_warnings = view_warnings c p s source hidden\<rparr>)"

subsection \<open>Regions: the walk and the ancestors\<close>

inductive ancestor :: "control_region list \<Rightarrow> string \<Rightarrow> string \<Rightarrow> bool" for regions where
  self: "ancestor regions i i"
| up: "ancestor regions i j \<Longrightarrow> parent_of regions j = Some k \<Longrightarrow> ancestor regions i k"

lemma ancestor_parent: "parent_of regions i = Some k \<Longrightarrow> ancestor regions k j \<Longrightarrow> ancestor regions i j"
  by (rotate_tac, induction rule: ancestor.induct) (auto intro: ancestor.intros)

text \<open>A set of regions closed under parents.\<close>

definition parent_closed :: "control_region list \<Rightarrow> string set \<Rightarrow> bool" where
  "parent_closed regions S \<longleftrightarrow> (\<forall>i \<in> S. \<forall>k. parent_of regions i = Some k \<longrightarrow> k \<in> S)"

lemma closed_ancestors: "ancestor regions i j \<Longrightarrow> parent_closed regions S \<Longrightarrow> i \<in> S \<Longrightarrow> j \<in> S"
  by (induction rule: ancestor.induct) (auto simp: parent_closed_def)

lemma climb_facts:
  assumes "\<forall>i \<in> set acc. \<forall>k. parent_of regions i = Some k \<longrightarrow> k \<in> set acc \<or> current = Some k"
  shows "set acc \<subseteq> set (climb regions current acc)
    \<and> set (climb regions current acc) \<subseteq> set acc \<union> {j. \<exists>i. current = Some i \<and> ancestor regions i j}
    \<and> parent_closed regions (set (climb regions current acc)) \<and> (\<forall>i. current = Some i \<longrightarrow> i \<in> set (climb regions current acc))"
  using assms
proof (induction regions current acc rule: climb.induct)
  case (1 regions current acc)
  show ?case
  proof (cases current)
    case None
    then have "climb regions current acc = acc" by (subst climb.simps) simp
    with None 1(2) show ?thesis by (simp add: parent_closed_def)
  next
    case (Some i)
    show ?thesis
    proof (cases "i \<in> set acc")
      case True
      with Some have "climb regions current acc = acc" by (subst climb.simps) simp
      with Some True 1(2) show ?thesis by (auto simp: parent_closed_def)
    next
      case False
      have step: "climb regions current acc = climb regions (parent_of regions i) (i # acc)"
        unfolding Some by (subst climb.simps) (simp add: False)
      have "\<forall>j \<in> set (i # acc). \<forall>k. parent_of regions j = Some k \<longrightarrow> k \<in> set (i # acc) \<or> parent_of regions i = Some k"
        using 1(2) Some by auto
      note ih = 1(1) [OF Some False this]
      have "set (climb regions current acc) \<subseteq> set acc \<union> {j. ancestor regions i j}"
        unfolding step using ih ancestor_parent by (fastforce intro: ancestor.self)
      then show ?thesis using ih unfolding step by (auto simp: Some)
    qed
  qed
qed

lemma climb_set:
  assumes "parent_closed regions (set acc)"
  shows "set (climb regions (Some i) acc) = set acc \<union> {j. ancestor regions i j}"
    "parent_closed regions (set (climb regions (Some i) acc))"
proof -
  have "\<forall>j \<in> set acc. \<forall>k. parent_of regions j = Some k \<longrightarrow> k \<in> set acc \<or> Some i = Some k"
    using assms by (auto simp: parent_closed_def)
  note f = climb_facts [OF this]
  from f show "parent_closed regions (set (climb regions (Some i) acc))" by blast
  with f show "set (climb regions (Some i) acc) = set acc \<union> {j. ancestor regions i j}"
    using closed_ancestors by blast
qed

lemma climb_all:
  assumes "parent_closed regions (set acc)"
  shows "set (fold (\<lambda>i. climb regions (Some i)) is acc) = set acc \<union> {j. \<exists>i \<in> set is. ancestor regions i j}
    \<and> parent_closed regions (set (fold (\<lambda>i. climb regions (Some i)) is acc))"
  using assms
proof (induction "is" arbitrary: acc)
  case (Cons i "is")
  from Cons.IH [OF climb_set(2) [OF Cons.prems, of i]] climb_set(1) [OF Cons.prems, of i]
  show ?case unfolding fold_simps comp_apply list.set by blast
qed simp

text \<open>The regions shown with the visible calls are exactly the regions those calls name together with all
  their ancestors; the walk that collects them ends for every list of regions, also when the parents
  form a cycle or a parent is missing.\<close>

theorem region_closure_ancestors:
  "set (region_closure regions calls)
     = {j. \<exists>call \<in> set calls. \<exists>i \<in> set (cs_regions call). ancestor regions i j}"
proof -
  define visit where "visit = (\<lambda>call :: call_site. fold (\<lambda>i. climb regions (Some i)) (cs_regions call))"
  have "parent_closed regions (set acc) \<Longrightarrow>
      set (fold visit calls acc) = set acc \<union> {j. \<exists>call \<in> set calls. \<exists>i \<in> set (cs_regions call). ancestor regions i j}" for acc
  proof (induction calls arbitrary: acc)
    case (Cons call calls)
    from climb_all [OF Cons.prems, of "cs_regions call"] Cons.IH [of "visit call acc"]
    show ?case by (auto simp: visit_def)
  qed simp
  from this [of "[]"] show ?thesis by (simp add: region_closure_def visit_def parent_closed_def)
qed

subsection \<open>Selections and views\<close>

lemma check_decisions_Inr:
  "check_decisions candidates ds seen = Inr out \<longleftrightarrow>
     list_all (\<lambda>d. (\<forall>x. cd_score d = Some x \<longrightarrow> unit_score x) \<and> cd_candidate d \<in> set candidates) ds
     \<and> distinct (map cd_candidate ds) \<and> set (map cd_candidate ds) \<inter> set seen = {}
     \<and> out = rev (map cd_candidate ds) @ seen"
  by (induction candidates ds seen rule: check_decisions.induct) (auto split: option.splits)

lemma selection_iff:
  "validate_selection c s p = Inr () \<longleftrightarrow> validate_packet c p = Inr () \<and> se_packet s = qp_id p
     \<and> distinct (map cs_id (vr_calls (qp_context p))) \<and> distinct (map cd_candidate (se_decisions s))
     \<and> set (map cd_candidate (se_decisions s)) = set (map cs_id (vr_calls (qp_context p)))
     \<and> list_all (\<lambda>d. \<forall>x. cd_score d = Some x \<longrightarrow> unit_score x) (se_decisions s)"
  by (auto simp: validate_selection_def Let_def check_decisions_Inr list_all_iff)

text \<open>A validated selection decides every candidate call exactly once and nothing else, with every
  score in the unit interval; and the local preview of a valid packet whose calls have distinct
  identifiers is such a selection.\<close>

theorem selection_complete:
  "(validate_selection c s p = Inr () \<longrightarrow>
      mset (map cd_candidate (se_decisions s)) = mset (map cs_id (vr_calls (qp_context p)))
      \<and> list_all (\<lambda>d. \<forall>x. cd_score d = Some x \<longrightarrow> unit_score x) (se_decisions s))
   \<and> (preview c p = Inr s \<and> distinct (map cs_id (vr_calls (qp_context p))) \<longrightarrow> validate_selection c s p = Inr ())"
proof (intro conjI impI)
  assume v: "validate_selection c s p = Inr ()"
  then show "mset (map cd_candidate (se_decisions s)) = mset (map cs_id (vr_calls (qp_context p)))"
    unfolding selection_iff by (metis set_eq_iff_mset_eq_distinct)
  show "list_all (\<lambda>d. \<forall>x. cd_score d = Some x \<longrightarrow> unit_score x) (se_decisions s)"
    using v by (simp add: selection_iff)
next
  assume p: "preview c p = Inr s \<and> distinct (map cs_id (vr_calls (qp_context p)))"
  define key where "key = (\<lambda>call :: call_site. cs_caller call \<noteq> qr_seed (qp_request p))"
  have s: "validate_packet c p = Inr ()" "se_packet s = qp_id p"
    "map cd_candidate (se_decisions s) = map cs_id (sort_key key (vr_calls (qp_context p)))"
    "list_all (\<lambda>d. cd_score d = None) (se_decisions s)"
    using p by (auto simp: preview_def preview_decision_def key_def list_all_iff)
  have "mset (map cs_id (sort_key key (vr_calls (qp_context p)))) = mset (map cs_id (vr_calls (qp_context p)))"
    by simp
  then have "distinct (map cs_id (sort_key key (vr_calls (qp_context p))))"
    using p by (metis mset_eq_imp_distinct_iff)
  then show "validate_selection c s p = Inr ()"
    using s p by (simp add: selection_iff list_all_iff)
qed

lemma take_sorted_best:
  assumes "x \<in> set (take n (sort_key f xs))" and "y \<in> set (drop n (sort_key f xs))"
  shows "f x \<le> f y"
proof -
  have "sorted (map f (take n (sort_key f xs) @ drop n (sort_key f xs)))" by simp
  then show ?thesis using assms by (simp only: map_append sorted_append) auto
qed

lemma relevance_of_decision:
  "relevance_of s i = Some r \<Longrightarrow> \<exists>d \<in> set (se_decisions s). cd_candidate d = i \<and> cd_relevance d = r"
  by (auto simp: relevance_of_def find_Some_iff) (metis nth_mem set_rev length_rev)

text \<open>C26: The focused view promotes nothing: it shows at most the permitted number of calls, each one a call
  of the packet that the selection calls essential and that the direct-only policy admits; a
  permitted essential call that is left out never ranks before a shown one; the shown calls are in
  source order and what is left out is counted exactly.\<close>

theorem view_shows_best:
  assumes view: "assemble c p s source = Inr v"
  shows "length (fv_calls v) = min (qr_max_visible (qp_request p)) (length (eligible_calls p s))
    \<and> sorted (map source_order (fv_calls v))
    \<and> fv_omitted v + length (fv_calls v) = length (vr_calls (qp_context p))
    \<and> fv_policy_hidden v + length (fv_calls v) = length (essential_calls p s)
    \<and> (\<forall>call \<in> set (fv_calls v). call \<in> set (vr_calls (qp_context p))
        \<and> (qr_allow_deeper (qp_request p) \<or> cs_caller call = qr_seed (qp_request p))
        \<and> (\<exists>d \<in> set (se_decisions s). cd_candidate d = cs_id call \<and> cd_relevance d = Essential))
    \<and> (\<exists>left. mset (fv_calls v) + mset left = mset (eligible_calls p s)
        \<and> (\<forall>shown \<in> set (fv_calls v). \<forall>hidden \<in> set left. rank p s shown \<le> rank p s hidden))"
proof -
  let ?n = "qr_max_visible (qp_request p)" and ?ranked = "sort_key (rank p s) (eligible_calls p s)"
  have calls: "fv_calls v = sort_key source_order (take ?n ?ranked)"
    and om: "fv_omitted v = length (vr_calls (qp_context p)) - length (fv_calls v)"
    and hid: "fv_policy_hidden v = length (essential_calls p s) - length (fv_calls v)"
    using view by (auto simp: assemble_def Let_def visible_calls_def)
  have len: "length (fv_calls v) = min ?n (length (eligible_calls p s))" by (simp add: calls)
  have le1: "length (eligible_calls p s) \<le> length (essential_calls p s)" by (simp add: eligible_calls_def)
  have le2: "length (essential_calls p s) \<le> length (vr_calls (qp_context p))" by (simp add: essential_calls_def)
  have shown: "set (fv_calls v) = set (take ?n ?ranked)" by (simp add: calls)
  then have sub: "set (fv_calls v) \<subseteq> set (eligible_calls p s)" using set_take_subset [of ?n ?ranked] by simp
  have "mset (take ?n ?ranked @ drop ?n ?ranked) = mset (eligible_calls p s)" by (simp only: append_take_drop_id mset_sort)
  then have "mset (fv_calls v) + mset (drop ?n ?ranked) = mset (eligible_calls p s)"
    by (simp only: calls mset_sort mset_append)
  moreover have "\<forall>x \<in> set (fv_calls v). \<forall>y \<in> set (drop ?n ?ranked). rank p s x \<le> rank p s y"
    unfolding shown by (intro ballI take_sorted_best)
  ultimately have best: "\<exists>left. mset (fv_calls v) + mset left = mset (eligible_calls p s)
      \<and> (\<forall>shown \<in> set (fv_calls v). \<forall>hidden \<in> set left. rank p s shown \<le> rank p s hidden)" by blast
  have each: "call \<in> set (vr_calls (qp_context p))
      \<and> (qr_allow_deeper (qp_request p) \<or> cs_caller call = qr_seed (qp_request p))
      \<and> (\<exists>d \<in> set (se_decisions s). cd_candidate d = cs_id call \<and> cd_relevance d = Essential)"
    if "call \<in> set (fv_calls v)" for call
    using that sub relevance_of_decision by (auto simp: eligible_calls_def essential_calls_def)
  show ?thesis
    using len om hid le1 le2 best each by (simp add: calls)
qed

subsection \<open>Prepared packets\<close>

lemma gather_facts:
  assumes "gather c src paths bytes = Inr files"
  shows "list_all2 (\<lambda>path f0. src path = Inr (Some f0)) paths files
    \<and> (paths \<noteq> [] \<longrightarrow> bytes + sum_list (map (source_size c) files) \<le> MAX_PACKET_BYTES)"
  using assms
proof (induction c src paths bytes arbitrary: files rule: gather.induct)
  case (2 c src path paths bytes)
  from 2(2) obtain f0 rest where f: "src path = Inr (Some f0)" "files = f0 # rest"
    and le: "min (bytes + source_size c f0) 18446744073709551615 \<le> MAX_PACKET_BYTES"
    and g: "gather c src paths (min (bytes + source_size c f0) 18446744073709551615) = Inr rest"
    by (auto simp: Let_def)
  from le have m: "min (bytes + source_size c f0) 18446744073709551615 = bytes + source_size c f0"
    by (simp add: MAX_PACKET_BYTES_def min_def split: if_splits)
  from 2(1) [OF refl g] have ih: "list_all2 (\<lambda>path f0. src path = Inr (Some f0)) paths rest"
    "paths \<noteq> [] \<longrightarrow> bytes + source_size c f0 + sum_list (map (source_size c) rest) \<le> MAX_PACKET_BYTES"
    by (auto simp: m)
  show ?case
  proof (cases paths)
    case Nil
    with g f m le show ?thesis by simp
  next
    case Cons
    with ih f show ?thesis by simp
  qed
qed simp

text \<open>A packet that \<open>prepare\<close> hands out is whole: it passes validation, speaks of the requested revision
  only, carries the complete source of exactly the files its evidence names, within 1 MiB, and a
  declaration that is not callable carries no execution evidence.\<close>

theorem prepared_packet_whole:
  assumes prep: "prepare_in c ev q = Inr p"
  shows "validate_packet c p = Inr () \<and> qp_request p = q \<and> qp_revision p = qr_expected q
    \<and> vr_revision (qp_context p) = qr_expected q
    \<and> list_all2 (\<lambda>path file. ev_source ev path = Inr (Some file)) (evidence_paths (qp_context p)) (qp_sources p)
    \<and> sum_list (map (source_size c) (qp_sources p)) \<le> MAX_PACKET_BYTES
    \<and> (noncallable (qp_context p) \<longrightarrow> vr_calls (qp_context p) = [] \<and> vr_regions (qp_context p) = [])"
proof -
  obtain ctx files where v: "vr_revision ctx = qr_expected q"
      "noncallable ctx \<longrightarrow> length (vr_nodes ctx) = 1 \<and> vr_calls ctx = [] \<and> vr_regions ctx = []"
    and g: "gather c (ev_source ev) (evidence_paths ctx) 0 = Inr files"
    and p: "qp_request p = q" "qp_revision p = vr_revision ctx" "qp_context p = ctx" "qp_sources p = files"
      "validate_packet c p = Inr ()"
    using prep by (auto simp: prepare_in_def Let_def)
  note f = gather_facts [OF g]
  have "sum_list (map (source_size c) files) \<le> MAX_PACKET_BYTES"
    using f by (cases "evidence_paths ctx = []") auto
  with f v p show ?thesis by simp
qed

text \<open>A packet around one function with two calls.\<close>

definition sample_codec :: codec where
  "sample_codec = \<lparr>digest = (\<lambda>_. ''d''), encoded_size = (\<lambda>_. 9), source_size = (\<lambda>_. 4), lowercase = (\<lambda>s. s),
     trimmed = (\<lambda>s. s), words_of = (\<lambda>s. [s])\<rparr>"

definition sample_pin :: index_pin where
  "sample_pin = \<lparr>ip_generation = 1, ip_revision = 3\<rparr>"

definition sample_span :: "nat \<Rightarrow> source_range" where
  "sample_span n = \<lparr>start_byte = n, end_byte = n + 1, start_line = 1, start_column = n, end_line = 1, end_column = n + 1\<rparr>"

definition sample_call_site :: "string \<Rightarrow> nat \<Rightarrow> call_site" where
  "sample_call_site i n = \<lparr>cs_id = i, cs_caller = ''f'', cs_callee_text = Some i, cs_path = ''a.js'',
     cs_range = sample_span n, cs_callee_range = None, cs_ordinal = n, cs_regions = [],
     cs_provenance = \<lparr>pv_source = ''s'', pv_semantic = SemUnavailable\<rparr>\<rparr>"

definition sample_question :: question_request where
  "sample_question = \<lparr>qr_seed = ''f'', qr_question = ''g'', qr_expected = sample_pin, qr_depth = 1,
     qr_max_visible = 1, qr_allow_deeper = False, qr_focus_terms = [''g'']\<rparr>"

definition sample_context :: view_result where
  "sample_context = \<lparr>vr_revision = sample_pin, vr_query = question_view sample_question,
     vr_nodes = [\<lparr>sy_id = ''f'', sy_name = ''f'', sy_display_label = None, sy_kind = KFunction, sy_path = ''a.js'',
       sy_range = sample_span 0, sy_parent = None, sy_accessor = False,
       sy_provenance = \<lparr>pv_source = ''s'', pv_semantic = SemUnavailable\<rparr>\<rparr>],
     vr_calls = [sample_call_site ''h'' 2, sample_call_site ''g'' 5], vr_regions = [],
     vr_truncated = False, vr_omitted_nodes = 0, vr_warnings = []\<rparr>"

definition sample_evidence :: evidence where
  "sample_evidence = \<lparr>ev_revision = Inr sample_pin, ev_view = (\<lambda>_. Inr (Some sample_context)),
     ev_source = (\<lambda>path. Inr (Some \<lparr>sf_path = path, sf_hash = ''x'', sf_language = ''js'', sf_text = ''g()''\<rparr>))\<rparr>"

definition sample_packet :: question_packet where
  "sample_packet = \<lparr>qp_id = ''d'', qp_revision = sample_pin, qp_request = sample_question, qp_context = sample_context,
     qp_sources = [\<lparr>sf_path = ''a.js'', sf_hash = ''x'', sf_language = ''js'', sf_text = ''g()''\<rparr>],
     qp_warnings = [TERMINAL_ONLY]\<rparr>"

definition sample_selection :: selection_envelope where
  "sample_selection = \<lparr>se_packet = ''d'', se_decisions =
     [\<lparr>cd_candidate = ''h'', cd_relevance = Uncertain, cd_score = None\<rparr>,
      \<lparr>cd_candidate = ''g'', cd_relevance = Essential, cd_score = Some (Finite 1)\<rparr>]\<rparr>"

lemmas planning_samples = sample_codec_def sample_pin_def sample_span_def sample_call_site_def sample_question_def
  sample_context_def sample_evidence_def sample_packet_def sample_selection_def

lemma sample_question_valid: "validate_question sample_question = Inr ()"
  by code_simp

lemma sample_packet_valid: "validate_packet sample_codec sample_packet = Inr ()"
  using sample_question_valid
  by (simp add: validate_packet_def packet_id_def planning_samples question_view_def MAX_PACKET_BYTES_def)

lemma sample_selection_valid: "validate_selection sample_codec sample_selection sample_packet = Inr ()"
  using sample_packet_valid by (auto simp: selection_iff) (auto simp: planning_samples)

theorem selection_complete_witness:
  "mset (map cd_candidate (se_decisions sample_selection)) = mset (map cs_id (vr_calls (qp_context sample_packet)))"
  using selection_complete sample_selection_valid by blast

theorem view_shows_best_witness:
  "\<exists>v. assemble sample_codec sample_packet sample_selection ''jev'' = Inr v \<and> length (fv_calls v) = 1"
proof -
  obtain v where v: "assemble sample_codec sample_packet sample_selection ''jev'' = Inr v"
    using sample_selection_valid by (auto simp: assemble_def Let_def)
  have "length (eligible_calls sample_packet sample_selection) = 1"
    by (simp add: eligible_calls_def essential_calls_def relevance_of_def planning_samples)
  with view_shows_best [OF v] v show ?thesis by (auto simp: sample_packet_def sample_question_def)
qed

theorem prepared_packet_whole_witness:
  "list_all2 (\<lambda>path file. ev_source sample_evidence path = Inr (Some file)) [''a.js''] (qp_sources sample_packet)"
proof -
  have paths: "evidence_paths sample_context = [''a.js'']"
    by (simp add: evidence_paths_def planning_samples)
  have ev: "ev_revision sample_evidence = Inr sample_pin" "ev_view sample_evidence x = Inr (Some sample_context)"
    "qr_expected sample_question = sample_pin" "vr_revision sample_context = sample_pin"
    "vr_warnings sample_context = []" "\<not> noncallable sample_context" for x
    by (simp_all add: sample_evidence_def sample_question_def sample_context_def noncallable_def callable_def)
  have files: "gather sample_codec (ev_source sample_evidence) [''a.js''] 0 = Inr (qp_sources sample_packet)"
    by (simp add: sample_evidence_def sample_codec_def sample_packet_def MAX_PACKET_BYTES_def)
  have id: "packet_id sample_codec x = ''d''" for x by (simp add: packet_id_def sample_codec_def)
  have "sample_packet = \<lparr>qp_id = ''d'', qp_revision = sample_pin, qp_request = sample_question,
      qp_context = sample_context, qp_sources = qp_sources sample_packet, qp_warnings = [TERMINAL_ONLY]\<rparr>"
    by (simp add: sample_packet_def)
  then have "prepare_in sample_codec sample_evidence sample_question = Inr sample_packet"
    using sample_packet_valid unfolding prepare_in_def Let_def
    by (simp add: sample_question_valid ev paths files id del: gather.simps)
  from prepared_packet_whole [OF this] paths show ?thesis by (simp add: sample_packet_def)
qed

end
