(* ===== verification/Ledger.thy ===== *)
theory Ledger
  imports Prelude
begin

section \<open>Private spending ledgers\<close>

text \<open>
  What the two opt-in providers (\<open>live_jev.rs\<close>, \<open>acp.rs\<close>) share: a private directory with a durable
  marker and an SQLite database, an operation that opens it, one that reserves an attempt in a
  transaction before anything is sent, and updates of reserved attempts. The interface is the locale
  \<open>ledger\<close>; its theorem is that an allowance is never exceeded, however many processes work on the
  ledger, whatever fails, and even when the database is deleted or truncated.
\<close>

subsection \<open>Effects that may fail\<close>

text \<open>An effect on the disk happens, is refused, or happens although the call reports a failure.\<close>

datatype effect = Done | Refused | DoneThenFailed

definition perform :: "effect \<Rightarrow> 'e \<Rightarrow> 's \<Rightarrow> 's \<Rightarrow> ('s \<Rightarrow> ('e + 'a) \<times> 's) \<Rightarrow> ('e + 'a) \<times> 's" where
  "perform f e before after k = (case f of Done \<Rightarrow> k after | Refused \<Rightarrow> (Inl e, before) | DoneThenFailed \<Rightarrow> (Inl e, after))"

definition check :: "bool \<Rightarrow> 'e \<Rightarrow> 's \<Rightarrow> ('e + 'a) \<times> 's \<Rightarrow> ('e + 'a) \<times> 's" where
  "check c e s k = (if c then k else (Inl e, s))"

lemma perform_simps [simp]:
  "perform Done e b a k = k a" "perform Refused e b a k = (Inl e, b)" "perform DoneThenFailed e b a k = (Inl e, a)"
  by (simp_all add: perform_def)

lemma snd_perform_same: "snd (k s) = s \<Longrightarrow> snd (perform f e s s k) = s"
  by (cases f) simp_all

lemma check_Inr [simp]: "check c e s k = (Inr x, s') \<longleftrightarrow> c \<and> k = (Inr x, s')"
  by (simp add: check_def)

lemma snd_check: "snd (check c e s k) = (if c then snd k else s)"
  by (simp add: check_def)

subsection \<open>Opening the files\<close>

text \<open>The marker file, and the database (\<open>None\<close>: the file is missing).\<close>

type_synonym 'd store = "bool \<times> 'd option"

text \<open>What the disk answers while a ledger is opened.\<close>

record disk =
  dk_lock :: bool
  dk_marker_secure :: bool
  dk_marker :: effect
  dk_file_secure :: bool
  dk_file :: effect
  dk_connect :: bool
  dk_commit :: effect
  dk_sync :: bool

text \<open>
  Under the initialisation lock: the durable marker comes before the database, a missing database is
  created only when the marker was not there, and the schema transaction commits or leaves the file
  as it was.
\<close>

definition open_files ::
  "string \<Rightarrow> disk \<Rightarrow> 'd \<Rightarrow> (bool \<Rightarrow> 'd \<Rightarrow> 'd result) \<Rightarrow> 'a \<Rightarrow> 'd store \<Rightarrow> 'a result \<times> 'd store" where
  "open_files unavailable q blank_db initialise this st =
     check (dk_lock q) unavailable st
    (let initialized = fst st in
     check (dk_marker_secure q) unavailable st
    (perform (if initialized then Done else dk_marker q) unavailable st (True, snd st) (\<lambda>st1.
     check (snd st1 \<noteq> None \<longrightarrow> dk_file_secure q) unavailable st1
    (case (snd st1, initialized) of
       (None, True) \<Rightarrow> (Inl unavailable, st1)
     | (found, _) \<Rightarrow>
         perform (if found = None then dk_file q else Done) unavailable st1
           (True, Some (case found of None \<Rightarrow> blank_db | Some d \<Rightarrow> d)) (\<lambda>st2.
         check (dk_connect q) unavailable st2
        (case initialise initialized (case found of None \<Rightarrow> blank_db | Some d \<Rightarrow> d) of
           Inl e \<Rightarrow> (Inl e, st2)
         | Inr d' \<Rightarrow> perform (dk_commit q) unavailable st2 (True, Some d') (\<lambda>st3.
             check (dk_sync q) unavailable st3 (Inr this, st3))))))))"

text \<open>If the transaction changes nothing in an initialised database, opening an initialised store never does.\<close>

lemma open_files_initialised:
  assumes "\<And>d d'. initialise True d = Inr d' \<Longrightarrow> d' = d"
  shows "snd (open_files unavailable q blank_db initialise this (True, db)) = (True, db)"
  by (cases db) (auto simp: open_files_def check_def Let_def snd_perform_same split: sum.splits dest!: assms)

lemma open_files_uninitialised:
  assumes before: "P blank_db" "\<And>d. db = Some d \<Longrightarrow> P d"
    and new: "\<And>d d'. P d \<Longrightarrow> initialise False d = Inr d' \<Longrightarrow> P' d'"
    and after: "snd (open_files unavailable q blank_db initialise this (False, db)) = (m, Some d')"
  shows "P d' \<or> (P' d' \<and> m)"
proof -
  define d where "d = (case db of None \<Rightarrow> blank_db | Some d \<Rightarrow> d)"
  have "P d" using before by (auto simp: d_def split: option.splits)
  show ?thesis
  proof (cases db)
    case None
    with after new [OF \<open>P d\<close>] \<open>P d\<close> show ?thesis
      by (auto simp: open_files_def check_def Let_def perform_def d_def split: sum.splits if_splits effect.splits)
  next
    case (Some d0)
    with after new [OF \<open>P d\<close>] \<open>P d\<close> show ?thesis
      by (auto simp: open_files_def check_def Let_def perform_def d_def split: sum.splits if_splits effect.splits)
  qed
qed

subsection \<open>The world of a ledger\<close>

text \<open>
  The store, the identifiers that reservations have returned and whose request is not sent yet, and
  the identifiers whose request was sent.
\<close>

record 'd ledger_world =
  held :: "'d store"
  granted :: "string list"
  spent :: "string list"

text \<open>
  A step of some process: opening, reserving, sending one request for a granted reservation,
  updating, or the loss of the database file (deleted, or truncated to an empty database).
\<close>

datatype ('o, 'r, 'u) ledger_event = Open 'o | Reserve 'r | Send string | Update 'u | Delete | Truncate

definition reserve_in :: "('r \<Rightarrow> 'd \<Rightarrow> string result \<times> 'd) \<Rightarrow> 'r \<Rightarrow> 'd ledger_world \<Rightarrow> 'd ledger_world" where
  "reserve_in reserve r w = (case snd (held w) of
       None \<Rightarrow> w
     | Some d \<Rightarrow> (case reserve r d of
          (Inl e, d') \<Rightarrow> w\<lparr>held := (fst (held w), Some d')\<rparr>
        | (Inr i, d') \<Rightarrow> w\<lparr>held := (fst (held w), Some d'), granted := i # granted w\<rparr>))"

definition send :: "string \<Rightarrow> 'd ledger_world \<Rightarrow> 'd ledger_world" where
  "send i w = (if i \<in> set (granted w) then w\<lparr>granted := remove1 i (granted w), spent := i # spent w\<rparr> else w)"

fun ledger_step ::
  "('o \<Rightarrow> 'd store \<Rightarrow> 'd store) \<Rightarrow> ('r \<Rightarrow> 'd \<Rightarrow> string result \<times> 'd) \<Rightarrow> ('u \<Rightarrow> 'd \<Rightarrow> 'd) \<Rightarrow> 'd
     \<Rightarrow> 'd ledger_world \<Rightarrow> ('o, 'r, 'u) ledger_event \<Rightarrow> 'd ledger_world" where
  "ledger_step open_store reserve update blank_db w (Open req) = w\<lparr>held := open_store req (held w)\<rparr>"
| "ledger_step open_store reserve update blank_db w (Reserve r) = reserve_in reserve r w"
| "ledger_step open_store reserve update blank_db w (Send i) = send i w"
| "ledger_step open_store reserve update blank_db w (Update u) = w\<lparr>held := (fst (held w), map_option (update u) (snd (held w)))\<rparr>"
| "ledger_step open_store reserve update blank_db w Delete = w\<lparr>held := (fst (held w), None)\<rparr>"
| "ledger_step open_store reserve update blank_db w Truncate = w\<lparr>held := (fst (held w), map_option (\<lambda>_. blank_db) (snd (held w)))\<rparr>"

definition fresh_world :: "'d ledger_world" where
  "fresh_world = \<lparr>held = (False, None), granted = [], spent = []\<rparr>"

subsection \<open>The interface\<close>

text \<open>
  \<open>attempts_of\<close> are the identifiers recorded in a database, \<open>allowance\<close> the number of attempts its
  binding permits (\<open>None\<close>: not bound). The laws: opening never touches an initialised store and
  binds only an empty database; a reservation succeeds only on a bound database that still has
  room, for a new identifier; failing, it changes nothing but may leave a row behind; updates
  keep the rows.
\<close>

locale ledger =
  fixes open_store :: "'o \<Rightarrow> 'd store \<Rightarrow> 'd store"
    and reserve :: "'r \<Rightarrow> 'd \<Rightarrow> string result \<times> 'd"
    and update :: "'u \<Rightarrow> 'd \<Rightarrow> 'd"
    and blank_db :: 'd
    and attempts_of :: "'d \<Rightarrow> string list"
    and allowance :: "'d \<Rightarrow> nat option"
    and valid :: "'d \<Rightarrow> bool"
  assumes blank_unbound: "valid blank_db" "allowance blank_db = None"
    and unbound_empty: "valid d \<Longrightarrow> allowance d = None \<Longrightarrow> attempts_of d = []"
    and open_initialised: "open_store req (True, db) = (True, db)"
    and open_uninitialised: "(\<And>d. db = Some d \<Longrightarrow> valid d \<and> allowance d = None) \<Longrightarrow>
      open_store req (False, db) = (m, Some d') \<Longrightarrow> valid d' \<and> attempts_of d' = [] \<and> (allowance d' = None \<or> m)"
    and reserve_granted: "valid d \<Longrightarrow> reserve r d = (Inr i, d') \<Longrightarrow>
      valid d' \<and> i \<notin> set (attempts_of d) \<and> attempts_of d' = attempts_of d @ [i] \<and> allowance d' = allowance d
      \<and> (\<exists>c. allowance d = Some c \<and> length (attempts_of d) < c)"
    and reserve_refused: "valid d \<Longrightarrow> reserve r d = (Inl e, d') \<Longrightarrow>
      valid d' \<and> allowance d' = allowance d
      \<and> (attempts_of d' = attempts_of d \<or> (\<exists>i c. attempts_of d' = attempts_of d @ [i] \<and> i \<notin> set (attempts_of d)
            \<and> allowance d = Some c \<and> length (attempts_of d) < c))"
    and update_keeps: "valid d \<Longrightarrow> valid (update u d) \<and> attempts_of (update u d) = attempts_of d \<and> allowance (update u d) = allowance d"
begin

text \<open>An initialised ledger whose binding, if it is still there, permits \<open>c\<close> attempts.\<close>

definition within :: "nat \<Rightarrow> 'd ledger_world \<Rightarrow> bool" where
  "within c w \<longleftrightarrow> fst (held w) \<and> distinct (granted w @ spent w) \<and> length (granted w @ spent w) \<le> c
     \<and> (\<forall>d. snd (held w) = Some d \<longrightarrow> valid d \<and> (allowance d = None
          \<or> (allowance d = Some c \<and> length (attempts_of d) \<le> c \<and> distinct (attempts_of d) \<and> set (granted w @ spent w) \<subseteq> set (attempts_of d))))"

definition untouched :: "'d ledger_world \<Rightarrow> bool" where
  "untouched w \<longleftrightarrow> granted w = [] \<and> spent w = [] \<and> (\<forall>d. snd (held w) = Some d \<longrightarrow> valid d \<and> allowance d = None)"

definition sound :: "'d ledger_world \<Rightarrow> bool" where
  "sound w \<longleftrightarrow> untouched w \<or> (\<exists>c. within c w)"

lemma within_reserve: "within c w \<Longrightarrow> within c (reserve_in reserve r w)"
proof (cases "snd (held w)")
  case (Some d)
  assume w: "within c w"
  with Some have v: "valid d" by (simp add: within_def)
  obtain out d' where r: "reserve r d = (out, d')" by (cases "reserve r d")
  show ?thesis
  proof (cases out)
    case (Inl e)
    from reserve_refused [OF v r [unfolded Inl]] w Some r Inl show ?thesis
      by (auto simp: within_def reserve_in_def)
  next
    case (Inr i)
    from reserve_granted [OF v r [unfolded Inr]] obtain n where g: "valid d'" "i \<notin> set (attempts_of d)"
        "attempts_of d' = attempts_of d @ [i]" "allowance d' = Some n" "allowance d = Some n" "length (attempts_of d) < n"
      by auto
    with w Some have n: "n = c" "set (granted w @ spent w) \<subseteq> set (attempts_of d)" "distinct (attempts_of d)"
      "distinct (granted w @ spent w)" "fst (held w)" by (auto simp: within_def)
    from n have "card (set (granted w @ spent w)) \<le> card (set (attempts_of d))" by (intro card_mono) auto
    then have "length (granted w @ spent w) \<le> length (attempts_of d)"
      using distinct_card [OF n(3)] distinct_card [OF n(4)] by (simp only:)
    with g n Some r Inr show ?thesis by (auto simp: within_def reserve_in_def)
  qed
qed (simp add: reserve_in_def)

lemma within_send: "within c w \<Longrightarrow> within c (send i w)"
proof (cases "i \<in> set (granted w)")
  case True
  assume w: "within c w"
  from True have "mset (remove1 i (granted w) @ i # spent w) = mset (granted w @ spent w)" by simp
  then have "set (remove1 i (granted w) @ i # spent w) = set (granted w @ spent w)"
    "length (remove1 i (granted w) @ i # spent w) = length (granted w @ spent w)"
    "distinct (remove1 i (granted w) @ i # spent w) = distinct (granted w @ spent w)"
    by (metis mset_eq_setD, metis mset_eq_length, metis mset_eq_imp_distinct_iff)
  note same = this
  define w' where "w' = send i w"
  have "granted w' @ spent w' = remove1 i (granted w) @ i # spent w" "held w' = held w"
    using True by (simp_all add: w'_def send_def)
  then have "within c w'" using w same unfolding within_def by (simp only:) blast
  then show ?thesis by (simp only: w'_def)
qed (simp add: send_def)

lemma within_step: "within c w \<Longrightarrow> within c (ledger_step open_store reserve update blank_db w e)"
proof (cases e)
  case (Open req)
  assume w: "within c w"
  obtain db where "held w = (True, db)" using w by (cases "held w") (simp add: within_def)
  with w Open open_initialised show ?thesis by (simp add: within_def)
next
  case (Update u)
  assume "within c w"
  with Update update_keeps show ?thesis by (auto simp: within_def)
qed (auto simp: within_reserve within_send, auto simp: within_def blank_unbound)

lemma untouched_step: "untouched w \<Longrightarrow> sound (ledger_step open_store reserve update blank_db w e)"
proof (cases e)
  case (Open req)
  assume w: "untouched w"
  obtain m db where h: "held w = (m, db)" by (cases "held w")
  obtain m' db' where o: "open_store req (m, db) = (m', db')" by (cases "open_store req (m, db)")
  show ?thesis
  proof (cases m)
    case True
    with w h Open show ?thesis by (simp add: sound_def untouched_def open_initialised)
  next
    case False
    have before: "\<And>d. db = Some d \<Longrightarrow> valid d \<and> allowance d = None" using w h by (simp add: untouched_def)
    show ?thesis
    proof (cases db')
      case None
      with w h o Open show ?thesis by (simp add: sound_def untouched_def)
    next
      case (Some d')
      have o': "open_store req (False, db) = (m', Some d')" using o Some \<open>\<not> m\<close> by simp
      from open_uninitialised [OF before o']
      have "valid d'" "attempts_of d' = []" "allowance d' = None \<or> m'" by auto
      with w h o Open Some show ?thesis
        by (cases "allowance d'") (auto simp: sound_def untouched_def within_def)
    qed
  qed
next
  case (Reserve r)
  assume w: "untouched w"
  show ?thesis
  proof (cases "snd (held w)")
    case (Some d)
    with w have v: "valid d" "allowance d = None" by (simp_all add: untouched_def)
    obtain out d' where r: "reserve r d = (out, d')" by (cases "reserve r d")
    then have "\<exists>e. out = Inl e" using reserve_granted [OF v(1)] v(2) by (cases out) auto
    with r reserve_refused [OF v(1)] v(2) w Some Reserve show ?thesis
      by (auto simp: sound_def untouched_def reserve_in_def)
  qed (use w Reserve in \<open>simp add: sound_def reserve_in_def\<close>)
qed (auto simp: sound_def untouched_def send_def blank_unbound update_keeps)

lemma sound_step: "sound w \<Longrightarrow> sound (ledger_step open_store reserve update blank_db w e)"
  using within_step untouched_step by (metis sound_def)

lemma level_step: "length (spent w) \<le> length (spent (ledger_step open_store reserve update blank_db w e))"
  by (cases e) (auto simp: reserve_in_def send_def split: option.splits sum.splits prod.splits)

end

sublocale ledger \<subseteq> bounded: monotone_stepping "ledger_step open_store reserve update blank_db" "within c" "\<lambda>w. length (spent w)" for c
  by unfold_locales (auto intro: within_step level_step)

sublocale ledger \<subseteq> reached: stepping "ledger_step open_store reserve update blank_db" sound
  by unfold_locales (rule sound_step)

context ledger
begin

text \<open>A reachable ledger that is bound never has more requests sent than its binding permits, ever after.\<close>

lemma never_exceeded:
  assumes "snd (held (foldl (ledger_step open_store reserve update blank_db) fresh_world es)) = Some d"
    and "allowance d = Some c"
  shows "length (spent (foldl (ledger_step open_store reserve update blank_db) fresh_world (es @ fs))) \<le> c"
proof -
  let ?w = "foldl (ledger_step open_store reserve update blank_db) fresh_world es"
  have "sound ?w" by (rule reached.run_keeps) (simp add: sound_def untouched_def fresh_world_def)
  with assms have "within c ?w" by (auto simp: sound_def untouched_def within_def)
  then have "within c (foldl (ledger_step open_store reserve update blank_db) ?w fs)" by (rule bounded.run_keeps)
  then show ?thesis by (simp add: within_def)
qed

end

text \<open>A disk that never fails.\<close>

definition sample_disk :: disk where
  "sample_disk = \<lparr>dk_lock = True, dk_marker_secure = True, dk_marker = Done, dk_file_secure = True, dk_file = Done,
     dk_connect = True, dk_commit = Done, dk_sync = True\<rparr>"

end
