(* ===== verification/Live_Jev.thy ===== *)
theory Live_Jev
  imports Jev Ledger
begin

section \<open>The live ranking provider (\<open>live_jev.rs\<close>)\<close>

text \<open>
  The ledger of the provider and the run of one attempt. The database is its schema version, the
  number of tables that are not its own, the binding row and the attempts in the order of insertion;
  a transaction is its effect on that value. The security checks of the files and directories, the
  workspace's canonical path, the random identifier, and every disk call's outcome are answers of the
  environment. The exchange with the server is the sequence of what is received.
\<close>

definition MAX_RESPONSE :: nat where "MAX_RESPONSE = 2 * 1024 * 1024"
definition RESERVATION :: nat where "RESERVATION = 10"

definition JEV_UNAVAILABLE :: string where "JEV_UNAVAILABLE = ''Jev private ledger unavailable''"

record jev_binding =
  jb_workspace :: string
  jb_cap :: nat

record jev_attempt =
  ja_id :: string
  ja_reserved :: nat
  ja_request :: string
  ja_response :: "string option"
  ja_status :: string
  ja_http :: "nat option"
  ja_latency :: "u64 option"

record jev_db =
  jd_version :: nat
  jd_foreign :: nat
  jd_binding :: "jev_binding option"
  jd_attempts :: "jev_attempt list"

definition jev_blank :: jev_db where
  "jev_blank = \<lparr>jd_version = 0, jd_foreign = 0, jd_binding = None, jd_attempts = []\<rparr>"

record budget_status =
  bu_cap :: nat
  bu_reserved :: nat
  bu_remaining :: nat
  bu_attempts :: nat

record live_jev =
  lj_workspace :: string
  lj_cap :: nat

subsection \<open>Binding and totals\<close>

definition check_binding :: "live_jev \<Rightarrow> jev_db \<Rightarrow> unit result" where
  "check_binding j d = bind_result (ok_or (jd_binding d) JEV_UNAVAILABLE) (\<lambda>b.
     ensure (jb_workspace b = lj_workspace j \<and> jb_cap b = lj_cap j) ''Jev ledger workspace or cap mismatch'' (Inr ()))"

definition reserved_total :: "jev_db \<Rightarrow> nat" where
  "reserved_total d = sum_list (map ja_reserved (jd_attempts d))"

definition budget_of :: "live_jev \<Rightarrow> jev_db \<Rightarrow> budget_status result" where
  "budget_of j d = bind_result (check_binding j d) (\<lambda>_.
     ensure (reserved_total d \<le> lj_cap j) ''invalid Jev ledger totals''
       (Inr \<lparr>bu_cap = lj_cap j, bu_reserved = reserved_total d, bu_remaining = lj_cap j - reserved_total d,
          bu_attempts = length (jd_attempts d)\<rparr>))"

subsection \<open>Opening\<close>

record jev_open_request =
  jo_cap :: nat
  jo_key :: string
  jo_client :: bool
  jo_workspace :: "string result"
  jo_directory :: bool
  jo_disk :: disk

text \<open>The transaction of \<open>open\<close>: the schema and the binding are created in an empty database only.\<close>

definition initialise_jev :: "live_jev \<Rightarrow> bool \<Rightarrow> jev_db \<Rightarrow> jev_db result" where
  "initialise_jev j initialized d =
     ensure (jd_version d \<le> 1 \<and> (initialized \<longrightarrow> jd_version d = 1)) ''unsupported or incomplete Jev ledger schema''
    (bind_result
       (if jd_version d = 0 then
          ensure (jd_foreign d = 0) ''unrecognized Jev ledger schema''
            (Inr \<lparr>jd_version = 1, jd_foreign = 0,
               jd_binding = Some \<lparr>jb_workspace = lj_workspace j, jb_cap = lj_cap j\<rparr>, jd_attempts = []\<rparr>)
        else Inr d) (\<lambda>d'.
     bind_result (check_binding j d') (\<lambda>_. bind_result (budget_of j d') (\<lambda>_. Inr d'))))"

definition open_jev :: "jev_open_request \<Rightarrow> jev_db store \<Rightarrow> live_jev result \<times> jev_db store" where
  "open_jev q st =
     check (10 \<le> jo_cap q \<and> jo_cap q \<le> 500) ''Jev cap must be 10..500 cents'' st
    (check (\<not> blank (jo_key q)) ''Jev credential is required'' st
    (check (jo_client q) ''invalid Jev credential'' st
    (case jo_workspace q of Inl e \<Rightarrow> (Inl e, st) | Inr workspace \<Rightarrow>
     check (jo_directory q) JEV_UNAVAILABLE st
    (let this = \<lparr>lj_workspace = workspace, lj_cap = jo_cap q\<rparr> in
     open_files JEV_UNAVAILABLE (jo_disk q) jev_blank (initialise_jev this) this st))))"

subsection \<open>Reserving and finishing\<close>

record jev_reservation =
  jr_by :: live_jev
  jr_connect :: bool
  jr_id :: string
  jr_request :: string
  jr_commit :: effect

definition reserve_jev :: "jev_reservation \<Rightarrow> jev_db \<Rightarrow> string result \<times> jev_db" where
  "reserve_jev r d =
     check (jr_connect r) JEV_UNAVAILABLE d
    (case budget_of (jr_by r) d of Inl e \<Rightarrow> (Inl e, d) | Inr budget \<Rightarrow>
     check (RESERVATION \<le> bu_remaining budget) ''Jev budget exhausted: no reservation available'' d
    (check (jr_id r \<notin> set (map ja_id (jd_attempts d))) JEV_UNAVAILABLE d
    (perform (jr_commit r) JEV_UNAVAILABLE d
       (d\<lparr>jd_attempts := jd_attempts d @ [\<lparr>ja_id = jr_id r, ja_reserved = 10, ja_request = jr_request r,
          ja_response = None, ja_status = ''reserved_incomplete'', ja_http = None, ja_latency = None\<rparr>]\<rparr>)
       (\<lambda>d'. (Inr (jr_id r), d')))))"

record jev_outcome =
  jf_by :: live_jev
  jf_connect :: bool
  jf_id :: string
  jf_raw :: string
  jf_status :: string
  jf_http :: "nat option"
  jf_latency :: u64
  jf_write :: effect

definition finish_attempt :: "jev_outcome \<Rightarrow> jev_attempt \<Rightarrow> jev_attempt" where
  "finish_attempt f a = (if ja_id a = jf_id f
     then a\<lparr>ja_response := Some (jf_raw f), ja_status := jf_status f, ja_http := jf_http f, ja_latency := Some (jf_latency f)\<rparr>
     else a)"

definition finish_jev :: "jev_outcome \<Rightarrow> jev_db \<Rightarrow> unit result \<times> jev_db" where
  "finish_jev f d =
     check (jf_connect f) JEV_UNAVAILABLE d
    (case check_binding (jf_by f) d of Inl e \<Rightarrow> (Inl e, d) | Inr _ \<Rightarrow>
     perform (jf_write f) JEV_UNAVAILABLE d (d\<lparr>jd_attempts := map (finish_attempt f) (jd_attempts d)\<rparr>) (\<lambda>d'.
       check (length (filter (\<lambda>a. ja_id a = jf_id f) (jd_attempts d)) = 1) ''Jev audit attempt missing'' d' (Inr (), d')))"

subsection \<open>Receiving\<close>

datatype response_piece = Bytes string | Broken | Stalled

text \<open>What the post meets: no response, silence until the timeout, or a status and its body.\<close>

datatype exchange = NoResponse | Silence | Response nat "response_piece list"

fun read_body :: "string \<Rightarrow> response_piece list \<Rightarrow> string \<times> unit result" where
  "read_body raw [] = (raw, Inr ())"
| "read_body raw (Bytes chunk # ps) =
     (let remaining = MAX_RESPONSE - length raw;
          raw' = raw @ take (min remaining (length chunk)) chunk in
      if remaining < length chunk then (raw', Inl ''response_too_large'') else read_body raw' ps)"
| "read_body raw (Broken # ps) = (raw, Inl ''response_read_failed'')"
| "read_body raw (Stalled # ps) = (raw, Inl ''timeout'')"

text \<open>The raw bytes, the HTTP status and whether a successful response arrived; \<open>from_slice\<close> parses JSON.\<close>

definition receive_response :: "(string \<Rightarrow> json option) \<Rightarrow> exchange \<Rightarrow> string \<times> nat option \<times> unit result" where
  "receive_response from_slice x = (case x of
       NoResponse \<Rightarrow> ([], None, Inl ''transport_failed'')
     | Silence \<Rightarrow> ([], None, Inl ''timeout'')
     | Response http ps \<Rightarrow> (case read_body [] ps of
          (raw, Inl e) \<Rightarrow> (raw, Some http, Inl e)
        | (raw, Inr _) \<Rightarrow> (raw, Some http,
            if 200 \<le> http \<and> http < 300 then Inr ()
            else if http = 400 \<and> from_slice raw
                = Some (JObj [(''detail'', JObj [(''error_type'', JStr ''max_tokens_exceeded'')])])
              then Inl ''context_exceeded'' else Inl ''http_failed'')))"

subsection \<open>A run\<close>

record live_selection =
  ls_attempt :: string
  ls_selection :: selection_envelope
  ls_latency :: u64
  ls_usd :: "f64 option"
  ls_usage :: "json option"
  ls_warnings :: "string list"

text \<open>Input tokens times \<open>0.042\<close> per million, each operation rounded.\<close>

fun then_rounded :: "float_unit \<Rightarrow> (rat \<Rightarrow> rat) \<Rightarrow> f64 \<Rightarrow> f64" where
  "then_rounded u f (Finite a) = rounded u (f a)"
| "then_rounded u f a = a"

fun price :: "float_unit \<Rightarrow> f64 \<Rightarrow> f64 \<Rightarrow> f64" where
  "price u (Finite unit_price) tokens = then_rounded u (\<lambda>a. a / 1000000) (then_rounded u (\<lambda>a. a * unit_price) tokens)"
| "price u unit_price tokens = NaN"

definition estimated_usd :: "float_unit \<Rightarrow> json option \<Rightarrow> f64 option" where
  "estimated_usd u usage = map_option (\<lambda>tokens. price u (rounded u (42 / 1000)) (rounded u (of_nat tokens)))
     (Option.bind (Option.bind usage (json_get ''input_tokens'')) value_u64)"

record jev_environment =
  je_codec :: codec
  je_serializer :: serializer
  je_float :: float_unit
  je_parse :: "string \<Rightarrow> json option"

definition parse_received :: "jev_environment \<Rightarrow> question_packet \<Rightarrow> string \<Rightarrow> unit result \<Rightarrow> (json \<times> selection_envelope) result" where
  "parse_received n p raw received =
     bind_result received (\<lambda>_.
     bind_result (ok_or (je_parse n raw) ''invalid_json'') (\<lambda>v.
       case parse_ranking (je_codec n) (je_float n) p v of
         Inl _ \<Rightarrow> Inl ''invalid_selection'' | Inr s \<Rightarrow> Inr (v, s)))"

text \<open>
  \<open>run\<close> after the reservation: whatever was received is written to its row before the result is
  returned. \<open>between\<close> is what other processes do to the database meanwhile.
\<close>

definition settle_jev ::
  "jev_environment \<Rightarrow> live_jev \<Rightarrow> exchange \<Rightarrow> (jev_db \<Rightarrow> jev_db) \<Rightarrow> bool \<Rightarrow> u64 \<Rightarrow> effect \<Rightarrow> question_packet
     \<Rightarrow> string \<Rightarrow> jev_db \<Rightarrow> live_selection result \<times> jev_db" where
  "settle_jev n j x between connect latency write p i d =
     (case receive_response (je_parse n) x of (raw, http, received) \<Rightarrow>
      let parsed = parse_received n p raw received;
          status = (case parsed of Inl e \<Rightarrow> e | Inr _ \<Rightarrow> ''success'') in
     (case finish_jev \<lparr>jf_by = j, jf_connect = connect, jf_id = i, jf_raw = raw, jf_status = status,
          jf_http = http, jf_latency = latency, jf_write = write\<rparr> (between d) of
        (Inl e, d') \<Rightarrow> (Inl e, d')
      | (Inr _, d') \<Rightarrow> (case parsed of
            Inl e \<Rightarrow> (Inl (''Jev attempt failed: '' @ e), d')
          | Inr (v, s) \<Rightarrow> (Inr \<lparr>ls_attempt = i, ls_selection = s, ls_latency = latency,
               ls_usd = estimated_usd (je_float n) (json_get ''usage'' v), ls_usage = json_get ''usage'' v,
               ls_warnings = response_warnings (je_float n) v\<rparr>, d'))))"

text \<open>The reservation commits before anything is sent; \<open>r\<close> holds the environment's answers to it.\<close>

definition run_jev ::
  "jev_environment \<Rightarrow> live_jev \<Rightarrow> jev_reservation \<Rightarrow> exchange \<Rightarrow> (jev_db \<Rightarrow> jev_db)
     \<Rightarrow> bool \<Rightarrow> u64 \<Rightarrow> effect \<Rightarrow> question_packet \<Rightarrow> jev_db \<Rightarrow> live_selection result \<times> jev_db" where
  "run_jev n j r x between connect latency write p d =
     (case request_for (je_codec n) (je_serializer n) p of
        Inl _ \<Rightarrow> (Inl ''invalid Jev request'', d)
      | Inr request \<Rightarrow>
     check (vr_calls (qp_context p) \<noteq> []) ''Jev requires at least one candidate'' d
    (case reserve_jev (r\<lparr>jr_by := j, jr_request := json_string (je_serializer n) request\<rparr>) d of
        (Inl e, d1) \<Rightarrow> (Inl e, d1)
      | (Inr i, d1) \<Rightarrow> settle_jev n j x between connect latency write p i d1))"

subsection \<open>The ledger laws\<close>

definition jev_valid :: "jev_db \<Rightarrow> bool" where
  "jev_valid d \<longleftrightarrow> (\<forall>a \<in> set (jd_attempts d). ja_reserved a = RESERVATION) \<and> distinct (map ja_id (jd_attempts d))
     \<and> (jd_binding d = None \<longrightarrow> jd_attempts d = [])"

definition jev_ids :: "jev_db \<Rightarrow> string list" where
  "jev_ids d = map ja_id (jd_attempts d)"

definition jev_allowance :: "jev_db \<Rightarrow> nat option" where
  "jev_allowance d = map_option (\<lambda>b. jb_cap b div RESERVATION) (jd_binding d)"

lemma check_binding_Inr:
  "check_binding j d = Inr () \<longleftrightarrow> jd_binding d = Some \<lparr>jb_workspace = lj_workspace j, jb_cap = lj_cap j\<rparr>"
  by (cases "jd_binding d") (auto simp: check_binding_def ensure_def)

lemma budget_of_Inr:
  "budget_of j d = Inr b \<longleftrightarrow> check_binding j d = Inr () \<and> reserved_total d \<le> lj_cap j
     \<and> b = \<lparr>bu_cap = lj_cap j, bu_reserved = reserved_total d, bu_remaining = lj_cap j - reserved_total d,
          bu_attempts = length (jd_attempts d)\<rparr>"
  by (auto simp: budget_of_def ensure_def bind_result_def split: sum.splits)

lemma reserved_total_valid: "jev_valid d \<Longrightarrow> reserved_total d = 10 * length (jd_attempts d)"
proof -
  assume "jev_valid d"
  then have "map ja_reserved (jd_attempts d) = replicate (length (jd_attempts d)) 10"
    by (intro replicate_eqI) (auto simp: jev_valid_def RESERVATION_def)
  then show ?thesis by (simp add: reserved_total_def sum_list_replicate)
qed

lemma reserve_jev_cases:
  assumes "reserve_jev r d = (out, d')"
  shows "((\<exists>e. out = Inl e) \<and> d' = d) \<or>
    (jd_binding d = Some \<lparr>jb_workspace = lj_workspace (jr_by r), jb_cap = lj_cap (jr_by r)\<rparr>
     \<and> reserved_total d + RESERVATION \<le> lj_cap (jr_by r) \<and> jr_id r \<notin> set (jev_ids d)
     \<and> (out = Inr (jr_id r) \<and> jr_commit r = Done \<or> (\<exists>e. out = Inl e))
     \<and> d' = d\<lparr>jd_attempts := jd_attempts d @ [\<lparr>ja_id = jr_id r, ja_reserved = 10, ja_request = jr_request r,
          ja_response = None, ja_status = ''reserved_incomplete'', ja_http = None, ja_latency = None\<rparr>]\<rparr>)"
  using assms unfolding reserve_jev_def check_def
  by (auto simp: budget_of_Inr check_binding_Inr jev_ids_def RESERVATION_def split: if_splits sum.splits)
    (cases "jr_commit r"; auto)+

lemma reserve_jev_row:
  assumes v: "jev_valid d" and r: "reserve_jev r d = (out, d')"
  shows "((\<exists>e. out = Inl e) \<and> d' = d) \<or>
    (jev_valid d' \<and> jr_id r \<notin> set (jev_ids d) \<and> jev_ids d' = jev_ids d @ [jr_id r] \<and> jev_allowance d' = jev_allowance d
     \<and> (\<exists>c. jev_allowance d = Some c \<and> length (jev_ids d) < c) \<and> (out = Inr (jr_id r) \<or> (\<exists>e. out = Inl e)))"
  using reserve_jev_cases [OF r]
proof (elim disjE)
  assume a: "jd_binding d = Some \<lparr>jb_workspace = lj_workspace (jr_by r), jb_cap = lj_cap (jr_by r)\<rparr>
     \<and> reserved_total d + RESERVATION \<le> lj_cap (jr_by r) \<and> jr_id r \<notin> set (jev_ids d)
     \<and> (out = Inr (jr_id r) \<and> jr_commit r = Done \<or> (\<exists>e. out = Inl e))
     \<and> d' = d\<lparr>jd_attempts := jd_attempts d @ [\<lparr>ja_id = jr_id r, ja_reserved = 10, ja_request = jr_request r,
          ja_response = None, ja_status = ''reserved_incomplete'', ja_http = None, ja_latency = None\<rparr>]\<rparr>"
  with v have "jev_valid d'" "jev_ids d' = jev_ids d @ [jr_id r]" "jev_allowance d' = jev_allowance d"
    by (auto simp: jev_valid_def jev_ids_def jev_allowance_def RESERVATION_def)
  moreover have "jev_allowance d = Some (lj_cap (jr_by r) div RESERVATION)" using a by (simp add: jev_allowance_def)
  moreover have "length (jev_ids d) < lj_cap (jr_by r) div RESERVATION"
  proof -
    have "10 * length (jd_attempts d) + 10 \<le> lj_cap (jr_by r)"
      using a reserved_total_valid [OF v] by (simp add: RESERVATION_def)
    then show ?thesis unfolding jev_ids_def RESERVATION_def length_map by arith
  qed
  ultimately show ?thesis using a by blast
qed simp

lemma finish_jev_keeps:
  "snd (finish_jev f d) = d \<or> snd (finish_jev f d) = d\<lparr>jd_attempts := map (finish_attempt f) (jd_attempts d)\<rparr>"
  by (auto simp: finish_jev_def check_def perform_def split: sum.splits effect.splits)

lemma finish_attempt_same [simp]: "ja_id (finish_attempt f a) = ja_id a" "ja_reserved (finish_attempt f a) = ja_reserved a"
  by (simp_all add: finish_attempt_def)

lemma initialise_jev_Inr:
  "initialise_jev j initialized d = Inr d' \<Longrightarrow>
     (jd_version d = 0 \<and> \<not> initialized \<and> d' = \<lparr>jd_version = 1, jd_foreign = 0,
        jd_binding = Some \<lparr>jb_workspace = lj_workspace j, jb_cap = lj_cap j\<rparr>, jd_attempts = []\<rparr>)
     \<or> (jd_version d = 1 \<and> d' = d \<and> jd_binding d = Some \<lparr>jb_workspace = lj_workspace j, jb_cap = lj_cap j\<rparr>)"
  by (auto simp: initialise_jev_def check_binding_Inr unit_result [symmetric] split: if_splits)

lemma open_jev_store:
  "snd (open_jev q st) = st \<or> (\<exists>this. snd (open_jev q st)
     = snd (open_files JEV_UNAVAILABLE (jo_disk q) jev_blank (initialise_jev this) this st))"
  by (auto simp: open_jev_def check_def Let_def split: sum.splits)

lemma open_jev_initialised: "snd (open_jev q (True, db)) = (True, db)"
proof -
  have "d' = d" if "initialise_jev this True d = Inr d'" for this d d'
    using initialise_jev_Inr [OF that] by auto
  then have "snd (open_files JEV_UNAVAILABLE (jo_disk q) jev_blank (initialise_jev this) this (True, db)) = (True, db)" for this
    by (rule open_files_initialised)
  with open_jev_store [of q "(True, db)"] show ?thesis by (elim disjE exE) simp_all
qed

lemma open_jev_uninitialised:
  assumes before: "\<And>d. db = Some d \<Longrightarrow> jev_valid d \<and> jev_allowance d = None"
    and after: "snd (open_jev q (False, db)) = (m, Some d')"
  shows "jev_valid d' \<and> jev_ids d' = [] \<and> (jev_allowance d' = None \<or> m)"
  using open_jev_store [of q "(False, db)"]
proof
  assume "snd (open_jev q (False, db)) = (False, db)"
  with before after show ?thesis by (auto simp: jev_valid_def jev_allowance_def jev_ids_def)
next
  assume "\<exists>this. snd (open_jev q (False, db))
     = snd (open_files JEV_UNAVAILABLE (jo_disk q) jev_blank (initialise_jev this) this (False, db))"
  then obtain this where o: "snd (open_files JEV_UNAVAILABLE (jo_disk q) jev_blank (initialise_jev this) this (False, db)) = (m, Some d')"
    using after by auto
  let ?unbound = "\<lambda>d. jev_valid d \<and> jev_allowance d = None"
  have blank_ok: "?unbound jev_blank" by (simp add: jev_valid_def jev_blank_def jev_allowance_def)
  have new: "jev_valid d1 \<and> jev_ids d1 = []" if "?unbound d" "initialise_jev this False d = Inr d1" for d d1
    using initialise_jev_Inr [OF that(2)] that(1) by (auto simp: jev_valid_def jev_ids_def jev_allowance_def)
  have "?unbound d' \<or> ((jev_valid d' \<and> jev_ids d' = []) \<and> m)"
    by (rule open_files_uninitialised [where P = ?unbound and P' = "\<lambda>d. jev_valid d \<and> jev_ids d = []", OF _ _ _ o])
      (fact blank_ok, fact before, fact new)
  moreover have "jev_ids d' = []" if "?unbound d'" using that by (simp add: jev_valid_def jev_allowance_def jev_ids_def)
  ultimately show ?thesis by blast
qed

interpretation jev_ledger: ledger "\<lambda>q st. snd (open_jev q st)" reserve_jev "\<lambda>f d. snd (finish_jev f d)"
  jev_blank jev_ids jev_allowance jev_valid
proof unfold_locales
  show "jev_valid jev_blank" "jev_allowance jev_blank = None"
    by (simp_all add: jev_valid_def jev_blank_def jev_allowance_def)
  show "jev_ids d = []" if "jev_valid d" "jev_allowance d = None" for d
    using that by (simp add: jev_valid_def jev_allowance_def jev_ids_def)
  show "snd (open_jev q (True, db)) = (True, db)" for q db by (rule open_jev_initialised)
  show "jev_valid d' \<and> jev_ids d' = [] \<and> (jev_allowance d' = None \<or> m)"
    if "\<And>d. db = Some d \<Longrightarrow> jev_valid d \<and> jev_allowance d = None" "snd (open_jev q (False, db)) = (m, Some d')" for db q m d'
    using that by (rule open_jev_uninitialised)
  show "jev_valid d' \<and> i \<notin> set (jev_ids d) \<and> jev_ids d' = jev_ids d @ [i] \<and> jev_allowance d' = jev_allowance d
      \<and> (\<exists>c. jev_allowance d = Some c \<and> length (jev_ids d) < c)"
    if v: "jev_valid d" and r: "reserve_jev r d = (Inr i, d')" for d r i d'
    using reserve_jev_row [OF v r] by auto
  show "jev_valid d' \<and> jev_allowance d' = jev_allowance d \<and> (jev_ids d' = jev_ids d \<or> (\<exists>i c. jev_ids d' = jev_ids d @ [i]
      \<and> i \<notin> set (jev_ids d) \<and> jev_allowance d = Some c \<and> length (jev_ids d) < c))"
    if v: "jev_valid d" and r: "reserve_jev r d = (Inl e, d')" for d r e d'
    using reserve_jev_row [OF v r] v by blast
  show "jev_valid (snd (finish_jev f d)) \<and> jev_ids (snd (finish_jev f d)) = jev_ids d
      \<and> jev_allowance (snd (finish_jev f d)) = jev_allowance d" if "jev_valid d" for f d
    using that finish_jev_keeps [of f d] by (auto simp: jev_valid_def jev_ids_def jev_allowance_def comp_def)
qed

definition jev_step ::
  "jev_db ledger_world \<Rightarrow> (jev_open_request, jev_reservation, jev_outcome) ledger_event \<Rightarrow> jev_db ledger_world" where
  "jev_step = ledger_step (\<lambda>q st. snd (open_jev q st)) reserve_jev (\<lambda>f d. snd (finish_jev f d)) jev_blank"


subsection \<open>The audit of a run\<close>

lemma read_body_prefix:
  "length raw \<le> MAX_RESPONSE \<Longrightarrow> length (fst (read_body raw ps)) \<le> MAX_RESPONSE
     \<and> prefix (fst (read_body raw ps)) (raw @ concat (map (\<lambda>q. case q of Bytes chunk \<Rightarrow> chunk | _ \<Rightarrow> []) ps))"
proof (induction raw ps rule: read_body.induct)
  case (2 raw chunk ps)
  show ?case
  proof (cases "MAX_RESPONSE - length raw < length chunk")
    case True
    then show ?thesis using 2(2) by (auto simp: Let_def prefix_def) (metis append_assoc append_take_drop_id)
  next
    case False
    with 2 show ?thesis by (auto simp: Let_def)
  qed
qed auto

text \<open>What the pieces of an exchange amount to.\<close>

fun body_of :: "exchange \<Rightarrow> string" where
  "body_of (Response http ps) = concat (map (\<lambda>q. case q of Bytes chunk \<Rightarrow> chunk | _ \<Rightarrow> []) ps)"
| "body_of x = []"

lemma receive_prefix:
  "receive_response from_slice x = (raw, http, received) \<Longrightarrow> length raw \<le> MAX_RESPONSE \<and> prefix raw (body_of x)"
  using read_body_prefix [of "[]"]
  by (cases x) (auto simp: receive_response_def split: prod.splits sum.splits, (metis fst_conv list.size(3) append_Nil zero_le)+)

lemma receive_ok: "receive_response from_slice x = (raw, http, Inr ()) \<Longrightarrow> \<exists>h. http = Some h \<and> 200 \<le> h \<and> h < 300"
  by (cases x) (auto simp: receive_response_def split: prod.splits sum.splits if_splits)

lemma parse_received_Inr:
  "parse_received n p raw received = Inr (v, s) \<Longrightarrow>
     received = Inr () \<and> je_parse n raw = Some v \<and> parse_ranking (je_codec n) (je_float n) p v = Inr s"
  by (cases "je_parse n raw") (auto simp: parse_received_def split: sum.splits)

lemma filter_finish:
  "filter (\<lambda>a. ja_id a = i) (map (finish_attempt f) xs) = map (finish_attempt f) (filter (\<lambda>a. ja_id a = i) xs)"
  by (induction xs) auto

lemma finish_jev_Inr:
  "finish_jev f d = (Inr u, d') \<Longrightarrow> d' = d\<lparr>jd_attempts := map (finish_attempt f) (jd_attempts d)\<rparr>"
  by (auto simp: finish_jev_def check_def perform_def split: sum.splits effect.splits if_splits)

lemma budget_of_error: "budget_of j d = Inl e \<Longrightarrow> e \<noteq> ''Jev attempt failed: '' @ t"
  by (auto simp: budget_of_def check_binding_def bind_result_Inl ensure_def ok_or_def JEV_UNAVAILABLE_def
      split: if_splits option.splits)

lemma reserve_jev_error: "reserve_jev r d = (Inl e, d') \<Longrightarrow> e \<noteq> ''Jev attempt failed: '' @ t"
  by (auto simp: reserve_jev_def check_def perform_def JEV_UNAVAILABLE_def
      split: if_splits sum.splits effect.splits dest: budget_of_error)

lemma finish_jev_error: "finish_jev f d = (Inl e, d') \<Longrightarrow> e \<noteq> ''Jev attempt failed: '' @ t"
  by (auto simp: finish_jev_def check_def perform_def JEV_UNAVAILABLE_def check_binding_def bind_result_Inl ensure_def ok_or_def
      split: if_splits sum.splits effect.splits option.splits)

text \<open>What is left in the attempt's row when it settles with a result or a reported failure.\<close>

lemma settled_row:
  assumes settle: "settle_jev n j x between connect latency write p i d1 = (out, d2)"
    and row: "filter (\<lambda>a. ja_id a = i) (jd_attempts (between d1)) = [a]"
    and out: "out = Inr s \<and> status = ''success'' \<or> out = Inl (''Jev attempt failed: '' @ status)"
  shows "\<exists>raw http. filter (\<lambda>a. ja_id a = i) (jd_attempts d2)
        = [a\<lparr>ja_response := Some raw, ja_status := status, ja_http := http, ja_latency := Some latency\<rparr>]
    \<and> length raw \<le> MAX_RESPONSE \<and> prefix raw (body_of x)
    \<and> (out = Inr s \<longrightarrow> (\<exists>h v. http = Some h \<and> 200 \<le> h \<and> h < 300 \<and> je_parse n raw = Some v
         \<and> parse_ranking (je_codec n) (je_float n) p v = Inr (ls_selection s) \<and> ls_attempt s = i))"
proof -
  obtain raw http received where rec: "receive_response (je_parse n) x = (raw, http, received)" by (cases "receive_response (je_parse n) x")
  define f where "f = \<lparr>jf_by = j, jf_connect = connect, jf_id = i, jf_raw = raw,
     jf_status = (case parse_received n p raw received of Inl e \<Rightarrow> e | Inr _ \<Rightarrow> ''success''), jf_http = http,
     jf_latency = latency, jf_write = write\<rparr>"
  obtain u d' where finish: "finish_jev f (between d1) = (u, d')" by (cases "finish_jev f (between d1)")
  note finish' = finish [unfolded f_def]
  have id: "ja_id a = i" using arg_cong [OF row, of set] by auto
  show ?thesis
  proof (cases u)
    case (Inl e)
    with settle rec finish' have "out = Inl e" by (simp add: settle_jev_def)
    with out Inl finish finish_jev_error [of f "between d1" e] show ?thesis by auto
  next
    case (Inr v)
    from finish_jev_Inr [OF finish [unfolded Inr]] row
    have new: "filter (\<lambda>a. ja_id a = i) (jd_attempts d') = [finish_attempt f a]" by (simp add: filter_finish)
    show ?thesis
    proof (cases "parse_received n p raw received")
      case (Inl e)
      with settle rec finish' Inr have "out = Inl (''Jev attempt failed: '' @ e)" "d2 = d'"
        by (simp_all add: settle_jev_def)
      with out have "status = e" by auto
      then show ?thesis using new id receive_prefix [OF rec] Inl \<open>out = _\<close> \<open>d2 = d'\<close>
        by (auto simp: finish_attempt_def f_def)
    next
      case result: (Inr vs)
      obtain v s' where vs: "vs = (v, s')" by (cases vs)
      with settle rec finish' Inr result have o: "d2 = d'" "\<exists>sel. out = Inr sel \<and> ls_attempt sel = i \<and> ls_selection sel = s'"
        by (auto simp add: settle_jev_def)
      with out have s: "out = Inr s" "status = ''success''" "ls_attempt s = i" "ls_selection s = s'" by auto
      from parse_received_Inr [OF result [unfolded vs]] rec receive_ok [of "je_parse n" x raw http]
      have "\<exists>h. http = Some h \<and> 200 \<le> h \<and> h < 300" "je_parse n raw = Some v"
        "parse_ranking (je_codec n) (je_float n) p v = Inr s'" by auto
      with new id receive_prefix [OF rec] s o(1) result show ?thesis
        by (auto simp: finish_attempt_def f_def)
    qed
  qed
qed

text \<open>A run leaves an exact audit: when it returns a selection, its attempt has one row, which holds the
  bytes of the request that carries the packet, a complete 2xx body of at most 2 MiB and the status
  \<open>success\<close>, and the selection is what that body says and is valid for the packet; when it reports a
  failed attempt, the row holds that failure as its status and a prefix of what the server sent.
  Nothing of this depends on what other processes do to other rows meanwhile.\<close>

theorem jev_run_audited:
  assumes run: "run_jev n j r x between connect latency write p d = (out, d2)" and valid: "jev_valid d"
    and others: "\<And>d1. filter (\<lambda>a. ja_id a = jr_id r) (jd_attempts (between d1)) = filter (\<lambda>a. ja_id a = jr_id r) (jd_attempts d1)"
    and out: "out = Inr s \<and> status = ''success'' \<or> out = Inl (''Jev attempt failed: '' @ status)"
  shows "\<exists>request raw http. request_for (je_codec n) (je_serializer n) p = Inr request
    \<and> filter (\<lambda>a. ja_id a = jr_id r) (jd_attempts d2) = [\<lparr>ja_id = jr_id r, ja_reserved = 10,
         ja_request = json_string (je_serializer n) request, ja_response = Some raw, ja_status = status,
         ja_http = http, ja_latency = Some latency\<rparr>]
    \<and> length raw \<le> MAX_RESPONSE \<and> prefix raw (body_of x)
    \<and> (out = Inr s \<longrightarrow> (\<exists>h v. http = Some h \<and> 200 \<le> h \<and> h < 300 \<and> je_parse n raw = Some v
         \<and> parse_ranking (je_codec n) (je_float n) p v = Inr (ls_selection s) \<and> ls_attempt s = jr_id r))"
proof -
  let ?own = "filter (\<lambda>a :: jev_attempt. ja_id a = jr_id r)"
  have reported: "e = ''Jev attempt failed: '' @ status" if "out = Inl e" for e
    using that out by auto
  obtain request where request: "request_for (je_codec n) (je_serializer n) p = Inr request"
  proof (cases "request_for (je_codec n) (je_serializer n) p")
    case (Inl e)
    then have "out = Inl ''invalid Jev request''" using run by (simp add: run_jev_def)
    from reported [OF this] show ?thesis by simp
  qed (rule that)
  define r' where "r' = r\<lparr>jr_by := j, jr_request := json_string (je_serializer n) request\<rparr>"
  obtain o1 d1 where reserve: "reserve_jev r' d = (o1, d1)" by (cases "reserve_jev r' d")
  define rest where "rest = (case o1 of Inl e \<Rightarrow> (Inl e, d1) | Inr i \<Rightarrow> settle_jev n j x between connect latency write p i d1)"
  have run': "check (vr_calls (qp_context p) \<noteq> []) ''Jev requires at least one candidate'' d rest = (out, d2)"
    using run by (simp add: run_jev_def request r'_def [symmetric] reserve rest_def)
  have "vr_calls (qp_context p) \<noteq> []"
  proof
    assume "vr_calls (qp_context p) = []"
    then have "out = Inl ''Jev requires at least one candidate''" using run' by (simp add: check_def)
    from reported [OF this] show False by simp
  qed
  then have run'': "rest = (out, d2)" using run' by (simp add: check_def)
  obtain i where o1: "o1 = Inr i"
  proof (cases o1)
    case (Inl e)
    then have "out = Inl e" using run'' by (simp add: rest_def)
    from reported [OF this] reserve_jev_error [OF reserve [unfolded Inl]] show ?thesis by blast
  qed (rule that)
  from reserve_jev_cases [OF reserve] o1
  have i: "i = jr_id r" and fresh: "jr_id r \<notin> set (jev_ids d)"
    and d1: "jd_attempts d1 = jd_attempts d @ [\<lparr>ja_id = jr_id r, ja_reserved = 10, ja_request = json_string (je_serializer n) request,
        ja_response = None, ja_status = ''reserved_incomplete'', ja_http = None, ja_latency = None\<rparr>]"
    by (auto simp: r'_def)
  have "filter (\<lambda>a. ja_id a = jr_id r) (jd_attempts d) = []"
    using fresh unfolding filter_empty_conv jev_ids_def by (metis imageI list.set_map)
  with d1 have row: "filter (\<lambda>a. ja_id a = jr_id r) (jd_attempts (between d1)) = [\<lparr>ja_id = jr_id r, ja_reserved = 10,
      ja_request = json_string (je_serializer n) request,
      ja_response = None, ja_status = ''reserved_incomplete'', ja_http = None, ja_latency = None\<rparr>]"
    by (simp add: others)
  have settle: "settle_jev n j x between connect latency write p (jr_id r) d1 = (out, d2)"
    using run'' o1 i by (simp add: rest_def)
  from settled_row [OF settle row out] request show ?thesis by auto
qed

subsection \<open>A worked run\<close>

definition sample_jev_open :: jev_open_request where
  "sample_jev_open = \<lparr>jo_cap = 20, jo_key = ''k'', jo_client = True, jo_workspace = Inr ''/w'', jo_directory = True,
     jo_disk = sample_disk\<rparr>"

definition sample_live :: live_jev where
  "sample_live = \<lparr>lj_workspace = ''/w'', lj_cap = 20\<rparr>"

definition sample_jev_db :: jev_db where
  "sample_jev_db = \<lparr>jd_version = 1, jd_foreign = 0, jd_binding = Some \<lparr>jb_workspace = ''/w'', jb_cap = 20\<rparr>, jd_attempts = []\<rparr>"

definition sample_reservation :: "string \<Rightarrow> jev_reservation" where
  "sample_reservation i = \<lparr>jr_by = sample_live, jr_connect = True, jr_id = i, jr_request = [], jr_commit = Done\<rparr>"

lemma sample_opened: "snd (held (foldl jev_step fresh_world [Open sample_jev_open])) = Some sample_jev_db"
  by code_simp


definition sample_jev_environment :: jev_environment where
  "sample_jev_environment = \<lparr>je_codec = sample_codec, je_serializer = sample_tables, je_float = sample_float,
     je_parse = (\<lambda>_. Some sample_ranking)\<rparr>"

theorem jev_run_audited_witness:
  "\<exists>s d. run_jev sample_jev_environment sample_live (sample_reservation ''a'') (Response 200 [Bytes ''{}'']) (\<lambda>d. d)
       True 7 Done sample_packet sample_jev_db = (Inr s, d) \<and> map ja_status (jd_attempts d) = [''success'']"
proof -
  obtain body where b: "request_for sample_codec sample_tables sample_packet = Inr body" using sample_request by blast
  obtain s0 where s0: "parse_ranking sample_codec sample_float sample_packet sample_ranking = Inr s0" using sample_parsed by blast
  have "jev_valid sample_jev_db" by (simp add: jev_valid_def sample_jev_db_def)
  moreover obtain s d where run: "run_jev sample_jev_environment sample_live (sample_reservation ''a'') (Response 200 [Bytes ''{}''])
      (\<lambda>d. d) True 7 Done sample_packet sample_jev_db = (Inr s, d)" and d: "length (jd_attempts d) = 1"
    by (simp add: run_jev_def sample_jev_environment_def b sample_calls check_def reserve_jev_def sample_reservation_def
        budget_of_def check_binding_def sample_jev_db_def sample_live_def reserved_total_def RESERVATION_def
        settle_jev_def receive_response_def MAX_RESPONSE_def Let_def parse_received_def s0 finish_jev_def)
  moreover obtain a where a: "jd_attempts d = [a]" using d by (cases "jd_attempts d") auto
  ultimately obtain b where "filter (\<lambda>a. ja_id a = ''a'') [a] = [b]" "ja_status b = ''success''"
    using jev_run_audited [OF run, of s "''success''"] by (auto simp: sample_reservation_def)
  then have "map ja_status (jd_attempts d) = [''success'']" by (auto simp: a split: if_splits)
  then show ?thesis by (intro exI [of _ s] exI [of _ d] conjI run)
qed

end
