(* ===== verification/Acp.thy ===== *)
theory Acp
  imports Answer Ledger
begin

section \<open>The answer subprocess (\<open>acp.rs\<close>)\<close>

text \<open>
  The provider that runs a local program for each answer: opening its private ledger outside the
  workspace, the attempts table, what is captured of the program's output and what a run reports.
  Paths are lists of components; canonicalisation, existence, the checks of files, the random
  identifier, the outcome of disk calls and of the process, and reading the two JSON shapes
  (\<open>serde\<close>'s derived code) are answers of the environment.
\<close>

definition ACP_UNAVAILABLE :: string where "ACP_UNAVAILABLE = ''ACP private ledger unavailable''"

record acp =
  ac_workspace :: string
  ac_cap :: nat

record acp_status =
  as_max :: nat
  as_attempts :: nat
  as_remaining :: nat

record acp_attempt =
  aa_id :: string
  aa_status :: string
  aa_packet :: string
  aa_response :: "string option"

record acp_db =
  ad_version :: nat
  ad_foreign :: nat
  ad_binding :: "(string \<times> nat) option"
  ad_attempts :: "acp_attempt list"

definition acp_blank :: acp_db where
  "acp_blank = \<lparr>ad_version = 0, ad_foreign = 0, ad_binding = None, ad_attempts = []\<rparr>"

definition read_status :: "acp \<Rightarrow> acp_db \<Rightarrow> acp_status result" where
  "read_status a d = bind_result (ok_or (ad_binding d) ACP_UNAVAILABLE) (\<lambda>(workspace, cap).
     ensure (workspace = ac_workspace a \<and> cap = ac_cap a) ''ACP ledger workspace or allowance mismatch''
    (ensure (length (ad_attempts d) \<le> cap) ACP_UNAVAILABLE
      (Inr \<lparr>as_max = cap, as_attempts = length (ad_attempts d), as_remaining = cap - length (ad_attempts d)\<rparr>)))"

subsection \<open>Opening\<close>

record acp_open_request =
  aq_cap :: nat
  aq_workspace :: "string list option"
  aq_is_directory :: bool
  aq_utf8 :: "string option"
  aq_runner :: "string list option"
  aq_runner_is_file :: bool
  aq_state_dir :: "string list"
  aq_absolute :: "string list"
  aq_exists :: "string list \<Rightarrow> bool"
  aq_canonical :: "string list \<Rightarrow> string list option"
  aq_directory :: bool
  aq_disk :: disk

text \<open>\<open>while !ancestor.try_exists()\<close>: the nearest existing ancestor of a path.\<close>

function nearest_existing :: "(string list \<Rightarrow> bool) \<Rightarrow> string list \<Rightarrow> string list option" where
  "nearest_existing exists path =
     (if exists path then Some path else if path = [] then None else nearest_existing exists (butlast path))"
  by pat_completeness auto
termination
  by (relation "measure (\<lambda>(exists, path). length path)") auto

declare nearest_existing.simps [simp del]

definition kept_outside :: "string list \<Rightarrow> string list option \<Rightarrow> unit result" where
  "kept_outside workspace path = bind_result (ok_or path ACP_UNAVAILABLE) (\<lambda>q.
     ensure (\<not> prefix workspace q) ''ACP private state must be outside workspace'' (Inr ()))"

text \<open>The checks before anything is created, and the canonical state directory.\<close>

definition acp_paths :: "acp_open_request \<Rightarrow> unit result" where
  "acp_paths q =
     ensure (1 \<le> aq_cap q \<and> aq_cap q \<le> 20) ''ACP allowance must be 1..20 attempts''
    (bind_result (ok_or (aq_workspace q) ACP_UNAVAILABLE) (\<lambda>workspace.
     ensure (aq_is_directory q) ''ACP workspace must be a directory''
    (bind_result (ok_or (aq_runner q) ''ACP runner unavailable'') (\<lambda>runner.
     ensure (aq_runner_is_file q) ''ACP runner unavailable''
    (ensure (\<not> prefix workspace runner) ''ACP runner must be outside workspace''
    (ensure (''..'' \<notin> set (aq_state_dir q)) ''ACP private state path must not contain parent traversal''
    (bind_result (ok_or (nearest_existing (aq_exists q) (aq_absolute q)) ACP_UNAVAILABLE) (\<lambda>ancestor.
     bind_result (kept_outside workspace (aq_canonical q ancestor)) (\<lambda>_.
     ensure (aq_directory q) ACP_UNAVAILABLE
       (kept_outside workspace (aq_canonical q (aq_absolute q))))))))))))"

definition initialise_acp :: "acp \<Rightarrow> bool \<Rightarrow> acp_db \<Rightarrow> acp_db result" where
  "initialise_acp a initialized d =
     ensure (ad_version d \<le> 1 \<and> (initialized \<longrightarrow> ad_version d = 1)) ACP_UNAVAILABLE
    (bind_result
       (if ad_version d = 0 then ensure (ad_foreign d = 0) ACP_UNAVAILABLE
          (Inr \<lparr>ad_version = 1, ad_foreign = 0, ad_binding = Some (ac_workspace a, ac_cap a), ad_attempts = []\<rparr>)
        else Inr d) (\<lambda>d'. bind_result (read_status a d') (\<lambda>_. Inr d')))"

definition open_acp :: "acp_open_request \<Rightarrow> acp_db store \<Rightarrow> acp result \<times> acp_db store" where
  "open_acp q st = (case acp_paths q of Inl e \<Rightarrow> (Inl e, st) | Inr _ \<Rightarrow>
     (case aq_utf8 q of None \<Rightarrow> (Inl ACP_UNAVAILABLE, st) | Some workspace \<Rightarrow>
     (let this = \<lparr>ac_workspace = workspace, ac_cap = aq_cap q\<rparr> in
      open_files ACP_UNAVAILABLE (aq_disk q) acp_blank (initialise_acp this) this st)))"

subsection \<open>Reserving and recording\<close>

record acp_reservation =
  av_by :: acp
  av_connect :: bool
  av_id :: string
  av_packet :: string
  av_commit :: effect

definition reserve_acp :: "acp_reservation \<Rightarrow> acp_db \<Rightarrow> string result \<times> acp_db" where
  "reserve_acp r d =
     check (av_connect r) ACP_UNAVAILABLE d
    (case read_status (av_by r) d of Inl e \<Rightarrow> (Inl e, d) | Inr status \<Rightarrow>
     check (0 < as_remaining status) ''ACP allowance exhausted'' d
    (check (av_id r \<notin> set (map aa_id (ad_attempts d))) ACP_UNAVAILABLE d
    (perform (av_commit r) ACP_UNAVAILABLE d
       (d\<lparr>ad_attempts := ad_attempts d @ [\<lparr>aa_id = av_id r, aa_status = ''reserved_incomplete'',
          aa_packet = av_packet r, aa_response = None\<rparr>]\<rparr>)
       (\<lambda>d'. (Inr (av_id r), d')))))"

record acp_outcome =
  ao_by :: acp
  ao_connect :: bool
  ao_id :: string
  ao_raw :: "string option"
  ao_status :: string
  ao_write :: effect

text \<open>\<open>COALESCE(?2, response)\<close>: without new raw output the row keeps what it has.\<close>

definition record_attempt :: "acp_outcome \<Rightarrow> acp_attempt \<Rightarrow> acp_attempt" where
  "record_attempt o' a = (if aa_id a = ao_id o'
     then a\<lparr>aa_response := (case ao_raw o' of None \<Rightarrow> aa_response a | Some raw \<Rightarrow> Some raw), aa_status := ao_status o'\<rparr>
     else a)"

definition record_acp :: "acp_outcome \<Rightarrow> acp_db \<Rightarrow> unit result \<times> acp_db" where
  "record_acp o' d =
     check (ao_connect o') ACP_UNAVAILABLE d
    (case read_status (ao_by o') d of Inl e \<Rightarrow> (Inl e, d) | Inr _ \<Rightarrow>
     perform (ao_write o') ACP_UNAVAILABLE d (d\<lparr>ad_attempts := map (record_attempt o') (ad_attempts d)\<rparr>) (\<lambda>d'.
       check (length (filter (\<lambda>a. aa_id a = ao_id o') (ad_attempts d)) = 1) ACP_UNAVAILABLE d' (Inr (), d')))"

subsection \<open>The process\<close>

text \<open>How \<open>execute_capture\<close> ends and what the process had written to its output by then.\<close>

datatype process =
    ScratchFailed
  | SpawnFailed
  | TransportBroken string
  | WaitFailed string
  | Exited string bool
  | TimedOut string
  | ShutDown string

fun capture_output :: "process \<Rightarrow> string \<times> unit result" where
  "capture_output ScratchFailed = ([], Inl ACP_UNAVAILABLE)"
| "capture_output SpawnFailed = ([], Inl ''ACP attempt failed: process'')"
| "capture_output (TransportBroken out) = (take 65537 out, Inl ''ACP attempt failed: transport'')"
| "capture_output (WaitFailed out) = (take 65537 out, Inl (if length (take 65537 out) \<le> 65536
     then ''ACP attempt failed: process'' else ''ACP attempt failed: output limit''))"
| "capture_output (Exited out ok) = (take 65537 out,
     ensure (length (take 65537 out) \<le> 65536) ''ACP attempt failed: output limit''
    (ensure ok ''ACP attempt failed: process'' (Inr ())))"
| "capture_output (TimedOut out) = (take 65537 out, Inl ''ACP attempt failed: timeout'')"
| "capture_output (ShutDown out) = (take 65537 out, Inl ''ACP attempt failed: shutdown'')"

record diagnostic_report =
  dg_error :: string
  dg_auth_kind :: "string option"
  dg_phase :: "string option"

definition diagnostic_failure :: "(string \<Rightarrow> diagnostic_report option) \<Rightarrow> string \<Rightarrow> string option" where
  "diagnostic_failure read_diagnostic raw = Option.bind (read_diagnostic raw) (\<lambda>g.
     if (case dg_auth_kind g of None \<Rightarrow> False | Some kind \<Rightarrow>
           kind \<notin> {''account'', ''api_key'', ''gateway'', ''external'', ''none'', ''unknown''})
        \<or> (case dg_phase g of None \<Rightarrow> False | Some phase \<Rightarrow>
           phase \<notin> {''input'', ''launch'', ''initialize'', ''session'', ''model_selection'', ''auth'', ''prompt'',
             ''validation'', ''unknown''})
     then None
     else if dg_error g \<in> {''auth_required'', ''authentication_failed'', ''oauth_revoked''}
       then Some ''ACP authentication required''
     else if dg_error g = ''model_unavailable'' then Some ''ACP model unavailable''
     else if dg_error g = ''model_mismatch'' then Some ''ACP model mismatch''
     else None)"

subsection \<open>A run\<close>

record acp_answer =
  an_attempt :: string
  an_answer :: answer_envelope
  an_usd :: "f64 option"

record acp_environment =
  ae_codec :: codec
  ae_serializer :: serializer
  ae_from_value :: "json \<Rightarrow> answer_envelope result"
  ae_diagnostic :: "string \<Rightarrow> diagnostic_report option"
  ae_response :: "string \<Rightarrow> (json \<times> f64 option) option"

fun nonnegative :: "f64 \<Rightarrow> bool" where
  "nonnegative (Finite x) \<longleftrightarrow> 0 \<le> x"
| "nonnegative _ = False"

definition judge_output :: "acp_environment \<Rightarrow> question_packet \<Rightarrow> string \<Rightarrow> string \<Rightarrow> unit result \<Rightarrow> acp_answer result" where
  "judge_output n p i raw received =
     (case received of
        Inl e \<Rightarrow> Inl (if e = ''ACP attempt failed: process''
          then (case diagnostic_failure (ae_diagnostic n) raw of None \<Rightarrow> e | Some msg \<Rightarrow> msg) else e)
      | Inr _ \<Rightarrow> bind_result (ok_or (ae_response n raw) ''ACP invalid answer'') (\<lambda>(answer, usd).
          ensure (case usd of None \<Rightarrow> True | Some x \<Rightarrow> nonnegative x) ''ACP invalid answer''
          (case parse_answer (ae_codec n) (ae_serializer n) (ae_from_value n) p answer of
             Inl _ \<Rightarrow> Inl ''ACP invalid answer''
           | Inr a \<Rightarrow> Inr \<lparr>an_attempt = i, an_answer = a, an_usd = usd\<rparr>)))"

text \<open>
  After the reservation: the bounded output is recorded before it is parsed, and the verdict after.
  \<open>between\<close> and \<open>between'\<close> are what other processes do before each of the two.
\<close>

definition settle_acp ::
  "acp_environment \<Rightarrow> acp \<Rightarrow> process \<Rightarrow> (acp_db \<Rightarrow> acp_db) \<Rightarrow> (acp_db \<Rightarrow> acp_db) \<Rightarrow> bool \<times> effect \<Rightarrow> bool \<times> effect
     \<Rightarrow> question_packet \<Rightarrow> string \<Rightarrow> acp_db \<Rightarrow> acp_answer result \<times> acp_db" where
  "settle_acp n a x between between' first second p i d =
     (case capture_output x of (captured, received) \<Rightarrow>
      let raw = take 65536 captured in
     (case record_acp \<lparr>ao_by = a, ao_connect = fst first, ao_id = i, ao_raw = Some raw,
          ao_status = (case received of Inr _ \<Rightarrow> ''received_unvalidated'' | Inl _ \<Rightarrow> ''transport_failed''),
          ao_write = snd first\<rparr> (between d) of
        (Inl e, d1) \<Rightarrow> (Inl e, d1)
      | (Inr _, d1) \<Rightarrow>
      let verdict = judge_output n p i raw received in
     (case record_acp \<lparr>ao_by = a, ao_connect = fst second, ao_id = i, ao_raw = None,
          ao_status = (case verdict of Inr _ \<Rightarrow> ''success'' | Inl _ \<Rightarrow> ''failed''), ao_write = snd second\<rparr> (between' d1) of
        (Inl e, d2) \<Rightarrow> (Inl e, d2)
      | (Inr _, d2) \<Rightarrow> (verdict, d2))))"

definition run_acp ::
  "acp_environment \<Rightarrow> acp \<Rightarrow> bool \<Rightarrow> bool \<Rightarrow> acp_reservation \<Rightarrow> process \<Rightarrow> (acp_db \<Rightarrow> acp_db) \<Rightarrow> (acp_db \<Rightarrow> acp_db)
     \<Rightarrow> bool \<times> effect \<Rightarrow> bool \<times> effect \<Rightarrow> question_packet \<Rightarrow> acp_db \<Rightarrow> acp_answer result \<times> acp_db" where
  "run_acp n a shutdown in_flight r x between between' first second p d =
     check (\<not> shutdown) ''ACP attempt failed: shutdown'' d
    (check (\<not> in_flight) ''ACP request already in flight'' d
    (case build_prompt (ae_codec n) (ae_serializer n) p of
       Inl _ \<Rightarrow> (Inl ''ACP invalid request'', d)
     | Inr prompt \<Rightarrow>
    (case reserve_acp (r\<lparr>av_by := a, av_packet := json_string (ae_serializer n) (packet_json (ae_serializer n) p)\<rparr>) d of
       (Inl e, d1) \<Rightarrow> (Inl e, d1)
     | (Inr i, d1) \<Rightarrow> settle_acp n a x between between' first second p i d1)))"
subsection \<open>The ledger laws\<close>

definition acp_valid :: "acp_db \<Rightarrow> bool" where
  "acp_valid d \<longleftrightarrow> distinct (map aa_id (ad_attempts d)) \<and> (ad_binding d = None \<longrightarrow> ad_attempts d = [])"

definition acp_ids :: "acp_db \<Rightarrow> string list" where
  "acp_ids d = map aa_id (ad_attempts d)"

definition acp_allowance :: "acp_db \<Rightarrow> nat option" where
  "acp_allowance d = map_option snd (ad_binding d)"

lemma read_status_Inr:
  "read_status a d = Inr s \<longleftrightarrow> ad_binding d = Some (ac_workspace a, ac_cap a) \<and> length (ad_attempts d) \<le> ac_cap a
     \<and> s = \<lparr>as_max = ac_cap a, as_attempts = length (ad_attempts d), as_remaining = ac_cap a - length (ad_attempts d)\<rparr>"
  by (cases "ad_binding d") (auto simp: read_status_def)

lemma reserve_acp_row:
  assumes r: "reserve_acp r d = (out, d')" and v: "acp_valid d"
  shows "((\<exists>e. out = Inl e) \<and> d' = d) \<or>
    (acp_valid d' \<and> av_id r \<notin> set (acp_ids d) \<and> acp_ids d' = acp_ids d @ [av_id r] \<and> acp_allowance d' = acp_allowance d
     \<and> (\<exists>c. acp_allowance d = Some c \<and> length (acp_ids d) < c) \<and> (out = Inr (av_id r) \<or> (\<exists>e. out = Inl e))
     \<and> ad_attempts d' = ad_attempts d @ [\<lparr>aa_id = av_id r, aa_status = ''reserved_incomplete'',
          aa_packet = av_packet r, aa_response = None\<rparr>])"
proof -
  let ?d = "d\<lparr>ad_attempts := ad_attempts d @ [\<lparr>aa_id = av_id r, aa_status = ''reserved_incomplete'',
          aa_packet = av_packet r, aa_response = None\<rparr>]\<rparr>"
  have "((\<exists>e. out = Inl e) \<and> d' = d) \<or> (d' = ?d \<and> av_id r \<notin> set (acp_ids d)
      \<and> ad_binding d = Some (ac_workspace (av_by r), ac_cap (av_by r)) \<and> length (ad_attempts d) < ac_cap (av_by r)
      \<and> (out = Inr (av_id r) \<or> (\<exists>e. out = Inl e)))"
    using r unfolding reserve_acp_def check_def
    by (auto simp: read_status_Inr acp_ids_def split: if_splits sum.splits) (cases "av_commit r"; auto)+
  then show ?thesis
  proof (elim disjE)
    assume a: "d' = ?d \<and> av_id r \<notin> set (acp_ids d)
      \<and> ad_binding d = Some (ac_workspace (av_by r), ac_cap (av_by r)) \<and> length (ad_attempts d) < ac_cap (av_by r)
      \<and> (out = Inr (av_id r) \<or> (\<exists>e. out = Inl e))"
    with v have "acp_valid d'" "acp_ids d' = acp_ids d @ [av_id r]" "acp_allowance d' = acp_allowance d"
      by (auto simp: acp_valid_def acp_ids_def acp_allowance_def)
    moreover have "acp_allowance d = Some (ac_cap (av_by r))" "length (acp_ids d) < ac_cap (av_by r)"
      using a by (auto simp: acp_allowance_def acp_ids_def)
    ultimately show ?thesis using a by auto
  qed simp
qed

lemma initialise_acp_Inr:
  "initialise_acp a initialized d = Inr d' \<Longrightarrow>
     (ad_version d = 0 \<and> \<not> initialized \<and> d' = \<lparr>ad_version = 1, ad_foreign = 0,
        ad_binding = Some (ac_workspace a, ac_cap a), ad_attempts = []\<rparr>)
     \<or> (ad_version d = 1 \<and> d' = d \<and> ad_binding d = Some (ac_workspace a, ac_cap a))"
  by (auto simp: initialise_acp_def read_status_Inr split: if_splits)

lemma open_acp_store:
  "snd (open_acp q st) = st \<or> (\<exists>this. snd (open_acp q st)
     = snd (open_files ACP_UNAVAILABLE (aq_disk q) acp_blank (initialise_acp this) this st))"
  by (auto simp: open_acp_def Let_def split: sum.splits option.splits)

lemma open_acp_initialised: "snd (open_acp q (True, db)) = (True, db)"
proof -
  have "d' = d" if "initialise_acp this True d = Inr d'" for this d d'
    using initialise_acp_Inr [OF that] by auto
  then have "snd (open_files ACP_UNAVAILABLE (aq_disk q) acp_blank (initialise_acp this) this (True, db)) = (True, db)" for this
    by (rule open_files_initialised)
  with open_acp_store [of q "(True, db)"] show ?thesis by (elim disjE exE) simp_all
qed

lemma open_acp_uninitialised:
  assumes before: "\<And>d. db = Some d \<Longrightarrow> acp_valid d \<and> acp_allowance d = None"
    and after: "snd (open_acp q (False, db)) = (m, Some d')"
  shows "acp_valid d' \<and> acp_ids d' = [] \<and> (acp_allowance d' = None \<or> m)"
  using open_acp_store [of q "(False, db)"]
proof
  assume "snd (open_acp q (False, db)) = (False, db)"
  with before after show ?thesis by (auto simp: acp_valid_def acp_allowance_def acp_ids_def)
next
  assume "\<exists>this. snd (open_acp q (False, db))
     = snd (open_files ACP_UNAVAILABLE (aq_disk q) acp_blank (initialise_acp this) this (False, db))"
  then obtain this where o: "snd (open_files ACP_UNAVAILABLE (aq_disk q) acp_blank (initialise_acp this) this (False, db)) = (m, Some d')"
    using after by auto
  let ?unbound = "\<lambda>d. acp_valid d \<and> acp_allowance d = None"
  have blank_ok: "?unbound acp_blank" by (simp add: acp_valid_def acp_blank_def acp_allowance_def)
  have new: "acp_valid d1 \<and> acp_ids d1 = []" if "?unbound d" "initialise_acp this False d = Inr d1" for d d1
    using initialise_acp_Inr [OF that(2)] that(1) by (auto simp: acp_valid_def acp_ids_def acp_allowance_def)
  have "?unbound d' \<or> ((acp_valid d' \<and> acp_ids d' = []) \<and> m)"
    by (rule open_files_uninitialised [where P = ?unbound and P' = "\<lambda>d. acp_valid d \<and> acp_ids d = []", OF _ _ _ o])
      (fact blank_ok, fact before, fact new)
  moreover have "acp_ids d' = []" if "?unbound d'" using that by (simp add: acp_valid_def acp_allowance_def acp_ids_def)
  ultimately show ?thesis by blast
qed

lemma record_attempt_id [simp]: "aa_id (record_attempt u a) = aa_id a"
  by (simp add: record_attempt_def)

lemma record_acp_keeps:
  "snd (record_acp u d) = d \<or> snd (record_acp u d) = d\<lparr>ad_attempts := map (record_attempt u) (ad_attempts d)\<rparr>"
  by (auto simp: record_acp_def check_def perform_def split: sum.splits effect.splits)

interpretation acp_ledger: ledger "\<lambda>q st. snd (open_acp q st)" reserve_acp "\<lambda>u d. snd (record_acp u d)"
  acp_blank acp_ids acp_allowance acp_valid
proof unfold_locales
  show "acp_valid acp_blank" "acp_allowance acp_blank = None"
    by (simp_all add: acp_valid_def acp_blank_def acp_allowance_def)
  show "acp_ids d = []" if "acp_valid d" "acp_allowance d = None" for d
    using that by (simp add: acp_valid_def acp_allowance_def acp_ids_def)
  show "snd (open_acp q (True, db)) = (True, db)" for q db by (rule open_acp_initialised)
  show "acp_valid d' \<and> acp_ids d' = [] \<and> (acp_allowance d' = None \<or> m)"
    if "\<And>d. db = Some d \<Longrightarrow> acp_valid d \<and> acp_allowance d = None" "snd (open_acp q (False, db)) = (m, Some d')" for db q m d'
    using that by (rule open_acp_uninitialised)
  show "acp_valid d' \<and> i \<notin> set (acp_ids d) \<and> acp_ids d' = acp_ids d @ [i] \<and> acp_allowance d' = acp_allowance d
      \<and> (\<exists>c. acp_allowance d = Some c \<and> length (acp_ids d) < c)"
    if v: "acp_valid d" and r: "reserve_acp r d = (Inr i, d')" for d r i d'
    using reserve_acp_row [OF r v] by auto
  show "acp_valid d' \<and> acp_allowance d' = acp_allowance d \<and> (acp_ids d' = acp_ids d \<or> (\<exists>i c. acp_ids d' = acp_ids d @ [i]
      \<and> i \<notin> set (acp_ids d) \<and> acp_allowance d = Some c \<and> length (acp_ids d) < c))"
    if v: "acp_valid d" and r: "reserve_acp r d = (Inl e, d')" for d r e d'
    using reserve_acp_row [OF r v] v by blast
  show "acp_valid (snd (record_acp u d)) \<and> acp_ids (snd (record_acp u d)) = acp_ids d
      \<and> acp_allowance (snd (record_acp u d)) = acp_allowance d" if "acp_valid d" for u d
    using that record_acp_keeps [of u d] by (auto simp: acp_valid_def acp_ids_def acp_allowance_def comp_def)
qed

definition acp_step ::
  "acp_db ledger_world \<Rightarrow> (acp_open_request, acp_reservation, acp_outcome) ledger_event \<Rightarrow> acp_db ledger_world" where
  "acp_step = ledger_step (\<lambda>q st. snd (open_acp q st)) reserve_acp (\<lambda>u d. snd (record_acp u d)) acp_blank"


subsection \<open>Where the private state lies\<close>

lemma nearest_existing_Some:
  "nearest_existing exists path = Some q \<Longrightarrow> prefix q path \<and> exists q \<and> (\<forall>r. prefix r path \<and> exists r \<longrightarrow> prefix r q)"
proof (induction exists path rule: nearest_existing.induct)
  case (1 exists path)
  show ?case
  proof (cases "exists path")
    case True
    with 1(2) show ?thesis by (subst (asm) nearest_existing.simps) auto
  next
    case False
    with 1(2) have ne: "path \<noteq> []" and n: "nearest_existing exists (butlast path) = Some q"
      by (subst (asm) nearest_existing.simps, simp split: if_splits)+
    from 1(1) [OF False ne n] have ih: "prefix q (butlast path)" "exists q" "\<forall>r. prefix r (butlast path) \<and> exists r \<longrightarrow> prefix r q"
      by auto
    have "prefix r (butlast path)" if "prefix r path" "exists r" for r
      using that False ne by (metis append_butlast_last_id prefix_snoc)
    with ih show ?thesis by (metis prefix_order.trans prefixeq_butlast)
  qed
qed

text \<open>The provider opens only with its program and its private state outside the workspace: the program's
  canonical path, the canonical path of the nearest directory that existed before anything was
  created, and the canonical state directory are not below the workspace; when one of them is, or
  any other path check fails, nothing on disk is changed.\<close>

theorem acp_state_outside_workspace:
  "(fst (open_acp q st) = Inr a \<longrightarrow> (\<exists>workspace runner ancestor p1 p2.
      aq_workspace q = Some workspace \<and> aq_runner q = Some runner \<and> \<not> prefix workspace runner
      \<and> ''..'' \<notin> set (aq_state_dir q)
      \<and> prefix ancestor (aq_absolute q) \<and> aq_exists q ancestor
      \<and> (\<forall>r. prefix r (aq_absolute q) \<and> aq_exists q r \<longrightarrow> prefix r ancestor)
      \<and> aq_canonical q ancestor = Some p1 \<and> \<not> prefix workspace p1
      \<and> aq_canonical q (aq_absolute q) = Some p2 \<and> \<not> prefix workspace p2
      \<and> 1 \<le> ac_cap a \<and> ac_cap a \<le> 20))
   \<and> (acp_paths q \<noteq> Inr () \<longrightarrow> snd (open_acp q st) = st)"
proof (intro conjI impI)
  assume ok: "fst (open_acp q st) = Inr a"
  then have p: "acp_paths q = Inr ()" by (auto simp: open_acp_def split: sum.splits)
  have same: "fst (open_files u k b i this st) = Inr a \<Longrightarrow> a = this" for u k b i this
    by (auto simp: open_files_def check_def perform_def Let_def split: sum.splits if_splits effect.splits option.splits)
  with ok p have cap: "ac_cap a = aq_cap q" by (auto simp: open_acp_def Let_def split: option.splits dest!: same)
  from p obtain workspace runner ancestor where w: "aq_workspace q = Some workspace" "aq_runner q = Some runner"
      "\<not> prefix workspace runner" "''..'' \<notin> set (aq_state_dir q)" "1 \<le> aq_cap q" "aq_cap q \<le> 20"
      "nearest_existing (aq_exists q) (aq_absolute q) = Some ancestor"
      "kept_outside workspace (aq_canonical q ancestor) = Inr ()" "kept_outside workspace (aq_canonical q (aq_absolute q)) = Inr ()"
    by (auto simp: acp_paths_def)
  with cap nearest_existing_Some [OF w(7)] show "\<exists>workspace runner ancestor p1 p2.
      aq_workspace q = Some workspace \<and> aq_runner q = Some runner \<and> \<not> prefix workspace runner
      \<and> ''..'' \<notin> set (aq_state_dir q)
      \<and> prefix ancestor (aq_absolute q) \<and> aq_exists q ancestor
      \<and> (\<forall>r. prefix r (aq_absolute q) \<and> aq_exists q r \<longrightarrow> prefix r ancestor)
      \<and> aq_canonical q ancestor = Some p1 \<and> \<not> prefix workspace p1
      \<and> aq_canonical q (aq_absolute q) = Some p2 \<and> \<not> prefix workspace p2
      \<and> 1 \<le> ac_cap a \<and> ac_cap a \<le> 20"
    by (simp add: kept_outside_def) blast
next
  assume "acp_paths q \<noteq> Inr ()"
  then show "snd (open_acp q st) = st" by (auto simp: open_acp_def split: sum.splits)
qed

subsection \<open>What a run reports\<close>

definition ACP_MESSAGES :: "string list" where
  "ACP_MESSAGES = [ACP_UNAVAILABLE, ''ACP attempt failed: shutdown'', ''ACP request already in flight'', ''ACP invalid request'',
     ''ACP ledger workspace or allowance mismatch'', ''ACP allowance exhausted'', ''ACP attempt failed: process'',
     ''ACP attempt failed: transport'', ''ACP attempt failed: output limit'', ''ACP attempt failed: timeout'',
     ''ACP authentication required'', ''ACP model unavailable'', ''ACP model mismatch'', ''ACP invalid answer'']"

lemma read_status_Inl: "read_status a d = Inl e \<Longrightarrow> e \<in> set ACP_MESSAGES"
  by (cases "ad_binding d") (auto simp: read_status_def ensure_def ACP_MESSAGES_def split: if_splits)

lemma reserve_acp_Inl: "reserve_acp r d = (Inl e, d') \<Longrightarrow> e \<in> set ACP_MESSAGES"
  using read_status_Inl
  by (auto simp: reserve_acp_def check_def perform_def split: if_splits sum.splits effect.splits) (simp_all add: ACP_MESSAGES_def)

lemma record_acp_Inl: "record_acp u d = (Inl e, d') \<Longrightarrow> e \<in> set ACP_MESSAGES"
  using read_status_Inl
  by (auto simp: record_acp_def check_def perform_def split: if_splits sum.splits effect.splits) (simp_all add: ACP_MESSAGES_def)

lemma capture_output_Inl: "capture_output x = (raw, Inl e) \<Longrightarrow> e \<in> set ACP_MESSAGES"
  by (cases x) (auto simp: ACP_MESSAGES_def ensure_def split: if_splits)

lemma diagnostic_failure_Some: "diagnostic_failure rd raw = Some msg \<Longrightarrow> msg \<in> set ACP_MESSAGES"
  by (auto simp: diagnostic_failure_def bind_eq_Some_conv ACP_MESSAGES_def split: if_splits)

lemma judge_output_received:
  "judge_output n p i raw (Inr u) = (case ae_response n raw of None \<Rightarrow> Inl ''ACP invalid answer''
     | Some (answer, usd) \<Rightarrow> (case parse_answer (ae_codec n) (ae_serializer n) (ae_from_value n) p answer of
         Inl _ \<Rightarrow> Inl ''ACP invalid answer''
       | Inr a \<Rightarrow> if (case usd of None \<Rightarrow> True | Some x \<Rightarrow> nonnegative x)
           then Inr \<lparr>an_attempt = i, an_answer = a, an_usd = usd\<rparr> else Inl ''ACP invalid answer''))"
  by (cases "ae_response n raw") (auto simp: judge_output_def ensure_def split: sum.splits)

lemma judge_output_Inl:
  assumes "judge_output n p i raw received = Inl e" and "\<And>t. received = Inl t \<Longrightarrow> t \<in> set ACP_MESSAGES"
  shows "e \<in> set ACP_MESSAGES"
proof (cases received)
  case (Inl t)
  with assms(1) have "e = t \<or> diagnostic_failure (ae_diagnostic n) raw = Some e"
    by (auto simp: judge_output_def split: if_splits option.splits)
  with assms(2) [OF Inl] diagnostic_failure_Some show ?thesis by blast
next
  case (Inr u)
  with assms(1) have "e = ''ACP invalid answer''"
    by (auto simp: judge_output_received split: option.splits sum.splits if_splits)
  then show ?thesis by (simp add: ACP_MESSAGES_def)
qed

lemma judge_output_Inr:
  assumes "judge_output n p i raw received = Inr ans"
  shows "received = Inr () \<and> an_attempt ans = i
     \<and> (\<exists>answer. ae_response n raw = Some (answer, an_usd ans)
          \<and> parse_answer (ae_codec n) (ae_serializer n) (ae_from_value n) p answer = Inr (an_answer ans))"
proof (cases received)
  case (Inr u)
  with assms show ?thesis by (auto simp: judge_output_received split: option.splits sum.splits if_splits)
qed (use assms in \<open>simp add: judge_output_def\<close>)

lemma filter_record:
  "filter (\<lambda>a. aa_id a = i) (map (record_attempt u) xs) = map (record_attempt u) (filter (\<lambda>a. aa_id a = i) xs)"
  by (induction xs) auto

lemma record_acp_Inr:
  "record_acp u d = (Inr v, d') \<Longrightarrow> d' = d\<lparr>ad_attempts := map (record_attempt u) (ad_attempts d)\<rparr>"
  by (auto simp: record_acp_def check_def perform_def split: sum.splits effect.splits if_splits)

lemma settle_acp_Inl:
  assumes "settle_acp n a x between between' first second p i d = (Inl e, d')"
  shows "e \<in> set ACP_MESSAGES"
proof -
  obtain raw received where x: "capture_output x = (raw, received)" by (cases "capture_output x")
  have "t \<in> set ACP_MESSAGES" if "received = Inl t" for t using x that capture_output_Inl by blast
  then show ?thesis using assms x
    by (auto simp: settle_acp_def Let_def split: sum.splits prod.splits dest!: record_acp_Inl dest: judge_output_Inl)
qed

lemma settle_acp_Inr:
  assumes settle: "settle_acp n a x between between' first second p i d = (Inr ans, d')"
    and keep: "\<And>d. filter (\<lambda>a. aa_id a = i) (ad_attempts (between d)) = filter (\<lambda>a. aa_id a = i) (ad_attempts d)"
      "\<And>d. filter (\<lambda>a. aa_id a = i) (ad_attempts (between' d)) = filter (\<lambda>a. aa_id a = i) (ad_attempts d)"
    and row: "filter (\<lambda>a. aa_id a = i) (ad_attempts d) = [b]"
  shows "\<exists>out. x = Exited out True \<and> length out \<le> 65536
    \<and> filter (\<lambda>a. aa_id a = i) (ad_attempts d') = [b\<lparr>aa_response := Some out, aa_status := ''success''\<rparr>]
    \<and> an_attempt ans = i \<and> (\<exists>answer. ae_response n out = Some (answer, an_usd ans)
       \<and> parse_answer (ae_codec n) (ae_serializer n) (ae_from_value n) p answer = Inr (an_answer ans))"
proof -
  obtain raw received where x: "capture_output x = (raw, received)" by (cases "capture_output x")
  define u1 where "u1 = \<lparr>ao_by = a, ao_connect = fst first, ao_id = i, ao_raw = Some (take 65536 raw),
     ao_status = (case received of Inr _ \<Rightarrow> ''received_unvalidated'' | Inl _ \<Rightarrow> ''transport_failed''), ao_write = snd first\<rparr>"
  define u2 where "u2 = \<lparr>ao_by = a, ao_connect = fst second, ao_id = i, ao_raw = None, ao_status = ''success'', ao_write = snd second\<rparr>"
  obtain v1 d1 where r1: "record_acp u1 (between d) = (v1, d1)" by (cases "record_acp u1 (between d)")
  with settle x have verdict: "judge_output n p i (take 65536 raw) received = Inr ans" and r2: "\<exists>v2. record_acp u2 (between' d1) = (Inr v2, d')"
    and v1: "\<exists>v. v1 = Inr v"
    by (auto simp: settle_acp_def Let_def u1_def u2_def split: sum.splits prod.splits)
  note j = judge_output_Inr [OF verdict]
  then obtain out where out: "x = Exited out True" "length out \<le> 65536" "raw = out"
    using x by (cases x) (auto simp: min_def split: if_splits)
  have id: "aa_id b = i" using arg_cong [OF row, of set] by auto
  from r1 v1 have "d1 = (between d)\<lparr>ad_attempts := map (record_attempt u1) (ad_attempts (between d))\<rparr>"
    using record_acp_Inr by blast
  then have "filter (\<lambda>a. aa_id a = i) (ad_attempts d1) = [b\<lparr>aa_response := Some out, aa_status := ''received_unvalidated''\<rparr>]"
    using row id out j by (simp add: filter_record keep record_attempt_def u1_def)
  moreover from r2 have "d' = (between' d1)\<lparr>ad_attempts := map (record_attempt u2) (ad_attempts (between' d1))\<rparr>"
    using record_acp_Inr by blast
  ultimately have "filter (\<lambda>a. aa_id a = i) (ad_attempts d') = [b\<lparr>aa_response := Some out, aa_status := ''success''\<rparr>]"
    using id by (simp add: filter_record keep record_attempt_def u2_def)
  with out j show ?thesis by auto
qed

text \<open>C32: A run reports no text of the process: an error is always one of fourteen fixed messages. An answer is
  returned only for a process that exited with success within 64 KiB of output, whose answer passed
  the packet's citation checks; then its row holds that output and the status \<open>success\<close>.\<close>

theorem acp_run_reports:
  assumes run: "run_acp n a shutdown in_flight r x between between' first second p d = (out, d')"
    and valid: "acp_valid d"
    and others: "\<And>d. filter (\<lambda>a. aa_id a = av_id r) (ad_attempts (between d)) = filter (\<lambda>a. aa_id a = av_id r) (ad_attempts d)"
      "\<And>d. filter (\<lambda>a. aa_id a = av_id r) (ad_attempts (between' d)) = filter (\<lambda>a. aa_id a = av_id r) (ad_attempts d)"
  shows "(\<forall>e. out = Inl e \<longrightarrow> e \<in> set ACP_MESSAGES)
    \<and> (\<forall>ans. out = Inr ans \<longrightarrow> (\<exists>output. x = Exited output True \<and> length output \<le> 65536
        \<and> filter (\<lambda>a. aa_id a = av_id r) (ad_attempts d') = [\<lparr>aa_id = av_id r, aa_status = ''success'',
             aa_packet = json_string (ae_serializer n) (packet_json (ae_serializer n) p), aa_response = Some output\<rparr>]
        \<and> an_attempt ans = av_id r \<and> (\<exists>answer. ae_response n output = Some (answer, an_usd ans)
            \<and> parse_answer (ae_codec n) (ae_serializer n) (ae_from_value n) p answer = Inr (an_answer ans))))"
proof (intro conjI allI impI)
  fix e assume "out = Inl e"
  with run show "e \<in> set ACP_MESSAGES"
    by (auto simp: run_acp_def check_def split: if_splits sum.splits prod.splits dest: reserve_acp_Inl settle_acp_Inl)
      (simp_all add: ACP_MESSAGES_def)
next
  fix ans assume out: "out = Inr ans"
  define r' where "r' = r\<lparr>av_by := a, av_packet := json_string (ae_serializer n) (packet_json (ae_serializer n) p)\<rparr>"
  from run out obtain i d1 where r1: "reserve_acp r' d = (Inr i, d1)"
    and settle: "settle_acp n a x between between' first second p i d1 = (Inr ans, d')"
    by (auto simp: run_acp_def r'_def split: sum.splits prod.splits)
  from reserve_acp_row [OF r1 valid] have i: "i = av_id r" "av_id r \<notin> set (acp_ids d)"
    and row: "ad_attempts d1 = ad_attempts d @ [\<lparr>aa_id = av_id r, aa_status = ''reserved_incomplete'',
          aa_packet = json_string (ae_serializer n) (packet_json (ae_serializer n) p), aa_response = None\<rparr>]"
    by (auto simp: r'_def)
  have "filter (\<lambda>a. aa_id a = av_id r) (ad_attempts d) = []"
    using i(2) unfolding filter_empty_conv acp_ids_def by (metis imageI list.set_map)
  with row have "filter (\<lambda>a. aa_id a = av_id r) (ad_attempts d1) = [\<lparr>aa_id = av_id r, aa_status = ''reserved_incomplete'',
          aa_packet = json_string (ae_serializer n) (packet_json (ae_serializer n) p), aa_response = None\<rparr>]" by simp
  from settle_acp_Inr [OF settle [unfolded i(1)] others this]
  show "\<exists>output. x = Exited output True \<and> length output \<le> 65536
        \<and> filter (\<lambda>a. aa_id a = av_id r) (ad_attempts d') = [\<lparr>aa_id = av_id r, aa_status = ''success'',
             aa_packet = json_string (ae_serializer n) (packet_json (ae_serializer n) p), aa_response = Some output\<rparr>]
        \<and> an_attempt ans = av_id r \<and> (\<exists>answer. ae_response n output = Some (answer, an_usd ans)
            \<and> parse_answer (ae_codec n) (ae_serializer n) (ae_from_value n) p answer = Inr (an_answer ans))"
    by auto
qed

subsection \<open>A worked run\<close>

definition sample_acp_open :: acp_open_request where
  "sample_acp_open = \<lparr>aq_cap = 1, aq_workspace = Some [''w''], aq_is_directory = True, aq_utf8 = Some ''/w'',
     aq_runner = Some [''bin'', ''run''], aq_runner_is_file = True, aq_state_dir = [''s'', ''acp''],
     aq_absolute = [''s'', ''acp''], aq_exists = (\<lambda>q. length q \<le> 1), aq_canonical = Some, aq_directory = True,
     aq_disk = sample_disk\<rparr>"

definition sample_acp :: acp where
  "sample_acp = \<lparr>ac_workspace = ''/w'', ac_cap = 1\<rparr>"

definition sample_acp_db :: acp_db where
  "sample_acp_db = \<lparr>ad_version = 1, ad_foreign = 0, ad_binding = Some (''/w'', 1), ad_attempts = []\<rparr>"

definition sample_acp_reservation :: "string \<Rightarrow> acp_reservation" where
  "sample_acp_reservation i = \<lparr>av_by = sample_acp, av_connect = True, av_id = i, av_packet = [], av_commit = Done\<rparr>"

lemma sample_acp_opened: "snd (held (foldl acp_step fresh_world [Open sample_acp_open])) = Some sample_acp_db"
  by code_simp


theorem acp_state_outside_workspace_witness:
  "\<exists>ancestor. prefix ancestor [''s'', ''acp''] \<and> \<not> prefix [''w''] ancestor"
proof -
  have "fst (open_acp sample_acp_open (False, None)) = Inr sample_acp" by code_simp
  with acp_state_outside_workspace [of sample_acp_open "(False, None)" sample_acp]
  show ?thesis by (auto simp: sample_acp_open_def)
qed

definition sample_acp_environment :: acp_environment where
  "sample_acp_environment = \<lparr>ae_codec = sample_codec, ae_serializer = sample_serializer,
     ae_from_value = (\<lambda>_. Inr sample_answer), ae_diagnostic = (\<lambda>_. None), ae_response = (\<lambda>_. Some (JNull, None))\<rparr>"

theorem acp_run_reports_witness:
  "\<exists>ans d. run_acp sample_acp_environment sample_acp False False (sample_acp_reservation ''a'') (Exited ''{}'' True)
       (\<lambda>d. d) (\<lambda>d. d) (True, Done) (True, Done) sample_packet sample_acp_db = (Inr ans, d) \<and> an_answer ans = sample_answer"
proof -
  have prompt: "\<exists>prompt. build_prompt sample_codec sample_serializer sample_packet = Inr prompt"
  proof -
    have "length ANSWER_INSTRUCTIONS \<le> 10000" by code_simp
    then show ?thesis
      using sample_packet_valid by (simp add: build_prompt_def Let_def MAX_PROMPT_BYTES_def sample_serializer_def)
  qed
  obtain prompt where p: "build_prompt sample_codec sample_serializer sample_packet = Inr prompt" using prompt by blast
  have "acp_valid sample_acp_db" by (simp add: acp_valid_def sample_acp_db_def)
  moreover obtain ans d where run: "run_acp sample_acp_environment sample_acp False False (sample_acp_reservation ''a'')
      (Exited ''{}'' True) (\<lambda>d. d) (\<lambda>d. d) (True, Done) (True, Done) sample_packet sample_acp_db = (Inr ans, d)"
    by (simp add: run_acp_def check_def sample_acp_environment_def p reserve_acp_def sample_acp_reservation_def
        read_status_def sample_acp_db_def sample_acp_def settle_acp_def Let_def record_acp_def judge_output_received
        sample_answer_parses ok_or_def)
  ultimately have "\<exists>answer. parse_answer sample_codec sample_serializer (\<lambda>_. Inr sample_answer) sample_packet answer
      = Inr (an_answer ans)"
    using acp_run_reports [OF run] by (simp add: sample_acp_environment_def) blast
  then have "an_answer ans = sample_answer" by (auto simp: parse_answer_def)
  then show ?thesis by (intro exI [of _ ans] exI [of _ d] conjI run)
qed

end
