(* ===== verification/Watch.thy ===== *)
theory Watch
  imports Prelude
begin

section \<open>File system signals (\<open>watch.rs\<close>)\<close>

text \<open>
  The ingress of watcher events, the bounded drain into one dirty batch and its acknowledgment.
  A path is the list of its components; the file system is what \<open>canonicalize\<close> and
  \<open>symlink_metadata\<close> answer; an instant is a number of milliseconds; the kinds of events are
  those of the \<open>notify\<close> crate. The generation is the 64-bit counter of the source and wraps.
\<close>

subsection \<open>Paths and the file system\<close>

datatype component = RootDir | CurDir | ParentDir | Normal string

type_synonym path = "component list"

definition absolute :: "path \<Rightarrow> bool" where
  "absolute p \<longleftrightarrow> p \<noteq> [] \<and> hd p = RootDir"

definition path_join :: "path \<Rightarrow> path \<Rightarrow> path" where
  "path_join root p = (if absolute p then p else root @ p)"

definition strip_prefix :: "path \<Rightarrow> path \<Rightarrow> path option" where
  "strip_prefix root p =
     (if take (length root) p = root then Some (drop (length root) p) else None)"

datatype file_type = FileType | DirType | SymlinkType | OtherType

record file_system =
  fs_canonicalize :: "path \<Rightarrow> path option"
  fs_symlink_metadata :: "path \<Rightarrow> file_type option"

text \<open>\<open>Path::extension\<close>: the text behind the last dot, if something stands before it.\<close>

definition extension :: "string \<Rightarrow> string option" where
  "extension name =
     (let tail = takeWhile (\<lambda>c. c \<noteq> CHR ''.'') (rev name)
      in if length tail + 1 < length name then Some (rev tail) else None)"

definition file_name :: "path \<Rightarrow> string option" where
  "file_name p = (if p = [] then None else case last p of Normal n \<Rightarrow> Some n | _ \<Rightarrow> None)"

definition path_extension :: "path \<Rightarrow> string option" where
  "path_extension p = Option.bind (file_name p) extension"

subsection \<open>Events\<close>

datatype access_mode = ModeAny | ModeExecute | ModeRead | ModeWrite | ModeOther
datatype access_kind = AccessAny | AccessRead | AccessOpen access_mode | AccessClose access_mode | AccessOther
datatype metadata_kind = MetaAny | MetaAccessTime | MetaOther
datatype modify_kind = ModifyAny | ModifyData | ModifyMetadata metadata_kind | ModifyName | ModifyOther
datatype event_kind = EvAny | EvAccess access_kind | EvCreate | EvModify modify_kind | EvRemove | EvOther

record fs_event =
  ev_kind :: event_kind
  ev_paths :: "path list"

datatype notified = Notified fs_event | NotifyError

record signal =
  sig_event :: notified
  sig_received_at :: nat

definition read_only :: "event_kind \<Rightarrow> bool" where
  "read_only kind \<longleftrightarrow> kind \<in>
     {EvModify (ModifyMetadata MetaAccessTime), EvAccess AccessRead,
      EvAccess (AccessOpen ModeRead), EvAccess (AccessOpen ModeAny), EvAccess (AccessOpen ModeExecute),
      EvAccess (AccessClose ModeRead), EvAccess (AccessClose ModeExecute)}"

definition always_excluded :: "string list" where
  "always_excluded = [''.git'', ''node_modules'', ''.venv'', ''.trellis'']"

definition output_names :: "string list" where
  "output_names = [''target'', ''dist'', ''build'']"

text \<open>\<open>parts.windows(3).any(..)\<close>: a Java source root among the components.\<close>

fun java_output :: "string list \<Rightarrow> bool" where
  "java_output (a # b # c # r) =
     ((a = ''src'' \<and> b \<in> {''main'', ''test'', ''testFixtures''} \<and> c = ''java'') \<or> java_output (b # c # r))"
| "java_output _ = False"

fun excluded_scan :: "file_system \<Rightarrow> path \<Rightarrow> string list \<Rightarrow> bool \<Rightarrow> path \<Rightarrow> bool" where
  "excluded_scan fs current parts excluded [] = excluded"
| "excluded_scan fs current parts excluded (Normal part # rest) =
     (let current' = current @ [Normal part] in
      case fs_symlink_metadata fs current' of
        None \<Rightarrow> False
      | Some t \<Rightarrow>
          if t = SymlinkType then False
          else
            let parts' = parts @ [part] in
            excluded_scan fs current' parts'
              (excluded \<or> part \<in> set always_excluded
               \<or> (part \<in> set output_names \<and> \<not> java_output parts')) rest)"
| "excluded_scan fs current parts excluded (_ # rest) = False"

definition path_excluded :: "file_system \<Rightarrow> path \<Rightarrow> path list \<Rightarrow> path \<Rightarrow> path \<Rightarrow> path \<Rightarrow> bool" where
  "path_excluded fs root selected executable canonical_executable p =
     (let absolute_path = path_join root p in
      if absolute_path \<in> set selected \<or> executable = absolute_path then False
      else case fs_canonicalize fs absolute_path of
             None \<Rightarrow> False
           | Some canonical \<Rightarrow>
               if list_ex (\<lambda>s. fs_canonicalize fs s = Some canonical) selected
                  \<or> canonical_executable = canonical
               then False
               else case strip_prefix root absolute_path of
                      None \<Rightarrow> False
                    | Some relative \<Rightarrow> excluded_scan fs root [] False relative)"

definition certainly_excluded ::
  "file_system \<Rightarrow> path \<Rightarrow> path list \<Rightarrow> path option \<Rightarrow> fs_event \<Rightarrow> bool" where
  "certainly_excluded fs root selected executable ev =
     (if ev_paths ev = [] \<or> ev_kind ev = EvAny \<or> ev_kind ev = EvOther then False
      else case executable of
             None \<Rightarrow> False
           | Some exe \<Rightarrow>
               (case fs_canonicalize fs exe of
                  None \<Rightarrow> False
                | Some cexe \<Rightarrow> list_all (path_excluded fs root selected exe cexe) (ev_paths ev)))"

subsection \<open>The signal state\<close>

definition MAX_DIRTY_PATHS :: nat where "MAX_DIRTY_PATHS = 256"
definition QUIET :: nat where "QUIET = 75"
definition MAX_WAIT :: nat where "MAX_WAIT = 250"

record dirty_batch =
  db_generation :: u64
  db_full :: bool
  db_paths :: "path list"

record watch =
  w_root :: path
  w_captured_inputs :: "path list"
  w_watching :: bool
  w_queue :: "signal list"
  w_generation :: u64
  w_overflow :: bool
  w_pending :: dirty_batch
  w_executable :: "path option"
  w_acknowledged :: u64
  w_first :: "nat option"
  w_last :: "nat option"
  w_urgent :: bool
  w_degraded :: bool

definition selected_inputs :: "path \<Rightarrow> path option \<Rightarrow> path option \<Rightarrow> path list" where
  "selected_inputs root scip manifest =
     map (path_join root) (concat (map (\<lambda>x. case x of None \<Rightarrow> [] | Some p \<Rightarrow> [p]) [scip, manifest]))"

definition construct ::
  "path \<Rightarrow> path option \<Rightarrow> path option \<Rightarrow> path option \<Rightarrow> bool \<Rightarrow> bool \<Rightarrow> watch" where
  "construct root scip manifest executable native registered =
     \<lparr>w_root = root, w_captured_inputs = selected_inputs root scip manifest,
      w_watching = (native \<and> registered), w_queue = [], w_generation = 1, w_overflow = False,
      w_pending = \<lparr>db_generation = 1, db_full = True, db_paths = []\<rparr>,
      w_executable = executable, w_acknowledged = 0, w_first = None, w_last = None,
      w_urgent = True, w_degraded = (native \<and> \<not> registered)\<rparr>"

text \<open>The channel holds at most \<open>4 * MAX_DIRTY_PATHS\<close> signals; a full one sets the overflow mark.\<close>

text \<open>
  \<open>submit\<close> runs on the watcher's thread: it counts an accepted event first and then offers it to
  the channel, and the leader may run in between, so the two halves are operations of their own.
\<close>

definition submit_accepts :: "file_system \<Rightarrow> notified \<Rightarrow> watch \<Rightarrow> bool" where
  "submit_accepts fs e w =
     (case e of NotifyError \<Rightarrow> True
      | Notified ev \<Rightarrow> \<not> (read_only (ev_kind ev)
          \<or> certainly_excluded fs (w_root w) (w_captured_inputs w) (w_executable w) ev))"

definition count_event :: "watch \<Rightarrow> watch" where
  "count_event w = w\<lparr>w_generation := w_generation w + 1\<rparr>"

definition offer_event :: "nat \<Rightarrow> notified \<Rightarrow> watch \<Rightarrow> watch" where
  "offer_event now e w =
     (if length (w_queue w) < MAX_DIRTY_PATHS * 4
      then w\<lparr>w_queue := w_queue w @ [\<lparr>sig_event = e, sig_received_at = now\<rparr>]\<rparr>
      else w\<lparr>w_overflow := True\<rparr>)"

datatype ingress = CountEvent | OfferEvent nat notified

fun ingress_step :: "watch \<Rightarrow> ingress \<Rightarrow> watch" where
  "ingress_step w CountEvent = count_event w"
| "ingress_step w (OfferEvent now e) = offer_event now e w"

definition submit :: "file_system \<Rightarrow> nat \<Rightarrow> notified \<Rightarrow> watch \<Rightarrow> watch" where
  "submit fs now e w = (if submit_accepts fs e w then offer_event now e (count_event w) else w)"

definition accepted_unacked :: "watch \<Rightarrow> bool" where
  "accepted_unacked w =
     (let unacknowledged = (w_generation w \<noteq> w_acknowledged w)
      in if w_degraded w then unacknowledged
         else db_full (w_pending w) \<or> w_urgent w \<or> unacknowledged)"

definition watching :: "watch \<Rightarrow> bool" where
  "watching w \<longleftrightarrow> w_watching w \<and> \<not> w_degraded w"

definition mark_full :: "watch \<Rightarrow> watch" where
  "mark_full w = w\<lparr>w_pending := (w_pending w)\<lparr>db_full := True\<rparr>\<rparr>"

definition require_full :: "watch \<Rightarrow> watch" where
  "require_full w = (mark_full (w\<lparr>w_generation := w_generation w + 1\<rparr>))\<lparr>w_urgent := True\<rparr>"

definition fail :: "watch \<Rightarrow> watch" where
  "fail w = (mark_full w)\<lparr>w_degraded := True, w_urgent := True, w_watching := False\<rparr>"

definition source_path :: "path \<Rightarrow> bool" where
  "source_path p \<longleftrightarrow>
     (case path_extension p of None \<Rightarrow> False
      | Some e \<Rightarrow> e \<in> set [''js'', ''mjs'', ''cjs'', ''rs'', ''java'', ''py''])"

definition ROOT_INPUTS :: "string list" where
  "ROOT_INPUTS = [''package.json'', ''tsconfig.json'', ''jsconfig.json'', ''package-lock.json'',
     ''yarn.lock'', ''pnpm-lock.yaml'', ''bun.lock'', ''bun.lockb'', ''Cargo.toml'', ''Cargo.lock'',
     ''pom.xml'', ''build.gradle'', ''build.gradle.kts'', ''settings.gradle'', ''settings.gradle.kts'',
     ''gradle.properties'', ''pyproject.toml'', ''requirements.txt'', ''uv.lock'', ''poetry.lock'',
     ''Pipfile'', ''Pipfile.lock'', ''rust-toolchain'',
     ''rust-toolchain.toml'']"

fun safe_scan :: "file_system \<Rightarrow> path \<Rightarrow> path \<Rightarrow> bool" where
  "safe_scan fs current [] = False"
| "safe_scan fs current (part # rest) =
     (let current' = current @ [part] in
      case fs_symlink_metadata fs current' of
        None \<Rightarrow> False
      | Some t \<Rightarrow> if rest = [] then t = FileType
                  else if t \<noteq> DirType then False else safe_scan fs current' rest)"

definition safe_regular :: "file_system \<Rightarrow> path \<Rightarrow> path \<Rightarrow> bool" where
  "safe_regular fs root relative = safe_scan fs root relative"

definition relevant_input :: "path \<Rightarrow> bool" where
  "relevant_input p \<longleftrightarrow>
     (case file_name p of None \<Rightarrow> False | Some n \<Rightarrow> n \<in> set [''.gitignore'', ''.ignore''])
     \<or> (length p = 1 \<and> list_ex (\<lambda>name. p = [Normal name]) ROOT_INPUTS)"

definition normal_component :: "component \<Rightarrow> bool" where
  "normal_component c = (case c of Normal _ \<Rightarrow> True | _ \<Rightarrow> False)"

definition insert_path :: "path \<Rightarrow> dirty_batch \<Rightarrow> dirty_batch" where
  "insert_path p b = (if p \<in> set (db_paths b) then b else b\<lparr>db_paths := db_paths b @ [p]\<rparr>)"

definition record_path :: "file_system \<Rightarrow> watch \<Rightarrow> path \<Rightarrow> watch" where
  "record_path fs w p =
     (let absolute_path = path_join (w_root w) p;
          w1 = (if absolute_path \<in> set (w_captured_inputs w) then mark_full w else w)
      in case strip_prefix (w_root w) absolute_path of
           None \<Rightarrow> mark_full w1
         | Some relative \<Rightarrow>
             if \<not> list_all normal_component relative then mark_full w1
             else
               let w2 = (if relevant_input relative \<or> \<not> source_path relative
                            \<or> \<not> safe_regular fs (w_root w) relative
                         then mark_full w1 else w1);
                   w3 = w2\<lparr>w_pending := insert_path relative (w_pending w2)\<rparr>
               in if length (db_paths (w_pending w3)) > MAX_DIRTY_PATHS
                  then w3\<lparr>w_pending := (w_pending w3)\<lparr>db_full := True, db_paths := []\<rparr>, w_urgent := True\<rparr>
                  else w3)"

definition record_event :: "file_system \<Rightarrow> fs_event \<Rightarrow> nat \<Rightarrow> watch \<Rightarrow> watch" where
  "record_event fs ev received_at w =
     (let w0 = w\<lparr>w_first := (case w_first w of None \<Rightarrow> Some received_at | Some t \<Rightarrow> Some t),
                 w_last := Some received_at\<rparr>;
          w1 = (if ev_paths ev = [] \<or> ev_kind ev = EvAny \<or> ev_kind ev = EvOther
                then (mark_full w0)\<lparr>w_urgent := True\<rparr> else w0);
          w2 = (if ev_kind ev = EvModify ModifyName \<and> length (ev_paths ev) \<noteq> 2 then mark_full w1 else w1);
          w3 = (if (case ev_kind ev of EvCreate \<Rightarrow> True | EvRemove \<Rightarrow> True | EvAccess _ \<Rightarrow> True
                    | EvModify (ModifyMetadata _) \<Rightarrow> True | _ \<Rightarrow> False)
                then mark_full w2 else w2)
      in foldl (record_path fs) w3 (ev_paths ev))"

definition observe_event :: "file_system \<Rightarrow> nat \<Rightarrow> fs_event \<Rightarrow> watch \<Rightarrow> watch" where
  "observe_event fs now ev w =
     (if read_only (ev_kind ev)
         \<or> certainly_excluded fs (w_root w) (w_captured_inputs w) (w_executable w) ev
      then w
      else record_event fs ev now (w\<lparr>w_generation := w_generation w + 1\<rparr>))"

definition take_signal :: "file_system \<Rightarrow> watch \<Rightarrow> signal \<Rightarrow> watch" where
  "take_signal fs w s =
     (case sig_event s of
        Notified ev \<Rightarrow> record_event fs ev (sig_received_at s) w
      | NotifyError \<Rightarrow> fail w)"

text \<open>
  The receiver never sees a disconnected channel: the state itself holds a sender. The state
  after the drain holds the batch it returns; \<open>racing\<close> is what other threads deliver between the
  last receive and the reading of the counter.
\<close>

definition drain_batch :: "file_system \<Rightarrow> ingress list \<Rightarrow> watch \<Rightarrow> watch" where
  "drain_batch fs racing w =
     (let taken = take MAX_DIRTY_PATHS (w_queue w);
          w1 = foldl (take_signal fs) (w\<lparr>w_queue := drop MAX_DIRTY_PATHS (w_queue w)\<rparr>) taken;
          w1' = foldl ingress_step w1 racing;
          w2 = (if w_overflow w1' then (mark_full w1')\<lparr>w_urgent := True\<rparr> else w1')\<lparr>w_overflow := False\<rparr>;
          w3 = w2\<lparr>w_pending := (w_pending w2)\<lparr>db_generation := w_generation w2\<rparr>\<rparr>
      in if w_degraded w3 then (mark_full w3)\<lparr>w_urgent := True\<rparr> else w3)"

definition next_deadline :: "nat \<Rightarrow> watch \<Rightarrow> nat option" where
  "next_deadline now w =
     (if w_urgent w \<or> w_degraded w then Some now
      else case (w_first w, w_last w) of
             (Some f, Some l) \<Rightarrow> Some (min (l + QUIET) (f + MAX_WAIT))
           | _ \<Rightarrow> None)"

definition batch_ready_at :: "nat \<Rightarrow> nat \<Rightarrow> watch \<Rightarrow> bool" where
  "batch_ready_at clock now w \<longleftrightarrow>
     w_urgent w \<or> w_degraded w
     \<or> (case next_deadline clock w of None \<Rightarrow> False | Some deadline \<Rightarrow> deadline \<le> now)"

text \<open>
  What other threads deliver while \<open>acknowledge\<close> runs: during its drain, before its check, and
  between the clearing and its last look at the counter.
\<close>

definition acknowledge ::
  "file_system \<Rightarrow> ingress list \<Rightarrow> ingress list \<Rightarrow> ingress list \<Rightarrow> dirty_batch \<Rightarrow> watch \<Rightarrow> bool \<times> watch" where
  "acknowledge fs racing early late batch w =
     (let w1 = foldl ingress_step (drain_batch fs racing w) early in
      if db_generation (w_pending w1) \<noteq> db_generation batch
         \<or> (db_full (w_pending w1) \<and> \<not> db_full batch)
         \<or> w_generation w1 \<noteq> db_generation batch
      then (False, w1)
      else
        let w2 = w1\<lparr>w_pending := (w_pending w1)\<lparr>db_paths := [], db_full := w_degraded w1\<rparr>,
                    w_first := None, w_last := None, w_urgent := w_degraded w1\<rparr>;
            w3 = foldl ingress_step w2 late
        in if w_generation w3 \<noteq> db_generation batch
           then (False, (mark_full w3)\<lparr>w_urgent := True\<rparr>)
           else (True, w3\<lparr>w_acknowledged := db_generation batch\<rparr>))"

subsection \<open>What the walk of a capture admits\<close>

text \<open>
  The entry filter of the workspace walk (\<open>capture.rs\<close>), on the components below the root. The
  walk reaches a path only through its prefixes.
\<close>

definition walk_admits :: "string list \<Rightarrow> bool" where
  "walk_admits parts =
     (if parts = [] then True
      else if last parts \<in> set always_excluded then False
      else if last parts \<in> set output_names then java_output parts
      else True)"

definition walk_reaches :: "string list \<Rightarrow> bool" where
  "walk_reaches parts \<longleftrightarrow> list_all (\<lambda>i. walk_admits (take i parts)) [0..<Suc (length parts)]"

lemma walk_reaches_iff: "walk_reaches parts \<longleftrightarrow> (\<forall>i \<le> length parts. walk_admits (take i parts))"
  by (auto simp: walk_reaches_def list_all_iff less_Suc_eq_le simp del: upt_Suc)
lemma scan_rejects:
  assumes "excluded_scan fs cur parts excluded rest"
    and "excluded \<longrightarrow> (\<exists>i \<le> length parts. \<not> walk_admits (take i parts))"
  shows "\<exists>names. rest = map Normal names \<and> (\<exists>i \<le> length (parts @ names). \<not> walk_admits (take i (parts @ names)))"
  using assms
proof (induction fs cur parts excluded rest rule: excluded_scan.induct)
  case (2 fs cur parts excluded part rest)
  let ?parts' = "parts @ [part]"
  let ?ex = "excluded \<or> part \<in> set always_excluded \<or> (part \<in> set output_names \<and> \<not> java_output ?parts')"
  obtain t where t: "fs_symlink_metadata fs (cur @ [Normal part]) = Some t" "t \<noteq> SymlinkType"
    and s: "excluded_scan fs (cur @ [Normal part]) ?parts' ?ex rest"
    using 2(2) by (auto simp: Let_def split: option.splits if_splits)
  have ex: "\<exists>i \<le> length ?parts'. \<not> walk_admits (take i ?parts')" if ?ex
  proof (cases excluded)
    case True
    with 2(3) obtain i where i: "i \<le> length parts" "\<not> walk_admits (take i parts)" by auto
    then have "take i ?parts' = take i parts" by simp
    with i show ?thesis by (intro exI [of _ i]) simp
  next
    case False
    with that have "\<not> walk_admits (take (length ?parts') ?parts')" by (auto simp: walk_admits_def)
    then show ?thesis by blast
  qed
  from 2(1) [OF refl t(1) t(2) refl s] ex obtain names where
    "rest = map Normal names" "\<exists>i \<le> length (?parts' @ names). \<not> walk_admits (take i (?parts' @ names))"
    by blast
  then show ?case by (intro exI [of _ "part # names"]) simp
qed (auto simp: less_Suc_eq_le)

lemma excluded_unreachable:
  assumes "certainly_excluded fs root selected exe ev" "p \<in> set (ev_paths ev)"
  shows "\<exists>names. strip_prefix root (path_join root p) = Some (map Normal names) \<and> \<not> walk_reaches names"
proof -
  from assms obtain e ce where "path_excluded fs root selected e ce p"
    by (auto simp: certainly_excluded_def list_all_iff split: if_splits option.splits)
  then obtain rel where rel: "strip_prefix root (path_join root p) = Some rel"
    "excluded_scan fs root [] False rel"
    by (auto simp: path_excluded_def Let_def split: if_splits option.splits)
  from scan_rejects [OF rel(2)] obtain names where "rel = map Normal names"
    "\<exists>i \<le> length names. \<not> walk_admits (take i names)" by auto
  then have "\<not> walk_reaches names" unfolding walk_reaches_iff by blast
  with rel(1) \<open>rel = map Normal names\<close> show ?thesis by blast
qed

subsection \<open>Counting and coverage\<close>

lemma mark_full_fields [simp]:
  "w_generation (mark_full w) = w_generation w" "w_queue (mark_full w) = w_queue w"
  "db_paths (w_pending (mark_full w)) = db_paths (w_pending w)" "db_full (w_pending (mark_full w))"
  "w_degraded (mark_full w) = w_degraded w" "w_root (mark_full w) = w_root w"
  "w_overflow (mark_full w) = w_overflow w" "w_acknowledged (mark_full w) = w_acknowledged w"
  "w_captured_inputs (mark_full w) = w_captured_inputs w" "w_executable (mark_full w) = w_executable w"
  by (simp_all add: mark_full_def)

text \<open>What recording leaves alone, and that it only ever adds to the batch.\<close>

definition extends :: "watch \<Rightarrow> watch \<Rightarrow> bool" where
  "extends w w' \<longleftrightarrow> w_generation w' = w_generation w \<and> w_queue w' = w_queue w \<and> w_root w' = w_root w
     \<and> w_acknowledged w' = w_acknowledged w \<and> w_overflow w' = w_overflow w
     \<and> w_captured_inputs w' = w_captured_inputs w \<and> w_executable w' = w_executable w
     \<and> (db_full (w_pending w) \<longrightarrow> db_full (w_pending w'))
     \<and> (\<not> db_full (w_pending w') \<longrightarrow> set (db_paths (w_pending w)) \<subseteq> set (db_paths (w_pending w')))
     \<and> (length (db_paths (w_pending w)) \<le> MAX_DIRTY_PATHS \<longrightarrow>
          length (db_paths (w_pending w')) \<le> MAX_DIRTY_PATHS)"

lemma extends_refl [simp]: "extends w w"
  by (simp add: extends_def)

lemma extends_trans [trans]: "extends u v \<Longrightarrow> extends v w \<Longrightarrow> extends u w"
  by (auto simp: extends_def)

lemma insert_path_fields [simp]:
  "set (db_paths (insert_path p b)) = insert p (set (db_paths b))" "db_full (insert_path p b) = db_full b"
  by (auto simp: insert_path_def)

lemma record_path_extends: "extends w (record_path fs w p)"
  by (auto simp: record_path_def extends_def Let_def split: option.split)

lemma record_paths_extend: "extends w (foldl (record_path fs) w ps)"
  by (induction ps arbitrary: w) (auto intro: extends_trans record_path_extends)

lemma record_event_extends: "extends w (record_event fs ev t w)"
proof -
  define w3 where "w3 = (let w0 = w\<lparr>w_first := (case w_first w of None \<Rightarrow> Some t | Some t \<Rightarrow> Some t),
                 w_last := Some t\<rparr>;
          w1 = (if ev_paths ev = [] \<or> ev_kind ev = EvAny \<or> ev_kind ev = EvOther
                then (mark_full w0)\<lparr>w_urgent := True\<rparr> else w0);
          w2 = (if ev_kind ev = EvModify ModifyName \<and> length (ev_paths ev) \<noteq> 2 then mark_full w1 else w1)
      in if (case ev_kind ev of EvCreate \<Rightarrow> True | EvRemove \<Rightarrow> True | EvAccess _ \<Rightarrow> True
                    | EvModify (ModifyMetadata _) \<Rightarrow> True | _ \<Rightarrow> False)
                then mark_full w2 else w2)"
  have "extends w w3" by (simp add: w3_def Let_def extends_def mark_full_def)
  moreover have "record_event fs ev t w = foldl (record_path fs) w3 (ev_paths ev)"
    unfolding record_event_def w3_def Let_def by simp
  ultimately show ?thesis using record_paths_extend extends_trans by metis
qed

lemma fail_extends: "extends w (fail w)"
  by (simp add: fail_def extends_def)

lemma take_signal_extends: "extends w (take_signal fs w s)"
  by (simp add: take_signal_def record_event_extends fail_extends split: notified.split)

lemma take_signals_extend: "extends w (foldl (take_signal fs) w ss)"
  by (induction ss arbitrary: w) (auto intro: extends_trans take_signal_extends)

text \<open>A path is accounted for by a full batch or by its own entry.\<close>

definition covers :: "watch \<Rightarrow> path \<Rightarrow> bool" where
  "covers w p \<longleftrightarrow> db_full (w_pending w)
     \<or> (\<exists>rel. strip_prefix (w_root w) (path_join (w_root w) p) = Some rel \<and> rel \<in> set (db_paths (w_pending w)))"

lemma covers_extends: "extends w w' \<Longrightarrow> covers w p \<Longrightarrow> covers w' p"
  by (auto simp: covers_def extends_def)

lemma record_path_covers: "covers (record_path fs w p) p"
  by (auto simp: record_path_def covers_def Let_def mark_full_def split: option.split)

lemma record_paths_cover: "p \<in> set ps \<Longrightarrow> covers (foldl (record_path fs) w ps) p"
proof (induction ps arbitrary: w)
  case (Cons q ps)
  then show ?case
    using covers_extends [OF record_paths_extend record_path_covers] by (cases "p = q") auto
qed simp

definition signal_covered :: "watch \<Rightarrow> signal \<Rightarrow> bool" where
  "signal_covered w s =
     (case sig_event s of
        NotifyError \<Rightarrow> db_full (w_pending w)
      | Notified ev \<Rightarrow> list_all (covers w) (ev_paths ev) \<and> (ev_paths ev = [] \<longrightarrow> db_full (w_pending w)))"

lemma signal_covered_extends: "extends w w' \<Longrightarrow> signal_covered w s \<Longrightarrow> signal_covered w' s"
  using covers_extends by (auto simp: signal_covered_def list_all_iff extends_def split: notified.splits)

lemma take_signal_covers: "signal_covered (take_signal fs w s) s"
proof (cases "sig_event s")
  case (Notified ev)
  have "db_full (w_pending (record_event fs ev t w))" if "ev_paths ev = []" for t
    using that by (simp add: record_event_def Let_def mark_full_def)
  moreover have "covers (record_event fs ev t w) p" if "p \<in> set (ev_paths ev)" for t p
    using that by (simp add: record_event_def Let_def record_paths_cover)
  ultimately show ?thesis
    by (simp add: Notified signal_covered_def take_signal_def list_all_iff)
qed (simp add: signal_covered_def take_signal_def fail_def)

lemma take_signals_cover: "s \<in> set ss \<Longrightarrow> signal_covered (foldl (take_signal fs) w ss) s"
proof (induction ss arbitrary: w)
  case (Cons u ss)
  then show ?case
    using signal_covered_extends [OF take_signals_extend take_signal_covers] by (cases "s = u") auto
qed simp

definition counts :: "ingress list \<Rightarrow> nat" where
  "counts is = length (filter (\<lambda>i. i = CountEvent) is)"

lemma ingress_fields:
  "w_generation (foldl ingress_step w is) = w_generation w + of_nat (counts is)"
  "w_pending (foldl ingress_step w is) = w_pending w"
  "w_root (foldl ingress_step w is) = w_root w"
  "w_degraded (foldl ingress_step w is) = w_degraded w"
  "w_overflow w \<Longrightarrow> w_overflow (foldl ingress_step w is)"
  "length (w_queue w) \<le> 1024 \<Longrightarrow> length (w_queue (foldl ingress_step w is)) \<le> 1024"
proof (induction "is" arbitrary: w)
  case (Cons i "is")
  {
    case 1
    show ?case using Cons.IH(1)
      by (cases i) (simp_all add: counts_def count_event_def offer_event_def)
  next
    case 2
    show ?case using Cons.IH(2) by (cases i) (simp_all add: count_event_def offer_event_def)
  next
    case 3
    show ?case using Cons.IH(3) by (cases i) (simp_all add: count_event_def offer_event_def)
  next
    case 4
    show ?case using Cons.IH(4) by (cases i) (simp_all add: count_event_def offer_event_def)
  next
    case 5
    then show ?case using Cons.IH(5) by (cases i) (simp_all add: count_event_def offer_event_def)
  next
    case 6
    then show ?case using Cons.IH(6)
      by (cases i) (simp_all add: count_event_def offer_event_def MAX_DIRTY_PATHS_def)
  }
qed (simp_all add: counts_def)

lemma ingress_urgent: "w_urgent (foldl ingress_step w is) = w_urgent w"
proof (induction "is" arbitrary: w)
  case (Cons i "is")
  then show ?case by (cases i) (simp_all add: count_event_def offer_event_def)
qed simp

lemma drain_facts:
  shows "w_generation (drain_batch fs racing w) = w_generation w + of_nat (counts racing)"
    and "db_generation (w_pending (drain_batch fs racing w)) = w_generation (drain_batch fs racing w)"
    and "s \<in> set (take MAX_DIRTY_PATHS (w_queue w)) \<Longrightarrow> signal_covered (drain_batch fs racing w) s"
    and "w_overflow w \<Longrightarrow> db_full (w_pending (drain_batch fs racing w))"
    and "covers w p \<Longrightarrow> covers (drain_batch fs racing w) p"
    and "length (db_paths (w_pending w)) \<le> MAX_DIRTY_PATHS \<Longrightarrow>
           length (db_paths (w_pending (drain_batch fs racing w))) \<le> MAX_DIRTY_PATHS"
    and "length (w_queue w) \<le> 1024 \<Longrightarrow> length (w_queue (drain_batch fs racing w)) \<le> 1024"
proof -
  define w0 where "w0 = w\<lparr>w_queue := drop MAX_DIRTY_PATHS (w_queue w)\<rparr>"
  define w1 where "w1 = foldl (take_signal fs) w0 (take MAX_DIRTY_PATHS (w_queue w))"
  define w1' where "w1' = foldl ingress_step w1 racing"
  define w2 where "w2 = (if w_overflow w1' then (mark_full w1')\<lparr>w_urgent := True\<rparr> else w1')\<lparr>w_overflow := False\<rparr>"
  define w3 where "w3 = w2\<lparr>w_pending := (w_pending w2)\<lparr>db_generation := w_generation w2\<rparr>\<rparr>"
  have dr: "drain_batch fs racing w = (if w_degraded w3 then (mark_full w3)\<lparr>w_urgent := True\<rparr> else w3)"
    by (simp add: drain_batch_def w0_def w1_def w1'_def w2_def w3_def Let_def)
  have x1: "extends w0 w1" by (simp add: w1_def take_signals_extend)
  have gen3: "w_generation w3 = w_generation w + of_nat (counts racing)"
    using x1 ingress_fields(1) [of w1 racing] by (simp add: w3_def w2_def w1'_def extends_def w0_def)
  have keep: "db_full (w_pending w1) \<longrightarrow> db_full (w_pending (drain_batch fs racing w))"
    "db_paths (w_pending (drain_batch fs racing w)) = db_paths (w_pending w1)"
    "w_root (drain_batch fs racing w) = w_root w1"
    using ingress_fields(2,3) [of w1 racing] by (simp_all add: dr w3_def w2_def w1'_def)
  show "w_generation (drain_batch fs racing w) = w_generation w + of_nat (counts racing)"
    using gen3 by (simp add: dr)
  show "db_generation (w_pending (drain_batch fs racing w)) = w_generation (drain_batch fs racing w)"
    by (simp add: dr w3_def mark_full_def)
  show "signal_covered (drain_batch fs racing w) s" if "s \<in> set (take MAX_DIRTY_PATHS (w_queue w))"
    using take_signals_cover [OF that, of fs w0] keep
    by (auto simp: signal_covered_def covers_def list_all_iff w1_def split: notified.splits)
  show "db_full (w_pending (drain_batch fs racing w))" if "w_overflow w"
  proof -
    have "w_overflow w1'" using that x1 ingress_fields(5) [of w1 racing]
      by (simp add: w1'_def extends_def w0_def)
    then show ?thesis by (simp add: dr w3_def w2_def)
  qed
  show "covers (drain_batch fs racing w) p" if "covers w p"
  proof -
    have "covers w0 p" using that by (simp add: covers_def w0_def)
    then have "covers w1 p" using covers_extends [OF x1] by blast
    then show ?thesis using keep by (auto simp: covers_def)
  qed
  show "length (db_paths (w_pending (drain_batch fs racing w))) \<le> MAX_DIRTY_PATHS"
    if "length (db_paths (w_pending w)) \<le> MAX_DIRTY_PATHS"
    using that x1 keep(2) by (simp add: extends_def w0_def)
  show "length (w_queue (drain_batch fs racing w)) \<le> 1024" if "length (w_queue w) \<le> 1024"
    using that x1 ingress_fields(6) [of w1 racing]
    by (simp add: dr w3_def w2_def w1'_def extends_def w0_def)
qed

subsection \<open>Runs\<close>

datatype watch_op =
    Ingress ingress
  | Observe nat fs_event
  | RequireFull
  | Drain "ingress list"
  | Acknowledge "ingress list" "ingress list" "ingress list" dirty_batch

definition watch_step :: "file_system \<Rightarrow> watch \<Rightarrow> watch_op \<Rightarrow> watch" where
  "watch_step fs w op =
     (case op of
        Ingress i \<Rightarrow> ingress_step w i
      | Observe now ev \<Rightarrow> observe_event fs now ev w
      | RequireFull \<Rightarrow> require_full w
      | Drain racing \<Rightarrow> drain_batch fs racing w
      | Acknowledge racing early late batch \<Rightarrow> snd (acknowledge fs racing early late batch w))"

text \<open>How many events an operation counts; what comes late counts only if the check was passed.\<close>

definition counted :: "file_system \<Rightarrow> watch \<Rightarrow> watch_op \<Rightarrow> nat" where
  "counted fs w op =
     (case op of
        Ingress i \<Rightarrow> counts [i]
      | Observe now ev \<Rightarrow>
          (if read_only (ev_kind ev)
              \<or> certainly_excluded fs (w_root w) (w_captured_inputs w) (w_executable w) ev then 0 else 1)
      | RequireFull \<Rightarrow> 1
      | Drain racing \<Rightarrow> counts racing
      | Acknowledge racing early late batch \<Rightarrow>
          counts racing + counts early
          + (let w1 = foldl ingress_step (drain_batch fs racing w) early in
             if db_generation (w_pending w1) \<noteq> db_generation batch
                \<or> (db_full (w_pending w1) \<and> \<not> db_full batch)
                \<or> w_generation w1 \<noteq> db_generation batch then 0 else counts late))"

fun total_counted :: "file_system \<Rightarrow> watch \<Rightarrow> watch_op list \<Rightarrow> nat" where
  "total_counted fs w [] = 0"
| "total_counted fs w (op # ops) = counted fs w op + total_counted fs (watch_step fs w op) ops"

lemma step_generation: "w_generation (watch_step fs w op) = w_generation w + of_nat (counted fs w op)"
proof (cases op)
  case (Observe now ev)
  then show ?thesis
    using record_event_extends [of "w\<lparr>w_generation := w_generation w + 1\<rparr>" fs ev now]
    by (simp add: watch_step_def counted_def observe_event_def extends_def)
next
  case (Acknowledge racing early late batch)
  then show ?thesis
    by (auto simp: watch_step_def counted_def acknowledge_def Let_def ingress_fields drain_facts(1)
        add.assoc)
next
  case (Ingress i)
  then show ?thesis using ingress_fields(1) [of w "[i]"] by (simp add: watch_step_def counted_def)
qed (simp_all add: watch_step_def counted_def require_full_def drain_facts(1))

lemma run_generation:
  "w_generation (foldl (watch_step fs) w ops) = w_generation w + of_nat (total_counted fs w ops)"
  by (induction ops arbitrary: w) (simp_all add: step_generation)

lemma acknowledge_counts:
  assumes "acknowledge fs racing early late batch w = (True, w')"
  shows "db_generation batch = w_generation w + of_nat (counts racing + counts early + counts late)"
    and "w_acknowledged w' = w_generation w'" "w_generation w' = db_generation batch"
    and "\<not> db_full batch \<Longrightarrow> \<not> w_degraded w' \<Longrightarrow> \<not> accepted_unacked w'"
  using assms
  by (auto simp: acknowledge_def Let_def ingress_fields drain_facts(1) accepted_unacked_def
      ingress_urgent add.assoc split: if_splits)

text \<open>A number of events below the range of the counter does not vanish in it.\<close>

lemma no_count_wraps:
  assumes "(of_nat n :: u64) = 0" and "n < 2 ^ 64"
  shows "n = 0"
proof -
  from assms(1) have "unat (of_nat n :: u64) = 0" by (simp only: unat_0)
  then have "n mod 2 ^ 64 = 0" by (simp only: unat_of_nat) simp
  with assms(2) show ?thesis by (simp only: mod_less)
qed

definition watch_bounded :: "watch \<Rightarrow> bool" where
  "watch_bounded w \<longleftrightarrow> length (db_paths (w_pending w)) \<le> 256 \<and> length (w_queue w) \<le> 1024"

lemma extends_bounded: "extends w w' \<Longrightarrow> watch_bounded w \<Longrightarrow> watch_bounded w'"
  by (auto simp: extends_def watch_bounded_def MAX_DIRTY_PATHS_def)

lemma step_bounded: "watch_bounded w \<Longrightarrow> watch_bounded (watch_step fs w op)"
proof (cases op)
  case (Ingress i)
  assume "watch_bounded w"
  with Ingress show ?thesis using ingress_fields(2,6) [of w "[i]"]
    by (simp add: watch_step_def watch_bounded_def)
next
  case (Observe now ev)
  assume w: "watch_bounded w"
  then have "watch_bounded (w\<lparr>w_generation := w_generation w + 1\<rparr>)" by (simp add: watch_bounded_def)
  with Observe w show ?thesis using extends_bounded [OF record_event_extends]
    by (simp add: watch_step_def observe_event_def)
next
  case (Acknowledge racing early late batch)
  assume w: "watch_bounded w"
  then have d: "length (db_paths (w_pending (drain_batch fs racing w))) \<le> 256"
    "length (w_queue (drain_batch fs racing w)) \<le> 1024"
    using drain_facts(6,7) [of w fs racing] by (auto simp: watch_bounded_def MAX_DIRTY_PATHS_def)
  then show ?thesis
    using Acknowledge by (auto simp: watch_step_def acknowledge_def Let_def watch_bounded_def
        ingress_fields)
qed (auto simp: watch_step_def watch_bounded_def require_full_def drain_facts(6,7) MAX_DIRTY_PATHS_def
    intro: drain_facts(6) [unfolded MAX_DIRTY_PATHS_def])

interpretation watch_bounds: stepping "watch_step fs" watch_bounded for fs
  by unfold_locales (rule step_bounded)

lemma construct_bounded: "watch_bounded (construct root scip manifest exe native registered)"
  by (simp add: construct_def watch_bounded_def)

subsection \<open>Properties\<close>

text \<open>an acknowledgment that succeeds clears nothing it has not seen: between the drain that made
  the batch and the end of the acknowledgment no event was counted on any thread, whatever the
  leader and the watcher did in between (up to the wrap of the 64-bit counter).\<close>

theorem acknowledge_sees_all:
  assumes "w0 = drain_batch fs r0 w" "batch = w_pending w0"
    and "acknowledge fs racing early late batch (foldl (watch_step fs) w0 ops) = (True, w')"
    and "total_counted fs w0 ops + counts racing + counts early + counts late < 2 ^ 64"
  shows "total_counted fs w0 ops = 0 \<and> counts racing = 0 \<and> counts early = 0 \<and> counts late = 0
     \<and> w_acknowledged w' = w_generation w'"
proof -
  let ?n = "total_counted fs w0 ops + counts racing + counts early + counts late"
  have "w_generation w0 = db_generation batch" using assms(1,2) drain_facts(2) by simp
  then have "w_generation w0 = w_generation w0 + of_nat ?n"
    using acknowledge_counts(1) [OF assms(3)] run_generation [of fs w0 ops] by (simp add: add.assoc)
  then have "(of_nat ?n :: u64) = 0" by (metis add_cancel_left_right)
  with no_count_wraps assms(4) have "?n = 0" by blast
  with acknowledge_counts(2) [OF assms(3)] show ?thesis by simp
qed

definition sample_fs :: file_system where
  "sample_fs = \<lparr>fs_canonicalize = Some, fs_symlink_metadata = (\<lambda>_. Some FileType)\<rparr>"

definition sample_watch :: watch where
  "sample_watch = construct [RootDir, Normal ''w''] None None None True True"

theorem acknowledge_sees_all_witness:
  "\<exists>w'. acknowledge sample_fs [] [] [] (w_pending (drain_batch sample_fs [] sample_watch))
       (drain_batch sample_fs [] sample_watch) = (True, w') \<and> w_acknowledged w' = w_generation w'"
proof -
  obtain w' where w': "acknowledge sample_fs [] [] [] (w_pending (drain_batch sample_fs [] sample_watch))
       (foldl (watch_step sample_fs) (drain_batch sample_fs [] sample_watch) []) = (True, w')"
    by (simp add: acknowledge_def drain_batch_def sample_watch_def construct_def mark_full_def Let_def)
  from acknowledge_sees_all [OF refl refl w'] w' show ?thesis by (auto simp: counts_def)
qed

text \<open>a drained batch accounts for every signal it took: it is a full inventory, or it has the
  path of every event; a lost signal (overflow) or a watcher error makes it full, and nothing that was
  accounted for before is dropped.\<close>

theorem drain_accounts:
  "(\<forall>s \<in> set (take 256 (w_queue w)). signal_covered (drain_batch fs racing w) s)
   \<and> (w_overflow w \<longrightarrow> db_full (w_pending (drain_batch fs racing w)))
   \<and> (\<forall>p. covers w p \<longrightarrow> covers (drain_batch fs racing w) p)"
  using drain_facts(3) [unfolded MAX_DIRTY_PATHS_def] drain_facts(4) drain_facts(5) by blast

theorem drain_accounts_witness:
  "signal_covered (drain_batch sample_fs [] (sample_watch\<lparr>w_queue := [\<lparr>sig_event = NotifyError, sig_received_at = 5\<rparr>]\<rparr>))
     \<lparr>sig_event = NotifyError, sig_received_at = 5\<rparr>"
  using drain_accounts [of "sample_watch\<lparr>w_queue := [\<lparr>sig_event = NotifyError, sig_received_at = 5\<rparr>]\<rparr>"
      sample_fs "[]"] by simp

text \<open>in every run the dirty batch has at most 256 paths and the channel at most 1024 signals.\<close>

theorem watch_stays_bounded:
  "watch_bounded (foldl (watch_step fs) (construct root scip manifest exe native registered) ops)"
  by (rule watch_bounds.run_keeps) (rule construct_bounded)

text \<open>an event is discarded only if a capture could not see it: every path of a certainly excluded
  event lies below the root, by plain components, at a place the workspace walk never reaches.\<close>

theorem excluded_not_walked:
  assumes "certainly_excluded fs root selected exe ev"
  shows "ev_paths ev \<noteq> [] \<and> (\<forall>p \<in> set (ev_paths ev). \<exists>names.
     strip_prefix root (path_join root p) = Some (map Normal names) \<and> \<not> walk_reaches names)"
  using assms excluded_unreachable [OF assms]
  by (auto simp: certainly_excluded_def split: if_splits)

theorem excluded_not_walked_witness:
  "\<exists>names. strip_prefix [RootDir] [RootDir, Normal ''target'', Normal ''a.o''] = Some (map Normal names)
     \<and> \<not> walk_reaches names"
proof -
  have "certainly_excluded sample_fs [RootDir] [] (Some [RootDir, Normal ''bin''])
      \<lparr>ev_kind = EvCreate, ev_paths = [[RootDir, Normal ''target'', Normal ''a.o'']]\<rparr>"
    by (simp add: certainly_excluded_def sample_fs_def path_excluded_def path_join_def absolute_def
        strip_prefix_def output_names_def always_excluded_def)
  from excluded_not_walked [OF this] show ?thesis by (simp add: path_join_def absolute_def)
qed

end
