(* ===== verification/Requests.thy ===== *)
theory Requests
  imports Model
begin

section \<open>The durable request queue (\<open>store/requests.rs\<close>)\<close>

text \<open>
  \<open>requests.db\<close> is the list of the rows of its table in the order of \<open>seq\<close>, with the last
  \<open>AUTOINCREMENT\<close> value; each SQL statement is its effect on that list. An operation is a function
  from the queue to its answer and the queue it leaves. What it observes (the clock, a new
  identifier, the leader and root checks, opening the connection, the outcome of \<open>COMMIT\<close>) comes in a
  record of answers; a \<open>COMMIT\<close> may succeed, fail, or fail after the rows became durable. Between
  the transactions of one operation the queue may have been changed by other processes.
  The file, lock and schema checks of opening a connection are one answer.
\<close>

subsection \<open>Errors and their causes\<close>

datatype cause = StorageBusy | SqliteContention | SqliteFailed bool | InventoryDrift | CutoffSignal | OtherCause

text \<open>The display of an \<open>anyhow::Error\<close> and its chain; \<open>SqliteFailed b\<close> says whether the code is busy or locked.\<close>

record fault =
  fault_text :: string
  fault_chain :: "cause list"

type_synonym 'a fallible = "fault + 'a"

definition plain :: "string \<Rightarrow> fault" where
  "plain msg = \<lparr>fault_text = msg, fault_chain = [OtherCause]\<rparr>"

definition transient_storage_contention :: "fault \<Rightarrow> bool" where
  "transient_storage_contention e \<longleftrightarrow>
     list_ex (\<lambda>c. c = StorageBusy \<or> c = SqliteContention \<or> c = SqliteFailed True) (fault_chain e) \<or>
     fault_text e = ''storage_busy: SQLite lock contention'' \<or>
     fault_text e = ''storage_busy: index journal sidecar present'' \<or>
     fault_text e = ''storage_busy: requests.db initialization in progress''"

definition nonterminal_storage_busy :: "fault \<Rightarrow> bool" where
  "nonterminal_storage_busy e \<longleftrightarrow>
     transient_storage_contention e \<or> starts_with ''storage_busy'' (fault_text e)"

subsection \<open>Rows and requests\<close>

text \<open>A row of the table, its columns as SQLite stores them.\<close>

record queue_row =
  seq :: int
  row_id :: string
  root_device :: string
  root_inode :: string
  options_json :: string
  expected_generation :: "string option"
  expected_revision :: "int option"
  state :: string
  claim_incarnation :: "string option"
  result_generation :: "string option"
  result_revision :: "int option"
  error_code :: "string option"
  submitted_at :: string
  started_at :: "string option"
  finished_at :: "string option"

record queue =
  rows :: "queue_row list"
  last_seq :: int

definition empty_queue :: queue where
  "empty_queue = \<lparr>rows = [], last_seq = 0\<rparr>"

text \<open>The table's \<open>CHECK\<close> constraints.\<close>

definition row_check :: "queue_row \<Rightarrow> bool" where
  "row_check r \<longleftrightarrow>
     (expected_generation r = None \<longleftrightarrow> expected_revision r = None) \<and>
     (result_generation r = None \<longleftrightarrow> result_revision r = None) \<and>
     ((state r = ''queued'' \<and> claim_incarnation r = None \<and> started_at r = None \<and> finished_at r = None
         \<and> result_generation r = None \<and> error_code r = None)
    \<or> (state r = ''running'' \<and> claim_incarnation r \<noteq> None \<and> started_at r \<noteq> None \<and> finished_at r = None
         \<and> result_generation r = None \<and> error_code r = None)
    \<or> (state r = ''done'' \<and> claim_incarnation r \<noteq> None \<and> started_at r \<noteq> None \<and> finished_at r \<noteq> None
         \<and> result_generation r \<noteq> None \<and> error_code r = None)
    \<or> (state r = ''failed'' \<and> claim_incarnation r \<noteq> None \<and> started_at r \<noteq> None \<and> finished_at r \<noteq> None
         \<and> result_generation r = None \<and> error_code r \<noteq> None))"

definition unfinished :: "queue_row \<Rightarrow> bool" where
  "unfinished r \<longleftrightarrow> state r = ''queued'' \<or> state r = ''running''"

record queue_request =
  rq_seq :: int
  rq_id :: string
  rq_state :: string
  rq_device :: string
  rq_inode :: string
  rq_options :: string
  rq_expected :: "index_pin option"
  rq_claim :: "string option"
  rq_revision :: "index_pin option"
  rq_error :: "string option"
  rq_submitted :: string
  rq_started :: "string option"
  rq_finished :: "string option"

text \<open>The UUID library: reading a text and the canonical text of an identifier.\<close>

record uuid_lib =
  parse_str :: "string \<Rightarrow> uuid option"
  uuid_text :: "uuid \<Rightarrow> string"

definition invalid_query :: fault where
  "invalid_query = plain ''Query is not read-only''"

fun read_pin :: "uuid_lib \<Rightarrow> string option \<Rightarrow> int option \<Rightarrow> index_pin option fallible" where
  "read_pin u None None = Inr None"
| "read_pin u (Some g) (Some r) =
     (if 0 \<le> r then
        bind_result (ok_or (parse_str u g) invalid_query) (\<lambda>gen.
          Inr (Some \<lparr>ip_generation = gen, ip_revision = nat r\<rparr>))
      else Inl invalid_query)"
| "read_pin u _ _ = Inl invalid_query"

definition read_row :: "uuid_lib \<Rightarrow> queue_row \<Rightarrow> queue_request fallible" where
  "read_row u r =
     bind_result (read_pin u (expected_generation r) (expected_revision r)) (\<lambda>expected.
     bind_result (read_pin u (result_generation r) (result_revision r)) (\<lambda>revision.
       if parse_str u (row_id r) = None \<or>
          state r \<notin> {''queued'', ''running'', ''done'', ''failed''} \<or>
          length (options_json r) > 4096 \<or> seq r < 1
       then Inl invalid_query
       else Inr \<lparr>rq_seq = seq r, rq_id = row_id r, rq_state = state r,
         rq_device = root_device r, rq_inode = root_inode r, rq_options = options_json r,
         rq_expected = expected, rq_claim = claim_incarnation r, rq_revision = revision,
         rq_error = error_code r, rq_submitted = submitted_at r,
         rq_started = started_at r, rq_finished = finished_at r\<rparr>))"

text \<open>\<open>query_row(..., read).optional()\<close>.\<close>

definition read_optional :: "uuid_lib \<Rightarrow> queue_row option \<Rightarrow> queue_request option fallible" where
  "read_optional u r = (case r of None \<Rightarrow> Inr None
     | Some row \<Rightarrow> bind_result (read_row u row) (\<lambda>q. Inr (Some q)))"

subsection \<open>Completion outcomes\<close>

datatype completion_outcome = Done index_pin | Failed string

definition from_result :: "index_pin fallible \<Rightarrow> completion_outcome fallible" where
  "from_result r = (case r of
       Inr pin \<Rightarrow> Inr (Done pin)
     | Inl e \<Rightarrow> if nonterminal_storage_busy e then Inl e
               else if starts_with ''revision conflict'' (fault_text e) then Inr (Failed ''revision_conflict'')
               else Inr (Failed ''index_failed''))"

fun matches_terminal :: "completion_outcome \<Rightarrow> queue_request \<Rightarrow> bool" where
  "matches_terminal (Done pin) r \<longleftrightarrow>
     rq_state r = ''done'' \<and> rq_revision r = Some pin \<and> rq_error r = None"
| "matches_terminal (Failed code) r \<longleftrightarrow>
     rq_state r = ''failed'' \<and> rq_error r = Some code \<and> rq_revision r = None"

record pending_completion =
  pend_request :: queue_request
  pend_outcome :: completion_outcome
  pend_incarnation :: string

subsection \<open>Options\<close>

record index_options =
  given_scip :: "string option"
  given_manifest :: "string option"
  given_max :: nat

record reconcile_options =
  opt_version :: nat
  max_file_bytes :: nat
  scip_path :: "string option"
  manifest_path :: "string option"

definition reconcile_options_from :: "index_options \<Rightarrow> reconcile_options" where
  "reconcile_options_from opts = \<lparr>opt_version = 1, max_file_bytes = min (given_max opts) 268435456,
     scip_path = given_scip opts, manifest_path = given_manifest opts\<rparr>"

definition options_valid :: "reconcile_options \<Rightarrow> bool" where
  "options_valid v \<longleftrightarrow> opt_version v = 1 \<and> 1 \<le> max_file_bytes v \<and> max_file_bytes v \<le> 16777216"

definition is_absolute :: "string \<Rightarrow> bool" where
  "is_absolute p \<longleftrightarrow> starts_with ''/'' p"

definition require_absolute_optional_inputs :: "reconcile_options \<Rightarrow> unit fallible" where
  "require_absolute_optional_inputs v =
     for_each (\<lambda>p. ensure (is_absolute p)
        (plain ''incompatible_index: relative optional index input identity'') (Inr ()))
       (case scip_path v of None \<Rightarrow> (case manifest_path v of None \<Rightarrow> [] | Some m \<Rightarrow> [m])
          | Some s \<Rightarrow> s # (case manifest_path v of None \<Rightarrow> [] | Some m \<Rightarrow> [m]))"

text \<open>\<open>Request::options\<close>: the stored options of a row, read back; the JSON reader is an argument.\<close>

definition request_options :: "(string \<Rightarrow> reconcile_options fallible) \<Rightarrow> queue_request \<Rightarrow> index_options fallible" where
  "request_options from_str r =
     ensure (length (rq_options r) \<le> 4096) (plain ''invalid request options length'')
       (bind_result (from_str (rq_options r)) (\<lambda>v.
        ensure (options_valid v) (plain ''invalid request options'')
          (bind_result (require_absolute_optional_inputs v) (\<lambda>_.
           Inr \<lparr>given_scip = scip_path v, given_manifest = manifest_path v,
                given_max = max_file_bytes v\<rparr>))))"

subsection \<open>What an operation observes\<close>

datatype commit_answer = Committed | NotCommitted fault | Unsure fault

text \<open>
  One call's observations: \<open>leader k\<close> and \<open>root k\<close> are the answers of the call's k-th check of the
  leader session and of the root identity, \<open>connect\<close> of \<open>request_connection\<close> and \<open>existing\<close> of
  \<open>existing_request_connection\<close> (false when there is no queue yet), \<open>begin_tx\<close> of taking the writer
  lock. \<open>between\<close> is what other processes make of the queue before the transaction the record is for
  (or, for the root-loss sweep, before it reads its rows back).
\<close>

record observed =
  leader :: "nat \<Rightarrow> unit fallible"
  root :: "nat \<Rightarrow> unit fallible"
  root_matches :: "unit fallible"
  reconciled :: "nat \<Rightarrow> bool"
  connect :: "unit fallible"
  existing :: "bool fallible"
  begin_tx :: "unit fallible"
  clock :: string
  fresh_id :: string
  commit_ans :: commit_answer
  index_now :: "index_pin fallible"
  baseline :: "index_pin option fallible"
  replaced :: "nat \<Rightarrow> bool fallible"
  absent_virgin :: "bool fallible"
  between :: "queue \<Rightarrow> queue"
text \<open>The store's fixed identity: the text of the root's device and inode, and the UUID library.\<close>

record store_id =
  my_device :: string
  my_inode :: string
  uuids :: uuid_lib

definition commit_to :: "observed \<Rightarrow> queue \<Rightarrow> queue \<Rightarrow> 'a \<Rightarrow> 'a fallible \<times> queue" where
  "commit_to ob q q' x = (case commit_ans ob of
       Committed \<Rightarrow> (Inr x, q') | NotCommitted e \<Rightarrow> (Inl e, q) | Unsure e \<Rightarrow> (Inl e, q'))"

text \<open>A check before anything is written: a failure leaves the queue as it is.\<close>

definition guarded :: "unit fallible \<Rightarrow> queue \<Rightarrow> 'a fallible \<times> queue \<Rightarrow> 'a fallible \<times> queue" where
  "guarded c q k = (case c of Inl e \<Rightarrow> (Inl e, q) | Inr _ \<Rightarrow> k)"

definition demand :: "bool \<Rightarrow> string \<Rightarrow> unit fallible" where
  "demand c msg = (if c then Inr () else Inl (plain msg))"

text \<open>\<open>UPDATE requests SET f WHERE p\<close>, and how many rows it changed.\<close>

definition update_rows :: "(queue_row \<Rightarrow> bool) \<Rightarrow> (queue_row \<Rightarrow> queue_row) \<Rightarrow> queue \<Rightarrow> queue" where
  "update_rows p f q = q\<lparr>rows := map (\<lambda>r. if p r then f r else r) (rows q)\<rparr>"

definition changed_rows :: "(queue_row \<Rightarrow> bool) \<Rightarrow> queue \<Rightarrow> nat" where
  "changed_rows p q = length (filter p (rows q))"

text \<open>\<open>u64 as i64\<close> wraps.\<close>

definition as_i64 :: "nat \<Rightarrow> int" where
  "as_i64 n = sint (word_of_nat n :: u64)"

subsection \<open>Accepting and reading\<close>

text \<open>\<open>enqueue_request_with_hooks\<close>; \<open>encode\<close> is \<open>serde_json::to_string\<close>.\<close>

definition new_row :: "store_id \<Rightarrow> observed \<Rightarrow> string \<Rightarrow> index_pin option \<Rightarrow> int \<Rightarrow> queue_row" where
  "new_row me ob encoded expected n = \<lparr>seq = n, row_id = fresh_id ob, root_device = my_device me,
     root_inode = my_inode me, options_json = encoded,
     expected_generation = map_option (\<lambda>p. uuid_text (uuids me) (ip_generation p)) expected,
     expected_revision = map_option (\<lambda>p. as_i64 (ip_revision p)) expected, state = ''queued'',
     claim_incarnation = None, result_generation = None, result_revision = None, error_code = None,
     submitted_at = clock ob, started_at = None, finished_at = None\<rparr>"

definition accepted :: "store_id \<Rightarrow> observed \<Rightarrow> string \<Rightarrow> index_pin option \<Rightarrow> int \<Rightarrow> queue_request" where
  "accepted me ob encoded expected n = \<lparr>rq_seq = n, rq_id = fresh_id ob, rq_state = ''queued'',
     rq_device = my_device me, rq_inode = my_inode me, rq_options = encoded, rq_expected = expected,
     rq_claim = None, rq_revision = None, rq_error = None, rq_submitted = clock ob,
     rq_started = None, rq_finished = None\<rparr>"

definition enqueue_request ::
  "(reconcile_options \<Rightarrow> string) \<Rightarrow> store_id \<Rightarrow> observed \<Rightarrow> index_options \<Rightarrow> index_pin option
     \<Rightarrow> queue \<Rightarrow> queue_request fallible \<times> queue" where
  "enqueue_request encode me ob given expected q =
     (let opts = reconcile_options_from given; encoded = encode opts; n = last_seq q + 1 in
      guarded (root ob 0) q (guarded (root_matches ob) q
      (guarded (demand (options_valid opts) ''invalid request options'') q
      (guarded (require_absolute_optional_inputs opts) q
      (guarded (demand (length encoded \<le> 4096) ''invalid request options length'') q
      (guarded (connect ob) q (guarded (begin_tx ob) q (guarded (root ob 1) q
      (guarded (demand (last_seq q < 9223372036854775807) ''database or disk is full'') q
      (guarded (demand (fresh_id ob \<notin> set (map row_id (rows q)))
                  ''UNIQUE constraint failed: requests.id'') q
      (case commit_to ob q (q\<lparr>rows := rows q @ [new_row me ob encoded expected n], last_seq := n\<rparr>)
              (accepted me ob encoded expected n) of
         (Inl e, q') \<Rightarrow> (Inl e, q')
       | (Inr r, q') \<Rightarrow> guarded (root ob 2) q' (Inr r, q'))))))))))))"

text \<open>\<open>verify_request_root\<close>, the call's k-th root check.\<close>

definition verify_request_root :: "store_id \<Rightarrow> unit fallible \<Rightarrow> queue_request option \<Rightarrow> unit fallible" where
  "verify_request_root me checked r =
     bind_result checked (\<lambda>_. case r of None \<Rightarrow> Inr ()
       | Some q \<Rightarrow> demand (rq_device q = my_device me \<and> rq_inode q = my_inode me)
                      ''root_changed: request belongs to another root'')"

definition read_checked :: "store_id \<Rightarrow> observed \<Rightarrow> queue_row option \<Rightarrow> queue_request option fallible" where
  "read_checked me ob found =
     bind_result (existing ob) (\<lambda>there. if \<not> there then Inr None else
       bind_result (read_optional (uuids me) found) (\<lambda>r.
       bind_result (verify_request_root me (root ob 0) r) (\<lambda>_. Inr r)))"

definition request_by_id :: "store_id \<Rightarrow> observed \<Rightarrow> string \<Rightarrow> queue \<Rightarrow> queue_request option fallible" where
  "request_by_id me ob wanted q =
     (if parse_str (uuids me) wanted = None then Inr None
      else read_checked me ob (find (\<lambda>r. row_id r = wanted) (rows q)))"

definition earliest_unfinished_request :: "store_id \<Rightarrow> observed \<Rightarrow> queue \<Rightarrow> queue_request option fallible" where
  "earliest_unfinished_request me ob q = read_checked me ob (find unfinished (rows q))"

definition current_request :: "store_id \<Rightarrow> observed \<Rightarrow> queue \<Rightarrow> queue_request option fallible" where
  "current_request me ob q =
     read_checked me ob (find (\<lambda>r. root_device r = my_device me \<and> root_inode r = my_inode me) (rev (rows q)))"

subsection \<open>Claiming\<close>

text \<open>\<open>verify_reconciled_leader_claim\<close>: two leader checks around the reconciliation latch.\<close>

definition verify_reconciled_leader_claim :: "observed \<Rightarrow> nat \<Rightarrow> nat \<Rightarrow> unit fallible" where
  "verify_reconciled_leader_claim ob k n =
     bind_result (leader ob k) (\<lambda>_.
     ensure (reconciled ob n) (plain ''index_not_ready: mandatory leader reconciliation not committed'') (leader ob (k + 1)))"

definition start_claim :: "string \<Rightarrow> string \<Rightarrow> queue_row \<Rightarrow> queue_row" where
  "start_claim incarnation stamp r =
     r\<lparr>state := ''running'', claim_incarnation := Some incarnation, started_at := Some stamp\<rparr>"

definition claim_request :: "store_id \<Rightarrow> observed \<Rightarrow> string \<Rightarrow> queue \<Rightarrow> queue_request option fallible \<times> queue" where
  "claim_request me ob session q =
     guarded (verify_reconciled_leader_claim ob 0 0) q
     (guarded (connect ob) q (guarded (begin_tx ob) q (guarded (leader ob 2) q
     (case read_optional (uuids me) (find unfinished (rows q)) of
        Inl e \<Rightarrow> (Inl e, q)
      | Inr None \<Rightarrow> (Inr None, q)
      | Inr (Some row) \<Rightarrow>
          guarded (verify_request_root me (root ob 0) (Some row)) q
          (if rq_state row = ''running'' \<and> rq_claim row = Some session then (Inr None, q)
           else guarded (verify_reconciled_leader_claim ob 3 1) q
           (let q' = update_rows (\<lambda>r. seq r = rq_seq row \<and> unfinished r)
                       (start_claim session (clock ob)) q in
            case find (\<lambda>r. seq r = rq_seq row) (rows q') of
              None \<Rightarrow> (Inl (plain ''Query returned no rows''), q)
            | Some r \<Rightarrow> (case read_row (uuids me) r of
                  Inl e \<Rightarrow> (Inl e, q)
                | Inr claimed \<Rightarrow> commit_to ob q q' (Some claimed))))))))"

subsection \<open>Losing the root\<close>

definition fail_row :: "string \<Rightarrow> string \<Rightarrow> queue_row \<Rightarrow> queue_row" where
  "fail_row incarnation stamp r =
     r\<lparr>state := ''failed'', claim_incarnation := Some incarnation,
       started_at := (case started_at r of None \<Rightarrow> Some stamp | Some t \<Rightarrow> Some t),
       finished_at := Some stamp, error_code := Some ''root_changed''\<rparr>"

definition verify_old_root_queue_leader :: "observed \<Rightarrow> nat \<Rightarrow> nat \<Rightarrow> unit fallible" where
  "verify_old_root_queue_leader ob k n =
     bind_result (replaced ob k) (\<lambda>b.
     ensure b (plain ''root_changed: pathname still names captured root'') (leader ob n))"

definition verify_holder :: "observed \<Rightarrow> bool \<Rightarrow> nat \<Rightarrow> unit fallible" where
  "verify_holder ob old_root n =
     (if old_root then verify_old_root_queue_leader ob (n + 1) n else leader ob n)"

definition of_root :: "store_id \<Rightarrow> queue_row \<Rightarrow> bool" where
  "of_root me r \<longleftrightarrow> root_device r = my_device me \<and> root_inode r = my_inode me"

definition attest_changed_root_rows ::
  "uuid_lib \<Rightarrow> queue_request list \<Rightarrow> string \<Rightarrow> queue \<Rightarrow> unit fallible" where
  "attest_changed_root_rows u affected session q =
     for_each (\<lambda>prior. case find (\<lambda>r. seq r = rq_seq prior) (rows q) of
         None \<Rightarrow> Inl (plain ''Query returned no rows'')
       | Some r \<Rightarrow> bind_result (read_row u r) (\<lambda>row.
           demand (rq_id row = rq_id prior \<and> rq_device row = rq_device prior
             \<and> rq_inode row = rq_inode prior \<and> rq_state row = ''failed''
             \<and> rq_error row = Some ''root_changed'' \<and> rq_claim row = Some session)
             ''storage_busy: root failure commit not confirmed'')) affected"

fun read_all :: "uuid_lib \<Rightarrow> queue_row list \<Rightarrow> queue_request list fallible" where
  "read_all u [] = Inr []"
| "read_all u (r # rs) = bind_result (read_row u r) (\<lambda>x. bind_result (read_all u rs) (\<lambda>xs. Inr (x # xs)))"

text \<open>
  \<open>absent_virgin\<close> is the answer of the early exit for a fresh index without a queue: true when there
  is none and none was ever seen, an error when one was seen before.
\<close>

definition fail_changed_root_requests ::
  "store_id \<Rightarrow> observed \<Rightarrow> string \<Rightarrow> queue \<Rightarrow> nat fallible \<times> queue" where
  "fail_changed_root_requests me ob session q =
     (case replaced ob 0 of Inl e \<Rightarrow> (Inl e, q) | Inr old_root \<Rightarrow>
      guarded (verify_holder ob old_root 0) q
      (case (if old_root then Inr False else absent_virgin ob) of
         Inl e \<Rightarrow> (Inl e, q)
       | Inr True \<Rightarrow> (Inr 0, q)
       | Inr False \<Rightarrow>
         guarded (connect ob) q (guarded (begin_tx ob) q (guarded (verify_holder ob old_root 1) q
         (let hit = (\<lambda>r. unfinished r \<and> of_root me r = old_root) in
          case read_all (uuids me) (filter hit (rows q)) of
            Inl e \<Rightarrow> (Inl e, q)
          | Inr affected \<Rightarrow>
            guarded (demand (changed_rows hit q = length affected)
                       ''storage_busy: root failure set changed'') q
            (guarded (verify_holder ob old_root 2) q
            (case commit_to ob q (update_rows hit (fail_row session (clock ob)) q) () of
               (Inl e, q') \<Rightarrow> (Inl e, q')
             | (Inr _, q') \<Rightarrow>
                 (let q'' = between ob q' in
                  (bind_result (attest_changed_root_rows (uuids me) affected session q'')
                     (\<lambda>_. Inr (changed_rows hit q)), q'')))))))))"

text \<open>\<open>old_root_unfinished_request\<close>: \<open>existing\<close> is false when the queue was never created.\<close>

definition old_root_unfinished_request :: "store_id \<Rightarrow> observed \<Rightarrow> queue \<Rightarrow> queue_request option fallible" where
  "old_root_unfinished_request me ob q =
     bind_result (replaced ob 0) (\<lambda>b.
     ensure b (plain ''root_changed: old root required'')
     (bind_result (existing ob) (\<lambda>there. if \<not> there then Inr None else
      bind_result (read_optional (uuids me) (find (\<lambda>r. unfinished r \<and> of_root me r) (rows q))) (\<lambda>row.
      bind_result (replaced ob 1) (\<lambda>b'.
      ensure b' (plain ''root_changed: old root restored'') (Inr row))))))"

subsection \<open>Finishing\<close>

fun outcome_columns :: "uuid_lib \<Rightarrow> completion_outcome \<Rightarrow> string option \<times> int option \<times> string option" where
  "outcome_columns u (Done pin) = (Some (uuid_text u (ip_generation pin)), Some (as_i64 (ip_revision pin)), None)"
| "outcome_columns u (Failed code) = (None, None, Some code)"

definition finish_row :: "uuid_lib \<Rightarrow> completion_outcome \<Rightarrow> string \<Rightarrow> queue_row \<Rightarrow> queue_row" where
  "finish_row u outcome stamp r = (case outcome_columns u outcome of (generation, revision, code) \<Rightarrow>
     r\<lparr>state := (if code \<noteq> None then ''failed'' else ''done''), result_generation := generation,
       result_revision := revision, error_code := code, finished_at := Some stamp\<rparr>)"

definition claimed_here :: "store_id \<Rightarrow> string \<Rightarrow> queue_request \<Rightarrow> queue_row \<Rightarrow> bool" where
  "claimed_here me session rq r \<longleftrightarrow> seq r = rq_seq rq \<and> state r = ''running''
     \<and> claim_incarnation r = Some session \<and> root_device r = my_device me \<and> root_inode r = my_inode me"

definition finish_request_outcome ::
  "store_id \<Rightarrow> observed \<Rightarrow> string \<Rightarrow> queue_request \<Rightarrow> completion_outcome \<Rightarrow> queue \<Rightarrow> unit fallible \<times> queue" where
  "finish_request_outcome me ob session rq outcome q =
     guarded (leader ob 0) q (guarded (connect ob) q (guarded (begin_tx ob) q (guarded (leader ob 1) q
     (guarded (case outcome of Failed _ \<Rightarrow> Inr ()
                | Done pin \<Rightarrow> bind_result (index_now ob) (\<lambda>current.
                    demand (current = pin) ''revision conflict: request result is not current index'')) q
     (guarded (demand (changed_rows (claimed_here me session rq) q = 1)
                 ''storage_busy: request claim changed'') q
     (commit_to ob q (update_rows (claimed_here me session rq)
        (finish_row (uuids me) outcome (clock ob)) q) ()))))))"

definition finish_request ::
  "store_id \<Rightarrow> observed \<Rightarrow> string \<Rightarrow> queue_request \<Rightarrow> index_pin fallible \<Rightarrow> queue \<Rightarrow> unit fallible \<times> queue" where
  "finish_request me ob session rq result q = (case from_result result of
       Inl e \<Rightarrow> (Inl e, q)
     | Inr outcome \<Rightarrow> finish_request_outcome me ob session rq outcome q)"

subsection \<open>The recorded completion\<close>

type_synonym slot = "pending_completion option"

definition has_recorded_completion :: "string \<Rightarrow> slot \<Rightarrow> bool" where
  "has_recorded_completion session slot =
     (case slot of None \<Rightarrow> False | Some p \<Rightarrow> pend_incarnation p = session)"

text \<open>The row the slot speaks of: same identifier, sequence number, root and incarnation.\<close>

definition same_claim :: "pending_completion \<Rightarrow> queue_request \<Rightarrow> bool" where
  "same_claim p row \<longleftrightarrow> rq_id row = rq_id (pend_request p) \<and> rq_seq row = rq_seq (pend_request p)
     \<and> rq_device row = rq_device (pend_request p) \<and> rq_inode row = rq_inode (pend_request p)
     \<and> rq_claim row = Some (pend_incarnation p)"

definition is_terminal :: "queue_request \<Rightarrow> bool" where
  "is_terminal r \<longleftrightarrow> rq_state r = ''done'' \<or> rq_state r = ''failed''"

definition differs :: fault where
  "differs = plain ''revision conflict: cached completion differs from durable terminal''"

text \<open>\<open>request_by_id\<close> for the cached request, which must still be there under the same claim.\<close>

definition cached_row :: "store_id \<Rightarrow> observed \<Rightarrow> pending_completion \<Rightarrow> queue \<Rightarrow> queue_request fallible" where
  "cached_row me ob p q =
     bind_result (request_by_id me ob (rq_id (pend_request p)) q) (\<lambda>found.
     bind_result (ok_or found (plain ''storage_busy: cached request disappeared'')) (\<lambda>row.
     ensure (same_claim p row) (plain ''storage_busy: cached claim changed'') (Inr row)))"

text \<open>
  \<open>retry_recorded_completion\<close>: three transactions (the read, the write, the reread after an error of
  the write), each with its own observations and each on the queue other processes left.
\<close>

definition retry_recorded_completion ::
  "store_id \<Rightarrow> observed \<Rightarrow> observed \<Rightarrow> observed \<Rightarrow> string \<Rightarrow> slot \<Rightarrow> queue
     \<Rightarrow> bool fallible \<times> slot \<times> queue" where
  "retry_recorded_completion me ob_read ob_write ob_reread session slot q =
     (case leader ob_read 0 of Inl e \<Rightarrow> (Inl e, slot, q) | Inr _ \<Rightarrow>
      (case slot of None \<Rightarrow> (Inr False, slot, q) | Some p \<Rightarrow>
       if pend_incarnation p \<noteq> session then (Inr False, None, q)
       else (let q1 = between ob_read q in
        case cached_row me ob_read p q1 of Inl e \<Rightarrow> (Inl e, slot, q1) | Inr row \<Rightarrow>
        if is_terminal row then
          (if matches_terminal (pend_outcome p) row then (Inr True, None, q1) else (Inl differs, slot, q1))
        else if rq_state row \<noteq> ''running''
        then (Inl (plain ''storage_busy: cached FIFO head is not running''), slot, q1)
        else (case finish_request_outcome me ob_write session (pend_request p) (pend_outcome p)
                     (between ob_write q1) of
            (Inr _, q2) \<Rightarrow> (Inr True, None, q2)
          | (Inl e, q2) \<Rightarrow>
              (let q3 = between ob_reread q2 in
               case cached_row me ob_reread p q3 of Inl e' \<Rightarrow> (Inl e', slot, q3) | Inr reread \<Rightarrow>
               if is_terminal reread then
                 (if matches_terminal (pend_outcome p) reread then (Inr True, None, q3)
                  else (Inl differs, slot, q3))
               else (Inl e, slot, q3))))))"

definition record_and_finish_request ::
  "store_id \<Rightarrow> observed \<Rightarrow> observed \<Rightarrow> observed \<Rightarrow> observed \<Rightarrow> string \<Rightarrow> queue_request
     \<Rightarrow> index_pin fallible \<Rightarrow> slot \<Rightarrow> queue \<Rightarrow> unit fallible \<times> slot \<times> queue" where
  "record_and_finish_request me ob ob_read ob_write ob_reread session rq result slot q =
     (case leader ob 0 of Inl e \<Rightarrow> (Inl e, slot, q) | Inr _ \<Rightarrow>
      if rq_claim rq \<noteq> Some session then (Inl (plain ''request claim changed''), slot, q)
      else if slot \<noteq> None then (Inl (plain ''storage_busy: unresolved FIFO completion''), slot, q)
      else (case from_result result of Inl e \<Rightarrow> (Inl e, slot, q) | Inr outcome \<Rightarrow>
        (case retry_recorded_completion me ob_read ob_write ob_reread session
                (Some \<lparr>pend_request = rq, pend_outcome = outcome, pend_incarnation = session\<rparr>) q of
           (Inl e, slot', q') \<Rightarrow> (Inl e, slot', q') | (Inr _, slot', q') \<Rightarrow> (Inr (), slot', q'))))"

subsection \<open>Putting a busy claim back\<close>

definition requeue_row :: "queue_row \<Rightarrow> queue_row" where
  "requeue_row r = r\<lparr>state := ''queued'', claim_incarnation := None, started_at := None\<rparr>"

text \<open>The checks of \<open>requeue_busy_claim\<close> on the row it has read: whether to go on, or stop with an answer.\<close>

definition requeue_checks ::
  "string \<Rightarrow> queue_request \<Rightarrow> index_pin option \<Rightarrow> index_pin option \<Rightarrow> slot \<Rightarrow> queue_request \<Rightarrow> bool fallible" where
  "requeue_checks session rq before current slot seen =
     ensure (rq_id seen = rq_id rq \<and> rq_seq seen = rq_seq rq \<and> rq_device seen = rq_device rq
             \<and> rq_inode seen = rq_inode rq) (plain ''storage_busy: accepted claim identity changed'')
       (if rq_finished seen \<noteq> None then
          (if rq_state seen = ''done'' then
             bind_result (ok_or (rq_revision seen) (plain ''storage_busy: terminal pin is missing''))
               (\<lambda>completed.
                ensure (case current of None \<Rightarrow> False | Some pin \<Rightarrow>
                          ip_generation pin = ip_generation completed
                          \<and> ip_revision completed \<le> ip_revision pin)
                  (plain ''storage_busy: terminal pin is not retained by current publication'')
                  (Inr False))
           else Inr False)
        else
          ensure (rq_state seen = ''running'' \<and> rq_claim seen = Some session \<and> rq_claim rq = rq_claim seen)
            (plain ''storage_busy: request claim changed during busy resolution'')
          (ensure (current = before)
            (plain ''storage_busy: publication changed across failed commit; leave running for verified recovery'')
          (ensure (\<not> has_recorded_completion session slot)
            (plain ''storage_busy: unresolved FIFO completion must not be requeued'') (Inr True))))"

definition requeue_hit :: "string \<Rightarrow> queue_request \<Rightarrow> queue_row \<Rightarrow> bool" where
  "requeue_hit session rq r \<longleftrightarrow> seq r = rq_seq rq \<and> row_id r = rq_id rq \<and> state r = ''running''
     \<and> claim_incarnation r = Some session \<and> root_device r = rq_device rq \<and> root_inode r = rq_inode rq"

definition requeue_busy_claim ::
  "store_id \<Rightarrow> observed \<Rightarrow> observed \<Rightarrow> observed \<Rightarrow> string \<Rightarrow> queue_request \<Rightarrow> index_pin option
     \<Rightarrow> slot \<Rightarrow> queue \<Rightarrow> unit fallible \<times> queue" where
  "requeue_busy_claim me ob_fail ob_read ob session rq before slot q =
     guarded (leader ob 0) q
     (case fail_changed_root_requests me ob_fail session q of
        (Inl e, q0) \<Rightarrow> (Inl e, q0)
      | (Inr _, q0) \<Rightarrow>
        (case baseline ob of Inl e \<Rightarrow> (Inl e, q0) | Inr current \<Rightarrow>
        (let q1 = between ob_read q0 in
         case bind_result (request_by_id me ob_read (rq_id rq) q1)
                (\<lambda>f. ok_or f (plain ''storage_busy: accepted claim disappeared'')) of
           Inl e \<Rightarrow> (Inl e, q1)
         | Inr seen \<Rightarrow>
           guarded (verify_request_root me (root ob 0) (Some seen)) q1
           (case requeue_checks session rq before current slot seen of
              Inl e \<Rightarrow> (Inl e, q1)
            | Inr False \<Rightarrow> (Inr (), q1)
            | Inr True \<Rightarrow>
              (let q2 = between ob q1 in
               guarded (connect ob) q2 (guarded (begin_tx ob) q2 (guarded (leader ob 1) q2
               (guarded (verify_request_root me (root ob 1) (Some seen)) q2
               (guarded (demand (changed_rows (requeue_hit session rq) q2 = 1)
                           ''storage_busy: request claim changed before same-seq requeue'') q2
               (guarded (leader ob 2) q2
               (commit_to ob q2 (update_rows (requeue_hit session rq) requeue_row q2) ())))))))))))"

subsection \<open>What every operation keeps\<close>

definition finished :: "queue_row \<Rightarrow> bool" where
  "finished r \<longleftrightarrow> \<not> unfinished r"

text \<open>The columns that are written once, when the request is accepted.\<close>

definition submission :: "queue_row \<Rightarrow> queue_row" where
  "submission r = r\<lparr>state := [], claim_incarnation := None, result_generation := None,
     result_revision := None, error_code := None, started_at := None, finished_at := None\<rparr>"

definition row_evolves :: "queue_row \<Rightarrow> queue_row \<Rightarrow> bool" where
  "row_evolves r r' \<longleftrightarrow> submission r' = submission r \<and> (finished r \<longrightarrow> r' = r)"

text \<open>A later queue: the same requests in the same places, then new ones; a finished row is final.\<close>

definition evolves :: "queue \<Rightarrow> queue \<Rightarrow> bool" where
  "evolves q q' \<longleftrightarrow> (\<exists>old new. rows q' = old @ new \<and> list_all2 row_evolves (rows q) old)"

definition queue_ok :: "queue \<Rightarrow> bool" where
  "queue_ok q \<longleftrightarrow> list_all row_check (rows q) \<and> sorted_wrt (<) (map seq (rows q)) \<and>
     distinct (map row_id (rows q)) \<and> 0 \<le> last_seq q \<and>
     list_all (\<lambda>r. 1 \<le> seq r \<and> seq r \<le> last_seq q) (rows q)"

definition lawful :: "queue \<Rightarrow> queue \<Rightarrow> bool" where
  "lawful q q' \<longleftrightarrow> evolves q q' \<and> (queue_ok q \<longrightarrow> queue_ok q')"

lemma row_evolves_refl [simp]: "row_evolves r r"
  by (simp add: row_evolves_def)

lemma row_evolves_trans: "row_evolves a b \<Longrightarrow> row_evolves b c \<Longrightarrow> row_evolves a c"
  by (auto simp: row_evolves_def)

lemma lawful_refl [simp]: "lawful q q"
proof -
  have "list_all2 row_evolves (rows q) (rows q)" by (rule list.rel_refl) simp
  then show ?thesis by (auto simp: lawful_def evolves_def)
qed

lemma lawful_trans [trans]:
  assumes "lawful a b" and "lawful b c"
  shows "lawful a c"
proof -
  from assms obtain ob nb oc nc where b: "rows b = ob @ nb" "list_all2 row_evolves (rows a) ob"
    and c: "rows c = oc @ nc" "list_all2 row_evolves (rows b) oc"
    by (auto simp: lawful_def evolves_def)
  from c(2) b(1) obtain oc1 oc2 where oc: "oc = oc1 @ oc2" "list_all2 row_evolves ob oc1"
    by (auto simp: list_all2_append1)
  have "list_all2 row_evolves (rows a) oc1"
    by (rule list_all2_trans [OF _ b(2) oc(2)]) (rule row_evolves_trans)
  with c(1) oc(1) have "evolves a c" unfolding evolves_def by auto
  with assms show ?thesis by (simp add: lawful_def)
qed

lemma lawful_guarded:
  "lawful q q' \<Longrightarrow> lawful q (snd k) \<Longrightarrow> lawful q (snd (guarded c q' k))"
  by (cases c) (simp_all add: guarded_def)

lemma guarded_stop: "guarded (Inl e) q k = (Inl e, q)"
  by (simp add: guarded_def)

lemma lawful_commit:
  "lawful q q1 \<Longrightarrow> lawful q q2 \<Longrightarrow> lawful q (snd (commit_to ob q1 q2 x))"
  by (cases "commit_ans ob") (simp_all add: commit_to_def)

text \<open>An \<open>UPDATE\<close> of unfinished rows that keeps their submission and the constraints is lawful.\<close>

lemma lawful_update:
  assumes unfin: "\<And>r. p r \<Longrightarrow> unfinished r"
    and sub: "\<And>r. submission (f r) = submission r"
    and chk: "\<And>r. p r \<Longrightarrow> row_check r \<Longrightarrow> row_check (f r)"
  shows "lawful q (update_rows p f q)"
proof -
  let ?g = "\<lambda>r. if p r then f r else r"
  have ev: "row_evolves r (?g r)" for r
    using unfin [of r] sub by (auto simp: row_evolves_def finished_def)
  have keep: "seq (f r) = seq r \<and> row_id (f r) = row_id r" for r
  proof -
    have "seq (submission (f r)) = seq (submission r) \<and> row_id (submission (f r)) = row_id (submission r)"
      by (simp add: sub)
    then show ?thesis by (simp add: submission_def)
  qed
  have "list_all2 row_evolves (rows q) (map ?g (rows q))"
    unfolding list_all2_map2 by (rule list.rel_refl) (rule ev)
  then have "evolves q (update_rows p f q)"
    by (auto simp: evolves_def update_rows_def)
  moreover have "map seq (map ?g (rows q)) = map seq (rows q)"
    "map row_id (map ?g (rows q)) = map row_id (rows q)"
    unfolding map_map by (rule map_cong [OF refl], simp add: keep)+
  then have "queue_ok q \<Longrightarrow> queue_ok (update_rows p f q)"
    using chk keep by (auto simp: queue_ok_def update_rows_def list_all_iff simp del: map_map)
  ultimately show ?thesis by (simp add: lawful_def)
qed

lemma lawful_insert:
  assumes fresh: "i \<notin> set (map row_id (rows q))"
  shows "row_check r \<Longrightarrow> row_id r = i \<Longrightarrow> seq r = last_seq q + 1 \<Longrightarrow>
    lawful q (q\<lparr>rows := rows q @ [r], last_seq := last_seq q + 1\<rparr>)"
proof -
  assume r: "row_check r" "row_id r = i" "seq r = last_seq q + 1"
  have "list_all2 row_evolves (rows q) (rows q)" by (rule list.rel_refl) simp
  then have "evolves q (q\<lparr>rows := rows q @ [r], last_seq := last_seq q + 1\<rparr>)"
    by (auto simp: evolves_def)
  then show ?thesis
    using r fresh by (force simp: lawful_def queue_ok_def list_all_iff sorted_wrt_append)
qed

lemmas state_changes = start_claim_def fail_row_def requeue_row_def finish_row_def

lemma submission_start_claim [simp]: "submission (start_claim i t r) = submission r"
  and submission_fail_row [simp]: "submission (fail_row i t r) = submission r"
  and submission_requeue_row [simp]: "submission (requeue_row r) = submission r"
  by (simp_all add: state_changes submission_def)

lemma submission_finish_row [simp]: "submission (finish_row u outcome t r) = submission r"
  by (cases outcome) (simp_all add: finish_row_def submission_def)

lemma check_start_claim: "unfinished r \<Longrightarrow> row_check r \<Longrightarrow> row_check (start_claim i t r)"
  and check_fail_row: "unfinished r \<Longrightarrow> row_check r \<Longrightarrow> row_check (fail_row i t r)"
  and check_requeue_row: "state r = ''running'' \<Longrightarrow> row_check r \<Longrightarrow> row_check (requeue_row r)"
  by (auto simp: row_check_def unfinished_def state_changes)

lemma check_finish_row:
  "state r = ''running'' \<Longrightarrow> row_check r \<Longrightarrow> row_check (finish_row u outcome t r)"
  by (cases outcome) (auto simp: row_check_def finish_row_def)



text \<open>Each operation is lawful; the compound ones provided that the other processes are.\<close>

lemma enqueue_lawful: "lawful q (snd (enqueue_request encode me ob given expected q))"
proof -
  let ?enc = "encode (reconcile_options_from given)" and ?n = "last_seq q + 1"
  let ?q' = "q\<lparr>rows := rows q @ [new_row me ob ?enc expected ?n], last_seq := ?n\<rparr>"
  have ins: "lawful q ?q'" if "fresh_id ob \<notin> set (map row_id (rows q))"
    by (rule lawful_insert [OF that]) (auto simp: new_row_def row_check_def)
  have tail: "lawful q (snd (case commit_to ob q ?q' x of (Inl e, q') \<Rightarrow> (Inl e, q')
       | (Inr r, q') \<Rightarrow> guarded (root ob 2) q' (Inr r, q')))"
    if "fresh_id ob \<notin> set (map row_id (rows q))" for x :: queue_request
    using ins [OF that] by (cases "commit_ans ob"; cases "root ob 2") (simp_all add: commit_to_def guarded_def)
  then show ?thesis
  proof (cases "fresh_id ob \<notin> set (map row_id (rows q))")
    case True
    show ?thesis unfolding enqueue_request_def Let_def
      by (intro lawful_guarded lawful_refl tail True)
  next
    case False
    then show ?thesis unfolding enqueue_request_def Let_def
      by (simp only: demand_def if_False guarded_stop) (intro lawful_guarded lawful_refl, simp)
  qed
qed

lemma claim_lawful: "lawful q (snd (claim_request me ob session q))"
proof -
  have upd: "lawful q (update_rows (\<lambda>r. seq r = n \<and> unfinished r) (start_claim session t) q)" for n t
    by (rule lawful_update) (auto simp: check_start_claim)
  show ?thesis
    unfolding claim_request_def Let_def
    by (intro lawful_guarded lawful_refl)
      (auto split: sum.split option.split intro!: lawful_guarded lawful_commit upd)
qed

lemma sweep_lawful:
  assumes others: "\<And>p. lawful p (between ob p)"
  shows "lawful q (snd (fail_changed_root_requests me ob session q))"
proof -
  have upd: "lawful q (update_rows (\<lambda>r. unfinished r \<and> of_root me r = b) (fail_row session t) q)" for b t
    by (rule lawful_update) (auto simp: check_fail_row)
  have tail: "lawful q (snd (case commit_to ob q q1 () of (Inl e, q') \<Rightarrow> (Inl e, q')
       | (Inr _, q') \<Rightarrow> (f (between ob q'), between ob q')))" if "lawful q q1"
    for q1 and f :: "queue \<Rightarrow> nat fallible"
    using lawful_trans [OF that others] that by (cases "commit_ans ob") (simp_all add: commit_to_def)
  show ?thesis
    unfolding fail_changed_root_requests_def Let_def
    by (auto split: sum.split bool.split intro!: lawful_guarded tail
      intro: upd [where b = True, simplified] upd [where b = False, simplified])
qed

lemma finish_outcome_lawful: "lawful q (snd (finish_request_outcome me ob session rq outcome q))"
proof -
  have "lawful q (update_rows (claimed_here me session rq) (finish_row (uuids me) outcome t) q)" for t
    by (rule lawful_update) (auto simp: check_finish_row claimed_here_def unfinished_def)
  then show ?thesis
    unfolding finish_request_outcome_def by (intro lawful_guarded lawful_refl lawful_commit)
qed

lemma finish_lawful: "lawful q (snd (finish_request me ob session rq result q))"
  by (simp add: finish_request_def finish_outcome_lawful split: sum.split)

lemma retry_lawful:
  assumes "\<And>p. lawful p (between ob_read p)" "\<And>p. lawful p (between ob_write p)"
    and "\<And>p. lawful p (between ob_reread p)"
  shows "lawful q (snd (snd (retry_recorded_completion me ob_read ob_write ob_reread session slot q)))"
proof -
  let ?q1 = "between ob_read q"
  have q1: "lawful q ?q1" by (rule assms)
  define w where "w p = finish_request_outcome me ob_write session (pend_request p) (pend_outcome p)
    (between ob_write ?q1)" for p :: pending_completion
  have q2: "lawful q (snd (w p))" for p
    unfolding w_def by (rule lawful_trans [OF lawful_trans [OF q1 assms(2)] finish_outcome_lawful])
  have q3: "lawful q (between ob_reread (snd (w p)))" for p
    by (rule lawful_trans [OF q2 assms(3)])
  show ?thesis
  proof (cases slot)
    case None
    then show ?thesis by (simp add: retry_recorded_completion_def split: sum.split)
  next
    case (Some p)
    obtain r q2' where w: "w p = (r, q2')" by (cases "w p")
    show ?thesis
      unfolding retry_recorded_completion_def Let_def Some option.case w_def [symmetric] w
      using q1 q2 [of p] q3 [of p] unfolding w by (simp split: sum.split)
  qed
qed

lemma record_lawful:
  assumes "\<And>p. lawful p (between ob_read p)" "\<And>p. lawful p (between ob_write p)"
    and "\<And>p. lawful p (between ob_reread p)"
  shows "lawful q (snd (snd (record_and_finish_request me ob ob_read ob_write ob_reread session rq
    result slot q)))"
proof -
  define w where "w c = retry_recorded_completion me ob_read ob_write ob_reread session
    (Some \<lparr>pend_request = rq, pend_outcome = c, pend_incarnation = session\<rparr>) q" for c
  have w: "lawful q (snd (snd (w c)))" for c unfolding w_def by (rule retry_lawful [OF assms])
  have "lawful q (snd (snd (case w c of (Inl e, s, q') \<Rightarrow> (Inl e, s, q') | (Inr _, s, q') \<Rightarrow> (Inr (), s, q'))))"
    for c using w [of c] by (cases "w c") (simp split: sum.split)
  then show ?thesis
    unfolding record_and_finish_request_def w_def [symmetric] by (simp split: sum.split)
qed

lemma requeue_lawful:
  assumes "\<And>p. lawful p (between ob_fail p)" "\<And>p. lawful p (between ob_read p)"
    and "\<And>p. lawful p (between ob p)"
  shows "lawful q (snd (requeue_busy_claim me ob_fail ob_read ob session rq before slot q))"
proof -
  define w where "w = fail_changed_root_requests me ob_fail session q"
  let ?q1 = "between ob_read (snd w)" and ?q2 = "between ob (between ob_read (snd w))"
  have q0: "lawful q (snd w)" unfolding w_def by (rule sweep_lawful) (rule assms)
  have q1: "lawful q ?q1" by (rule lawful_trans [OF q0 assms(2)])
  have q2: "lawful q ?q2" by (rule lawful_trans [OF q1 assms(3)])
  have "lawful ?q2 (update_rows (requeue_hit session rq) requeue_row ?q2)"
    by (rule lawful_update) (auto simp: check_requeue_row requeue_hit_def unfinished_def)
  then have q3: "lawful q (update_rows (requeue_hit session rq) requeue_row ?q2)"
    by (rule lawful_trans [OF q2])
  obtain r0 q0' where w: "w = (r0, q0')" by (cases w)
  show ?thesis
    unfolding requeue_busy_claim_def Let_def w_def [symmetric]
    using q0 q1 q2 q3 unfolding w
    by (auto split: sum.split bool.split intro!: lawful_guarded lawful_commit)
qed

subsection \<open>Histories of the queue\<close>

text \<open>
  Every sequence of operations by any stores, leaders and processes, in any order, where each
  compound operation may itself be interrupted by such sequences.
\<close>

inductive queue_run :: "queue \<Rightarrow> queue \<Rightarrow> bool" where
  idle: "queue_run q q"
| enqueue: "queue_run q q' \<Longrightarrow> queue_run q (snd (enqueue_request encode me ob given expected q'))"
| claim: "queue_run q q' \<Longrightarrow> queue_run q (snd (claim_request me ob session q'))"
| sweep: "queue_run q q' \<Longrightarrow> (\<And>p. queue_run p (between ob p)) \<Longrightarrow>
    queue_run q (snd (fail_changed_root_requests me ob session q'))"
| finish: "queue_run q q' \<Longrightarrow> queue_run q (snd (finish_request me ob session rq result q'))"
| recorded: "queue_run q q' \<Longrightarrow> (\<And>p. queue_run p (between ob_read p)) \<Longrightarrow>
    (\<And>p. queue_run p (between ob_write p)) \<Longrightarrow> (\<And>p. queue_run p (between ob_reread p)) \<Longrightarrow>
    queue_run q (snd (snd (record_and_finish_request me ob ob_read ob_write ob_reread session rq
      result slot q')))"
| retry: "queue_run q q' \<Longrightarrow> (\<And>p. queue_run p (between ob_read p)) \<Longrightarrow>
    (\<And>p. queue_run p (between ob_write p)) \<Longrightarrow> (\<And>p. queue_run p (between ob_reread p)) \<Longrightarrow>
    queue_run q (snd (snd (retry_recorded_completion me ob_read ob_write ob_reread session slot q')))"
| requeue: "queue_run q q' \<Longrightarrow> (\<And>p. queue_run p (between ob_fail p)) \<Longrightarrow>
    (\<And>p. queue_run p (between ob_read p)) \<Longrightarrow> (\<And>p. queue_run p (between ob p)) \<Longrightarrow>
    queue_run q (snd (requeue_busy_claim me ob_fail ob_read ob session rq before slot q'))"

lemma run_lawful: "queue_run q q' \<Longrightarrow> lawful q q'"
proof (induction rule: queue_run.induct)
  case idle
  show ?case by simp
next
  case enqueue
  then show ?case using lawful_trans enqueue_lawful by metis
next
  case claim
  then show ?case using lawful_trans claim_lawful by metis
next
  case (sweep q q' ob me session)
  from sweep.IH(1) show ?case by (rule lawful_trans) (rule sweep_lawful [OF sweep.IH(2)])
next
  case finish
  then show ?case using lawful_trans finish_lawful by metis
next
  case (recorded q q' ob_read ob_write ob_reread me ob session rq result slot)
  from recorded.IH(1) show ?case by (rule lawful_trans) (rule record_lawful [OF recorded.IH(2-4)])
next
  case (retry q q' ob_read ob_write ob_reread me session slot)
  from retry.IH(1) show ?case by (rule lawful_trans) (rule retry_lawful [OF retry.IH(2-4)])
next
  case (requeue q q' ob_fail ob_read ob me session rq before slot)
  from requeue.IH(1) show ?case by (rule lawful_trans) (rule requeue_lawful [OF requeue.IH(2-4)])
qed

lemma evolves_nth:
  assumes "evolves q q'" and "i < length (rows q)"
  shows "i < length (rows q') \<and> row_evolves (rows q ! i) (rows q' ! i)"
proof -
  obtain old new where o: "rows q' = old @ new" "list_all2 row_evolves (rows q) old"
    using assms(1) by (auto simp: evolves_def)
  then have "length old = length (rows q)" by (simp add: list_all2_lengthD)
  with o assms(2) show ?thesis by (auto simp: nth_append list_all2_conv_all_nth)
qed

lemma find_split:
  "find p xs = Some r \<Longrightarrow> \<exists>a b. xs = a @ r # b \<and> p r \<and> list_all (\<lambda>x. \<not> p x) a"
proof (induction xs)
  case (Cons x xs)
  show ?case
  proof (cases "p x")
    case True
    with Cons.prems show ?thesis by (intro exI [of _ "[]"] exI [of _ xs]) auto
  next
    case False
    with Cons obtain a b where "xs = a @ r # b" "p r" "list_all (\<lambda>x. \<not> p x) a" by auto
    with False show ?thesis by (intro exI [of _ "x # a"] exI [of _ b]) auto
  qed
qed simp

lemma find_after: "find p a = None \<Longrightarrow> find p (a @ xs) = find p xs"
  by (induction a) (auto split: if_splits)

lemma filter_single:
  "length (filter p xs) = 1 \<Longrightarrow>
    \<exists>a r b. xs = a @ r # b \<and> p r \<and> list_all (\<lambda>x. \<not> p x) a \<and> list_all (\<lambda>x. \<not> p x) b"
proof (induction xs)
  case (Cons x xs)
  show ?case
  proof (cases "p x")
    case True
    with Cons.prems have "filter p xs = []" by simp
    with True show ?thesis by (intro exI [of _ "[]"]) (auto simp: filter_empty_conv list_all_iff)
  next
    case False
    with Cons obtain a r b where "xs = a @ r # b" "p r" "list_all (\<lambda>x. \<not> p x) a" "list_all (\<lambda>x. \<not> p x) b"
      by auto
    with False show ?thesis by (intro exI [of _ "x # a"]) auto
  qed
qed simp

lemma map_update_split:
  "list_all (\<lambda>x. \<not> p x) a \<Longrightarrow> list_all (\<lambda>x. \<not> p x) b \<Longrightarrow> p r \<Longrightarrow>
    map (\<lambda>x. if p x then f x else x) (a @ r # b) = a @ f r # b"
  by (auto simp: list_all_iff intro: map_idI)

lemma seq_unique:
  assumes "queue_ok q" and "rows q = a @ r # b"
  shows "list_all (\<lambda>x. seq x \<noteq> seq r) a" "list_all (\<lambda>x. seq x \<noteq> seq r) b"
  using assms by (auto simp: queue_ok_def list_all_iff sorted_wrt_append)

lemma guarded_Inr:
  "guarded c q k = (Inr x, q') \<longleftrightarrow> is_ok c \<and> k = (Inr x, q')"
  by (cases c) (simp_all add: guarded_def)

lemma is_ok_demand [simp]: "is_ok (demand c m) \<longleftrightarrow> c"
  by (simp add: demand_def)

lemma commit_to_Inr:
  "commit_to ob q1 q2 x = (Inr y, q') \<longleftrightarrow> commit_ans ob = Committed \<and> y = x \<and> q' = q2"
  by (cases "commit_ans ob") (auto simp: commit_to_def)

lemma verify_request_root_ok:
  "is_ok (verify_request_root me c (Some r)) \<longleftrightarrow> is_ok c \<and> rq_device r = my_device me \<and> rq_inode r = my_inode me"
  by (cases c) (simp_all add: verify_request_root_def demand_def)

lemma verify_reconciled_ok: "is_ok (verify_reconciled_leader_claim ob k n) \<Longrightarrow> reconciled ob n"
  by (cases "leader ob k") (simp_all add: verify_reconciled_leader_claim_def)

lemma read_row_Inr:
  assumes "read_row u r = Inr c"
  shows "rq_seq c = seq r" "rq_id c = row_id r" "rq_state c = state r" "rq_device c = root_device r"
    "rq_inode c = root_inode r" "rq_claim c = claim_incarnation r" "rq_error c = error_code r"
    "read_pin u (result_generation r) (result_revision r) = Inr (rq_revision c)"
    "parse_str u (row_id r) \<noteq> None" "length (options_json r) \<le> 4096" "1 \<le> seq r"
    "is_ok (read_pin u (expected_generation r) (expected_revision r))"
  using assms by (auto simp: read_row_def is_ok_iff split: if_splits)

text \<open>The documented law of the UUID library: a printed identifier reads back as itself.\<close>

definition uuid_law :: "uuid_lib \<Rightarrow> bool" where
  "uuid_law u \<longleftrightarrow> (\<forall>g. parse_str u (uuid_text u g) = Some g)"

lemma as_i64_small: "(n :: nat) < 9223372036854775808 \<Longrightarrow> as_i64 n = int n"
  by (simp add: as_i64_def signed_of_nat signed_take_bit_int_eq_self)

lemma read_pin_written:
  "uuid_law u \<Longrightarrow> ip_revision pin < 9223372036854775808 \<Longrightarrow>
    read_pin u (Some (uuid_text u (ip_generation pin))) (Some (as_i64 (ip_revision pin))) = Inr (Some pin)"
  by (simp add: uuid_law_def as_i64_small)

definition outcome_fits :: "completion_outcome \<Rightarrow> bool" where
  "outcome_fits c = (case c of Failed _ \<Rightarrow> True | Done pin \<Rightarrow> ip_revision pin < 9223372036854775808)"

lemma submission_sel:
  assumes "submission r' = submission r"
  shows "seq r' = seq r" "row_id r' = row_id r" "root_device r' = root_device r"
    "root_inode r' = root_inode r" "options_json r' = options_json r"
    "expected_generation r' = expected_generation r" "expected_revision r' = expected_revision r"
  using assms by (cases r; cases r'; simp add: submission_def)+

text \<open>The row a completion has written reads back as the request with exactly that outcome.\<close>

lemma finished_row_reads:
  assumes law: "uuid_law u" and fits: "outcome_fits outcome"
    and old: "read_row u r0 = Inr c" and sub: "submission r = submission r0"
  shows "\<exists>done. read_row u (finish_row u outcome t r) = Inr done \<and> matches_terminal outcome done \<and>
    rq_seq done = seq r \<and> rq_id done = row_id r \<and> rq_claim done = claim_incarnation r \<and>
    rq_device done = root_device r \<and> rq_inode done = root_inode r"
proof -
  note c = read_row_Inr [OF old]
  note s = submission_sel [OF sub]
  obtain e where e: "read_pin u (expected_generation r) (expected_revision r) = Inr e"
    using c(12) by (auto simp: s is_ok_iff)
  show ?thesis
  proof (cases outcome)
    case (Done pin)
    then show ?thesis
      using read_pin_written [OF law, of pin] fits c(9-11) e
      by (simp add: finish_row_def read_row_def outcome_fits_def s)
  next
    case (Failed code)
    then show ?thesis using c(9-11) e by (simp add: finish_row_def read_row_def s)
  qed
qed

lemma finish_ok:
  assumes ok: "queue_ok q"
    and fin: "finish_request_outcome me ob session rq outcome q = (Inr (), q')"
  shows "\<exists>a r b. rows q = a @ r # b \<and> claimed_here me session rq r \<and>
    rows q' = a @ finish_row (uuids me) outcome (clock ob) r # b"
proof -
  let ?p = "claimed_here me session rq"
  from fin have one: "length (filter ?p (rows q)) = 1"
    and q': "q' = update_rows ?p (finish_row (uuids me) outcome (clock ob)) q"
    by (auto simp: finish_request_outcome_def guarded_Inr commit_to_Inr changed_rows_def)
  from filter_single [OF one] obtain a r b
    where "rows q = a @ r # b" "?p r" "list_all (\<lambda>x. \<not> ?p x) a" "list_all (\<lambda>x. \<not> ?p x) b" by auto
  then show ?thesis by (intro exI) (simp add: q' update_rows_def map_update_split del: map_append list.map)
qed

lemma cached_row_Inr:
  assumes "cached_row me ob p q = Inr row"
  shows "same_claim p row \<and> (\<exists>r \<in> set (rows q). read_row (uuids me) r = Inr row)"
  using assms
  by (auto simp: cached_row_def request_by_id_def read_checked_def read_optional_def
      split: if_splits option.splits dest!: find_split)

lemma same_seq_same_row:
  assumes "queue_ok q" and "r \<in> set (rows q)" and "r' \<in> set (rows q)" and "seq r = seq r'"
  shows "r = r'"
proof -
  from assms(2) obtain a b where split: "rows q = a @ r # b" by (auto simp: in_set_conv_decomp)
  from seq_unique [OF assms(1) split] assms(3,4) split show ?thesis by (auto simp: list_all_iff)
qed

lemma submission_persists:
  assumes "lawful q q'" and "r \<in> set (rows q)"
  shows "\<exists>r' \<in> set (rows q'). submission r' = submission r"
proof -
  from assms(2) obtain i where i: "i < length (rows q)" "rows q ! i = r" by (auto simp: in_set_conv_nth)
  with assms(1) evolves_nth [of q q' i] have "i < length (rows q')" "row_evolves r (rows q' ! i)"
    by (auto simp: lawful_def)
  then show ?thesis by (intro bexI [of _ "rows q' ! i"]) (auto simp: row_evolves_def)
qed

definition durable :: "store_id \<Rightarrow> pending_completion \<Rightarrow> queue \<Rightarrow> bool" where
  "durable me p q \<longleftrightarrow> (\<exists>r \<in> set (rows q). \<exists>row. read_row (uuids me) r = Inr row \<and> same_claim p row
     \<and> matches_terminal (pend_outcome p) row)"

lemma cached_durable:
  "cached_row me ob p q = Inr row \<Longrightarrow> matches_terminal (pend_outcome p) row \<Longrightarrow> durable me p q"
  using cached_row_Inr unfolding durable_def by blast

lemma finish_durable:
  assumes ok: "queue_ok q1" and law: "uuid_law (uuids me)" and fits: "outcome_fits (pend_outcome p)"
    and cached: "cached_row me ob p q1 = Inr row0" and others: "lawful q1 q2"
    and fin: "finish_request_outcome me ob' (pend_incarnation p) (pend_request p) (pend_outcome p) q2
      = (Inr (), q3)"
  shows "durable me p q3"
proof -
  from cached_row_Inr [OF cached] obtain r0 where r0: "r0 \<in> set (rows q1)"
    "read_row (uuids me) r0 = Inr row0" "same_claim p row0" by auto
  from submission_persists [OF others r0(1)] obtain r1
    where r1: "r1 \<in> set (rows q2)" "submission r1 = submission r0" by auto
  have ok2: "queue_ok q2" using ok others by (simp add: lawful_def)
  from finish_ok [OF ok2 fin] obtain a r b where r: "rows q2 = a @ r # b"
    "claimed_here me (pend_incarnation p) (pend_request p) r"
    "rows q3 = a @ finish_row (uuids me) (pend_outcome p) (clock ob') r # b" by auto
  note c = read_row_Inr [OF r0(2)] and s = submission_sel [OF r1(2)]
  have "seq r1 = seq r" using r(2) r0(3) c s by (simp add: same_claim_def claimed_here_def)
  then have "r1 = r" using same_seq_same_row [OF ok2 r1(1)] r(1) by simp
  with finished_row_reads [OF law fits r0(2), of r "clock ob'"] r1(2) s c r0(3) r(2)
  obtain row where "read_row (uuids me) (finish_row (uuids me) (pend_outcome p) (clock ob') r) = Inr row"
    "matches_terminal (pend_outcome p) row" "same_claim p row"
    by (auto simp: same_claim_def claimed_here_def)
  then show ?thesis unfolding durable_def r(3) by auto
qed

lemma retry_cases:
  assumes "retry_recorded_completion me ob_read ob_write ob_reread session slot q = (Inr True, slot', q')"
  shows "slot' = None \<and> (\<exists>p. slot = Some p \<and> pend_incarnation p = session \<and>
    ((\<exists>row. cached_row me ob_read p q' = Inr row \<and> matches_terminal (pend_outcome p) row)
     \<or> (\<exists>row. cached_row me ob_read p (between ob_read q) = Inr row \<and>
          finish_request_outcome me ob_write session (pend_request p) (pend_outcome p)
            (between ob_write (between ob_read q)) = (Inr (), q'))
     \<or> (\<exists>row. cached_row me ob_reread p q' = Inr row \<and> matches_terminal (pend_outcome p) row)))"
  using assms
  by (auto simp: retry_recorded_completion_def Let_def split: sum.splits option.splits if_splits prod.splits)

subsection \<open>Properties\<close>

definition sample_me :: store_id where
  "sample_me = \<lparr>my_device = ''1'', my_inode = ''2'', uuids =
     \<lparr>parse_str = (\<lambda>s. Some (word_of_nat (length s))), uuid_text = (\<lambda>g. replicate (unat g) (CHR ''x''))\<rparr>\<rparr>"

definition sample_ob :: "string \<Rightarrow> observed" where
  "sample_ob i = \<lparr>leader = (\<lambda>_. Inr ()), root = (\<lambda>_. Inr ()), root_matches = Inr (), reconciled = (\<lambda>_. True),
     connect = Inr (), existing = Inr True, begin_tx = Inr (), clock = ''9'', fresh_id = i,
     commit_ans = Committed, index_now = Inr \<lparr>ip_generation = 1, ip_revision = 3\<rparr>, baseline = Inr None,
     replaced = (\<lambda>_. Inr False), absent_virgin = Inr False, between = (\<lambda>q. q)\<rparr>"

definition sample_options :: index_options where
  "sample_options = \<lparr>given_scip = None, given_manifest = None, given_max = 5\<rparr>"

abbreviation sample_queue :: queue where
  "sample_queue \<equiv> snd (enqueue_request (\<lambda>_. ''{}'') sample_me (sample_ob ''a'') sample_options None empty_queue)"

abbreviation sample_claimed :: queue where
  "sample_claimed \<equiv> snd (claim_request sample_me (sample_ob ''b'') ''L'' sample_queue)"

abbreviation sample_request :: queue_request where
  "sample_request \<equiv> (accepted sample_me (sample_ob ''a'') ''{}'' None 1)\<lparr>rq_claim := Some ''L''\<rparr>"

lemmas sample_defs = Let_def sample_me_def sample_ob_def sample_options_def empty_queue_def
  enqueue_request_def reconcile_options_from_def guarded_def demand_def options_valid_def
  require_absolute_optional_inputs_def commit_to_def new_row_def accepted_def
  claim_request_def verify_reconciled_leader_claim_def read_optional_def read_row_def unfinished_def
  verify_request_root_def update_rows_def start_claim_def

lemma sample_law: "uuid_law (uuids sample_me)"
  by (simp add: uuid_law_def sample_me_def)

lemma empty_ok: "queue_ok empty_queue"
  by (simp add: queue_ok_def empty_queue_def)

lemma sample_queue_eval: "sample_queue = \<lparr>rows = [new_row sample_me (sample_ob ''a'') ''{}'' None 1], last_seq = 1\<rparr>"
  by (simp add: sample_defs)

lemma sample_ok: "queue_ok sample_queue" "queue_ok sample_claimed"
proof -
  show q: "queue_ok sample_queue"
    using enqueue_lawful [of empty_queue] empty_ok by (auto simp: lawful_def)
  show "queue_ok sample_claimed"
    using claim_lawful [of sample_queue] q by (auto simp: lawful_def)
qed

lemma sample_claimed_eval: "sample_claimed =
    \<lparr>rows = [start_claim ''L'' ''9'' (new_row sample_me (sample_ob ''a'') ''{}'' None 1)], last_seq = 1\<rparr>"
  unfolding sample_queue_eval by (simp add: sample_defs)

text \<open>Whatever stores, leaders and processes do to the queue, in any order and with any failed or
  ambiguous commit, every row satisfies the table's constraints (so that the constraints never reject
  a write), and sequence numbers and identifiers are unique and increasing.\<close>

theorem queue_always_checked:
  assumes "queue_run empty_queue q"
  shows "list_all row_check (rows q) \<and> sorted_wrt (<) (map seq (rows q)) \<and> distinct (map row_id (rows q))
    \<and> list_all (\<lambda>r. 1 \<le> seq r \<and> seq r \<le> last_seq q) (rows q)"
  using run_lawful [OF assms] empty_ok by (simp add: lawful_def queue_ok_def)

theorem queue_always_checked_witness: "list_all row_check (rows sample_claimed)"
  using queue_always_checked [OF queue_run.claim [OF queue_run.enqueue [OF queue_run.idle]]] by blast

text \<open>C12: The queue never forgets: in any history an accepted request keeps its place and what was
  submitted, and a request that is done or failed never changes again.\<close>

theorem requests_are_final:
  assumes "queue_run q q'" and "i < length (rows q)"
  shows "i < length (rows q') \<and> submission (rows q' ! i) = submission (rows q ! i)
    \<and> (\<not> unfinished (rows q ! i) \<longrightarrow> rows q' ! i = rows q ! i)"
  using run_lawful [OF assms(1)] evolves_nth [of q q' i] assms(2)
  by (simp add: lawful_def row_evolves_def finished_def)

theorem requests_are_final_witness:
  "submission (rows sample_claimed ! 0) = submission (rows sample_queue ! 0)"
proof -
  have "queue_run sample_queue sample_claimed" by (rule queue_run.claim [OF queue_run.idle])
  from requests_are_final [OF this, of 0] show ?thesis by (simp add: sample_queue_eval)
qed

lemma claim_shape:
  assumes ok: "queue_ok q" and claim: "claim_request me ob session q = (Inr (Some c), q')"
  shows "\<exists>a r b. rows q = a @ r # b \<and> list_all (\<lambda>x. \<not> unfinished x) a \<and> unfinished r
    \<and> of_root me r \<and> claim_incarnation r \<noteq> Some session \<and> reconciled ob 0 \<and> reconciled ob 1
    \<and> rows q' = a @ start_claim session (clock ob) r # b
    \<and> read_row (uuids me) (start_claim session (clock ob) r) = Inr c"
proof -
  obtain row where row: "read_optional (uuids me) (find unfinished (rows q)) = Inr (Some row)"
    and checks: "is_ok (verify_reconciled_leader_claim ob 0 0)" "is_ok (verify_reconciled_leader_claim ob 3 1)"
      "is_ok (verify_request_root me (root ob 0) (Some row))"
      "\<not> (rq_state row = ''running'' \<and> rq_claim row = Some session)"
    and q': "q' = update_rows (\<lambda>r. seq r = rq_seq row \<and> unfinished r) (start_claim session (clock ob)) q"
    and c: "\<exists>r. find (\<lambda>r. seq r = rq_seq row) (rows q') = Some r \<and> read_row (uuids me) r = Inr c"
    using claim unfolding claim_request_def Let_def guarded_Inr
    by (auto simp: guarded_Inr commit_to_Inr split: sum.splits option.splits if_splits)
  from row obtain r where r: "find unfinished (rows q) = Some r" "read_row (uuids me) r = Inr row"
    by (auto simp: read_optional_def split: option.splits)
  from find_split [OF r(1)] obtain a b where split: "rows q = a @ r # b" "unfinished r"
    "list_all (\<lambda>x. \<not> unfinished x) a" by auto
  note sel = read_row_Inr [OF r(2)]
  have rest: "list_all (\<lambda>x. \<not> (seq x = rq_seq row \<and> unfinished x)) a"
    "list_all (\<lambda>x. \<not> (seq x = rq_seq row \<and> unfinished x)) b"
    using seq_unique [OF ok split(1)] sel(1) by (auto simp: list_all_iff)
  have new: "rows q' = a @ start_claim session (clock ob) r # b"
    unfolding q' update_rows_def using split sel(1) rest
    by (simp add: map_update_split del: map_append list.map)
  have "find (\<lambda>r. seq r = rq_seq row) a = None"
    using seq_unique(1) [OF ok split(1)] sel(1) by (auto simp: find_None_iff list_all_iff)
  with c new sel(1) have "read_row (uuids me) (start_claim session (clock ob) r) = Inr c"
    by (auto simp: start_claim_def find_after)
  moreover have "claim_incarnation r \<noteq> Some session"
    using checks(4) sel split(2) ok split(1) by (auto simp: unfinished_def queue_ok_def row_check_def)
  ultimately show ?thesis
    using split new checks verify_reconciled_ok sel
    by (intro exI [of _ a] exI [of _ r] exI [of _ b]) (auto simp: of_root_def verify_request_root_ok)
qed

text \<open>C10: A leader claims first come, first served: what \<open>claim_request\<close> hands out is the unfinished request
  with the least sequence number, of the live root, which this leader did not hold already, and
  only after the leader's reconciliation; nothing else in the queue changes.\<close>

theorem claim_first_come:
  assumes ok: "queue_ok q" and claim: "claim_request me ob session q = (Inr (Some c), q')"
  shows "\<exists>a r b. rows q = a @ r # b \<and> list_all (\<lambda>x. \<not> unfinished x) a \<and> unfinished r
    \<and> of_root me r \<and> claim_incarnation r \<noteq> Some session \<and> reconciled ob 0 \<and> reconciled ob 1
    \<and> rows q' = a @ start_claim session (clock ob) r # b
    \<and> read_row (uuids me) (start_claim session (clock ob) r) = Inr c"
  using assms by (rule claim_shape)

theorem claim_first_come_witness: "\<exists>a r b. rows sample_queue = a @ r # b \<and> of_root sample_me r"
proof -
  have "\<exists>c. fst (claim_request sample_me (sample_ob ''b'') ''L'' sample_queue) = Inr (Some c)"
    unfolding sample_queue_eval by (simp add: sample_defs)
  then obtain c where "claim_request sample_me (sample_ob ''b'') ''L'' sample_queue = (Inr (Some c), sample_claimed)"
    by (metis prod.collapse)
  from claim_first_come [OF sample_ok(1) this] show ?thesis by blast
qed

text \<open>Only the holder of a claim can finish it: a successful \<open>finish_request\<close> rewrites exactly one
  row, running under the caller's incarnation, with the outcome of the result (a published result
  must be the current index); once the claim has moved to another leader the call fails and
  leaves the queue as it is.\<close>

theorem finish_only_own_claim:
  assumes ok: "queue_ok q"
  shows "(finish_request me ob session rq result q = (Inr (), q') \<longrightarrow>
      (\<exists>outcome a r b. from_result result = Inr outcome \<and> rows q = a @ r # b \<and> claimed_here me session rq r
        \<and> rows q' = a @ finish_row (uuids me) outcome (clock ob) r # b
        \<and> (\<forall>pin. result = Inr pin \<longrightarrow> index_now ob = Inr pin)))
    \<and> (list_all (\<lambda>r. \<not> claimed_here me session rq r) (rows q) \<longrightarrow>
        \<not> is_ok (fst (finish_request me ob session rq result q)) \<and> snd (finish_request me ob session rq result q) = q)"
    (is "?success \<and> ?stale")
proof
  show ?success
  proof
    assume fin: "finish_request me ob session rq result q = (Inr (), q')"
    then obtain outcome where out: "from_result result = Inr outcome"
      and f: "finish_request_outcome me ob session rq outcome q = (Inr (), q')"
      by (auto simp: finish_request_def split: sum.splits)
    have "index_now ob = Inr pin" if "result = Inr pin" for pin
      using f out that by (auto simp: from_result_def finish_request_outcome_def guarded_Inr is_ok_iff demand_def
          split: if_splits)
    with out finish_ok [OF ok f] show "\<exists>outcome a r b. from_result result = Inr outcome \<and> rows q = a @ r # b
        \<and> claimed_here me session rq r \<and> rows q' = a @ finish_row (uuids me) outcome (clock ob) r # b
        \<and> (\<forall>pin. result = Inr pin \<longrightarrow> index_now ob = Inr pin)" by blast
  qed
  show ?stale
  proof
    assume "list_all (\<lambda>r. \<not> claimed_here me session rq r) (rows q)"
    then have none: "changed_rows (claimed_here me session rq) q = 0"
      by (simp add: changed_rows_def list_all_iff)
    have "\<not> is_ok (fst (finish_request_outcome me ob session rq outcome q))
      \<and> snd (finish_request_outcome me ob session rq outcome q) = q" for outcome
      unfolding finish_request_outcome_def none by (simp add: guarded_def demand_def split: sum.split)
    then show "\<not> is_ok (fst (finish_request me ob session rq result q)) \<and> snd (finish_request me ob session rq result q) = q"
      by (simp add: finish_request_def split: sum.split)
  qed
qed

theorem finish_only_own_claim_witness:
  "snd (finish_request sample_me (sample_ob ''c'') ''M'' sample_request
     (Inl (plain ''x'')) sample_claimed) = sample_claimed"
proof -
  have "list_all (\<lambda>r. \<not> claimed_here sample_me ''M'' sample_request r) (rows sample_claimed)"
    unfolding sample_claimed_eval by (simp add: claimed_here_def start_claim_def)
  with finish_only_own_claim [OF sample_ok(2)] show ?thesis by blast
qed

text \<open>C11: A recorded completion survives failed and ambiguous commits: while other processes do what they
  like between its transactions, \<open>retry_recorded_completion\<close> reports success only when the row of the
  recorded claim is durably finished with exactly the recorded outcome, and then the slot is empty;
  after an error the slot still holds the completion.\<close>

theorem recorded_completion_exact:
  assumes ok: "queue_ok q" and law: "uuid_law (uuids me)" and fits: "outcome_fits (pend_outcome p)"
    and others: "\<forall>q. queue_run q (between ob_read q) \<and> queue_run q (between ob_write q)"
    and retry: "retry_recorded_completion me ob_read ob_write ob_reread session (Some p) q = (answer, slot', q')"
  shows "(answer = Inr True \<longrightarrow> slot' = None \<and> pend_incarnation p = session \<and>
      (\<exists>r \<in> set (rows q'). \<exists>row. read_row (uuids me) r = Inr row \<and> same_claim p row
        \<and> matches_terminal (pend_outcome p) row))
    \<and> (\<forall>e. answer = Inl e \<longrightarrow> slot' = Some p)"
proof
  show "answer = Inr True \<longrightarrow> slot' = None \<and> pend_incarnation p = session \<and>
      (\<exists>r \<in> set (rows q'). \<exists>row. read_row (uuids me) r = Inr row \<and> same_claim p row
        \<and> matches_terminal (pend_outcome p) row)"
  proof
    assume "answer = Inr True"
    with retry_cases [of me ob_read ob_write ob_reread session "Some p" q slot' q'] retry
    have c: "slot' = None" "pend_incarnation p = session"
      "(\<exists>row ob. cached_row me ob p q' = Inr row \<and> matches_terminal (pend_outcome p) row)
       \<or> (\<exists>row. cached_row me ob_read p (between ob_read q) = Inr row \<and>
          finish_request_outcome me ob_write session (pend_request p) (pend_outcome p)
            (between ob_write (between ob_read q)) = (Inr (), q'))" by auto
    have q1: "queue_ok (between ob_read q)" "lawful (between ob_read q) (between ob_write (between ob_read q))"
      using run_lawful others ok by (auto simp: lawful_def)
    from c(3) have "durable me p q'"
      using cached_durable finish_durable [OF q1(1) law fits _ q1(2)] c(2) by blast
    with c(1,2) show "slot' = None \<and> pend_incarnation p = session \<and>
      (\<exists>r \<in> set (rows q'). \<exists>row. read_row (uuids me) r = Inr row \<and> same_claim p row
        \<and> matches_terminal (pend_outcome p) row)" by (simp add: durable_def)
  qed
  show "\<forall>e. answer = Inl e \<longrightarrow> slot' = Some p"
    using retry by (auto simp: retry_recorded_completion_def Let_def
        split: sum.splits if_splits prod.splits)
qed

definition sample_pending :: pending_completion where
  "sample_pending = \<lparr>pend_request = sample_request, pend_outcome = Failed ''index_failed'', pend_incarnation = ''L''\<rparr>"

theorem recorded_completion_exact_witness:
  "\<exists>q' :: queue. (\<exists>r \<in> set (rows q'). \<exists>row. read_row (uuids sample_me) r = Inr row \<and> same_claim sample_pending row
     \<and> matches_terminal (pend_outcome sample_pending) row)"
proof -
  let ?ob = "sample_ob ''c''"
  have "fst (retry_recorded_completion sample_me ?ob (?ob\<lparr>commit_ans := Unsure (plain ''busy'')\<rparr>) ?ob ''L''
      (Some sample_pending) sample_claimed) = Inr True"
    unfolding sample_claimed_eval
    by (simp add: retry_recorded_completion_def cached_row_def request_by_id_def read_checked_def
        finish_request_outcome_def sample_defs sample_pending_def same_claim_def is_terminal_def
        changed_rows_def claimed_here_def finish_row_def)
  then obtain s q' where retry: "retry_recorded_completion sample_me ?ob
      (?ob\<lparr>commit_ans := Unsure (plain ''busy'')\<rparr>) ?ob ''L'' (Some sample_pending) sample_claimed = (Inr True, s, q')"
    by (metis prod.collapse)
  have "\<forall>q. queue_run q (between ?ob q) \<and> queue_run q (between (?ob\<lparr>commit_ans := Unsure (plain ''busy'')\<rparr>) q)"
    by (simp add: sample_ob_def queue_run.idle)
  moreover have "outcome_fits (pend_outcome sample_pending)" by (simp add: outcome_fits_def sample_pending_def)
  ultimately show ?thesis using recorded_completion_exact [OF sample_ok(2) sample_law _ _ retry] by blast
qed

text \<open>The acknowledgement of an accepted request is the row that was committed: \<open>enqueue_request\<close>
  appends one queued row of this root, and reading that row back gives exactly what was returned.\<close>

theorem acknowledged_is_durable:
  assumes ok: "queue_ok q" and law: "uuid_law (uuids me)" and id: "parse_str (uuids me) (fresh_id ob) \<noteq> None"
    and fits: "\<forall>pin. expected = Some pin \<longrightarrow> ip_revision pin < 9223372036854775808"
    and ack: "enqueue_request encode me ob given expected q = (Inr r, q')"
  shows "\<exists>row. rows q' = rows q @ [row] \<and> read_row (uuids me) row = Inr r \<and> unfinished row \<and> of_root me row
    \<and> rq_expected r = expected \<and> rq_options r = encode (reconcile_options_from given)"
proof -
  let ?enc = "encode (reconcile_options_from given)" and ?n = "last_seq q + 1"
  have len: "length ?enc \<le> 4096" and r: "r = accepted me ob ?enc expected ?n"
    and q': "rows q' = rows q @ [new_row me ob ?enc expected ?n]"
    using ack by (auto simp: enqueue_request_def Let_def guarded_Inr commit_to_def split: sum.splits commit_answer.splits)
  have "0 \<le> last_seq q" using ok by (simp add: queue_ok_def)
  then have "read_row (uuids me) (new_row me ob ?enc expected ?n) = Inr r"
    using len id law fits
    by (cases expected) (simp_all add: r read_row_def new_row_def accepted_def uuid_law_def as_i64_small)
  with q' show ?thesis
    by (intro exI) (auto simp: r new_row_def accepted_def unfinished_def of_root_def)
qed

theorem acknowledged_is_durable_witness:
  "read_row (uuids sample_me) (last (rows sample_queue))
     = Inr (accepted sample_me (sample_ob ''a'') ''{}'' None 1)"
proof -
  have "enqueue_request (\<lambda>_. ''{}'') sample_me (sample_ob ''a'') sample_options None empty_queue
      = (Inr (accepted sample_me (sample_ob ''a'') ''{}'' None 1), sample_queue)"
    by (simp add: sample_defs)
  from acknowledged_is_durable [OF empty_ok sample_law _ _ this]
  show ?thesis by (auto simp: sample_me_def)
qed

subsection \<open>The maintenance probe\<close>

text \<open>
  \<open>MaintenanceQueueProbe::check_with_barrier\<close>. Its observations are functions of the moment at which
  they are made: whether the pathname still names the probed file (\<open>pathname_unchanged\<close>), whether a
  sidecar file exists, whether the file has a rollback-journal header, the connection's autocommit
  flag, the data version it reads, and whether it finds an unfinished request.
\<close>

record probe_view =
  pathname_ok :: "nat \<Rightarrow> bool"
  sidecar :: "nat \<Rightarrow> bool"
  delete_header :: "nat \<Rightarrow> bool"
  autocommit :: "nat \<Rightarrow> bool"
  data_version :: "nat \<Rightarrow> int option"
  finds_unfinished :: "nat \<Rightarrow> bool option"

record probe =
  has_db :: bool
  has_file :: bool
  baseline_version :: int
  initial_pending :: bool

datatype maintenance_state = Clear | Pending | Unknown

text \<open>\<open>fence_unchanged\<close>, made at the moments from \<open>t\<close>: the data version is sampled before the last look at the files.\<close>

definition fence_unchanged :: "probe_view \<Rightarrow> probe \<Rightarrow> int option \<Rightarrow> nat \<Rightarrow> bool" where
  "fence_unchanged v p version t \<longleftrightarrow>
     (has_db p \<longrightarrow> autocommit v t \<and> version \<noteq> None \<and> data_version v (t + 1) = version) \<and>
     (has_file p \<longrightarrow> delete_header v (t + 2)) \<and> pathname_ok v (t + 3) \<and> \<not> sidecar v (t + 4)"

definition check_with_barrier :: "probe_view \<Rightarrow> probe \<Rightarrow> maintenance_state" where
  "check_with_barrier v p =
     (if \<not> pathname_ok v 0 \<or> sidecar v 1 then Unknown
      else if \<not> has_db p then (if fence_unchanged v p None 2 then Clear else Unknown)
      else if \<not> (has_file p \<and> delete_header v 2) \<or> \<not> autocommit v 3 then Unknown
      else (case data_version v 4 of
          None \<Rightarrow> Unknown
        | Some version \<Rightarrow>
            if version = baseline_version p then
              (if fence_unchanged v p (Some version) 5 then (if initial_pending p then Pending else Clear)
               else Unknown)
            else (case finds_unfinished v 5 of
                None \<Rightarrow> Unknown
              | Some pending \<Rightarrow>
                  if \<not> fence_unchanged v p (Some version) 6 then Unknown
                  else if pending then Pending else Clear)))"

text \<open>Maintenance goes ahead only on proof: if the database changes only together with its data version,
  then a \<open>Clear\<close> means that no request is waiting at the last moment the version was sampled, and no
  journal sidecar existed at the end; a probe of an absent queue says \<open>Clear\<close> only while it stays absent.\<close>

theorem clear_means_no_request:
  assumes committed: "\<forall>t u n. data_version v t = Some n \<and> data_version v u = Some n \<longrightarrow>
      (\<forall>s. t \<le> s \<and> s \<le> u \<longrightarrow> waiting s = waiting t)"
    and reads: "\<forall>t b. finds_unfinished v t = Some b \<longrightarrow> waiting t = b"
    and opened: "\<forall>t. data_version v t = Some (baseline_version p) \<longrightarrow> waiting t = initial_pending p"
    and clear: "check_with_barrier v p = Clear"
  shows "(has_db p \<longrightarrow> (\<exists>t \<ge> 6. data_version v t \<noteq> None \<and> \<not> waiting t \<and> autocommit v (t - 1) \<and> delete_header v (t + 1)))
    \<and> (\<exists>t \<ge> 5. pathname_ok v t \<and> \<not> sidecar v (t + 1))"
proof (cases "has_db p")
  case False
  with clear have "fence_unchanged v p None 2"
    by (simp add: check_with_barrier_def split: if_splits)
  then have "pathname_ok v 5" "\<not> sidecar v (5 + 1)" by (simp_all add: fence_unchanged_def)
  with False show ?thesis by blast
next
  case True
  with clear obtain n k where n: "has_file p" "data_version v 4 = Some n"
    and fence: "fence_unchanged v p (Some n) k" and k: "k = 5 \<or> k = 6"
    and why: "k = 5 \<and> n = baseline_version p \<and> \<not> initial_pending p \<or> k = 6 \<and> finds_unfinished v 5 = Some False"
    by (simp add: check_with_barrier_def split: if_splits option.splits)
  from fence True n(1) have f: "autocommit v k" "data_version v (k + 1) = Some n" "delete_header v (k + 2)"
    "pathname_ok v (k + 3)" "\<not> sidecar v (k + 4)"
    by (simp_all add: fence_unchanged_def)
  from why have "\<not> waiting (k + 1)"
  proof
    assume "k = 5 \<and> n = baseline_version p \<and> \<not> initial_pending p"
    moreover from this opened [rule_format, of "k + 1"] f(2) have "waiting (k + 1) = initial_pending p" by simp
    ultimately show ?thesis by simp
  next
    assume w: "k = 6 \<and> finds_unfinished v 5 = Some False"
    then have "data_version v 7 = Some n" using f(2) by simp
    then have "waiting 5 = waiting 4" "waiting 7 = waiting 4"
      using committed [rule_format, of 4 n 7 5] committed [rule_format, of 4 n 7 7] n(2) by simp_all
    moreover have "\<not> waiting 5" using reads [rule_format, of 5 False] w by simp
    ultimately show ?thesis using w by simp
  qed
  with f k have "\<exists>t \<ge> 6. data_version v t \<noteq> None \<and> \<not> waiting t \<and> autocommit v (t - 1) \<and> delete_header v (t + 1)"
    by (intro exI [of _ "k + 1"]) (simp, arith)
  moreover have "\<exists>t \<ge> 5. pathname_ok v t \<and> \<not> sidecar v (t + 1)"
    using f(4,5) k by (intro exI [of _ "k + 3"]) (simp add: add.commute, arith)
  ultimately show ?thesis by blast
qed

definition sample_view :: probe_view where
  "sample_view = \<lparr>pathname_ok = (\<lambda>_. True), sidecar = (\<lambda>_. False), delete_header = (\<lambda>_. True),
     autocommit = (\<lambda>_. True), data_version = (\<lambda>_. Some 2), finds_unfinished = (\<lambda>_. Some False)\<rparr>"

theorem clear_means_no_request_witness:
  "\<exists>t \<ge> 6. data_version sample_view t \<noteq> None"
proof -
  let ?p = "\<lparr>has_db = True, has_file = True, baseline_version = 1, initial_pending = True\<rparr>"
  have "check_with_barrier sample_view ?p = Clear"
    by (simp add: check_with_barrier_def fence_unchanged_def sample_view_def)
  from clear_means_no_request [OF _ _ _ this, of "\<lambda>_. False"]
  show ?thesis by (auto simp: sample_view_def)
qed



end
