(* ===== verification/Effects.thy ===== *)
theory Effects
  imports Requests
begin

section \<open>Sequences of steps that may fail\<close>

text \<open>
  A step takes a state to its answer and the state it leaves, as a function that returns early with
  \<open>?\<close>; \<open>and_then\<close> is the sequence of two steps. The state is the watcher and a log of actions for the
  coordinator, and the time for the capture.
\<close>

definition and_then :: "('s \<Rightarrow> 'a fallible \<times> 's) \<Rightarrow> ('a \<Rightarrow> 's \<Rightarrow> 'b fallible \<times> 's) \<Rightarrow> 's \<Rightarrow> 'b fallible \<times> 's" where
  "and_then m f s = (case m s of (Inl e, s') \<Rightarrow> (Inl e, s') | (Inr x, s') \<Rightarrow> f x s')"

definition answer :: "'a fallible \<Rightarrow> 's \<Rightarrow> 'a fallible \<times> 's" where
  "answer r s = (r, s)"

lemma and_then_Inr [simp]:
  "and_then m f s = (Inr y, s'') \<longleftrightarrow> (\<exists>x s'. m s = (Inr x, s') \<and> f x s' = (Inr y, s''))"
  by (auto simp: and_then_def split: prod.splits sum.splits)

lemma and_then_InrE:
  assumes "and_then m f s = (Inr y, s'')"
  obtains x s' where "m s = (Inr x, s')" and "f x s' = (Inr y, s'')"
  using assms by auto

lemma and_thenI: "m s = (Inr x, s') \<Longrightarrow> f x s' = r \<Longrightarrow> and_then m f s = r"
  by (simp add: and_then_def)

lemma answer_holds: "r = r' \<Longrightarrow> answer r s = (r', s)"
  by (simp add: answer_def)

lemma and_then_Inl:
  "and_then m f s = (Inl e, s'') \<longleftrightarrow> m s = (Inl e, s'') \<or> (\<exists>x s'. m s = (Inr x, s') \<and> f x s' = (Inl e, s''))"
  by (auto simp: and_then_def split: prod.splits sum.splits)

lemma answer_eq [simp]: "answer r s = (r', s') \<longleftrightarrow> r = r' \<and> s' = s"
  by (auto simp: answer_def)

end
