(* ===== verification/Gate.thy ===== *)
theory Gate
  imports Prelude
begin

section \<open>The publication gate (\<open>store.rs\<close>)\<close>

text \<open>
  One gate per index orders publications and maintenance of one process. Its state is what the
  mutex protects; the threads are only counted, by what they hold or wait for. A step is one
  critical section of \<open>enter_publication\<close>, \<open>maintenance_try_enter\<close> or of dropping a permit.
\<close>

record gate_state =
  g_active :: bool
  g_maintenance :: bool
  g_waiting :: nat

definition open_gate :: gate_state where
  "open_gate = \<lparr>g_active = False, g_maintenance = False, g_waiting = 0\<rparr>"

datatype wait_reason = NoWait | ForMaintenance | ForPublisher

text \<open>One turn of the loop of \<open>enter_publication\<close>: refused (with the error), granted or waiting on.\<close>

datatype poll = Refused string | Granted | Waits

definition start_waiting :: "gate_state \<Rightarrow> gate_state" where
  "start_waiting g = g\<lparr>g_waiting := g_waiting g + 1\<rparr>"

definition enter_poll :: "bool \<Rightarrow> nat \<Rightarrow> gate_state \<Rightarrow> poll \<times> gate_state" where
  "enter_poll cancelled remaining g =
     (if cancelled then (Refused ''index publication cancelled'', g\<lparr>g_waiting := g_waiting g - 1\<rparr>)
      else if \<not> g_active g
      then (Granted, g\<lparr>g_waiting := g_waiting g - 1, g_active := True, g_maintenance := False\<rparr>)
      else if remaining = 0 then (Refused ''storage_busy: SQLite lock contention'', g\<lparr>g_waiting := g_waiting g - 1\<rparr>)
      else (Waits, g))"

definition wait_reason_of :: "wait_reason \<Rightarrow> gate_state \<Rightarrow> wait_reason" where
  "wait_reason_of r g = (if r = NoWait then (if g_maintenance g then ForMaintenance else ForPublisher) else r)"

definition drop_permit :: "gate_state \<Rightarrow> gate_state" where
  "drop_permit g = g\<lparr>g_active := False, g_maintenance := False\<rparr>"

text \<open>\<open>maintenance_try_enter\<close>: \<open>free\<close> says whether \<open>try_lock\<close> got the mutex.\<close>

definition maintenance_try_enter :: "bool \<Rightarrow> gate_state \<Rightarrow> bool \<times> gate_state" where
  "maintenance_try_enter free g =
     (if \<not> free \<or> g_active g \<or> g_waiting g \<noteq> 0 then (False, g)
      else (True, g\<lparr>g_active := True, g_maintenance := True\<rparr>))"

text \<open>All threads of the process: how many wait, publish and maintain.\<close>

record crowd =
  gate :: gate_state
  waiters :: nat
  publishers :: nat
  maintainers :: nat

definition empty_crowd :: crowd where
  "empty_crowd = \<lparr>gate = open_gate, waiters = 0, publishers = 0, maintainers = 0\<rparr>"

datatype gate_event = Arrive | Poll bool nat | DropPublish | TryMaintain bool | DropMaintain

text \<open>A thread can only poll when it waits, and only drop a permit it holds.\<close>

definition crowd_step :: "crowd \<Rightarrow> gate_event \<Rightarrow> crowd" where
  "crowd_step c e = (case e of
       Arrive \<Rightarrow> c\<lparr>gate := start_waiting (gate c), waiters := waiters c + 1\<rparr>
     | Poll cancelled remaining \<Rightarrow>
         if waiters c = 0 then c
         else (case enter_poll cancelled remaining (gate c) of
             (Granted, g) \<Rightarrow> c\<lparr>gate := g, waiters := waiters c - 1, publishers := publishers c + 1\<rparr>
           | (Refused _, g) \<Rightarrow> c\<lparr>gate := g, waiters := waiters c - 1\<rparr>
           | (Waits, g) \<Rightarrow> c\<lparr>gate := g\<rparr>)
     | DropPublish \<Rightarrow> if publishers c = 0 then c
         else c\<lparr>gate := drop_permit (gate c), publishers := publishers c - 1\<rparr>
     | TryMaintain free \<Rightarrow> (case maintenance_try_enter free (gate c) of
           (True, g) \<Rightarrow> c\<lparr>gate := g, maintainers := maintainers c + 1\<rparr>
         | (False, g) \<Rightarrow> c\<lparr>gate := g\<rparr>)
     | DropMaintain \<Rightarrow> if maintainers c = 0 then c
         else c\<lparr>gate := drop_permit (gate c), maintainers := maintainers c - 1\<rparr>)"

definition gate_inv :: "crowd \<Rightarrow> bool" where
  "gate_inv c \<longleftrightarrow> g_waiting (gate c) = waiters c
     \<and> publishers c + maintainers c = (if g_active (gate c) then 1 else 0)
     \<and> (g_maintenance (gate c) \<longleftrightarrow> maintainers c = 1)"

lemma crowd_step_inv: "gate_inv c \<Longrightarrow> gate_inv (crowd_step c e)"
  by (cases e) (auto simp: gate_inv_def crowd_step_def start_waiting_def enter_poll_def drop_permit_def
      maintenance_try_enter_def split: if_splits)

interpretation gate_runs: stepping crowd_step gate_inv
  by unfold_locales (rule crowd_step_inv)

text \<open>C25: In every run of publishers and maintainers the gate admits at most one of them at a time and
  counts exactly those who wait; a maintenance unit enters only when no publication holds the gate
  or waits for it, and once the holder has left, the next poll of a waiting publication that is not
  cancelled enters.\<close>

theorem gate_exclusive:
  fixes es :: "gate_event list"
  defines "c \<equiv> foldl crowd_step empty_crowd es"
  shows "publishers c + maintainers c \<le> 1 \<and> g_waiting (gate c) = waiters c
    \<and> (maintainers (crowd_step c (TryMaintain free)) > maintainers c \<longrightarrow>
         publishers c = 0 \<and> maintainers c = 0 \<and> waiters c = 0)
    \<and> (publishers c + maintainers c = 0 \<and> 0 < waiters c \<longrightarrow>
         publishers (crowd_step c (Poll False remaining)) = 1)"
proof -
  have inv: "gate_inv c" unfolding c_def
    by (rule gate_runs.run_keeps) (simp add: gate_inv_def empty_crowd_def open_gate_def)
  then show ?thesis
    by (auto simp: gate_inv_def crowd_step_def enter_poll_def maintenance_try_enter_def split: if_splits)
qed

theorem gate_exclusive_witness:
  "publishers (crowd_step (foldl crowd_step empty_crowd [Arrive, TryMaintain True]) (Poll False 0)) = 1"
proof -
  have "publishers (foldl crowd_step empty_crowd [Arrive, TryMaintain True])
      + maintainers (foldl crowd_step empty_crowd [Arrive, TryMaintain True]) = 0
    \<and> 0 < waiters (foldl crowd_step empty_crowd [Arrive, TryMaintain True])"
    by (simp add: crowd_step_def empty_crowd_def open_gate_def start_waiting_def maintenance_try_enter_def)
  with gate_exclusive [of "[Arrive, TryMaintain True]" True 0] show ?thesis by blast
qed

end
