(* ===== verification/Coordinator.thy ===== *)
theory Coordinator
  imports Watch Effects Gate
begin

section \<open>The index coordinator (\<open>index_coordinator.rs\<close>)\<close>

text \<open>
  One publication job, the leader's inventory tick and the drain of the request queue. Captures,
  extraction and the SQLite publications are answers of the environment; what is modelled is the
  order of the checks around them, and what the tick and the drain leave in the watcher and in the
  queue on every branch. A job keeps a log of what it did, so that the order can be stated.
\<close>

subsection \<open>A publication job\<close>

datatype publish_mode = UnchangedHead | LocalRevision | FullRevision

datatype 'c act = SourcesVerified 'c | NotCancelled | LeaderVerified | CutoffHeld
  | Publish publish_mode 'c | Attested index_pin

text \<open>
  The answers one job gets: \<open>j_cancel k\<close> is the k-th load of the cancel flag, \<open>j_cutoff k\<close> the k-th
  call of the cutoff, which may change the state of its caller; \<open>j_guard\<close> is \<open>leader_guard()?\<close>.
  \<open>j_prepare\<close> and \<open>j_compose\<close> say whether a local revision is possible. Everything that reads the
  admitted sources takes the capture.
\<close>

record ('s, 'c) job =
  j_cancel :: "nat \<Rightarrow> bool"
  j_begin :: "unit fallible"
  j_admit :: "'c fallible"
  j_cutoff :: "nat \<Rightarrow> 's \<Rightarrow> unit fallible \<times> 's"
  j_guard :: "unit fallible"
  j_fast :: "'c \<Rightarrow> index_pin option fallible"
  j_root :: "unit fallible"
  j_prepare :: "'c \<Rightarrow> bool fallible"
  j_project_document :: "'c \<Rightarrow> unit fallible"
  j_compose :: "'c \<Rightarrow> bool fallible"
  j_native :: "'c \<Rightarrow> unit fallible"
  j_project :: "'c \<Rightarrow> unit fallible"
  j_verify :: "'c \<Rightarrow> unit fallible"
  j_leader :: "unit fallible"
  j_publish :: "publish_mode \<Rightarrow> 'c \<Rightarrow> index_pin fallible"
  j_attest :: "index_pin \<Rightarrow> unit fallible"

text \<open>A check that is logged when it holds, and the cutoff.\<close>

definition passed :: "'a fallible \<Rightarrow> 'c act \<Rightarrow> 's \<times> 'c act list \<Rightarrow> 'a fallible \<times> 's \<times> 'c act list" where
  "passed r a = (\<lambda>(s, log). case r of Inl e \<Rightarrow> (Inl e, s, log) | Inr x \<Rightarrow> (Inr x, s, log @ [a]))"

definition hold_cutoff :: "('s, 'c) job \<Rightarrow> nat \<Rightarrow> 's \<times> 'c act list \<Rightarrow> unit fallible \<times> 's \<times> 'c act list" where
  "hold_cutoff j k = (\<lambda>(s, log). case j_cutoff j k s of
       (Inl e, s') \<Rightarrow> (Inl e, s', log) | (Inr u, s') \<Rightarrow> (Inr u, s', log @ [CutoffHeld]))"

text \<open>A publication is logged whatever it answers: a failed \<open>COMMIT\<close> may have been durable.\<close>

definition publishing :: "publish_mode \<Rightarrow> 'c \<Rightarrow> 'a fallible \<Rightarrow> 's \<times> 'c act list \<Rightarrow> 'a fallible \<times> 's \<times> 'c act list" where
  "publishing m c r = (\<lambda>(s, log). (r, s, log @ [Publish m c]))"

text \<open>The tail the local and the full revision share: verify, publish, attest.\<close>

definition publish_verified ::
  "('s, 'c) job \<Rightarrow> publish_mode \<Rightarrow> 'c \<Rightarrow> 's \<times> 'c act list \<Rightarrow> index_pin fallible \<times> 's \<times> 'c act list" where
  "publish_verified j m c =
     and_then (passed (j_verify j c) (SourcesVerified c)) (\<lambda>_.
     and_then (passed (demand (\<not> j_cancel j 1) ''index cancelled'') NotCancelled) (\<lambda>_.
     and_then (passed (j_leader j) LeaderVerified) (\<lambda>_.
     and_then (hold_cutoff j 1) (\<lambda>_.
     and_then (answer (j_guard j)) (\<lambda>_.
     and_then (publishing m c (j_publish j m c)) (\<lambda>pin.
     and_then (passed (j_attest j pin) (Attested pin)) (\<lambda>_. answer (Inr pin))))))))"

definition run_full :: "('s, 'c) job \<Rightarrow> 'c \<Rightarrow> 's \<times> 'c act list \<Rightarrow> index_pin fallible \<times> 's \<times> 'c act list" where
  "run_full j c =
     and_then (answer (j_native j c)) (\<lambda>_.
     and_then (answer (j_project j c)) (\<lambda>_. publish_verified j FullRevision c))"

definition run_local_or_full ::
  "('s, 'c) job \<Rightarrow> 'c \<Rightarrow> 's \<times> 'c act list \<Rightarrow> index_pin fallible \<times> 's \<times> 'c act list" where
  "run_local_or_full j c =
     and_then (answer (j_root j)) (\<lambda>_.
     and_then (answer (j_prepare j c)) (\<lambda>prepared.
     if \<not> prepared then run_full j c
     else and_then (answer (j_project_document j c)) (\<lambda>_.
          and_then (answer (j_compose j c)) (\<lambda>composed.
          if composed then publish_verified j LocalRevision c else run_full j c))))"

definition run_unchanged ::
  "('s, 'c) job \<Rightarrow> 'c \<Rightarrow> 's \<times> 'c act list \<Rightarrow> index_pin option fallible \<times> 's \<times> 'c act list" where
  "run_unchanged j c =
     and_then (hold_cutoff j 0) (\<lambda>_.
     and_then (answer (j_guard j)) (\<lambda>_.
     and_then (case j_fast j c of Inr None \<Rightarrow> answer (Inr None)
               | r \<Rightarrow> publishing UnchangedHead c r) (\<lambda>found.
     case found of None \<Rightarrow> answer (Inr None)
     | Some pin \<Rightarrow> and_then (passed (j_attest j pin) (Attested pin)) (\<lambda>_. answer (Inr (Some pin))))))"

text \<open>\<open>run_with_capture\<close>: \<open>admitted\<close> is the capture the caller has, \<open>fast\<close> its \<open>unchanged_fast\<close>.\<close>

definition run_with_capture ::
  "('s, 'c) job \<Rightarrow> 'c option \<Rightarrow> bool \<Rightarrow> 's \<times> 'c act list \<Rightarrow> index_pin fallible \<times> 's \<times> 'c act list" where
  "run_with_capture j admitted fast =
     and_then (answer (demand (\<not> j_cancel j 0) ''index cancelled'')) (\<lambda>_.
     and_then (answer (j_begin j)) (\<lambda>_.
     and_then (answer (case admitted of Some c \<Rightarrow> Inr c | None \<Rightarrow> j_admit j)) (\<lambda>c.
     and_then (if fast then run_unchanged j c else answer (Inr None)) (\<lambda>found.
     case found of Some pin \<Rightarrow> answer (Inr pin) | None \<Rightarrow> run_local_or_full j c))))"

subsection \<open>The order of a job's checks\<close>

lemma passed_eq:
  "passed r a (s, l) = (r', s', l') \<longleftrightarrow> r = r' \<and> s' = s \<and> l' = (if is_ok r then l @ [a] else l)"
  by (auto simp: passed_def split: sum.splits)

lemma hold_cutoff_eq:
  "hold_cutoff j k (s, l) = (r, s', l') \<longleftrightarrow>
     j_cutoff j k s = (r, s') \<and> l' = (if is_ok r then l @ [CutoffHeld] else l)"
  by (auto simp: hold_cutoff_def split: sum.splits prod.splits)

lemma publishing_eq:
  "publishing m c r (s, l) = (r', s', l') \<longleftrightarrow> r = r' \<and> s' = s \<and> l' = l @ [Publish m c]"
  by (auto simp: publishing_def)

lemmas step_eqs = passed_eq hold_cutoff_eq publishing_eq

fun is_publish :: "'c act \<Rightarrow> bool" where
  "is_publish (Publish m c) = True"
| "is_publish _ = False"

definition quiet_log :: "'c act list \<Rightarrow> bool" where
  "quiet_log l \<longleftrightarrow> list_all (\<lambda>a. \<not> is_publish a) l"

lemma quiet_log_simps [simp]:
  "quiet_log []" "quiet_log (a # l) \<longleftrightarrow> \<not> is_publish a \<and> quiet_log l"
  "quiet_log (k @ l) \<longleftrightarrow> quiet_log k \<and> quiet_log l"
  by (simp_all add: quiet_log_def)

text \<open>What has to stand directly before a publication in the log.\<close>

fun checks_before :: "publish_mode \<Rightarrow> 'c \<Rightarrow> 'c act list" where
  "checks_before UnchangedHead c = [CutoffHeld]"
| "checks_before m c = [SourcesVerified c, NotCancelled, LeaderVerified, CutoffHeld]"

text \<open>The log of a job that was given the capture \<open>c\<close>, from the log \<open>l\<close> on.\<close>

definition job_log :: "'c \<Rightarrow> 'c act list \<Rightarrow> index_pin fallible \<Rightarrow> 'c act list \<Rightarrow> bool" where
  "job_log c l r l' \<longleftrightarrow>
     (\<exists>pre. quiet_log pre \<and>
       (l' = l @ pre \<and> \<not> is_ok r
        \<or> (\<exists>m post. l' = l @ pre @ checks_before m c @ Publish m c # post
             \<and> (post = [] \<and> \<not> is_ok r \<or> (\<exists>pin. post = [Attested pin] \<and> r = Inr pin)))))"

lemma job_log_quiet: "\<not> is_ok r \<Longrightarrow> quiet_log pre \<Longrightarrow> job_log c l r (l @ pre)"
  unfolding job_log_def by blast

lemma job_log_refl: "\<not> is_ok r \<Longrightarrow> job_log c l r l"
  using job_log_quiet [of r "[]"] by simp

lemma job_log_extend:
  assumes "job_log c (l @ pre) r l'" and "quiet_log pre"
  shows "job_log c l r l'"
proof -
  from assms(1) obtain p where p: "quiet_log p" "l' = (l @ pre) @ p \<and> \<not> is_ok r
      \<or> (\<exists>m post. l' = (l @ pre) @ p @ checks_before m c @ Publish m c # post
           \<and> (post = [] \<and> \<not> is_ok r \<or> (\<exists>pin. post = [Attested pin] \<and> r = Inr pin)))"
    unfolding job_log_def by blast
  have "quiet_log (pre @ p)" using p(1) assms(2) by simp
  with p(2) show ?thesis unfolding job_log_def
    by (intro exI [of _ "pre @ p"]) simp
qed

lemma publish_verified_log:
  assumes "m \<noteq> UnchangedHead" and "publish_verified j m c (s, l) = (r, s', l')"
  shows "job_log c l r l'"
proof -
  have req: "checks_before m c = [SourcesVerified c, NotCancelled, LeaderVerified, CutoffHeld]"
    using assms(1) by (cases m) simp_all
  have full: "job_log c l r (l @ checks_before m c @ Publish m c # post)"
    if "post = [] \<and> \<not> is_ok r \<or> (\<exists>pin. post = [Attested pin] \<and> r = Inr pin)" for post
    unfolding job_log_def using that by (intro exI [of _ "[]"]) auto
  show ?thesis
  proof (cases r)
    case (Inl e)
    with assms(2) show ?thesis
      using full [of "[]"] job_log_quiet [of r "[SourcesVerified c]"] job_log_refl [of r]
        job_log_quiet [of r "[SourcesVerified c, NotCancelled]"]
        job_log_quiet [of r "[SourcesVerified c, NotCancelled, LeaderVerified]"]
        job_log_quiet [of r "[SourcesVerified c, NotCancelled, LeaderVerified, CutoffHeld]"]
      by (auto simp: publish_verified_def and_then_Inl step_eqs req demand_def split: if_splits)
  next
    case (Inr pin)
    with assms(2) show ?thesis
      using full [of "[Attested pin]"] by (auto simp: publish_verified_def step_eqs req demand_def split: if_splits)
  qed
qed

lemma run_full_log: "run_full j c (s, l) = (r, s', l') \<Longrightarrow> job_log c l r l'"
  by (cases r) (auto simp: run_full_def and_then_Inl intro: publish_verified_log job_log_refl)

lemma run_local_or_full_log: "run_local_or_full j c (s, l) = (r, s', l') \<Longrightarrow> job_log c l r l'"
  by (cases r) (auto simp: run_local_or_full_def and_then_Inl split: if_splits
      intro: publish_verified_log run_full_log job_log_refl)

text \<open>The fast path either publishes the unchanged head or leaves only the held cutoff in the log.\<close>

lemma run_unchanged_log:
  assumes "run_unchanged j c (s, l) = (r, s', l')"
  shows "(case r of Inr None \<Rightarrow> l' = l @ [CutoffHeld]
            | Inr (Some pin) \<Rightarrow> job_log c l (Inr pin) l' | Inl e \<Rightarrow> job_log c l (Inl e) l')"
proof -
  have full: "job_log c l r' (l @ CutoffHeld # Publish UnchangedHead c # post)"
    if "post = [] \<and> \<not> is_ok r' \<or> (\<exists>pin. post = [Attested pin] \<and> r' = Inr pin)" for post r'
    unfolding job_log_def using that by (intro exI [of _ "[]"]) (auto intro!: exI [of _ UnchangedHead])
  show ?thesis
  proof (cases r)
    case (Inl e)
    with assms show ?thesis
      using full [of "[]" "Inl e"] job_log_quiet [of "Inl e" "[CutoffHeld]" c l] job_log_refl [of "Inl e" c l]
      by (cases "j_fast j c")
        (auto simp: run_unchanged_def and_then_Inl step_eqs split: option.splits)
  next
    case (Inr found)
    with assms show ?thesis
      using full [of "[Attested (the found)]" "Inr (the found)"]
      by (cases "j_fast j c")
        (auto simp: run_unchanged_def step_eqs split: option.splits)
  qed
qed

lemma run_with_capture_log:
  assumes "run_with_capture j admitted fast (s, l) = (r, s', l')"
  shows "(\<exists>c. (case admitted of Some c' \<Rightarrow> Inr c' | None \<Rightarrow> j_admit j) = Inr c \<and> job_log c l r l')
    \<or> (l' = l \<and> \<not> is_ok r)"
proof -
  have found: "job_log c l r l'" if u: "run_unchanged j c (s, l) = (Inr f, s1, l1)"
    and k: "(case f of Some pin \<Rightarrow> answer (Inr pin) | None \<Rightarrow> run_local_or_full j c) (s1, l1) = (r, s', l')"
    for c f s1 l1
  proof (cases f)
    case None
    then show ?thesis
      using run_unchanged_log [OF u] run_local_or_full_log [of j c s1 l1] k job_log_extend [of c l "[CutoffHeld]"]
      by simp
  next
    case (Some pin)
    then show ?thesis using run_unchanged_log [OF u] k by auto
  qed
  have stop: "job_log c l (Inl e) l'" if "run_unchanged j c (s, l) = (Inl e, s', l')" for c e
    using run_unchanged_log [OF that] by simp
  show ?thesis
  proof (cases r)
    case (Inl e)
    with assms show ?thesis
      using found stop by (cases admitted; cases fast)
        (auto simp: run_with_capture_def and_then_Inl intro: run_local_or_full_log)
  next
    case (Inr pin)
    with assms show ?thesis
      using found by (cases admitted; cases fast)
        (auto simp: run_with_capture_def intro: run_local_or_full_log)
  qed
qed

subsection \<open>The leader's inventory (\<open>LeaderWork\<close>)\<close>

record leader_options =
  lo_root :: path
  lo_scip :: "path option"
  lo_manifest :: "path option"
  lo_max :: nat

text \<open>The scheduler's memory; the fields of the test reporter are left out.\<close>

record leader_work =
  lw_watch :: watch
  lw_last_inventory :: nat
  lw_retry_after :: "nat option"
  lw_accounted :: "u64 option"
  lw_accounted_pin :: "index_pin option"
  lw_options :: leader_options

text \<open>
  What one tick observes. \<open>tk_arrive k\<close> is delivered by the watcher's thread before the tick's k-th
  drain and \<open>tk_racing k\<close> while it runs (0 the first, 1 and 2 the two cutoffs, 3 the one of the
  acknowledgment); \<open>tk_early\<close> and \<open>tk_late\<close> arrive around the acknowledgment's check. Times are
  milliseconds.
\<close>

record 'c tick =
  tk_leader :: "unit fallible"
  tk_executable :: "path option"
  tk_native :: bool
  tk_registered :: bool
  tk_now :: nat
  tk_clock :: nat
  tk_end :: nat
  tk_arrive :: "nat \<Rightarrow> ingress list"
  tk_racing :: "nat \<Rightarrow> ingress list"
  tk_early :: "ingress list"
  tk_late :: "ingress list"
  tk_enter :: "unit fallible"
  tk_admit :: "'c fallible"
  tk_session :: "nat \<Rightarrow> unit fallible"
  tk_root :: "nat \<Rightarrow> unit fallible"
  tk_baseline :: "index_pin option fallible"
  tk_unchanged :: "'c \<Rightarrow> bool fallible"
  tk_is_leader :: bool
  tk_prepare :: "unit fallible"
  tk_job :: "(watch, 'c) job"
  tk_witness_pin :: "index_pin option"

definition INVENTORY_PERIOD :: nat where "INVENTORY_PERIOD = 60000"
definition RETRY_DELAY :: nat where "RETRY_DELAY = 250"

text \<open>The error \<open>CutoffChanged\<close>; \<open>is\<close> looks at the outermost error.\<close>

definition cutoff_changed :: fault where
  "cutoff_changed = \<lparr>fault_text = ''watch hints changed before publication cutoff'', fault_chain = [CutoffSignal]\<rparr>"

definition is_cutoff_changed :: "fault \<Rightarrow> bool" where
  "is_cutoff_changed e \<longleftrightarrow> take 1 (fault_chain e) = [CutoffSignal]"

definition new_work ::
  "'c tick \<Rightarrow> leader_options \<Rightarrow> leader_work fallible" where
  "new_work t opts = bind_result (tk_leader t) (\<lambda>_.
     Inr \<lparr>lw_watch = Watch.construct (lo_root opts) (lo_scip opts) (lo_manifest opts) (tk_executable t)
            (tk_native t) (tk_registered t),
          lw_last_inventory = tk_now t, lw_retry_after = None, lw_accounted = None,
          lw_accounted_pin = None, lw_options = opts\<rparr>)"

definition retry_pending :: "nat \<Rightarrow> leader_work \<Rightarrow> bool" where
  "retry_pending now lw = (case lw_retry_after lw of None \<Rightarrow> False | Some deadline \<Rightarrow> now < deadline)"

definition periodic_due :: "nat \<Rightarrow> leader_work \<Rightarrow> bool" where
  "periodic_due now lw \<longleftrightarrow> INVENTORY_PERIOD \<le> now - lw_last_inventory lw"

definition accepted_watch_intent :: "nat \<Rightarrow> leader_options \<Rightarrow> leader_work \<Rightarrow> bool" where
  "accepted_watch_intent now opts lw \<longleftrightarrow>
     lw_options lw \<noteq> opts \<or> accepted_unacked (lw_watch lw) \<or> periodic_due now lw \<and> \<not> retry_pending now lw"

text \<open>A change of the selected options starts a new watcher, which wakes for a full inventory.\<close>

definition switch_options :: "'c tick \<Rightarrow> leader_options \<Rightarrow> leader_work \<Rightarrow> leader_work" where
  "switch_options t opts lw = (if lw_options lw = opts then lw
     else lw\<lparr>lw_watch := Watch.construct (lo_root opts) (lo_scip opts) (lo_manifest opts) (tk_executable t)
               (tk_native t) (tk_registered t),
             lw_options := opts, lw_accounted := None, lw_accounted_pin := None\<rparr>)"

definition tick_drain :: "file_system \<Rightarrow> 'c tick \<Rightarrow> nat \<Rightarrow> watch \<Rightarrow> watch" where
  "tick_drain fs t k w = drain_batch fs (tk_racing t k) (foldl ingress_step w (tk_arrive t k))"

text \<open>The cutoff: nothing was counted since the batch was drained, and the leader and the root still hold.\<close>

definition cutoff :: "file_system \<Rightarrow> 'c tick \<Rightarrow> dirty_batch \<Rightarrow> nat \<Rightarrow> watch \<Rightarrow> unit fallible \<times> watch" where
  "cutoff fs t batch k w =
     (let w' = tick_drain fs t k w in
      (if db_generation (w_pending w') \<noteq> db_generation batch then Inl cutoff_changed
       else bind_result (tk_session t k) (\<lambda>_. tk_root t k), w'))"

definition prepare_admitted :: "'c tick \<Rightarrow> unit fallible" where
  "prepare_admitted t =
     ensure (tk_is_leader t) (plain ''storage_busy: follower cannot publish'') (tk_prepare t)"

text \<open>One inventory: capture, cutoff, comparison with the selected head, and then a second cutoff, by
  itself when nothing changed and otherwise as the cutoff of the job that publishes the capture.\<close>

definition inventory ::
  "file_system \<Rightarrow> 'c tick \<Rightarrow> dirty_batch \<Rightarrow> watch \<times> 'c act list \<Rightarrow> unit fallible \<times> watch \<times> 'c act list" where
  "inventory fs t batch =
     (let job = (tk_job t)\<lparr>j_cutoff := (\<lambda>_. cutoff fs t batch 2)\<rparr> in
      and_then (answer (tk_enter t)) (\<lambda>_.
      and_then (answer (tk_admit t)) (\<lambda>c.
      and_then (hold_cutoff (job\<lparr>j_cutoff := cutoff fs t batch\<rparr>) 1) (\<lambda>_.
      and_then (answer (tk_baseline t)) (\<lambda>_.
      and_then (answer (tk_unchanged t c)) (\<lambda>unchanged.
      if unchanged then hold_cutoff job 2
      else and_then (answer (prepare_admitted t)) (\<lambda>_.
           and_then (run_with_capture job (Some c) False) (\<lambda>_. answer (Inr ())))))))))"

text \<open>\<open>reconcile_due_with_cutoffs\<close>: what a tick answers, the memory it leaves and its log.\<close>

definition account :: "file_system \<Rightarrow> 'c tick \<Rightarrow> dirty_batch \<Rightarrow> watch \<Rightarrow> leader_work \<Rightarrow> bool \<times> leader_work" where
  "account fs t batch w lw =
     (let (accounted, w') = acknowledge fs (tk_racing t 3) (tk_early t) (tk_late t) batch
                              (foldl ingress_step w (tk_arrive t 3));
          lw' = (if accounted
                 then lw\<lparr>lw_watch := w', lw_accounted := Some (db_generation batch),
                         lw_accounted_pin := tk_witness_pin t\<rparr>
                 else lw\<lparr>lw_watch := require_full w', lw_accounted_pin := None\<rparr>)
      in (accounted, lw'\<lparr>lw_last_inventory := tk_end t, lw_retry_after := None\<rparr>))"

definition tick_skips :: "'c tick \<Rightarrow> bool \<Rightarrow> dirty_batch \<Rightarrow> leader_work \<Rightarrow> bool" where
  "tick_skips t force batch lw \<longleftrightarrow> \<not> force \<and> (retry_pending (tk_now t) lw
     \<or> \<not> periodic_due (tk_now t) lw
        \<and> (w_degraded (lw_watch lw) \<and> lw_accounted lw = Some (db_generation batch)
           \<or> \<not> batch_ready_at (tk_clock t) (tk_now t) (lw_watch lw)))"

definition reconcile_due ::
  "file_system \<Rightarrow> 'c tick \<Rightarrow> leader_options \<Rightarrow> bool \<Rightarrow> leader_work
     \<Rightarrow> bool fallible \<times> leader_work \<times> 'c act list" where
  "reconcile_due fs t opts force lw =
     (case tk_leader t of Inl e \<Rightarrow> (Inl e, lw, []) | Inr _ \<Rightarrow>
      (let lw1 = switch_options t opts lw;
           w = tick_drain fs t 0 (lw_watch lw1);
           lw2 = lw1\<lparr>lw_watch := w\<rparr>;
           batch = w_pending w
       in if tick_skips t force batch lw2 then (Inr False, lw2, [])
          else (case inventory fs t batch (w, []) of
              (Inr _, w', acts) \<Rightarrow> (let (accounted, lw3) = account fs t batch w' lw2 in (Inr accounted, lw3, acts))
            | (Inl e, w', acts) \<Rightarrow>
                (if is_cutoff_changed e
                 then (Inr False, lw2\<lparr>lw_watch := require_full w', lw_retry_after := None\<rparr>, acts)
                 else (Inl e, lw2\<lparr>lw_watch := require_full w',
                         lw_retry_after := Some (tk_end t + RETRY_DELAY)\<rparr>, acts)))))"

subsection \<open>What a tick guarantees\<close>

lemma quiet_checks [simp]: "quiet_log (checks_before m c)"
  by (cases m) simp_all

lemma quiet_split:
  assumes "quiet_log a" and "quiet_log b" and "a @ Publish m c # b = a' @ Publish m' c' # b'"
  shows "a' = a \<and> m' = m \<and> c' = c \<and> b' = b"
  using assms by (auto simp: append_eq_append_conv2 append_eq_Cons_conv Cons_eq_append_conv)

lemma job_log_publish:
  assumes "job_log c l r (pre @ Publish m x # post)" and "quiet_log l"
  shows "x = c \<and> quiet_log pre \<and> quiet_log post \<and> (\<exists>before. pre = before @ checks_before m c) \<and>
    (post = [] \<and> \<not> is_ok r \<or> (\<exists>pin. post = [Attested pin] \<and> r = Inr pin))"
proof -
  from assms(1) obtain p where p: "quiet_log p"
    "pre @ Publish m x # post = l @ p \<or> (\<exists>m' post'. pre @ Publish m x # post = l @ p @ checks_before m' c @ Publish m' c # post'
       \<and> (post' = [] \<and> \<not> is_ok r \<or> (\<exists>pin. post' = [Attested pin] \<and> r = Inr pin)))"
    unfolding job_log_def by blast
  have "pre @ Publish m x # post \<noteq> l @ p"
  proof
    assume "pre @ Publish m x # post = l @ p"
    then have "quiet_log (pre @ Publish m x # post)" using assms(2) p(1) by simp
    then show False by simp
  qed
  with p(2) obtain m' post' where eq: "pre @ Publish m x # post = (l @ p @ checks_before m' c) @ Publish m' c # post'"
    and post: "post' = [] \<and> \<not> is_ok r \<or> (\<exists>pin. post' = [Attested pin] \<and> r = Inr pin)" by auto
  have "quiet_log post'" using post by auto
  from quiet_split [OF _ this eq [symmetric]] assms(2) p(1)
  have "pre = l @ p @ checks_before m' c \<and> m = m' \<and> x = c \<and> post = post'" by simp
  then show ?thesis using post assms(2) p(1) \<open>quiet_log post'\<close> by auto
qed

lemma run_admitted_state:
  "run_with_capture j (Some c) False (s, l) = (Inr pin, s', l') \<Longrightarrow> j_cutoff j 1 s = (Inr (), s')"
  by (auto simp: run_with_capture_def run_local_or_full_def run_full_def publish_verified_def step_eqs
      split: if_splits)

definition tick_counts :: "'c tick \<Rightarrow> nat \<Rightarrow> nat" where
  "tick_counts t k = counts (tk_arrive t k) + counts (tk_racing t k)"

definition heard :: "'c tick \<Rightarrow> nat" where
  "heard t = tick_counts t 1 + tick_counts t 2 + tick_counts t 3 + counts (tk_early t) + counts (tk_late t)"

lemma tick_drain_facts:
  "w_generation (tick_drain fs t k w) = w_generation w + of_nat (tick_counts t k)"
  "db_generation (w_pending (tick_drain fs t k w)) = w_generation (tick_drain fs t k w)"
  by (simp_all add: tick_drain_def drain_facts(1,2) ingress_fields tick_counts_def add.assoc)

lemma cutoff_facts:
  "cutoff fs t batch k w = (Inr (), w') \<Longrightarrow> w' = tick_drain fs t k w \<and> w_generation w' = db_generation batch"
  by (auto simp: cutoff_def Let_def tick_drain_facts split: if_splits)

lemma inventory_generation:
  assumes "inventory fs t batch (w, l) = (Inr (), w', l')"
  shows "w_generation w' = w_generation w + of_nat (tick_counts t 1 + tick_counts t 2)"
    and "w_generation w' = db_generation batch" and "is_ok (tk_admit t)"
proof -
  from assms obtain w1 c where c: "tk_admit t = Inr c" and w1: "cutoff fs t batch 1 w = (Inr (), w1)"
    and w2: "cutoff fs t batch 2 w1 = (Inr (), w')"
    by (auto simp: inventory_def Let_def step_eqs split: if_splits dest!: run_admitted_state)
  show "w_generation w' = w_generation w + of_nat (tick_counts t 1 + tick_counts t 2)"
    using cutoff_facts [OF w1] cutoff_facts [OF w2] by (simp add: tick_drain_facts add.assoc)
  show "w_generation w' = db_generation batch" using cutoff_facts [OF w2] by blast
  show "is_ok (tk_admit t)" using c by simp
qed

lemma reconcile_accounts:
  assumes "reconcile_due fs t opts force lw = (Inr True, lw', acts)"
  obtains w0 w1 batch wa where "batch = w_pending w0" "w0 = tick_drain fs t 0 (lw_watch (switch_options t opts lw))"
    "inventory fs t batch (w0, []) = (Inr (), w1, acts)"
    "acknowledge fs (tk_racing t 3) (tk_early t) (tk_late t) batch (foldl ingress_step w1 (tk_arrive t 3)) = (True, wa)"
    "lw_watch lw' = wa" "lw_accounted lw' = Some (db_generation batch)"
  using assms that
  by (auto simp: reconcile_due_def account_def Let_def split: sum.splits if_splits prod.splits)

text \<open>C15: a tick that accounts for its inventory saw everything: no event was counted on any thread
  from the drain that made its batch to the end of the acknowledgment, through the capture, both
  cutoffs and the publication (up to the wrap of the 64-bit counter), and exactly the generation the
  watcher now has is acknowledged and recorded as accounted.\<close>

theorem inventory_sees_all:
  assumes "reconcile_due fs t opts force lw = (Inr True, lw', acts)" and "heard t < 2 ^ 64"
  shows "heard t = 0 \<and> is_ok (tk_admit t)
     \<and> w_acknowledged (lw_watch lw') = w_generation (lw_watch lw')
     \<and> lw_accounted lw' = Some (w_generation (lw_watch lw'))"
proof -
  from reconcile_accounts [OF assms(1)] obtain w0 w1 batch wa
    where b: "batch = w_pending w0" "w0 = tick_drain fs t 0 (lw_watch (switch_options t opts lw))"
    and inv: "inventory fs t batch (w0, []) = (Inr (), w1, acts)"
    and ack: "acknowledge fs (tk_racing t 3) (tk_early t) (tk_late t) batch
                (foldl ingress_step w1 (tk_arrive t 3)) = (True, wa)"
    and lw': "lw_watch lw' = wa" "lw_accounted lw' = Some (db_generation batch)" by metis
  have gen: "db_generation batch = w_generation w0" using b by (simp add: tick_drain_facts)
  have "w_generation w0 = w_generation w0 + of_nat (heard t)"
    using acknowledge_counts(1) [OF ack] inventory_generation(1) [OF inv] gen
    by (simp add: ingress_fields heard_def tick_counts_def ac_simps)
  then have "(of_nat (heard t) :: u64) = 0" by (metis add_cancel_left_right)
  then have "heard t = 0" using no_count_wraps [OF _ assms(2)] by blast
  then show ?thesis
    using acknowledge_counts(2,3) [OF ack] inventory_generation(3) [OF inv] lw' by simp
qed

definition sample_job :: "('s, nat) job" where
  "sample_job = \<lparr>j_cancel = (\<lambda>_. False), j_begin = Inr (), j_admit = Inr 7, j_cutoff = (\<lambda>_ s. (Inr (), s)),
     j_guard = Inr (), j_fast = (\<lambda>_. Inr None), j_root = Inr (), j_prepare = (\<lambda>_. Inr False),
     j_project_document = (\<lambda>_. Inr ()), j_compose = (\<lambda>_. Inr False), j_native = (\<lambda>_. Inr ()),
     j_project = (\<lambda>_. Inr ()), j_verify = (\<lambda>_. Inr ()), j_leader = Inr (),
     j_publish = (\<lambda>_ _. Inr \<lparr>ip_generation = 1, ip_revision = 4\<rparr>), j_attest = (\<lambda>_. Inr ())\<rparr>"

definition sample_tick :: "nat tick" where
  "sample_tick = \<lparr>tk_leader = Inr (), tk_executable = None, tk_native = True, tk_registered = True,
     tk_now = 10, tk_clock = 10, tk_end = 20, tk_arrive = (\<lambda>_. []), tk_racing = (\<lambda>_. []),
     tk_early = [], tk_late = [], tk_enter = Inr (), tk_admit = Inr 7, tk_session = (\<lambda>_. Inr ()),
     tk_root = (\<lambda>_. Inr ()), tk_baseline = Inr None, tk_unchanged = (\<lambda>_. Inr False),
     tk_is_leader = True, tk_prepare = Inr (), tk_job = sample_job, tk_witness_pin = None\<rparr>"

definition sample_leader_options :: leader_options where
  "sample_leader_options = \<lparr>lo_root = [RootDir, Normal ''w''], lo_scip = None, lo_manifest = None, lo_max = 100\<rparr>"

abbreviation sample_work :: leader_work where
  "sample_work \<equiv> (case new_work sample_tick sample_leader_options of Inr lw \<Rightarrow> lw)"

lemmas job_eval = sample_job_def prepare_admitted_def
  run_with_capture_def run_local_or_full_def run_full_def publish_verified_def and_then_def answer_def
  passed_def hold_cutoff_def publishing_def demand_def Let_def

abbreviation sample_new_watch :: watch where
  "sample_new_watch \<equiv> Watch.construct [RootDir, Normal ''w''] None None None True True"

lemma sample_watch_steps:
  "tick_drain sample_fs sample_tick k sample_new_watch = sample_new_watch"
  "cutoff sample_fs sample_tick (w_pending sample_new_watch) k sample_new_watch = (Inr (), sample_new_watch)"
  "acknowledge sample_fs [] [] [] (w_pending sample_new_watch) sample_new_watch = (True, sample_new_watch
     \<lparr>w_pending := (w_pending sample_new_watch)\<lparr>db_paths := [], db_full := False\<rparr>, w_first := None,
      w_last := None, w_urgent := False, w_acknowledged := 1\<rparr>)"
  by (simp_all add: tick_drain_def cutoff_def acknowledge_def drain_batch_def Watch.construct_def sample_tick_def
      mark_full_def Let_def)

lemma sample_inventory:
  "inventory sample_fs sample_tick (w_pending sample_new_watch) (sample_new_watch, []) =
     (Inr (), sample_new_watch, [CutoffHeld, SourcesVerified 7, NotCancelled, LeaderVerified, CutoffHeld,
        Publish FullRevision 7, Attested \<lparr>ip_generation = 1, ip_revision = 4\<rparr>])"
proof -
  have tk: "tk_enter sample_tick = Inr ()" "tk_admit sample_tick = Inr 7" "tk_baseline sample_tick = Inr None"
    "tk_unchanged sample_tick c = Inr False" "tk_is_leader sample_tick" "tk_prepare sample_tick = Inr ()"
    "tk_job sample_tick = sample_job" for c by (simp_all add: sample_tick_def)
  show ?thesis by (simp add: inventory_def job_eval tk sample_watch_steps)
qed

lemma sample_work_eval: "sample_work = \<lparr>lw_watch = sample_new_watch, lw_last_inventory = 10, lw_retry_after = None,
     lw_accounted = None, lw_accounted_pin = None, lw_options = sample_leader_options\<rparr>"
  by (simp add: new_work_def sample_tick_def sample_leader_options_def)

lemma sample_tick_runs:
  "\<exists>lw'. reconcile_due sample_fs sample_tick sample_leader_options False sample_work =
     (Inr True, lw', [CutoffHeld, SourcesVerified 7, NotCancelled, LeaderVerified, CutoffHeld,
        Publish FullRevision 7, Attested \<lparr>ip_generation = 1, ip_revision = 4\<rparr>])"
proof -
  have skip: "\<not> tick_skips sample_tick False batch sample_work" for batch
    by (simp add: tick_skips_def retry_pending_def sample_work_eval batch_ready_at_def Watch.construct_def)
  have led: "tk_leader sample_tick = Inr ()" "tk_racing sample_tick 3 = []" "tk_arrive sample_tick 3 = []"
    "tk_early sample_tick = []" "tk_late sample_tick = []" by (simp_all add: sample_tick_def)
  have w: "lw_watch sample_work = sample_new_watch" "lw_options sample_work = sample_leader_options"
    "sample_work\<lparr>lw_watch := sample_new_watch\<rparr> = sample_work" by (simp_all add: sample_work_eval)
  show ?thesis
    unfolding reconcile_due_def Let_def led sum.case switch_options_def w simp_thms if_True
      sample_watch_steps(1) if_not_P [OF skip] sample_inventory prod.case account_def foldl_Nil
      sample_watch_steps(3)
    by simp
qed

theorem inventory_sees_all_witness:
  "\<exists>lw' acts. reconcile_due sample_fs sample_tick sample_leader_options False sample_work = (Inr True, lw', acts)
     \<and> lw_accounted lw' = Some (w_generation (lw_watch lw'))"
proof -
  from sample_tick_runs obtain lw' acts where r:
    "reconcile_due sample_fs sample_tick sample_leader_options False sample_work = (Inr True, lw', acts)" by blast
  have "heard sample_tick < 2 ^ 64" by (simp add: heard_def tick_counts_def sample_tick_def counts_def)
  from inventory_sees_all [OF r this] r show ?thesis by blast
qed



text \<open>a tick that fails keeps everything dirty: its watcher asks for a full inventory at once, so
  every path is still covered; the error is not repeated at the rate of the ticks, because every
  unforced tick of the next 250 ms with the same options answers that nothing was accounted, does
  nothing, and still covers every path.\<close>

theorem failed_tick_waits:
  assumes fail: "reconcile_due fs t opts force lw = (Inl e, lw', acts)" and led: "tk_leader t = Inr ()"
    and next_tick: "tk_leader t' = Inr ()" "tk_now t' < tk_end t + 250"
  shows "db_full (w_pending (lw_watch lw')) \<and> w_urgent (lw_watch lw')
     \<and> (\<exists>lw''. reconcile_due fs' t' opts False lw' = (Inr False, lw'', [])
           \<and> lw_retry_after lw'' = lw_retry_after lw' \<and> (\<forall>p. covers (lw_watch lw'') p))"
proof -
  let ?lw = "(switch_options t opts lw)"
  let ?w = "tick_drain fs t 0 (lw_watch ?lw)"
  obtain w' where inv: "inventory fs t (w_pending ?w) (?w, []) = (Inl e, w', acts)"
    and lw': "lw' = ?lw\<lparr>lw_watch := require_full w', lw_retry_after := Some (tk_end t + 250)\<rparr>"
    using fail led by (auto simp: reconcile_due_def Let_def RETRY_DELAY_def split: if_splits sum.splits prod.splits)
  have "lw_options ?lw = opts" by (simp add: switch_options_def)
  then have same: "switch_options t' opts lw' = lw'" using lw' by (simp add: switch_options_def)
  have full: "db_full (w_pending (lw_watch lw')) \<and> w_urgent (lw_watch lw')"
    using lw' by (simp add: require_full_def mark_full_def)
  let ?lw'' = "lw'\<lparr>lw_watch := tick_drain fs' t' 0 (lw_watch lw')\<rparr>"
  have "tick_skips t' False batch ?lw''" for batch
    using next_tick lw' by (simp add: tick_skips_def retry_pending_def)
  then have "reconcile_due fs' t' opts False lw' = (Inr False, ?lw'', [])"
    using next_tick(1) same by (simp add: reconcile_due_def Let_def)
  moreover have "covers (lw_watch lw') p" for p using full by (simp add: covers_def)
  then have "covers (foldl ingress_step (lw_watch lw') (tk_arrive t' 0)) p" for p
    by (simp add: covers_def ingress_fields)
  then have "covers (lw_watch ?lw'') p" for p by (simp add: tick_drain_def drain_facts(5))
  ultimately show ?thesis using full by fastforce
qed

theorem failed_tick_waits_witness:
  "\<exists>lw' lw''. reconcile_due sample_fs (sample_tick\<lparr>tk_enter := Inl (plain ''storage_busy'')\<rparr>)
       sample_leader_options True sample_work = (Inl (plain ''storage_busy''), lw', [])
     \<and> reconcile_due sample_fs sample_tick sample_leader_options False lw' = (Inr False, lw'', [])"
proof -
  let ?t = "sample_tick\<lparr>tk_enter := Inl (plain ''storage_busy'')\<rparr>"
  have led: "tk_leader ?t = Inr ()" "tk_leader sample_tick = Inr ()"
    "tk_now sample_tick < tk_end ?t + 250" by (simp_all add: sample_tick_def)
  have "inventory sample_fs ?t batch (w, []) = (Inl (plain ''storage_busy''), w, [])" for batch w
    by (simp add: inventory_def and_then_def answer_def Let_def)
  moreover have "\<not> is_cutoff_changed (plain ''storage_busy'')" by (simp add: is_cutoff_changed_def plain_def)
  ultimately obtain lw' where
    f: "reconcile_due sample_fs ?t sample_leader_options True sample_work = (Inl (plain ''storage_busy''), lw', [])"
    by (simp add: reconcile_due_def led Let_def tick_skips_def)
  from failed_tick_waits [OF f led, of sample_fs] f show ?thesis by blast
qed

subsection \<open>Draining the queue\<close>

text \<open>
  The observations of one turn of the loop of \<open>drain_requests_observed_with_cancel\<close>.
  \<open>tn_others k\<close> is what other processes make of the queue before the turn (0), before the claim (1)
  and while the claimed request is indexed (2); each queue operation has its own record.
\<close>

record 'c turn_obs =
  tn_cancel :: "nat \<Rightarrow> bool"
  tn_others :: "nat \<Rightarrow> queue \<Rightarrow> queue"
  tn_ahead :: observed
  tn_claim :: observed
  tn_enter :: "unit fallible"
  tn_expected :: "index_pin option fallible"
  tn_is_leader :: bool
  tn_leader :: "unit fallible"
  tn_job :: "index_options \<Rightarrow> (unit, 'c) job"
  tn_recovery :: "index_pin option fallible"
  tn_fail :: observed
  tn_read :: observed
  tn_requeue :: observed
  tn_finish :: observed
  tn_finish_read :: observed
  tn_finish_write :: observed
  tn_finish_reread :: observed

text \<open>\<open>prepare_with_session\<close>: the permit, the baseline, the leader and the requested pin; it answers the baseline's pin.\<close>

definition prepare_with_session :: "'c turn_obs \<Rightarrow> index_pin option \<Rightarrow> index_pin option fallible" where
  "prepare_with_session t requested =
     bind_result (tn_enter t) (\<lambda>_.
     bind_result (tn_expected t) (\<lambda>expected.
     ensure (tn_is_leader t) (plain ''storage_busy: follower cannot publish'')
     (bind_result (tn_leader t) (\<lambda>_.
      ensure (requested = None \<or> expected = requested)
        (plain ''revision conflict: prior index pin is not decodable or changed'') (Inr expected)))))"

text \<open>The job of a claimed request: its outcome, and the baseline it was prepared with, if it came so far.\<close>

definition run_claimed ::
  "(string \<Rightarrow> reconcile_options fallible) \<Rightarrow> 'c turn_obs \<Rightarrow> queue_request \<Rightarrow> index_pin fallible \<times> index_pin option option" where
  "run_claimed from_str t rq = (case request_options from_str rq of Inl e \<Rightarrow> (Inl e, None) | Inr opts \<Rightarrow>
     (case prepare_with_session t (rq_expected rq) of Inl e \<Rightarrow> (Inl e, None) | Inr before \<Rightarrow>
        (fst (run_with_capture ((tn_job t opts)\<lparr>j_cutoff := (\<lambda>_ s. (Inr (), s))\<rparr>) None True ((), [])),
         Some before)))"

definition capture_drift :: "fault \<Rightarrow> bool" where
  "capture_drift e \<longleftrightarrow> InventoryDrift \<in> set (fault_chain e)"

definition interrupted :: fault where
  "interrupted = plain ''index wait interrupted; inspect the accepted request's durable state''"

definition interrupted_running :: fault where
  "interrupted_running = plain ''index wait interrupted; accepted request remains running for verified reclaim''"

text \<open>What becomes of a claimed request: how the loop goes on, the slot and the queue.\<close>

datatype verdict = Stop nat | Again nat

definition settle ::
  "store_id \<Rightarrow> (string \<Rightarrow> reconcile_options fallible) \<Rightarrow> 'c turn_obs \<Rightarrow> string \<Rightarrow> nat \<Rightarrow> nat \<Rightarrow> queue_request
     \<Rightarrow> slot \<Rightarrow> queue \<Rightarrow> verdict fallible \<times> slot \<times> queue" where
  "settle me from_str t session limit completed rq slot q =
     (case run_claimed from_str t rq of (outcome, before) \<Rightarrow>
      if tn_cancel t 1 then (Inl interrupted_running, slot, q)
      else if (case outcome of Inr _ \<Rightarrow> False | Inl e \<Rightarrow> capture_drift e \<or> transient_storage_contention e)
      then (case (case before of Some pin \<Rightarrow> Inr pin | None \<Rightarrow> tn_recovery t) of
              Inl e \<Rightarrow> (Inl e, slot, q)
            | Inr pin \<Rightarrow>
               (case requeue_busy_claim me (tn_fail t) (tn_read t) (tn_requeue t) session rq pin slot q of
                  (Inl e, q') \<Rightarrow> (Inl e, slot, q') | (Inr _, q') \<Rightarrow> (Inr (Stop completed), slot, q')))
      else if (case outcome of Inr _ \<Rightarrow> False | Inl e \<Rightarrow> nonterminal_storage_busy e)
      then (case outcome of Inl e \<Rightarrow> (Inl e, slot, q) | Inr _ \<Rightarrow> (Inr (Stop completed), slot, q))
      else (case record_and_finish_request me (tn_finish t) (tn_finish_read t) (tn_finish_write t)
                   (tn_finish_reread t) session rq outcome slot q of
              (Inl e, slot', q') \<Rightarrow> (Inl e, slot', q')
            | (Inr _, slot', q') \<Rightarrow>
                (Inr (if limit \<le> completed + 1 then Stop (completed + 1) else Again (completed + 1)), slot', q')))"

definition drain_turn ::
  "store_id \<Rightarrow> (string \<Rightarrow> reconcile_options fallible) \<Rightarrow> 'c turn_obs \<Rightarrow> string \<Rightarrow> nat \<Rightarrow> int option \<Rightarrow> nat
     \<Rightarrow> slot \<Rightarrow> queue \<Rightarrow> verdict fallible \<times> slot \<times> queue" where
  "drain_turn me from_str t session limit cutoff_seq completed slot q =
     (if tn_cancel t 0 then (Inl interrupted, slot, q)
      else (let q0 = tn_others t 0 q in
       case (case cutoff_seq of None \<Rightarrow> Inr False
             | Some bound \<Rightarrow> bind_result (earliest_unfinished_request me (tn_ahead t) q0)
                 (\<lambda>row. Inr (case row of None \<Rightarrow> False | Some r \<Rightarrow> bound < rq_seq r))) of
         Inl e \<Rightarrow> (Inl e, slot, q0)
       | Inr True \<Rightarrow> (Inr (Stop completed), slot, q0)
       | Inr False \<Rightarrow>
           (case claim_request me (tn_claim t) session (tn_others t 1 q0) of
              (Inl e, q1) \<Rightarrow> (Inl e, slot, q1)
            | (Inr None, q1) \<Rightarrow> (Inr (Stop completed), slot, q1)
            | (Inr (Some rq), q1) \<Rightarrow>
                settle me from_str t session limit completed rq slot (tn_others t 2 q1))))"

text \<open>The loop over the observations of its turns; None when they are used up before it returns.\<close>

fun drain_loop ::
  "store_id \<Rightarrow> (string \<Rightarrow> reconcile_options fallible) \<Rightarrow> string \<Rightarrow> nat \<Rightarrow> int option \<Rightarrow> 'c turn_obs list \<Rightarrow> nat
     \<Rightarrow> slot \<Rightarrow> queue \<Rightarrow> nat fallible option \<times> slot \<times> queue" where
  "drain_loop me from_str session limit cutoff_seq [] completed slot q = (None, slot, q)"
| "drain_loop me from_str session limit cutoff_seq (t # ts) completed slot q =
     (case drain_turn me from_str t session limit cutoff_seq completed slot q of
        (Inl e, slot', q') \<Rightarrow> (Some (Inl e), slot', q')
      | (Inr (Stop n), slot', q') \<Rightarrow> (Some (Inr n), slot', q')
      | (Inr (Again n), slot', q') \<Rightarrow> drain_loop me from_str session limit cutoff_seq ts n slot' q')"

text \<open>What the drain does before its loop: \<open>dr_first\<close> observes the check of the root's path.\<close>

record drain_start =
  dr_replaced :: "bool fallible"
  dr_leader :: "unit fallible"
  dr_sweep :: observed
  dr_read :: observed
  dr_write :: observed
  dr_reread :: observed

definition drain_requests ::
  "store_id \<Rightarrow> (string \<Rightarrow> reconcile_options fallible) \<Rightarrow> drain_start \<Rightarrow> 'c turn_obs list \<Rightarrow> string \<Rightarrow> nat \<Rightarrow> int option
     \<Rightarrow> slot \<Rightarrow> queue \<Rightarrow> nat fallible option \<times> slot \<times> queue" where
  "drain_requests me from_str st ts session limit cutoff_seq slot q =
     (case dr_replaced st of Inl e \<Rightarrow> (Some (Inl e), slot, q)
      | Inr True \<Rightarrow> (case fail_changed_root_requests me (dr_sweep st) session q of
            (Inl e, q') \<Rightarrow> (Some (Inl e), slot, q')
          | (Inr _, q') \<Rightarrow>
              (Some (Inl (plain ''root_changed: old leader stopped after queue failure transition'')), slot, q'))
      | Inr False \<Rightarrow> (case dr_leader st of Inl e \<Rightarrow> (Some (Inl e), slot, q) | Inr _ \<Rightarrow>
          (case fail_changed_root_requests me (dr_sweep st) session q of
            (Inl e, q') \<Rightarrow> (Some (Inl e), slot, q')
          | (Inr _, q') \<Rightarrow>
              (case retry_recorded_completion me (dr_read st) (dr_write st) (dr_reread st) session slot q' of
                 (Inl e, slot1, q1) \<Rightarrow> (Some (Inl e), slot1, q1)
               | (Inr resolved, slot1, q1) \<Rightarrow>
                   drain_loop me from_str session limit cutoff_seq ts (if resolved then 1 else 0) slot1 q1))))"

subsection \<open>The command line and the daemon around it\<close>

text \<open>\<open>retry_cli_recorded_completion\<close>, over the observations of its attempts; None when they are used up.\<close>

record retry_attempt =
  ra_cancel :: bool
  ra_leader :: "unit fallible"
  ra_read :: observed
  ra_write :: observed
  ra_reread :: observed

fun retry_cli_loop ::
  "store_id \<Rightarrow> string \<Rightarrow> retry_attempt list \<Rightarrow> slot \<Rightarrow> queue \<Rightarrow> unit fallible option \<times> slot \<times> queue" where
  "retry_cli_loop me session [] slot q = (None, slot, q)"
| "retry_cli_loop me session (a # as) slot q =
     (if ra_cancel a
      then (Some (Inl (plain ''index wait interrupted; accepted request remains queued'')), slot, q)
      else (case ra_leader a of Inl e \<Rightarrow> (Some (Inl e), slot, q) | Inr _ \<Rightarrow>
        (case retry_recorded_completion me (ra_read a) (ra_write a) (ra_reread a) session slot q of
           (Inr True, slot', q') \<Rightarrow> (Some (Inr ()), slot', q')
         | (Inr False, slot', q') \<Rightarrow>
             (Some (Inl (plain ''storage_busy: cached completion disappeared'')), slot', q')
         | (Inl e, slot', q') \<Rightarrow>
             (if transient_storage_contention e then retry_cli_loop me session as slot' q'
              else (Some (Inl e), slot', q')))))"

definition retry_cli_recorded_completion ::
  "store_id \<Rightarrow> string \<Rightarrow> fault \<Rightarrow> retry_attempt list \<Rightarrow> slot \<Rightarrow> queue \<Rightarrow> unit fallible option \<times> slot \<times> queue" where
  "retry_cli_recorded_completion me session initial as slot q =
     (if \<not> has_recorded_completion session slot \<or> \<not> transient_storage_contention initial
      then (Some (Inl initial), slot, q) else retry_cli_loop me session as slot q)"

text \<open>\<open>cooperative_maintenance_unit\<close>: \<open>mu_priority k\<close> is the caller's k-th answer, \<open>mu_open\<close> the probe.\<close>

datatype maintenance_outcome = Idle | Deferred | Progress

record maintenance_env =
  mu_priority :: "nat \<Rightarrow> bool"
  mu_session :: "unit fallible"
  mu_permit :: bool
  mu_open :: "probe fallible"
  mu_view :: probe_view
  mu_guard :: "unit fallible"
  mu_step :: "maintenance_outcome fallible"

definition cooperative_maintenance_unit :: "maintenance_env \<Rightarrow> maintenance_outcome fallible" where
  "cooperative_maintenance_unit m =
     (if \<not> mu_priority m 0 \<or> \<not> is_ok (mu_session m) then Inr Deferred
      else if \<not> mu_permit m then Inr Deferred
      else (case mu_open m of
          Inl e \<Rightarrow> if transient_storage_contention e then Inr Deferred else Inl e
        | Inr p \<Rightarrow>
            if check_with_barrier (mu_view m) p \<noteq> Clear \<or> \<not> mu_priority m 1 then Inr Deferred
            else if \<not> is_ok (mu_guard m) then Inr Deferred
            else mu_step m))"

lemma maintenance_needs_clear:
  "cooperative_maintenance_unit m = Inr Progress \<Longrightarrow>
     mu_priority m 0 \<and> mu_priority m 1 \<and> mu_permit m \<and> is_ok (mu_session m) \<and> is_ok (mu_guard m)
     \<and> (\<exists>p. mu_open m = Inr p \<and> check_with_barrier (mu_view m) p = Clear)"
  by (auto simp: cooperative_maintenance_unit_def split: if_splits sum.splits)

text \<open>
  Becoming a serving owner: \<open>se_recreate\<close> is the exceptional recovery (its answer), \<open>se_sweep\<close> the
  sweep of a lost root's requests, \<open>se_recorded\<close> the recorded options. An answer says whether the
  session is a leader's.
\<close>

record 'c serving_env =
  se_pending :: bool
  se_recreate :: "unit fallible"
  se_leader :: "unit fallible"
  se_sweep :: "nat fallible"
  se_enter :: "unit fallible"
  se_baseline :: "index_pin option fallible"
  se_recorded :: "index_options option fallible"
  se_default :: index_options
  se_is_leader :: bool
  se_verify :: "unit fallible"
  se_job :: "index_options \<Rightarrow> (unit, 'c) job"
  se_session :: "unit fallible"
  se_follower :: "unit fallible"

datatype serving = LeaderServing | FollowerServing

definition mentions_busy :: "fault \<Rightarrow> bool" where
  "mentions_busy e \<longleftrightarrow> (\<exists>k < length (fault_text e). starts_with ''storage_busy'' (drop k (fault_text e)))"

definition admit_publication :: "'c serving_env \<Rightarrow> unit fallible" where
  "admit_publication s = ensure (se_is_leader s) (plain ''storage_busy: follower cannot publish'') (se_verify s)"

definition no_cutoff :: "(unit, 'c) job \<Rightarrow> (unit, 'c) job" where
  "no_cutoff j = j\<lparr>j_cutoff := (\<lambda>_ s. (Inr (), s))\<rparr>"

definition establish_serving_session :: "'c serving_env \<Rightarrow> index_options option \<Rightarrow> serving fallible" where
  "establish_serving_session s given =
     (if se_pending s then
        bind_result (ok_or given (plain ''recovery_required: index options unavailable; run explicit trellis index'')) (\<lambda>_.
        bind_result (se_recreate s) (\<lambda>_. bind_result (se_sweep s) (\<lambda>_.
        bind_result (se_session s) (\<lambda>_. Inr LeaderServing))))
      else (case se_leader s of
          Inl e \<Rightarrow> if mentions_busy e then bind_result (se_follower s) (\<lambda>_. Inr FollowerServing) else Inl e
        | Inr _ \<Rightarrow>
            bind_result (se_sweep s) (\<lambda>_. bind_result (se_enter s) (\<lambda>_. bind_result (se_baseline s) (\<lambda>_.
            bind_result (case given of Some opts \<Rightarrow> Inr opts
               | None \<Rightarrow> bind_result (se_recorded s) (\<lambda>r. Inr (case r of Some opts \<Rightarrow> opts | None \<Rightarrow> se_default s))) (\<lambda>opts.
            bind_result (admit_publication s) (\<lambda>_.
            bind_result (fst (run_with_capture (no_cutoff (se_job s opts)) None True ((), []))) (\<lambda>_.
            bind_result (se_session s) (\<lambda>_. Inr LeaderServing)))))))))"

text \<open>\<open>reconcile_workspace\<close>: one explicit full publication, without the fast path.\<close>

definition reconcile_workspace :: "'c serving_env \<Rightarrow> index_options \<Rightarrow> (index_pin fallible) \<Rightarrow> index_pin fallible" where
  "reconcile_workspace s opts recreated =
     (if se_pending s then bind_result recreated (\<lambda>pin. bind_result (se_sweep s) (\<lambda>_. Inr pin))
      else bind_result (se_leader s) (\<lambda>_. bind_result (se_enter s) (\<lambda>_. bind_result (se_baseline s) (\<lambda>_.
           bind_result (admit_publication s) (\<lambda>_.
           bind_result (fst (run_with_capture (no_cutoff (se_job s opts)) None False ((), []))) (\<lambda>pin.
           bind_result (se_session s) (\<lambda>_. Inr pin)))))))"

text \<open>A leader serves only after a publication of its own: a successful job, or the exceptional recovery.\<close>

lemma leader_serves_published:
  "establish_serving_session s given = Inr LeaderServing \<Longrightarrow>
     (se_pending s \<and> is_ok (se_recreate s) \<or>
      (\<exists>opts pin. fst (run_with_capture (no_cutoff (se_job s opts)) None True ((), [])) = Inr pin \<and> se_is_leader s))
     \<and> is_ok (se_sweep s) \<and> is_ok (se_session s)"
  by (auto simp: establish_serving_session_def admit_publication_def is_ok_iff split: if_splits sum.splits option.splits)

subsection \<open>The drain finishes rows\<close>

definition finished_count :: "queue \<Rightarrow> nat" where
  "finished_count q = length (filter finished (rows q))"

lemma evolves_counts:
  assumes "list_all2 row_evolves xs ys"
  shows "length (filter finished xs) \<le> length (filter finished ys)
    \<and> (\<forall>i < length xs. \<not> finished (xs ! i) \<and> finished (ys ! i) \<longrightarrow>
         length (filter finished xs) < length (filter finished ys))"
  using assms
proof (induction rule: list_all2_induct)
  case (Cons x xs y ys)
  have "finished x \<Longrightarrow> finished y" using Cons.hyps(1) by (auto simp: row_evolves_def)
  with Cons.IH show ?case by (auto simp: All_less_Suc2)
qed simp

lemma finished_count_mono: "lawful q q' \<Longrightarrow> finished_count q \<le> finished_count q'"
  using evolves_counts by (fastforce simp: lawful_def evolves_def finished_count_def)

text \<open>A row that was open and is finished later counts.\<close>

lemma finished_count_less:
  assumes law: "lawful q q'" and ok: "queue_ok q" and r: "r \<in> set (rows q)" "unfinished r"
    and r': "r' \<in> set (rows q')" "finished r'" "seq r' = seq r"
  shows "finished_count q < finished_count q'"
proof -
  obtain old new where old: "rows q' = old @ new" "list_all2 row_evolves (rows q) old"
    using law by (auto simp: lawful_def evolves_def)
  obtain i where i: "i < length (rows q)" "rows q ! i = r" using r(1) by (auto simp: in_set_conv_nth)
  have len: "length old = length (rows q)" using old(2) by (simp add: list_all2_lengthD)
  have "row_evolves r (old ! i)" using old(2) i by (auto simp: list_all2_conv_all_nth)
  then have "seq (old ! i) = seq r" by (auto simp: row_evolves_def dest: submission_sel)
  then have "old ! i = r'"
    using same_seq_same_row [of q' "old ! i" r'] law ok r' i len old(1) by (auto simp: lawful_def)
  with evolves_counts [OF old(2)] i r(2) r'(2) old(1) show ?thesis
    by (auto simp: finished_count_def finished_def)
qed

definition rq_finished_in :: "queue_request \<Rightarrow> queue \<Rightarrow> bool" where
  "rq_finished_in rq q \<longleftrightarrow> (\<exists>r \<in> set (rows q). seq r = rq_seq rq \<and> finished r)"

lemma cached_finished:
  assumes "cached_row me ob p q = Inr row" and "matches_terminal (pend_outcome p) row"
  shows "rq_finished_in (pend_request p) q"
proof -
  from cached_row_Inr [OF assms(1)] obtain r where r: "r \<in> set (rows q)" "read_row (uuids me) r = Inr row"
    "same_claim p row" by auto
  have "finished r" using assms(2) read_row_Inr(3) [OF r(2)]
    by (cases "pend_outcome p") (auto simp: finished_def unfinished_def)
  with r read_row_Inr(1) [OF r(2)] show ?thesis by (auto simp: rq_finished_in_def same_claim_def)
qed

text \<open>Recording a completion that succeeds leaves an empty slot and a finished row.\<close>

lemma record_finishes:
  assumes rec: "record_and_finish_request me ob ob_read ob_write ob_reread session rq outcome slot q = (Inr (), slot', q')"
    and ok: "queue_ok q" and law: "\<And>p. lawful p (between ob_read p)" "\<And>p. lawful p (between ob_write p)"
  shows "slot' = None \<and> rq_finished_in rq q'"
proof -
  obtain c resolved where retry: "retry_recorded_completion me ob_read ob_write ob_reread session
      (Some \<lparr>pend_request = rq, pend_outcome = c, pend_incarnation = session\<rparr>) q = (Inr resolved, slot', q')"
    using rec by (auto simp: record_and_finish_request_def split: sum.splits if_splits prod.splits)
  then have resolved
    by (auto simp: retry_recorded_completion_def Let_def split: sum.splits if_splits prod.splits)
  with retry retry_cases have "slot' = None" by fastforce
  have ok2: "queue_ok (between ob_write (between ob_read q))"
    using lawful_trans [OF law] ok by (simp add: lawful_def)
  let ?p = "\<lparr>pend_request = rq, pend_outcome = c, pend_incarnation = session\<rparr>"
  have fin: "rq_finished_in rq q'" if f: "finish_request_outcome me ob_write session rq c (between ob_write (between ob_read q)) = (Inr (), q')"
  proof -
    from finish_ok [OF ok2 f] obtain a r b where "claimed_here me session rq r"
      "rows q' = a @ finish_row (uuids me) c (clock ob_write) r # b" by auto
    then show ?thesis by (cases c) (auto simp: rq_finished_in_def claimed_here_def finish_row_def finished_def unfinished_def)
  qed
  from retry \<open>resolved\<close> retry_cases [of me ob_read ob_write ob_reread session "Some ?p" q slot' q']
  have "rq_finished_in rq q'" using cached_finished [of me _ ?p q'] fin by auto
  with \<open>slot' = None\<close> show ?thesis by simp
qed

lemma settle_finishing:
  assumes "settle me from_str t session limit completed rq slot q = (Inr v, slot', q')"
    and "v \<noteq> Stop completed"
  shows "(\<exists>outcome. record_and_finish_request me (tn_finish t) (tn_finish_read t) (tn_finish_write t)
      (tn_finish_reread t) session rq outcome slot q = (Inr (), slot', q'))
    \<and> v = (if limit \<le> completed + 1 then Stop (completed + 1) else Again (completed + 1))"
  using assms by (auto simp: settle_def split: sum.splits if_splits prod.splits)

text \<open>The other processes of a turn keep to the rules of the queue (\<open>run_lawful\<close>).\<close>

definition turn_lawful :: "'c turn_obs \<Rightarrow> bool" where
  "turn_lawful t \<longleftrightarrow> (\<forall>k p. lawful p (tn_others t k p)) \<and>
     (\<forall>ob \<in> {tn_fail t, tn_read t, tn_requeue t, tn_finish_read t, tn_finish_write t, tn_finish_reread t}.
        \<forall>p. lawful p (between ob p))"

lemma settle_lawful:
  assumes t: "turn_lawful t"
  shows "lawful q (snd (snd (settle me from_str t session limit completed rq slot q)))"
proof -
  obtain outcome before where run: "run_claimed from_str t rq = (outcome, before)" by force
  define w where "w b = requeue_busy_claim me (tn_fail t) (tn_read t) (tn_requeue t) session rq b slot q" for b
  define x where "x = record_and_finish_request me (tn_finish t) (tn_finish_read t) (tn_finish_write t)
    (tn_finish_reread t) session rq outcome slot q"
  have w: "lawful q (snd (w b))" for b unfolding w_def by (rule requeue_lawful) (use t in \<open>auto simp: turn_lawful_def\<close>)
  have x: "lawful q (snd (snd x))" unfolding x_def by (rule record_lawful) (use t in \<open>auto simp: turn_lawful_def\<close>)
  have w': "lawful q (snd (snd (case w b of (Inl e, q') \<Rightarrow> (f e, slot, q') | (Inr u, q') \<Rightarrow> (g u, slot, q'))))"
    for b and f g :: "_ \<Rightarrow> verdict fallible" using w [of b] by (cases "w b") (simp split: sum.split)
  have x': "lawful q (snd (snd (case x of (Inl e, s, q') \<Rightarrow> (f e, s, q') | (Inr u, s, q') \<Rightarrow> (g u, s, q'))))"
    for f g :: "_ \<Rightarrow> verdict fallible" using x by (cases x) (simp split: sum.split)
  show ?thesis
    unfolding settle_def run prod.case w_def [symmetric] x_def [symmetric]
    using w' x' by (auto split: sum.split)
qed

lemma turn_lawful_step:
  assumes t: "turn_lawful t"
  shows "lawful q (snd (snd (drain_turn me from_str t session limit cutoff_seq completed slot q)))"
proof -
  let ?q0 = "tn_others t 0 q"
  define c where "c = claim_request me (tn_claim t) session (tn_others t 1 ?q0)"
  have q0: "lawful q ?q0" and o: "lawful p (tn_others t k p)" for k p using t by (auto simp: turn_lawful_def)
  have q1: "lawful q (snd c)" unfolding c_def by (rule lawful_trans [OF q0 lawful_trans [OF o claim_lawful]])
  have q2: "lawful q (snd (snd (settle me from_str t session limit completed rq slot (tn_others t 2 (snd c)))))" for rq
    by (rule lawful_trans [OF q1 lawful_trans [OF o settle_lawful [OF t]]])
  obtain r q1' where c: "c = (r, q1')" by (cases c)
  show ?thesis
    unfolding drain_turn_def Let_def c_def [symmetric]
    using q0 q1 q2 unfolding c by (auto split: sum.split option.split bool.split)
qed

text \<open>A turn that counts a completion really finishes one more row, and leaves the slot empty.\<close>

lemma turn_finishes:
  assumes turn: "drain_turn me from_str t session limit cutoff_seq completed slot q = (Inr v, slot', q')"
    and t: "turn_lawful t" and ok: "queue_ok q" and v: "v \<noteq> Stop completed"
  shows "slot' = None \<and> v = (if limit \<le> completed + 1 then Stop (completed + 1) else Again (completed + 1))
    \<and> finished_count q < finished_count q'"
proof -
  let ?qc = "tn_others t 1 (tn_others t 0 q)"
  have o: "lawful p (tn_others t k p)" for k p using t by (auto simp: turn_lawful_def)
  have qc: "lawful q ?qc" by (rule lawful_trans [OF o o])
  from turn v obtain rq q1 where claim: "claim_request me (tn_claim t) session ?qc = (Inr (Some rq), q1)"
    and settle: "settle me from_str t session limit completed rq slot (tn_others t 2 q1) = (Inr v, slot', q')"
    by (auto simp: drain_turn_def Let_def split: sum.splits option.splits bool.splits if_splits prod.splits)
  have okc: "queue_ok ?qc" using qc ok by (simp add: lawful_def)
  have q1: "lawful ?qc q1" using claim_lawful [of ?qc me "tn_claim t" session] claim by simp
  have q2: "lawful q1 (tn_others t 2 q1)" by (rule o)
  have ok2: "queue_ok q1" "queue_ok (tn_others t 2 q1)" using q1 q2 okc by (auto simp: lawful_def)
  have q': "lawful (tn_others t 2 q1) q'"
    using settle_lawful [OF t, of "tn_others t 2 q1" me from_str session limit completed rq slot] settle by simp
  from settle_finishing [OF settle v] obtain outcome where
    rec: "record_and_finish_request me (tn_finish t) (tn_finish_read t) (tn_finish_write t)
      (tn_finish_reread t) session rq outcome slot (tn_others t 2 q1) = (Inr (), slot', q')"
    and v': "v = (if limit \<le> completed + 1 then Stop (completed + 1) else Again (completed + 1))" by auto
  from record_finishes [OF rec ok2(2)] t have done_: "slot' = None" "rq_finished_in rq q'"
    by (auto simp: turn_lawful_def)
  from claim_shape [OF okc claim] obtain a r b where r: "rows q1 = a @ start_claim session (clock (tn_claim t)) r # b"
    "read_row (uuids me) (start_claim session (clock (tn_claim t)) r) = Inr rq" by auto
  let ?r = "start_claim session (clock (tn_claim t)) r"
  have open_row: "?r \<in> set (rows q1)" "unfinished ?r" "seq ?r = rq_seq rq"
    using r read_row_Inr(1) [OF r(2)] by (auto simp: start_claim_def unfinished_def)
  from done_(2) obtain r' where "r' \<in> set (rows q')" "finished r'" "seq r' = seq ?r"
    using open_row(3) by (auto simp: rq_finished_in_def)
  from finished_count_less [OF lawful_trans [OF q2 q'] ok2(1) open_row(1,2) this]
  have "finished_count q1 < finished_count q'" .
  moreover have "finished_count q \<le> finished_count q1"
    using finished_count_mono [OF lawful_trans [OF qc q1]] .
  ultimately show ?thesis using done_(1) v' by simp
qed

lemma turn_keeps_slot:
  assumes "drain_turn me from_str t session limit cutoff_seq completed slot q = (Inr (Stop completed), slot', q')"
  shows "slot' = slot"
proof -
  have "slot2 = slot" if "settle me from_str t session limit completed rq slot p = (Inr (Stop completed), slot2, p')"
    for rq p slot2 p'
    using that by (auto simp: settle_def split: sum.splits if_splits prod.splits)
  then show ?thesis using assms
    by (auto simp: drain_turn_def Let_def split: sum.splits option.splits bool.splits if_splits prod.splits)
qed

lemma loop_lawful:
  "list_all turn_lawful ts \<Longrightarrow>
   lawful q (snd (snd (drain_loop me from_str session limit cutoff_seq ts completed slot q)))"
proof (induction ts arbitrary: completed slot q)
  case (Cons t ts)
  obtain r slot1 q1 where turn: "drain_turn me from_str t session limit cutoff_seq completed slot q = (r, slot1, q1)"
    by (metis prod_cases3)
  have "lawful q q1" using turn_lawful_step [of t q me from_str session limit cutoff_seq completed slot]
      Cons.prems turn by simp
  with Cons.IH Cons.prems show ?case
    by (auto simp: turn intro: lawful_trans split: sum.split verdict.split)
qed simp

text \<open>How far a loop has come: every counted completion finished a row, and every turn that went on counted one.\<close>

lemma loop_finishes:
  assumes "drain_loop me from_str session limit cutoff_seq ts completed slot q = (res, slot', q')"
    and "list_all turn_lawful ts" and "queue_ok q"
  shows "(\<forall>n. res = Some (Inr n) \<longrightarrow> completed \<le> n \<and> n + finished_count q \<le> completed + finished_count q'
        \<and> n \<le> max completed (max limit (completed + 1)) \<and> (slot = None \<longrightarrow> slot' = None))
    \<and> (res = None \<longrightarrow> length ts + finished_count q \<le> finished_count q')"
  using assms
proof (induction ts arbitrary: completed slot q)
  case (Cons t ts)
  obtain r slot1 q1 where turn: "drain_turn me from_str t session limit cutoff_seq completed slot q = (r, slot1, q1)"
    by (metis prod_cases3)
  have step: "lawful q q1" using turn_lawful_step [of t q me from_str session limit cutoff_seq completed slot]
      Cons.prems(2) turn by simp
  show ?case
  proof (cases r)
    case (Inl e)
    with Cons.prems(1) turn show ?thesis by auto
  next
    case (Inr v)
    show ?thesis
    proof (cases "v = Stop completed")
      case True
      with Cons.prems(1) turn Inr have "res = Some (Inr completed)" "slot' = slot1" "q' = q1" by simp_all
      then show ?thesis using finished_count_mono [OF step] turn_keeps_slot turn Inr True by auto
    next
      case False
      from turn_finishes [OF turn [unfolded Inr] _ Cons.prems(3) False] Cons.prems(2)
      have f: "slot1 = None" "v = (if limit \<le> completed + 1 then Stop (completed + 1) else Again (completed + 1))"
        "finished_count q < finished_count q1" by auto
      show ?thesis
      proof (cases "limit \<le> completed + 1")
        case True
        with Cons.prems(1) turn Inr f show ?thesis by auto
      next
        case False
        have "queue_ok q1" using step Cons.prems(3) by (simp add: lawful_def)
        with Cons.IH [of "completed + 1" slot1 q1] Cons.prems(1,2) turn Inr f False
        show ?thesis by fastforce
      qed
    qed
  qed
qed simp

definition start_lawful :: "drain_start \<Rightarrow> bool" where
  "start_lawful st \<longleftrightarrow> (\<forall>ob \<in> {dr_sweep st, dr_read st, dr_write st, dr_reread st}. \<forall>p. lawful p (between ob p))"

text \<open>The drain up to its loop.\<close>

lemma drain_cases:
  assumes "drain_requests me from_str st ts session limit cutoff_seq slot q = (res, slot', q')"
    and "start_lawful st" and "queue_ok q"
  shows "(\<exists>e. res = Some (Inl e)) \<or> (\<exists>resolved q1. lawful q q1 \<and> queue_ok q1 \<and>
     drain_loop me from_str session limit cutoff_seq ts (if resolved then 1 else 0) None q1 = (res, slot', q'))"
proof -
  obtain r0 q0 where sweep: "fail_changed_root_requests me (dr_sweep st) session q = (r0, q0)" by force
  obtain r1 slot1 q1 where retry:
    "retry_recorded_completion me (dr_read st) (dr_write st) (dr_reread st) session slot q0 = (r1, slot1, q1)"
    by (metis prod_cases3)
  have "lawful q q0" using sweep_lawful [of "dr_sweep st" q me session] assms(2) sweep
    by (simp add: start_lawful_def)
  moreover have "lawful q0 q1"
    using retry_lawful [of "dr_read st" "dr_write st" "dr_reread st" q0 me session slot] assms(2) retry
    by (simp add: start_lawful_def)
  ultimately have q1: "lawful q q1" by (rule lawful_trans)
  then have ok1: "queue_ok q1" using assms(3) by (simp add: lawful_def)
  have none: "slot1 = None" if "r1 = Inr b" for b
    using retry that
    by (auto simp: retry_recorded_completion_def Let_def split: sum.splits option.splits if_splits prod.splits)
  show ?thesis
  proof (cases "\<exists>b. dr_replaced st = Inr False \<and> dr_leader st = Inr () \<and> is_ok r0 \<and> r1 = Inr b")
    case True
    then obtain b where b: "dr_replaced st = Inr False" "dr_leader st = Inr ()" "is_ok r0" "r1 = Inr b" by auto
    then have "drain_loop me from_str session limit cutoff_seq ts (if b then 1 else 0) None q1 = (res, slot', q')"
      using assms(1) none [OF b(4)] by (cases r0) (simp_all add: drain_requests_def sweep retry)
    with q1 ok1 show ?thesis by blast
  next
    case False
    then have "\<exists>e. res = Some (Inl e)"
      using assms(1) by (cases r0; cases r1; cases "dr_replaced st"; cases "dr_leader st")
        (auto simp: drain_requests_def sweep retry split: bool.splits)
    then show ?thesis ..
  qed
qed

text \<open>A drain that reports n completions has an empty completion slot, and (a completion recorded by an
  earlier attempt aside) at least n more requests are durably finished than before, with all the
  rules of the queue kept, whatever other processes did between its transactions; it reports at most
  one more than it was allowed to.\<close>

theorem drain_reports_finished:
  assumes drain: "drain_requests me from_str st ts session limit cutoff_seq slot q = (Some (Inr n), slot', q')"
    and others: "start_lawful st" "list_all turn_lawful ts" and ok: "queue_ok q"
  shows "slot' = None \<and> n + finished_count q \<le> 1 + finished_count q' \<and> n \<le> max limit 1 + 1 \<and> lawful q q'"
proof -
  from drain_cases [OF drain others(1) ok] obtain resolved q1 where q1: "lawful q q1" "queue_ok q1"
    and loop: "drain_loop me from_str session limit cutoff_seq ts (if resolved then 1 else 0) None q1 = (Some (Inr n), slot', q')"
    by auto
  from loop_finishes [OF loop others(2) q1(2)]
  have "slot' = None" "n + finished_count q1 \<le> (if resolved then 1 else 0) + finished_count q'"
    "n \<le> max limit 1 + 1" by (auto split: if_splits)
  moreover have "lawful q1 q'" using loop_lawful [OF others(2), of q1] loop by (metis snd_conv)
  ultimately show ?thesis
    using finished_count_mono [OF q1(1)] lawful_trans [OF q1(1)] by (auto split: if_splits)
qed

text \<open>C19: The drain returns: each turn after which it goes on has durably finished one more request, so when
  fewer requests are in the queue it leaves than were finished before plus its turns, it has
  returned. It can only run on as long as other processes keep adding requests.\<close>

theorem drain_terminates:
  assumes drain: "drain_requests me from_str st ts session limit cutoff_seq slot q = (res, slot', q')"
    and others: "start_lawful st" "list_all turn_lawful ts" and ok: "queue_ok q"
    and enough: "length (rows q') < finished_count q + length ts"
  shows "res \<noteq> None"
proof
  assume none: "res = None"
  with drain_cases [OF drain others(1) ok] obtain resolved q1 where q1: "lawful q q1" "queue_ok q1"
    and loop: "drain_loop me from_str session limit cutoff_seq ts (if resolved then 1 else 0) None q1 = (None, slot', q')"
    by auto
  from loop_finishes [OF loop others(2) q1(2)] have "length ts + finished_count q1 \<le> finished_count q'" by simp
  moreover have "finished_count q' \<le> length (rows q')" by (simp add: finished_count_def)
  ultimately show False using finished_count_mono [OF q1(1)] enough by simp
qed

definition sample_turn :: "nat turn_obs" where
  "sample_turn = \<lparr>tn_cancel = (\<lambda>_. False), tn_others = (\<lambda>_ q. q), tn_ahead = sample_ob ''b'',
     tn_claim = sample_ob ''b'', tn_enter = Inr (), tn_expected = Inr None, tn_is_leader = True, tn_leader = Inr (),
     tn_job = (\<lambda>_. sample_job\<lparr>j_publish := (\<lambda>_ _. Inr \<lparr>ip_generation = 1, ip_revision = 3\<rparr>)\<rparr>),
     tn_recovery = Inr None, tn_fail = sample_ob ''b'', tn_read = sample_ob ''b'', tn_requeue = sample_ob ''b'',
     tn_finish = sample_ob ''c'', tn_finish_read = sample_ob ''c'', tn_finish_write = sample_ob ''c'',
     tn_finish_reread = sample_ob ''c''\<rparr>"

definition sample_start :: drain_start where
  "sample_start = \<lparr>dr_replaced = Inr False, dr_leader = Inr (), dr_sweep = sample_ob ''s'',
     dr_read = sample_ob ''s'', dr_write = sample_ob ''s'', dr_reread = sample_ob ''s''\<rparr>"

definition sample_decode :: "string \<Rightarrow> reconcile_options fallible" where
  "sample_decode s = Inr \<lparr>opt_version = 1, max_file_bytes = 5, scip_path = None, manifest_path = None\<rparr>"

lemma sample_drain_lawful: "start_lawful sample_start" "list_all turn_lawful [sample_turn]"
  by (simp_all add: start_lawful_def turn_lawful_def sample_start_def sample_turn_def sample_ob_def)

abbreviation sample_running :: queue_request where
  "sample_running \<equiv> sample_request\<lparr>rq_state := ''running'', rq_started := Some ''9''\<rparr>"

lemma sample_claim_eval: "claim_request sample_me (sample_ob ''b'') ''L'' sample_queue =
    (Inr (Some sample_running), sample_claimed)"
  unfolding sample_claimed_eval unfolding sample_queue_eval by (simp add: sample_defs)

lemma sample_run: "run_claimed sample_decode sample_turn sample_running =
    (Inr \<lparr>ip_generation = 1, ip_revision = 3\<rparr>, Some None)"
  by (simp add: run_claimed_def request_options_def sample_decode_def accepted_def options_valid_def
      require_absolute_optional_inputs_def prepare_with_session_def sample_turn_def job_eval run_unchanged_def)

lemma sample_record: "\<exists>q'. record_and_finish_request sample_me (sample_ob ''c'') (sample_ob ''c'') (sample_ob ''c'') (sample_ob ''c'')
    ''L'' sample_running (Inr \<lparr>ip_generation = 1, ip_revision = 3\<rparr>) None sample_claimed =
    (Inr (), None, q')"
  unfolding sample_claimed_eval
  by (simp add: record_and_finish_request_def from_result_def retry_recorded_completion_def cached_row_def
      request_by_id_def read_checked_def finish_request_outcome_def sample_defs same_claim_def is_terminal_def
      changed_rows_def claimed_here_def finish_row_def)

lemma turn_at_limit:
  assumes "\<not> tn_cancel t 0" and "\<not> tn_cancel t 1"
    and "claim_request me (tn_claim t) session (tn_others t 1 (tn_others t 0 q)) = (Inr (Some rq), q1)"
    and "run_claimed from_str t rq = (Inr pin, before)"
    and "record_and_finish_request me (tn_finish t) (tn_finish_read t) (tn_finish_write t) (tn_finish_reread t)
      session rq (Inr pin) slot (tn_others t 2 q1) = (Inr (), slot', q')"
    and "limit \<le> completed + 1"
  shows "drain_turn me from_str t session limit None completed slot q = (Inr (Stop (completed + 1)), slot', q')"
  using assms by (simp add: drain_turn_def settle_def Let_def)

lemma sample_sweep: "fail_changed_root_requests sample_me (sample_ob ''s'') ''L'' sample_queue = (Inr 0, sample_queue)"
proof -
  have "\<not> (unfinished r \<and> of_root sample_me r = False)" if "r \<in> set (rows sample_queue)" for r
    using that unfolding sample_queue_eval by (simp add: of_root_def new_row_def)
  then have none: "filter (\<lambda>r. unfinished r \<and> of_root sample_me r = False) (rows sample_queue) = []"
    by (simp add: filter_empty_conv)
  have "update_rows (\<lambda>r. unfinished r \<and> of_root sample_me r = False) f sample_queue = sample_queue" for f
    unfolding sample_queue_eval by (simp add: update_rows_def of_root_def new_row_def)
  moreover have ob: "replaced (sample_ob i) k = Inr False" "leader (sample_ob i) k = Inr ()" "connect (sample_ob i) = Inr ()"
    "begin_tx (sample_ob i) = Inr ()" "commit_ans (sample_ob i) = Committed" "between (sample_ob i) q = q"
    "absent_virgin (sample_ob i) = Inr False" for i k q by (simp_all add: sample_ob_def)
  ultimately show ?thesis
    unfolding fail_changed_root_requests_def ob sum.case Let_def none changed_rows_def
    by (simp add: verify_holder_def ob guarded_def demand_def commit_to_def attest_changed_root_rows_def)
qed

lemma sample_drains: "\<exists>q'. drain_requests sample_me sample_decode sample_start [sample_turn] ''L'' 1 None None sample_queue
    = (Some (Inr 1), None, q')"
proof -
  have tn: "tn_cancel sample_turn k = False" "tn_others sample_turn k q = q" "tn_claim sample_turn = sample_ob ''b''"
    "tn_finish sample_turn = sample_ob ''c''" "tn_finish_read sample_turn = sample_ob ''c''"
    "tn_finish_write sample_turn = sample_ob ''c''" "tn_finish_reread sample_turn = sample_ob ''c''" for k q
    by (simp_all add: sample_turn_def)
  from sample_record obtain q' where rec: "record_and_finish_request sample_me (sample_ob ''c'') (sample_ob ''c'') (sample_ob ''c'') (sample_ob ''c'')
    ''L'' sample_running (Inr \<lparr>ip_generation = 1, ip_revision = 3\<rparr>) None sample_claimed =
    (Inr (), None, q')" by blast
  have c: "claim_request sample_me (tn_claim sample_turn) ''L'' (tn_others sample_turn 1 (tn_others sample_turn 0 sample_queue)) =
    (Inr (Some sample_running), sample_claimed)" unfolding tn by (rule sample_claim_eval)
  have r: "record_and_finish_request sample_me (tn_finish sample_turn) (tn_finish_read sample_turn)
      (tn_finish_write sample_turn) (tn_finish_reread sample_turn) ''L'' sample_running
      (Inr \<lparr>ip_generation = 1, ip_revision = 3\<rparr>) None (tn_others sample_turn 2 sample_claimed) = (Inr (), None, q')"
    unfolding tn by (rule rec)
  have turn: "drain_turn sample_me sample_decode sample_turn ''L'' 1 None 0 None sample_queue = (Inr (Stop (0 + 1)), None, q')"
    by (rule turn_at_limit [OF _ _ c sample_run r]) (simp_all add: tn(1))
  have retry: "retry_recorded_completion sample_me (dr_read sample_start) ob' ob'' session None q = (Inr False, None, q)"
    for ob' ob'' session q by (simp add: retry_recorded_completion_def sample_start_def sample_ob_def)
  have st: "dr_replaced sample_start = Inr False" "dr_leader sample_start = Inr ()"
    "dr_sweep sample_start = sample_ob ''s''" by (simp_all add: sample_start_def)
  show ?thesis
    unfolding drain_requests_def st sample_sweep sum.case bool.case prod.case retry if_False
      drain_loop.simps turn verdict.case by simp
qed

theorem drain_reports_finished_witness: "\<exists>q'. 1 + finished_count sample_queue \<le> 1 + finished_count q' \<and> lawful sample_queue q'"
proof -
  from sample_drains obtain q' where d: "drain_requests sample_me sample_decode sample_start [sample_turn] ''L'' 1 None None sample_queue
    = (Some (Inr 1), None, q')" by blast
  from drain_reports_finished [OF d sample_drain_lawful sample_ok(1)] show ?thesis by blast
qed

theorem drain_terminates_witness:
  "fst (drain_requests sample_me sample_decode sample_start [sample_turn] ''L'' 1 None None empty_queue) \<noteq> None"
proof -
  obtain res slot' q' where d: "drain_requests sample_me sample_decode sample_start [sample_turn] ''L'' 1 None None empty_queue
    = (res, slot', q')" by (metis prod_cases3)
  have "drain_requests sample_me sample_decode sample_start [sample_turn] ''L'' 1 None None empty_queue
    = (Some (Inr 0), None, empty_queue)"
    by (simp add: drain_requests_def sample_start_def retry_recorded_completion_def fail_changed_root_requests_def
      drain_turn_def sample_turn_def verify_holder_def of_root_def changed_rows_def
      attest_changed_root_rows_def sample_defs)
  with d have "length (rows q') < finished_count empty_queue + length [sample_turn]" by (simp add: empty_queue_def)
  from drain_terminates [OF d sample_drain_lawful empty_ok this] d show ?thesis by simp
qed

end
