(* ===== verification/Capture.thy ===== *)
theory Capture
  imports Watch Effects
begin

section \<open>Admission of the workspace (\<open>capture.rs\<close>)\<close>

text \<open>
  A capture reads a tree that other processes may change while it is read. The file system is a
  function of time: at each moment a path names a file (by device and inode) and a file has a stamp
  and contents. Every system call takes one tick, so a changing tree is seen through many moments.
  The walker of the \<open>ignore\<close> crate, path resolution and SHA-256 are parameters; a map ordered by path
  is an association list, and the walker's entries come in the order the crate yields them.
\<close>

subsection \<open>The file system over time\<close>

type_synonym identity = "nat \<times> nat"

record stamp =
  st_kind :: nat
  st_len :: nat
  st_identity :: identity
  st_mtime :: "int \<times> int"
  st_ctime :: "int \<times> int"

text \<open>
  \<open>wd_fails t\<close> is an I/O error of the call made at \<open>t\<close>, \<open>wd_short t\<close> how many bytes a read at \<open>t\<close> is
  willing to give.
\<close>

record world =
  wd_names :: "nat \<Rightarrow> path \<Rightarrow> identity option"
  wd_file :: "nat \<Rightarrow> identity \<Rightarrow> stamp \<times> string"
  wd_fails :: "nat \<Rightarrow> fault option"
  wd_short :: "nat \<Rightarrow> nat"
  wd_cancel :: "nat \<Rightarrow> bool"
  wd_canonical :: "path \<Rightarrow> path fallible"
  wd_walk :: "nat \<Rightarrow> path \<Rightarrow> (path \<times> file_type) fallible list"
  wd_show :: "path \<Rightarrow> string"
  wd_utf8 :: "string \<Rightarrow> bool"
  wd_sha :: "string \<Rightarrow> string"

type_synonym 'a timed = "nat \<Rightarrow> 'a fallible \<times> nat"

definition at_path :: "world \<Rightarrow> string \<Rightarrow> path \<Rightarrow> fault" where
  "at_path w msg p = plain (msg @ '': '' @ wd_show w p)"

text \<open>A check at the current moment.\<close>

definition must :: "bool \<Rightarrow> fault \<Rightarrow> unit timed" where
  "must c e = answer (if c then Inr () else Inl e)"

text \<open>One system call: its answer at the moment it is made, and one tick.\<close>

definition syscall :: "world \<Rightarrow> (nat \<Rightarrow> 'a fallible) \<Rightarrow> 'a timed" where
  "syscall w f t = ((case wd_fails w t of Some e \<Rightarrow> Inl e | None \<Rightarrow> f t), t + 1)"

definition check_cancel :: "world \<Rightarrow> unit timed" where
  "check_cancel w t = ((if wd_cancel w t then Inl (plain ''indexing cancelled'') else Inr ()), t)"

definition metadata_of :: "world \<Rightarrow> path \<Rightarrow> stamp option timed" where
  "metadata_of w p = syscall w (\<lambda>t. Inr (map_option (\<lambda>i. fst (wd_file w t i)) (wd_names w t p)))"

definition open_file :: "world \<Rightarrow> path \<Rightarrow> identity timed" where
  "open_file w p = syscall w (\<lambda>t. ok_or (wd_names w t p) (at_path w ''opening input'' p))"

definition fstat :: "world \<Rightarrow> identity \<Rightarrow> stamp timed" where
  "fstat w i = syscall w (\<lambda>t. Inr (fst (wd_file w t i)))"

text \<open>One \<open>read\<close> at an offset: nothing exactly at or behind the end, otherwise at least one byte.\<close>

definition read_at :: "world \<Rightarrow> identity \<Rightarrow> nat \<Rightarrow> string timed" where
  "read_at w i offset = syscall w (\<lambda>t. let left = drop offset (snd (wd_file w t i)) in
     Inr (take (min 65536 (max 1 (wd_short w t))) left))"

subsection \<open>Reading one file\<close>

text \<open>The loop of \<open>regular_read\<close>; it ends because every round but the last adds a byte below the cap.\<close>

function read_loop_bytes :: "world \<Rightarrow> path \<Rightarrow> nat \<Rightarrow> identity \<Rightarrow> string \<Rightarrow> string timed" where
  "read_loop_bytes w p cap i bytes t =
     (if wd_cancel w t then (Inl (plain ''indexing cancelled''), t)
      else (case read_at w i (length bytes) t of
          (Inl e, t') \<Rightarrow> (Inl e, t')
        | (Inr chunk, t') \<Rightarrow>
            (if chunk = [] then (Inr bytes, t')
             else if cap < length bytes + length chunk
             then (Inl (at_path w ''input exceeded byte limit'' p), t')
             else read_loop_bytes w p cap i (bytes @ chunk) t')))"
  by pat_completeness auto
termination
  by (relation "measure (\<lambda>(w, p, cap, i, bytes, t). cap + 1 - length bytes)") (auto intro!: diff_less_mono2)

definition regular_read :: "world \<Rightarrow> path \<Rightarrow> nat \<Rightarrow> stamp \<Rightarrow> string timed" where
  "regular_read w p cap expected =
     and_then (must (st_kind expected = 2 \<and> st_len expected \<le> cap) (at_path w ''unsafe or oversized input'' p)) (\<lambda>_.
     and_then (open_file w p) (\<lambda>i.
     and_then (fstat w i) (\<lambda>opened.
     and_then (must (opened = expected) (at_path w ''input drift during open'' p)) (\<lambda>_.
     and_then (read_loop_bytes w p cap i []) (\<lambda>bytes.
     and_then (must (length bytes = st_len expected) (at_path w ''input drift during read'' p)) (\<lambda>_.
     and_then (fstat w i) (\<lambda>after.
     and_then (must (after = expected) (at_path w ''input drift during read'' p)) (\<lambda>_.
     and_then (metadata_of w p) (\<lambda>found.
     and_then (must (found = Some expected) (at_path w ''input replaced during read'' p)) (\<lambda>_.
     answer (Inr bytes)))))))))))"

subsection \<open>Inputs\<close>

text \<open>The maps an admission fills: the identity of each input, its stamp and its bytes.\<close>

record admitted =
  am_identities :: "(identity \<times> path) list"
  am_inputs :: "(path \<times> stamp option) list"
  am_bytes :: "(path \<times> string option) list"

definition no_inputs :: admitted where
  "no_inputs = \<lparr>am_identities = [], am_inputs = [], am_bytes = []\<rparr>"

definition put_input :: "path \<Rightarrow> stamp option \<Rightarrow> string option \<Rightarrow> admitted \<Rightarrow> admitted" where
  "put_input p found bytes a = a\<lparr>
     am_identities := (case found of None \<Rightarrow> am_identities a
        | Some s \<Rightarrow> if has_key (am_identities a) (st_identity s) then am_identities a
                    else set_key (st_identity s) p (am_identities a)),
     am_inputs := set_key p found (am_inputs a), am_bytes := set_key p bytes (am_bytes a)\<rparr>"

text \<open>The bytes of an input: of a new file, or those of the admitted path it is another name of.\<close>

definition input_bytes_of :: "world \<Rightarrow> path \<Rightarrow> nat \<Rightarrow> identity list \<Rightarrow> admitted \<Rightarrow> stamp \<Rightarrow> string option timed" where
  "input_bytes_of w p cap sources a item =
     and_then (must (st_kind item = 2 \<and> st_len item \<le> cap) (at_path w ''unsafe or oversized input'' p)) (\<lambda>_.
     and_then (must (st_identity item \<notin> set sources) (at_path w ''input aliases source'' p)) (\<lambda>_.
     case map_of (am_identities a) (st_identity item) of
       Some old \<Rightarrow>
         and_then (metadata_of w old) (\<lambda>now.
         and_then (must (Some now = map_of (am_inputs a) old) (at_path w ''input alias drift'' old)) (\<lambda>_.
         answer (ok_or (map_of (am_bytes a) old) (plain ''missing admitted input''))))
     | None \<Rightarrow> and_then (regular_read w p cap item) (\<lambda>bytes. answer (Inr (Some bytes)))))"

definition admit_input :: "world \<Rightarrow> identity list \<Rightarrow> path \<times> nat \<Rightarrow> admitted \<Rightarrow> admitted timed" where
  "admit_input w sources pc a = (case pc of (p, cap) \<Rightarrow>
     and_then (metadata_of w p) (\<lambda>found.
     case found of None \<Rightarrow> answer (Inr (put_input p None None a))
     | Some item \<Rightarrow> and_then (input_bytes_of w p cap sources a item) (\<lambda>bytes.
         answer (Inr (put_input p found bytes a)))))"

fun admit_inputs :: "world \<Rightarrow> identity list \<Rightarrow> (path \<times> nat) list \<Rightarrow> admitted \<Rightarrow> admitted timed" where
  "admit_inputs w sources [] a = answer (Inr a)"
| "admit_inputs w sources (pc # pcs) a =
     and_then (admit_input w sources pc a) (\<lambda>a'. admit_inputs w sources pcs a')"

text \<open>The running executable, pinned when the process started: its path, file, stamp and digest.\<close>

record image =
  im_path :: path
  im_file :: identity
  im_initial :: stamp
  im_digest :: string

definition verify_stat :: "world \<Rightarrow> image \<Rightarrow> unit timed" where
  "verify_stat w im =
     and_then (fstat w (im_file im)) (\<lambda>now.
     and_then (must (st_kind now = st_kind (im_initial im) \<and> st_len now = st_len (im_initial im))
        (plain ''running executable metadata drift'')) (\<lambda>_.
     must (st_identity now = st_identity (im_initial im) \<and> st_mtime now = st_mtime (im_initial im))
        (plain ''running executable inode or mtime drift'')))"

definition admit_running_executable :: "world \<Rightarrow> image \<Rightarrow> identity list \<Rightarrow> admitted \<Rightarrow> admitted timed" where
  "admit_running_executable w im sources a =
     (let key = st_identity (im_initial im) in
      and_then (check_cancel w) (\<lambda>_.
      and_then (must (key \<notin> set sources) (plain ''running executable aliases source'')) (\<lambda>_.
      and_then (must (\<not> has_key (am_inputs a) (im_path im) \<and> \<not> has_key (am_identities a) key)
        (plain ''running executable aliases another input'')) (\<lambda>_.
      and_then (verify_stat w im) (\<lambda>_.
      answer (Inr (put_input (im_path im) (Some (im_initial im)) None a)))))))"

subsection \<open>The walk\<close>

text \<open>\<open>source\<close>: the extensions of the supported languages.\<close>

definition is_source :: "path \<Rightarrow> bool" where
  "is_source p \<longleftrightarrow> source_path p"

text \<open>The inventory (directories and sources with their stamps) and the sources, in the walker's order.\<close>

record walked =
  wk_inventory :: "(path \<times> stamp) list"
  wk_sources :: "path list"

definition walk_entry :: "world \<Rightarrow> (path \<times> file_type) fallible \<Rightarrow> walked \<Rightarrow> walked timed" where
  "walk_entry w entry k =
     and_then (check_cancel w) (\<lambda>_.
     and_then (answer entry) (\<lambda>(p, kind).
     and_then
       (if kind = DirType \<or> is_source p then
          and_then (metadata_of w p) (\<lambda>found.
          and_then (answer (ok_or found (plain ''walk entry disappeared''))) (\<lambda>item.
          if kind = DirType then
            and_then (must (st_kind item = 1) (at_path w ''directory changed'' p)) (\<lambda>_.
            answer (Inr (k\<lparr>wk_inventory := set_key p item (wk_inventory k)\<rparr>)))
          else
            and_then (must (st_kind item = 2) (at_path w ''unsafe source'' p)) (\<lambda>_.
            answer (Inr (k\<lparr>wk_inventory := set_key p item (wk_inventory k),
                           wk_sources := wk_sources k @ [p]\<rparr>)))))
        else answer (Inr k)) (\<lambda>k'.
     and_then (must (length (wk_sources k') \<le> 100000) (plain ''workspace exceeds 100000 source files'')) (\<lambda>_.
     answer (Inr k')))))"

fun walk_entries :: "world \<Rightarrow> (path \<times> file_type) fallible list \<Rightarrow> walked \<Rightarrow> walked timed" where
  "walk_entries w [] k = answer (Inr k)"
| "walk_entries w (e # es) k = and_then (walk_entry w e k) (\<lambda>k'. walk_entries w es k')"

definition walk_tree :: "world \<Rightarrow> path \<Rightarrow> walked timed" where
  "walk_tree w base t = walk_entries w (wd_walk w t base) \<lparr>wk_inventory = [], wk_sources = []\<rparr> t"

text \<open>No two sources are the same file.\<close>

fun source_identities :: "world \<Rightarrow> (path \<times> stamp) list \<Rightarrow> path list \<Rightarrow> identity list \<Rightarrow> identity list fallible" where
  "source_identities w inven [] ids = Inr ids"
| "source_identities w inven (p # ps) ids =
     bind_result (ok_or (map_of inven p) (plain ''missing source inventory'')) (\<lambda>item.
     ensure (st_identity item \<notin> set ids) (at_path w ''duplicate source identity'' p)
       (source_identities w inven ps (st_identity item # ids)))"

subsection \<open>Admission\<close>

record capture_options =
  co_root :: path
  co_scip :: "path option"
  co_manifest :: "path option"
  co_max :: nat

record capture =
  cp_admission_root :: path
  cp_root_stamp :: stamp
  cp_root :: path
  cp_inventory :: "(path \<times> stamp) list"
  cp_inputs :: "(path \<times> stamp option) list"
  cp_files :: "source_file list"
  cp_image :: image
  cp_input_bytes :: "(path \<times> string option) list"
  cp_options :: capture_options

definition MEBIBYTE :: nat where "MEBIBYTE = 1048576"

text \<open>The path of a source below the root, its components joined as the code joins them on this system.\<close>

definition component_text :: "component \<Rightarrow> string" where
  "component_text c = (case c of RootDir \<Rightarrow> ''/'' | CurDir \<Rightarrow> ''.'' | ParentDir \<Rightarrow> ''..'' | Normal n \<Rightarrow> n)"

definition slash :: "char \<Rightarrow> char" where
  "slash c = (if c = CHR 0x5C then CHR ''/'' else c)"

definition relative_text :: "world \<Rightarrow> path \<Rightarrow> path \<Rightarrow> string fallible" where
  "relative_text w base p =
     bind_result (ok_or (strip_prefix base p) (plain ''prefix not found'')) (\<lambda>rel.
     let name = join_with ''/'' (map component_text rel) in
     ensure (wd_utf8 w name) (plain ''non-UTF8 source path'') (Inr (map slash name)))"

definition language_of :: "path \<Rightarrow> string" where
  "language_of p = (case path_extension p of
       Some e \<Rightarrow> if e = ''rs'' then ''rust'' else if e = ''java'' then ''java'' else if e = ''py'' then ''python''
                 else ''javascript''
     | None \<Rightarrow> ''javascript'')"

definition read_source :: "world \<Rightarrow> path \<Rightarrow> nat \<Rightarrow> (path \<times> stamp) list \<Rightarrow> nat \<Rightarrow> path \<Rightarrow> (source_file \<times> nat) timed" where
  "read_source w base cap inven total_bytes p =
     and_then (check_cancel w) (\<lambda>_.
     and_then (answer (ok_or (map_of inven p) (plain ''source absent from inventory''))) (\<lambda>item.
     and_then (regular_read w p cap item) (\<lambda>bytes.
     and_then (must (total_bytes + length bytes \<le> 256 * MEBIBYTE) (plain ''workspace source exceeds 256 MiB'')) (\<lambda>_.
     and_then (answer (relative_text w base p)) (\<lambda>rel.
     and_then (must (wd_utf8 w bytes) (plain ''non-UTF8 source text'')) (\<lambda>_.
     answer (Inr (\<lparr>sf_path = rel, sf_hash = wd_sha w bytes, sf_language = language_of p, sf_text = bytes\<rparr>,
                  total_bytes + length bytes))))))))"

fun read_sources ::
  "world \<Rightarrow> path \<Rightarrow> nat \<Rightarrow> (path \<times> stamp) list \<Rightarrow> nat \<Rightarrow> path list \<Rightarrow> source_file list timed" where
  "read_sources w base cap inven total_bytes [] = answer (Inr [])"
| "read_sources w base cap inven total_bytes (p # ps) =
     and_then (read_source w base cap inven total_bytes p) (\<lambda>(f, total').
     and_then (read_sources w base cap inven total' ps) (\<lambda>fs. answer (Inr (f # fs))))"

text \<open>The paths admitted besides the sources, each with its cap: the root's configuration, ignore files.\<close>

definition config_inputs :: "capture_options \<Rightarrow> path \<Rightarrow> (path \<times> stamp) list \<Rightarrow> (path \<times> nat) list" where
  "config_inputs opts base inven =
     (let cap = min (co_max opts) (16 * MEBIBYTE) in
      map (\<lambda>n. (base @ [Normal n], cap)) ROOT_INPUTS
      @ concat (map (\<lambda>(d, s). if st_kind s = 1
           then [(d @ [Normal ''.gitignore''], cap), (d @ [Normal ''.ignore''], cap)] else []) inven))"

definition optional_inputs :: "capture_options \<Rightarrow> (path \<times> nat) list" where
  "optional_inputs opts = map (\<lambda>p. (p, 256 * MEBIBYTE))
     (concat (map (\<lambda>x. case x of None \<Rightarrow> [] | Some p \<Rightarrow> [p]) [co_scip opts, co_manifest opts]))"

subsection \<open>Verification\<close>

text \<open>\<open>input_cap\<close>: the cap an input is read again with. The options hold paths as text in the code.\<close>

definition input_cap :: "capture \<Rightarrow> path \<Rightarrow> nat" where
  "input_cap c p =
     (if p = im_path (cp_image c) then 512 * MEBIBYTE
      else if co_scip (cp_options c) = Some p \<or> co_manifest (cp_options c) = Some p then 256 * MEBIBYTE
      else 16 * MEBIBYTE)"

definition verify_input :: "world \<Rightarrow> capture \<Rightarrow> path \<times> stamp option \<Rightarrow> unit timed" where
  "verify_input w c pe = (case pe of (p, expected) \<Rightarrow>
     and_then (check_cancel w) (\<lambda>_.
     if p = im_path (cp_image c) then
       and_then (must (expected = Some (im_initial (cp_image c))) (plain ''running executable observation drift'')) (\<lambda>_.
       and_then (must (map_of (cp_input_bytes c) p = Some None)
          (plain ''running executable input bytes unexpectedly populated'')) (\<lambda>_.
       verify_stat w (cp_image c)))
     else
       and_then (metadata_of w p) (\<lambda>now.
       and_then (must (now = expected) (at_path w ''input inventory drift'' p)) (\<lambda>_.
       case expected of None \<Rightarrow> answer (Inr ())
       | Some s \<Rightarrow>
           and_then (regular_read w p (input_cap c p) s) (\<lambda>bytes.
           must (map_of (cp_input_bytes c) p = Some (Some bytes)) (at_path w ''input contents drift'' p))))))"

fun verify_inputs :: "world \<Rightarrow> capture \<Rightarrow> (path \<times> stamp option) list \<Rightarrow> unit timed" where
  "verify_inputs w c [] = answer (Inr ())"
| "verify_inputs w c (pe # pes) = and_then (verify_input w c pe) (\<lambda>_. verify_inputs w c pes)"

definition inventory_drift :: fault where
  "inventory_drift = \<lparr>fault_text = ''workspace inventory drift'', fault_chain = [InventoryDrift]\<rparr>"

text \<open>\<open>Capture::verify\<close>. Two maps are equal when they give every path the same stamp.\<close>

definition same_map :: "('k \<times> 'v) list \<Rightarrow> ('k \<times> 'v) list \<Rightarrow> bool" where
  "same_map a b \<longleftrightarrow> list_all (\<lambda>(k, _). map_of a k = map_of b k) (a @ b)"

definition verify_capture :: "world \<Rightarrow> capture \<Rightarrow> unit timed" where
  "verify_capture w c =
     and_then (check_cancel w) (\<lambda>_.
     and_then (metadata_of w (cp_admission_root c)) (\<lambda>found.
     and_then (must (found = Some (cp_root_stamp c)) (plain ''workspace root drift'')) (\<lambda>_.
     and_then (walk_tree w (cp_root c)) (\<lambda>k.
     and_then (must (same_map (wk_inventory k) (cp_inventory c)) inventory_drift) (\<lambda>_.
     and_then (verify_inputs w c (cp_inputs c)) (\<lambda>_. check_cancel w))))))"

text \<open>\<open>admit_with_image\<close> with a pinned executable; the variant without one exists only for tests.
  \<open>sort_key\<close> by the shown path stands for the order of paths.\<close>

definition collect_capture :: "world \<Rightarrow> capture_options \<Rightarrow> image \<Rightarrow> capture timed" where
  "collect_capture w opts im =
     and_then (check_cancel w) (\<lambda>_.
     and_then (metadata_of w (co_root opts)) (\<lambda>found.
     and_then (answer (ok_or found (plain ''workspace root absent''))) (\<lambda>root_stamp.
     and_then (must (st_kind root_stamp = 1) (plain ''workspace root is not a real directory'')) (\<lambda>_.
     and_then (syscall w (\<lambda>_. wd_canonical w (co_root opts))) (\<lambda>base.
     and_then (walk_tree w base) (\<lambda>k.
     let sources = sort_key (wd_show w) (wk_sources k); inven = wk_inventory k in
     and_then (must (im_path im \<notin> set sources)
        (plain ''running executable pathname conflicts with source'')) (\<lambda>_.
     and_then (answer (source_identities w inven sources [])) (\<lambda>ids.
     and_then (admit_inputs w ids (config_inputs opts base inven) no_inputs) (\<lambda>a1.
     and_then (admit_running_executable w im ids a1) (\<lambda>a2.
     and_then (check_cancel w) (\<lambda>_.
     and_then (admit_inputs w ids (optional_inputs opts) a2) (\<lambda>a3.
     and_then (read_sources w base (min (co_max opts) (256 * MEBIBYTE)) inven 0 sources) (\<lambda>files.
     answer (Inr \<lparr>cp_admission_root = co_root opts, cp_root_stamp = root_stamp, cp_root = base,
       cp_inventory = inven, cp_inputs = am_inputs a3, cp_files = files, cp_image = im,
       cp_input_bytes = am_bytes a3, cp_options = opts\<rparr>))))))))))))))"

definition admit_capture :: "world \<Rightarrow> capture_options \<Rightarrow> image \<Rightarrow> capture timed" where
  "admit_capture w opts im =
     and_then (collect_capture w opts im) (\<lambda>c. and_then (verify_capture w c) (\<lambda>_. answer (Inr c)))"

subsection \<open>What the captured inputs mean to the index\<close>

definition executable_digest :: "capture \<Rightarrow> path \<Rightarrow> string option" where
  "executable_digest c p =
     (if p \<noteq> im_path (cp_image c) then None
      else if map_of (cp_inputs c) p = Some (Some (im_initial (cp_image c)))
              \<and> map_of (cp_input_bytes c) p = Some None
      then Some (im_digest (cp_image c)) else None)"

text \<open>The roles of an input in the native index.\<close>

definition toolchain_names :: "string list" where
  "toolchain_names = [''rust-toolchain'', ''rust-toolchain.toml'']"

definition native_roles :: "world \<Rightarrow> capture \<Rightarrow> path \<Rightarrow> string list fallible" where
  "native_roles w c p =
     (let exe = (if p = im_path (cp_image c) then [''executable:'' @ wd_show w p] else []) in
      if strip_prefix (cp_root c) p = None then Inr exe
      else bind_result (relative_text w (cp_root c) p) (\<lambda>rel. Inr (exe @
        (if file_name p = Some ''.gitignore'' \<or> file_name p = Some ''.ignore'' then [''ignore:'' @ rel]
         else if rel \<in> set toolchain_names then [''toolchain:'' @ rel]
         else if rel \<in> set ROOT_INPUTS then [''config:'' @ rel] else []))))"

definition native_digest :: "world \<Rightarrow> capture \<Rightarrow> path \<Rightarrow> stamp option \<Rightarrow> string option fallible" where
  "native_digest w c p expected =
     bind_result (ok_or (map_of (cp_input_bytes c) p) (plain ''missing admitted native input'')) (\<lambda>bytes.
     case (expected, bytes) of
       (None, None) \<Rightarrow> Inr None
     | (Some s, None) \<Rightarrow>
         if p = im_path (cp_image c)
         then ensure (st_kind s = 2) (plain ''malformed admitted native executable'')
                (bind_result (ok_or (executable_digest c p) (plain ''native executable startup identity mismatch''))
                   (\<lambda>d. Inr (Some d)))
         else Inl (plain ''native input bytes/stamp mismatch'')
     | (Some s, Some b) \<Rightarrow>
         ensure (st_kind s = 2 \<and> st_len s = length b) (plain ''malformed admitted native input'')
           (if p = im_path (cp_image c)
            then bind_result (ok_or (executable_digest c p) (plain ''native executable Arc identity mismatch''))
                   (\<lambda>d. Inr (Some d))
            else Inr (Some (wd_sha w b)))
     | (None, Some b) \<Rightarrow> Inl (plain ''native input bytes/stamp mismatch''))"

fun insert_roles :: "string \<Rightarrow> 'v \<Rightarrow> string list \<Rightarrow> (string \<times> 'v) list \<Rightarrow> (string \<times> 'v) list fallible" where
  "insert_roles msg v [] m = Inr m"
| "insert_roles msg v (r # rs) m =
     ensure (\<not> has_key m r) (plain msg) (insert_roles msg v rs (set_key r v m))"

fun native_fold ::
  "world \<Rightarrow> capture \<Rightarrow> (path \<times> stamp option) list \<Rightarrow> (string \<times> string option) list
     \<Rightarrow> (string \<times> string option) list fallible" where
  "native_fold w c [] m = Inr m"
| "native_fold w c ((p, expected) # pes) m =
     bind_result (native_roles w c p) (\<lambda>roles.
     if roles = [] then native_fold w c pes m
     else bind_result (native_digest w c p expected) (\<lambda>d.
          bind_result (insert_roles ''duplicate admitted native input role'' d roles m) (\<lambda>m'.
          native_fold w c pes m')))"

definition native_input_fingerprints :: "world \<Rightarrow> capture \<Rightarrow> (string \<times> string option) list fallible" where
  "native_input_fingerprints w c =
     bind_result (native_fold w c (cp_inputs c) []) (\<lambda>m.
     ensure (list_ex (\<lambda>(k, _). starts_with ''executable:'' k) m)
       (plain ''missing admitted native executable role'')
     (ensure (list_all (\<lambda>n. has_key m ((if n \<in> set toolchain_names then ''toolchain'' else ''config'') @ '':'' @ n)) ROOT_INPUTS)
       (plain ''missing admitted native config/toolchain role'') (Inr m)))"

subsection \<open>What is stored of a capture\<close>

record capture_stat =
  cs_version :: nat
  cs_kind :: string
  cs_size :: nat
  cs_device :: "nat option"
  cs_inode :: "nat option"
  cs_mtime_seconds :: "int option"
  cs_mtime_nanoseconds :: "int option"
  cs_ctime_seconds :: "int option"
  cs_ctime_nanoseconds :: "int option"

definition persisted :: "stamp \<Rightarrow> capture_stat" where
  "persisted s = \<lparr>cs_version = 1,
     cs_kind = (if st_kind s = 1 then ''directory'' else if st_kind s = 2 then ''file'' else ''other''),
     cs_size = st_len s, cs_device = Some (fst (st_identity s)), cs_inode = Some (snd (st_identity s)),
     cs_mtime_seconds = Some (fst (st_mtime s)), cs_mtime_nanoseconds = Some (snd (st_mtime s)),
     cs_ctime_seconds = Some (fst (st_ctime s)), cs_ctime_nanoseconds = Some (snd (st_ctime s))\<rparr>"

datatype input_observation = ObsAbsent | ObsPresent capture_stat string
  | ObsDirectory capture_stat | ObsRoot capture_stat

definition source_stat :: "world \<Rightarrow> capture \<Rightarrow> path \<Rightarrow> capture_stat fallible" where
  "source_stat w c relative = ok_or (map_option persisted (map_of (cp_inventory c) (cp_root c @ relative)))
     (plain ''source absent from capture inventory'')"

text \<open>The roles an input is stored under; the optional inputs have one for what they present.\<close>

definition persisted_roles :: "world \<Rightarrow> capture \<Rightarrow> path \<Rightarrow> string list fallible" where
  "persisted_roles w c p =
     (let exe = (if p = im_path (cp_image c) then [''executable:'' @ wd_show w p] else []);
          scip = (if co_scip (cp_options c) = Some p then [''presentation-scip:'' @ wd_show w p] else []);
          manifest = (if co_manifest (cp_options c) = Some p then [''presentation-manifest:'' @ wd_show w p] else [])
      in if strip_prefix (cp_root c) p = None then Inr (exe @ scip @ manifest)
      else bind_result (relative_text w (cp_root c) p) (\<lambda>rel. Inr (exe @ scip @ manifest @
        (if file_name p = Some ''.gitignore'' \<or> file_name p = Some ''.ignore'' then [''ignore:'' @ rel]
         else if rel \<in> set toolchain_names then [''toolchain:'' @ rel]
         else if rel \<in> set ROOT_INPUTS then [''config:'' @ rel] else []))))"

definition observe_input :: "world \<Rightarrow> capture \<Rightarrow> path \<Rightarrow> stamp option \<Rightarrow> input_observation fallible" where
  "observe_input w c p found = (case found of None \<Rightarrow> Inr ObsAbsent
     | Some s \<Rightarrow>
        bind_result (if p = im_path (cp_image c)
           then ok_or (executable_digest c p) (plain ''running executable startup identity missing'')
           else (case map_of (cp_input_bytes c) p of
                   Some (Some b) \<Rightarrow> Inr (wd_sha w b) | _ \<Rightarrow> Inl (plain ''present input bytes missing'')))
          (\<lambda>h. Inr (ObsPresent (persisted s) h)))"

fun persisted_fold ::
  "world \<Rightarrow> capture \<Rightarrow> (path \<times> stamp option) list \<Rightarrow> (string \<times> input_observation) list
     \<Rightarrow> (string \<times> input_observation) list fallible" where
  "persisted_fold w c [] m = Inr m"
| "persisted_fold w c ((p, found) # pes) m =
     bind_result (persisted_roles w c p) (\<lambda>roles.
     bind_result (observe_input w c p found) (\<lambda>ob.
     ensure (roles \<noteq> []) (plain ''capture input lacks a role'')
     (bind_result (insert_roles ''duplicate capture input role'' ob roles m) (\<lambda>m'.
      persisted_fold w c pes m'))))"

fun persisted_directories ::
  "world \<Rightarrow> path \<Rightarrow> (path \<times> stamp) list \<Rightarrow> (string \<times> input_observation) list
     \<Rightarrow> (string \<times> input_observation) list fallible" where
  "persisted_directories w base [] m = Inr m"
| "persisted_directories w base ((p, s) # ps) m =
     (if st_kind s = 1
      then bind_result (relative_text w base p) (\<lambda>rel.
           persisted_directories w base ps (set_key (''directory:'' @ rel) (ObsDirectory (persisted s)) m))
      else persisted_directories w base ps m)"

definition persisted_inputs :: "world \<Rightarrow> capture \<Rightarrow> (string \<times> input_observation) list fallible" where
  "persisted_inputs w c =
     bind_result (persisted_directories w (cp_root c) (cp_inventory c)
        [(''root:.'', ObsRoot (persisted (cp_root_stamp c)))]) (\<lambda>m.
     persisted_fold w c (cp_inputs c) m)"

end
