(* ===== verification/Scan.thy ===== *)
theory Scan
  imports Capture
begin

section \<open>Comparing a capture with the selected snapshot (\<open>store.rs\<close>)\<close>

text \<open>
  The stored observations of the selected revision and those of a new capture are two maps each,
  of the sources and of the other inputs. The scan counts what differs; publication is skipped when
  nothing does. Reading the stored rows is an argument.
\<close>

type_synonym source_observations = "(string \<times> string \<times> capture_stat) list"
type_synonym input_observations = "(string \<times> input_observation) list"

record scan_comparison =
  sc_examined :: nat
  sc_added :: nat
  sc_deleted :: nat
  sc_stat_changed :: nat
  sc_hash_changed :: nat
  sc_ctime_changed :: nat
  sc_unchanged_stat_input_hash_changed :: nat
  sc_uncertain_timestamp_hashed :: nat

definition no_comparison :: scan_comparison where
  "no_comparison = \<lparr>sc_examined = 0, sc_added = 0, sc_deleted = 0, sc_stat_changed = 0, sc_hash_changed = 0,
     sc_ctime_changed = 0, sc_unchanged_stat_input_hash_changed = 0, sc_uncertain_timestamp_hashed = 0\<rparr>"

definition scan_changed :: "scan_comparison \<Rightarrow> bool" where
  "scan_changed c \<longleftrightarrow> sc_added c + sc_deleted c + sc_stat_changed c + sc_hash_changed c > 0"

definition uncertain :: "capture_stat \<Rightarrow> bool" where
  "uncertain s \<longleftrightarrow> cs_mtime_seconds s = None \<or> cs_mtime_nanoseconds s = None
     \<or> cs_ctime_seconds s = None \<or> cs_ctime_nanoseconds s = None"

text \<open>\<open>usize::from\<close> of a condition.\<close>

definition one_if :: "bool \<Rightarrow> nat" where
  "one_if b = (if b then 1 else 0)"

definition ctime_only :: "capture_stat \<Rightarrow> capture_stat \<Rightarrow> bool" where
  "ctime_only a b \<longleftrightarrow> cs_size a = cs_size b \<and> cs_device a = cs_device b \<and> cs_inode a = cs_inode b
     \<and> cs_mtime_seconds a = cs_mtime_seconds b \<and> cs_mtime_nanoseconds a = cs_mtime_nanoseconds b
     \<and> (cs_ctime_seconds a \<noteq> cs_ctime_seconds b \<or> cs_ctime_nanoseconds a \<noteq> cs_ctime_nanoseconds b)"

definition compare_source ::
  "source_observations \<Rightarrow> source_observations \<Rightarrow> scan_comparison \<Rightarrow> string \<Rightarrow> scan_comparison" where
  "compare_source previous current c key =
     (let c = c\<lparr>sc_examined := sc_examined c + 1\<rparr> in
      case (map_of previous key, map_of current key) of
        (None, Some _) \<Rightarrow> c\<lparr>sc_added := sc_added c + 1\<rparr>
      | (Some _, None) \<Rightarrow> c\<lparr>sc_deleted := sc_deleted c + 1\<rparr>
      | (Some (old_hash, old_stat), Some (new_hash, new_stat)) \<Rightarrow>
          c\<lparr>sc_stat_changed := sc_stat_changed c + one_if (old_stat \<noteq> new_stat),
            sc_hash_changed := sc_hash_changed c + one_if (old_hash \<noteq> new_hash),
            sc_ctime_changed := sc_ctime_changed c + one_if (ctime_only old_stat new_stat),
            sc_uncertain_timestamp_hashed := sc_uncertain_timestamp_hashed c
              + one_if (uncertain old_stat \<or> uncertain new_stat)\<rparr>
      | (None, None) \<Rightarrow> c)"

definition compare_input ::
  "input_observations \<Rightarrow> input_observations \<Rightarrow> scan_comparison \<Rightarrow> string \<Rightarrow> scan_comparison" where
  "compare_input previous current c key =
     (let c = c\<lparr>sc_examined := sc_examined c + 1\<rparr> in
      case (map_of previous key, map_of current key) of
        (None, Some _) \<Rightarrow> c\<lparr>sc_added := sc_added c + 1\<rparr>
      | (Some _, None) \<Rightarrow> c\<lparr>sc_deleted := sc_deleted c + 1\<rparr>
      | (Some old, Some new) \<Rightarrow> (case (old, new) of
          (ObsPresent old_stat old_hash, ObsPresent new_stat new_hash) \<Rightarrow>
            c\<lparr>sc_stat_changed := sc_stat_changed c + one_if (old_stat \<noteq> new_stat),
              sc_hash_changed := sc_hash_changed c + one_if (old_hash \<noteq> new_hash),
              sc_unchanged_stat_input_hash_changed := sc_unchanged_stat_input_hash_changed c
                + one_if (old_stat = new_stat \<and> old_hash \<noteq> new_hash),
              sc_uncertain_timestamp_hashed := sc_uncertain_timestamp_hashed c
                + one_if (uncertain old_stat \<or> uncertain new_stat)\<rparr>
        | (ObsDirectory a, ObsDirectory b) \<Rightarrow> c\<lparr>sc_stat_changed := sc_stat_changed c + one_if (a \<noteq> b)\<rparr>
        | (ObsRoot a, ObsRoot b) \<Rightarrow> c\<lparr>sc_stat_changed := sc_stat_changed c + one_if (a \<noteq> b)\<rparr>
        | (ObsAbsent, ObsAbsent) \<Rightarrow> c
        | _ \<Rightarrow> c\<lparr>sc_stat_changed := sc_stat_changed c + 1\<rparr>)
      | (None, None) \<Rightarrow> c)"

definition compare_capture_observations ::
  "source_observations \<Rightarrow> source_observations \<Rightarrow> input_observations \<Rightarrow> input_observations \<Rightarrow> scan_comparison" where
  "compare_capture_observations previous_sources current_sources previous_inputs current_inputs =
     foldl (compare_input previous_inputs current_inputs)
       (foldl (compare_source previous_sources current_sources) no_comparison
          (sort (remdups (map fst previous_sources @ map fst current_sources))))
       (sort (remdups (map fst previous_inputs @ map fst current_inputs)))"

text \<open>A stored row set read into a map; a repeated key is an error.\<close>

fun unique_rows :: "string \<Rightarrow> (string \<times> 'v) list \<Rightarrow> (string \<times> 'v) list \<Rightarrow> (string \<times> 'v) list fallible" where
  "unique_rows msg [] m = Inr m"
| "unique_rows msg ((k, v) # rs) m = ensure (\<not> has_key m k) (plain msg) (unique_rows msg rs (set_key k v m))"

fun current_sources :: "(source_file \<Rightarrow> capture_stat fallible) \<Rightarrow> source_file list \<Rightarrow> source_observations \<Rightarrow> source_observations fallible" where
  "current_sources stat_of [] m = Inr m"
| "current_sources stat_of (f # fs) m =
     bind_result (stat_of f) (\<lambda>s. current_sources stat_of fs (set_key (sf_path f) (sf_hash f, s) m))"

text \<open>\<open>compare_capture_snapshot\<close>; \<open>below\<close> splits the stored path text of a source into components.\<close>

definition compare_capture_snapshot ::
  "world \<Rightarrow> (string \<Rightarrow> path) \<Rightarrow> source_observations \<Rightarrow> input_observations \<Rightarrow> capture \<Rightarrow> scan_comparison fallible" where
  "compare_capture_snapshot w below source_rows input_rows c =
     bind_result (unique_rows ''incompatible_index: duplicate captured source observation'' source_rows []) (\<lambda>ps.
     bind_result (current_sources (\<lambda>f. source_stat w c (below (sf_path f))) (cp_files c) []) (\<lambda>cs.
     bind_result (unique_rows ''incompatible_index: duplicate captured input observation'' input_rows []) (\<lambda>pn.
     bind_result (persisted_inputs w c) (\<lambda>cn.
     Inr (compare_capture_observations ps cs pn cn)))))"

definition nanos :: "int option \<Rightarrow> bool" where
  "nanos v = (case v of None \<Rightarrow> False | Some n \<Rightarrow> 0 \<le> n \<and> n < 1000000000)"

definition positive :: "nat option \<Rightarrow> bool" where
  "positive v = (case v of None \<Rightarrow> False | Some n \<Rightarrow> 0 < n)"

definition validate_capture_stat :: "capture_stat \<Rightarrow> string \<Rightarrow> unit fallible" where
  "validate_capture_stat s expected_kind =
     ensure (cs_version s = 1 \<and> cs_kind s = expected_kind
         \<and> (cs_device s \<noteq> None \<longleftrightarrow> cs_inode s \<noteq> None)
         \<and> (cs_mtime_seconds s \<noteq> None \<longleftrightarrow> cs_mtime_nanoseconds s \<noteq> None)
         \<and> (cs_ctime_seconds s \<noteq> None \<longleftrightarrow> cs_ctime_nanoseconds s \<noteq> None)
         \<and> (cs_mtime_seconds s \<noteq> None \<longleftrightarrow> cs_ctime_seconds s \<noteq> None))
       (plain ''incompatible_index: invalid capture stat'')
     (ensure (positive (cs_device s) \<and> positive (cs_inode s) \<and> nanos (cs_mtime_nanoseconds s)
         \<and> nanos (cs_ctime_nanoseconds s))
       (plain ''incompatible_index: incomplete Unix capture stat'') (Inr ()))"

subsection \<open>The scan is map equality\<close>

lemma scan_source:
  "scan_changed (compare_source p c s k) \<longleftrightarrow> scan_changed s \<or> map_of p k \<noteq> map_of c k"
  by (cases "map_of p k"; cases "map_of c k")
    (auto simp: compare_source_def scan_changed_def one_if_def Let_def split: if_splits)

lemma scan_input:
  "scan_changed (compare_input p c s k) \<longleftrightarrow> scan_changed s \<or> map_of p k \<noteq> map_of c k"
proof (cases "map_of p k"; cases "map_of c k")
  fix a b assume "map_of p k = Some a" "map_of c k = Some b"
  then show ?thesis
    by (cases a; cases b) (simp_all add: compare_input_def scan_changed_def one_if_def Let_def)
qed (simp_all add: compare_input_def scan_changed_def Let_def)

lemma scan_fold:
  assumes "\<And>s k. scan_changed (f s k) \<longleftrightarrow> scan_changed s \<or> d k"
  shows "scan_changed (foldl f s ks) \<longleftrightarrow> scan_changed s \<or> (\<exists>k \<in> set ks. d k)"
  using assms by (induction ks arbitrary: s) auto

lemma keys_decide: "(\<exists>k \<in> set (map fst a @ map fst b). map_of a k \<noteq> map_of b k) \<longleftrightarrow> map_of a \<noteq> map_of b"
proof
  assume "map_of a \<noteq> map_of b"
  then obtain k where k: "map_of a k \<noteq> map_of b k" by auto
  then have "map_of a k \<noteq> None \<or> map_of b k \<noteq> None" by auto
  then have "k \<in> set (map fst a @ map fst b)" by (auto simp: map_of_eq_None_iff)
  with k show "\<exists>k \<in> set (map fst a @ map fst b). map_of a k \<noteq> map_of b k" by blast
qed auto

text \<open>C18: The scan that lets the leader skip a publication is exact: it reports no change if and only if the
  stored and the captured sources are the same map from path to hash and stamp, and the other
  inputs the same map from role to observation; it examines every key of either side once.\<close>

theorem scan_decides_equality:
  "(\<not> scan_changed (compare_capture_observations ps cs pn cn) \<longleftrightarrow> map_of ps = map_of cs \<and> map_of pn = map_of cn)
   \<and> sc_examined (compare_capture_observations ps cs pn cn) =
       card (set (map fst ps) \<union> set (map fst cs)) + card (set (map fst pn) \<union> set (map fst cn))"
proof -
  have examined: "sc_examined (foldl (compare_source p c) s ks) = sc_examined s + length ks" for p c s ks
  proof (induction ks arbitrary: s)
    case (Cons k ks)
    have "sc_examined (compare_source p c s k) = sc_examined s + 1"
      by (auto simp: compare_source_def Let_def split: option.split)
    with Cons show ?case by simp
  qed simp
  have examined': "sc_examined (foldl (compare_input p c) s ks) = sc_examined s + length ks" for p c s ks
  proof (induction ks arbitrary: s)
    case (Cons k ks)
    have "sc_examined (compare_input p c s k) = sc_examined s + 1"
      by (auto simp: compare_input_def Let_def split: option.split input_observation.split)
    with Cons show ?case by simp
  qed simp
  have "\<not> scan_changed no_comparison" "sc_examined no_comparison = 0"
    by (simp_all add: scan_changed_def no_comparison_def)
  then show ?thesis
    unfolding compare_capture_observations_def scan_fold [OF scan_input] scan_fold [OF scan_source]
      set_sort set_remdups keys_decide examined examined' length_sort length_remdups_card_conv
    by (simp add: image_Un)
qed

end
