(* ===== verification/Snapshot.thy ===== *)
theory Snapshot
  imports Scan
begin

section \<open>A capture is a snapshot\<close>

text \<open>
  Each file of a capture is read at its own moment. Under one law of the file system, that a stamp (with its
  change time) that is seen twice means the file did not change in between, the second look of the
  verification makes the capture the state of all files at one moment.
\<close>

subsection \<open>Time only goes forward\<close>

definition later :: "'a timed \<Rightarrow> bool" where
  "later m \<longleftrightarrow> (\<forall>t r t'. m t = (r, t') \<longrightarrow> t \<le> t')"

named_theorems later_intros

lemma laterD: "later m \<Longrightarrow> m t = (r, t') \<Longrightarrow> t \<le> t'"
  by (simp add: later_def)

lemma later_answer [later_intros]: "later (answer r)"
  by (simp add: later_def)

lemma later_must [later_intros]: "later (must c e)"
  by (simp add: must_def later_answer)

lemma later_check [later_intros]: "later (check_cancel w)"
  by (simp add: later_def check_cancel_def)

lemma later_syscall [later_intros]: "later (syscall w f)"
  by (simp add: later_def syscall_def)

lemma later_and_then [later_intros]:
  assumes "later m" and "\<And>x. later (f x)"
  shows "later (and_then m f)"
  unfolding later_def and_then_def
proof (intro allI impI)
  fix t r t'
  assume eq: "(case m t of (Inl e, s') \<Rightarrow> (Inl e, s') | (Inr x, s') \<Rightarrow> f x s') = (r, t')"
  obtain r1 t1 where m: "m t = (r1, t1)" by force
  then have "t \<le> t1" using laterD [OF assms(1)] by blast
  moreover have "t1 \<le> t'" using eq m laterD [OF assms(2)] by (cases r1) auto
  ultimately show "t \<le> t'" by (rule le_trans)
qed

lemma later_if [later_intros]: "later a \<Longrightarrow> later b \<Longrightarrow> later (if c then a else b)"
  by simp

lemma later_option [later_intros]: "later a \<Longrightarrow> (\<And>x. later (b x)) \<Longrightarrow> later (case v of None \<Rightarrow> a | Some x \<Rightarrow> b x)"
  by (cases v) simp_all

lemma later_prod [later_intros]: "(\<And>x y. later (f x y)) \<Longrightarrow> later (case p of (x, y) \<Rightarrow> f x y)"
  by (cases p) simp

lemma later_calls [later_intros]: "later (metadata_of w p)" "later (open_file w p)" "later (fstat w i)"
  "later (read_at w i n)"
  by (simp_all add: metadata_of_def open_file_def fstat_def read_at_def later_syscall)

lemma later_read_loop: "read_loop_bytes w p cap i bytes t = (r, t') \<Longrightarrow> t \<le> t'"
proof (induction w p cap i bytes t arbitrary: r t' rule: read_loop_bytes.induct)
  case (1 w p cap i bytes t)
  obtain r1 t1 where m: "read_at w i (length bytes) t = (r1, t1)" by force
  have le: "t \<le> t1" using laterD [OF later_calls(4) m] .
  show ?case
  proof (cases "wd_cancel w t")
    case True
    with 1(2) show ?thesis by simp
  next
    case False
    show ?thesis
    proof (cases r1)
      case (Inl e)
      with 1(2) False m le show ?thesis by simp
    next
      case (Inr chunk)
      show ?thesis
      proof (cases "chunk = [] \<or> cap < length bytes + length chunk")
        case True
        with 1(2) False m Inr le show ?thesis by (auto split: if_splits)
      next
        case go: False
        with 1(2) False m Inr have "read_loop_bytes w p cap i (bytes @ chunk) t1 = (r, t')" by simp
        from 1(1) [OF False m [symmetric] Inr _ _ this] go have "t1 \<le> t'" by auto
        with le show ?thesis by simp
      qed
    qed
  qed
qed

declare read_loop_bytes.simps [simp del]

lemma later_loop [later_intros]: "later (read_loop_bytes w p cap i bytes)"
  using later_read_loop by (auto simp: later_def)

lemma later_regular_read [later_intros]: "later (regular_read w p cap s)"
  unfolding regular_read_def by (intro later_intros)

subsection \<open>What one look shows\<close>

text \<open>The documented law: a file is found under its own identity, and while its stamp (with size, modification and
  change time) comes back, the file was not changed.\<close>

definition stamps_tell :: "world \<Rightarrow> bool" where
  "stamps_tell w \<longleftrightarrow> (\<forall>t i. st_identity (fst (wd_file w t i)) = i)
     \<and> (\<forall>i a b c. a \<le> c \<and> c \<le> b \<and> fst (wd_file w a i) = fst (wd_file w b i) \<longrightarrow> wd_file w c i = wd_file w a i)"

lemma stamp_identity: "stamps_tell w \<Longrightarrow> st_identity (fst (wd_file w t i)) = i"
  unfolding stamps_tell_def by blast

lemma stamp_still:
  "stamps_tell w \<Longrightarrow> fst (wd_file w a i) = fst (wd_file w b i) \<Longrightarrow> a \<le> c \<Longrightarrow> c \<le> b \<Longrightarrow> wd_file w c i = wd_file w a i"
  unfolding stamps_tell_def by blast

definition noted :: "world \<Rightarrow> path \<Rightarrow> stamp \<Rightarrow> nat \<Rightarrow> bool" where
  "noted w p s k \<longleftrightarrow> wd_names w k p = Some (st_identity s) \<and> fst (wd_file w k (st_identity s)) = s"

definition seen :: "world \<Rightarrow> path \<Rightarrow> stamp \<Rightarrow> string \<Rightarrow> nat \<Rightarrow> bool" where
  "seen w p s bytes k \<longleftrightarrow> noted w p s k \<and> snd (wd_file w k (st_identity s)) = bytes"

lemma syscall_Inr: "syscall w f t = (Inr x, t') \<longleftrightarrow> wd_fails w t = None \<and> f t = Inr x \<and> t' = t + 1"
  by (auto simp: syscall_def split: option.splits)

lemma must_Inr [simp]: "must c e t = (Inr u, t') \<longleftrightarrow> c \<and> t' = t"
  by (auto simp: must_def)

lemma must_holds: "c \<Longrightarrow> must c e t = (Inr (), t)"
  by simp

lemma check_passes [simp]: "check_cancel w t = (Inr u, t') \<longleftrightarrow> \<not> wd_cancel w t \<and> t' = t"
  by (auto simp: check_cancel_def)

lemma fstat_Inr: "fstat w i t = (Inr s, t') \<longleftrightarrow> wd_fails w t = None \<and> s = fst (wd_file w t i) \<and> t' = t + 1"
  by (auto simp: fstat_def syscall_Inr)

lemma metadata_Inr:
  assumes "stamps_tell w" and "metadata_of w p t = (Inr found, t')"
  shows "t' = t + 1 \<and> (case found of None \<Rightarrow> wd_names w t p = None | Some s \<Rightarrow> noted w p s t)"
  using assms(2) stamp_identity [OF assms(1)] by (auto simp: metadata_of_def syscall_Inr noted_def split: option.splits)

text \<open>A loop over a file that does not change collects its contents.\<close>

lemma read_loop_contents:
  assumes "read_loop_bytes w p cap i bytes t = (Inr out, t')"
    and "\<And>c. t \<le> c \<Longrightarrow> c < t' \<Longrightarrow> snd (wd_file w c i) = content"
    and "bytes = take (length bytes) content"
  shows "out = content"
  using assms
proof (induction w p cap i bytes t arbitrary: out t' rule: read_loop_bytes.induct)
  case (1 w p cap i bytes t)
  from 1(2) have go: "\<not> wd_cancel w t"
    by (auto simp: read_loop_bytes.simps [of w p cap i bytes t] split: if_splits)
  obtain r1 t1 where m: "read_at w i (length bytes) t = (r1, t1)" by force
  from 1(2) go m obtain chunk where r1: "r1 = Inr chunk"
    by (cases r1) (auto simp: read_loop_bytes.simps [of w p cap i bytes t])
  have t1: "t1 = t + 1" and chunk: "\<exists>n \<ge> 1. chunk = take n (drop (length bytes) (snd (wd_file w t i)))"
    using m r1 by (auto simp: read_at_def syscall_Inr Let_def intro!: exI [of _ "min 65536 (max 1 (wd_short w t))"])
  show ?case
  proof (cases "chunk = []")
    case True
    with 1(2) go m r1 have "out = bytes" "t' = t1" by (simp_all add: read_loop_bytes.simps [of w p cap i bytes t])
    moreover have "snd (wd_file w t i) = content" using 1(3) [of t] t1 calculation by simp
    moreover have "length content \<le> length bytes" using chunk True calculation(3) by auto
    ultimately show ?thesis using 1(4) by simp
  next
    case False
    with 1(2) go m r1 have cap: "\<not> cap < length bytes + length chunk"
      and rest: "read_loop_bytes w p cap i (bytes @ chunk) t1 = (Inr out, t')"
      by (auto simp: read_loop_bytes.simps [of w p cap i bytes t] split: if_splits)
    have "t1 \<le> t'" using later_read_loop [OF rest] .
    then have now: "snd (wd_file w t i) = content" using 1(3) [of t] t1 by simp
    with chunk obtain n where n: "chunk = take n (drop (length bytes) content)" by auto
    have "bytes @ chunk = take (length (bytes @ chunk)) content"
    proof -
      have "take (length bytes) content @ take n (drop (length bytes) content) = take (length bytes + n) content"
        by (simp add: take_add)
      then have "bytes @ chunk = take (length bytes + n) content" using 1(4) n by simp
      then show ?thesis by (simp add: min_def)
    qed
    from 1(1) [OF go m [symmetric] r1 False cap rest _ this] 1(3) t1 show ?thesis by simp
  qed
qed

lemma regular_read_Inr:
  assumes "regular_read w p cap s t = (Inr bytes, t')"
  shows "\<exists>i t1 t2 t3 t4. open_file w p t = (Inr i, t1) \<and> fstat w i t1 = (Inr s, t2)
    \<and> read_loop_bytes w p cap i [] t2 = (Inr bytes, t3) \<and> fstat w i t3 = (Inr s, t4)
    \<and> metadata_of w p t4 = (Inr (Some s), t')"
  using assms unfolding regular_read_def
  by (elim and_then_InrE)
    clarsimp

text \<open>A successful read saw the file, with the expected stamp and its contents, at the moment of its last look.\<close>

lemma regular_read_seen:
  assumes w: "stamps_tell w" and read: "regular_read w p cap s t = (Inr bytes, t')"
  shows "\<exists>k. t \<le> k \<and> k < t' \<and> seen w p s bytes k"
proof -
  from regular_read_Inr [OF read] obtain i t1 t2 t3 t4 where
    op: "open_file w p t = (Inr i, t1)" and opened: "fstat w i t1 = (Inr s, t2)"
    and loop: "read_loop_bytes w p cap i [] t2 = (Inr bytes, t3)"
    and after: "fstat w i t3 = (Inr s, t4)" and found: "metadata_of w p t4 = (Inr (Some s), t')" by blast
  have t1: "t \<le> t1" using laterD [OF later_calls(2) op] .
  have s: "fst (wd_file w t1 i) = s" "fst (wd_file w t3 i) = s"
    using opened after by (auto simp: fstat_Inr)
  have i: "st_identity s = i" using stamp_identity [OF w, of t1 i] s by simp
  have t: "t2 = t1 + 1" "t2 \<le> t3" "t4 = t3 + 1"
    using opened after later_read_loop [OF loop] by (simp_all add: fstat_Inr)
  have last_look: "t' = t4 + 1" "noted w p s t4" using metadata_Inr [OF w found] by simp_all
  have all: "wd_file w c i = wd_file w t1 i" if "t1 \<le> c" "c \<le> t4" for c
    using stamp_still [OF w, of t1 i t4 c] that s last_look(2) i by (simp add: noted_def)
  have "snd (wd_file w c i) = snd (wd_file w t1 i)" if "t2 \<le> c" "c < t3" for c
    using all [of c] that t by simp
  from read_loop_contents [OF loop this] have "bytes = snd (wd_file w t1 i)" by simp
  moreover have "wd_file w t4 i = wd_file w t1 i" using all [of t4] t by simp
  ultimately have "seen w p s bytes t4" using last_look(2) i by (simp add: seen_def)
  then show ?thesis using t t1 last_look by (intro exI [of _ t4]) simp
qed

text \<open>A note and a look at other moments agree on every moment between them.\<close>

lemma noted_seen:
  assumes "stamps_tell w" and "noted w p s a" and "seen w q s bytes b"
    and "a \<le> c \<and> c \<le> b \<or> b \<le> c \<and> c \<le> a"
  shows "wd_file w c (st_identity s) = (s, bytes)"
proof -
  let ?i = "st_identity s"
  have a: "fst (wd_file w a ?i) = s" and b: "fst (wd_file w b ?i) = s" "snd (wd_file w b ?i) = bytes"
    using assms(2,3) by (simp_all add: noted_def seen_def)
  show ?thesis
  proof (cases "a \<le> c \<and> c \<le> b")
    case True
    have same: "fst (wd_file w a ?i) = fst (wd_file w b ?i)" using a b by simp
    have "wd_file w c ?i = wd_file w a ?i" "wd_file w b ?i = wd_file w a ?i"
      using stamp_still [OF assms(1) same] True le_trans by blast+
    with b show ?thesis by (simp add: prod_eq_iff)
  next
    case False
    have same: "fst (wd_file w b ?i) = fst (wd_file w a ?i)" using a b by simp
    have "wd_file w c ?i = wd_file w b ?i"
      using stamp_still [OF assms(1) same] False assms(4) by blast
    with b show ?thesis by (simp add: prod_eq_iff)
  qed
qed

subsection \<open>The loops of an admission\<close>

lemma walk_entry_noted:
  assumes w: "stamps_tell w" and step: "walk_entry w e k t = (Inr k', t')"
  shows "\<forall>(p, s) \<in> set (wk_inventory k'). (p, s) \<in> set (wk_inventory k) \<or> (\<exists>a. t \<le> a \<and> a < t' \<and> noted w p s a)"
proof -
  from step obtain p kind t1 where rest: "and_then
       (if kind = DirType \<or> is_source p then
          and_then (metadata_of w p) (\<lambda>found.
          and_then (answer (ok_or found (plain ''walk entry disappeared''))) (\<lambda>item.
          if kind = DirType then
            and_then (must (st_kind item = 1) (at_path w ''directory changed'' p)) (\<lambda>_.
            answer (Inr (k\<lparr>wk_inventory := set_key p item (wk_inventory k)\<rparr>)))
          else
            and_then (must (st_kind item = 2) (at_path w ''unsafe source'' p)) (\<lambda>_.
            answer (Inr (k\<lparr>wk_inventory := set_key p item (wk_inventory k),
                           wk_sources := wk_sources k @ [p]\<rparr>)))))
        else answer (Inr k)) (\<lambda>k'.
     and_then (must (length (wk_sources k') \<le> 100000) (plain ''workspace exceeds 100000 source files'')) (\<lambda>_.
     answer (Inr k'))) t = (Inr k', t')"
    unfolding walk_entry_def by (auto split: prod.splits)
  show ?thesis
  proof (cases "kind = DirType \<or> is_source p")
    case False
    with rest show ?thesis by auto
  next
    case True
    with rest obtain item where m: "metadata_of w p t = (Inr (Some item), t')"
      and inven: "wk_inventory k' = set_key p item (wk_inventory k)"
      by (auto split: if_splits)
    have "noted w p item t \<and> t' = t + 1" using metadata_Inr [OF w m] by simp
    then show ?thesis using inven set_set_key [of p item "wk_inventory k"] by fastforce
  qed
qed

lemma later_walk_entry [later_intros]: "later (walk_entry w e k)"
  unfolding walk_entry_def by (intro later_intros)

lemma walk_entries_noted:
  assumes w: "stamps_tell w"
  shows "walk_entries w es k t = (Inr k', t') \<Longrightarrow> t \<le> t' \<and>
    (\<forall>(p, s) \<in> set (wk_inventory k'). (p, s) \<in> set (wk_inventory k) \<or> (\<exists>a. t \<le> a \<and> a < t' \<and> noted w p s a))"
proof (induction es arbitrary: k t)
  case (Cons e es)
  then obtain k1 t1 where step: "walk_entry w e k t = (Inr k1, t1)" and rest: "walk_entries w es k1 t1 = (Inr k', t')"
    by auto
  have "t \<le> t1" using laterD [OF later_walk_entry step] .
  with Cons.IH [OF rest] walk_entry_noted [OF w step] show ?case by fastforce
qed auto

lemma walk_noted:
  assumes "stamps_tell w" and "walk_tree w base t = (Inr k, t')"
  shows "t \<le> t' \<and> (\<forall>(p, s) \<in> set (wk_inventory k). \<exists>a. t \<le> a \<and> a < t' \<and> noted w p s a)"
  using walk_entries_noted [OF assms(1) assms(2) [unfolded walk_tree_def]] by fastforce

text \<open>Every source is read, in order.\<close>

definition source_captured :: "world \<Rightarrow> path \<Rightarrow> (path \<times> stamp) list \<Rightarrow> nat \<Rightarrow> nat \<Rightarrow> path \<Rightarrow> source_file \<Rightarrow> bool" where
  "source_captured w base inven lo hi p f \<longleftrightarrow> relative_text w base p = Inr (sf_path f) \<and> sf_hash f = wd_sha w (sf_text f)
     \<and> (\<exists>s a. map_of inven p = Some s \<and> lo \<le> a \<and> a < hi \<and> seen w p s (sf_text f) a)"

lemma source_captured_mono:
  "source_captured w base inven lo hi p f \<Longrightarrow> lo' \<le> lo \<Longrightarrow> hi \<le> hi' \<Longrightarrow> source_captured w base inven lo' hi' p f"
  unfolding source_captured_def by (meson le_trans less_le_trans)

lemma read_source_captured:
  assumes w: "stamps_tell w" and read: "read_source w base cap inven n p t = (Inr (f, n'), t')"
  shows "t \<le> t' \<and> source_captured w base inven t t' p f"
proof -
  from read obtain s where s: "map_of inven p = Some s"
    and r: "regular_read w p cap s t = (Inr (sf_text f), t')"
    and f: "relative_text w base p = Inr (sf_path f)" "sf_hash f = wd_sha w (sf_text f)"
    unfolding read_source_def by auto
  from regular_read_seen [OF w r] s f laterD [OF later_regular_read r] show ?thesis
    by (auto simp: source_captured_def)
qed

lemma read_sources_captured:
  assumes w: "stamps_tell w"
  shows "read_sources w base cap inven n ps t = (Inr fs, t') \<Longrightarrow>
    t \<le> t' \<and> list_all2 (source_captured w base inven t t') ps fs"
proof (induction ps arbitrary: n t fs)
  case (Cons p ps)
  then obtain f n1 t1 fs1 where one: "read_source w base cap inven n p t = (Inr (f, n1), t1)"
    and rest: "read_sources w base cap inven n1 ps t1 = (Inr fs1, t')" and fs: "fs = f # fs1"
    by (auto split: prod.splits)
  note o = read_source_captured [OF w one] and r = Cons.IH [OF rest]
  have "list_all2 (source_captured w base inven t t') ps fs1"
    using r by (auto elim: list_all2_mono intro: source_captured_mono [OF _ conjunct1 [OF o] le_refl])
  moreover have "source_captured w base inven t t' p f" using o r source_captured_mono by blast
  ultimately show ?case using o r fs by simp
qed simp

text \<open>What is recorded of an input was there when it was admitted.\<close>

definition recorded :: "world \<Rightarrow> nat \<Rightarrow> nat \<Rightarrow> path \<times> stamp option \<Rightarrow> bool" where
  "recorded w lo hi pe \<longleftrightarrow> (\<exists>a. lo \<le> a \<and> a < hi \<and>
     (case snd pe of None \<Rightarrow> wd_names w a (fst pe) = None | Some s \<Rightarrow> noted w (fst pe) s a))"

lemma recorded_mono: "recorded w lo hi pe \<Longrightarrow> lo' \<le> lo \<Longrightarrow> hi \<le> hi' \<Longrightarrow> recorded w lo' hi' pe"
  unfolding recorded_def by (meson le_trans less_le_trans)

lemma put_input_inputs: "set (am_inputs (put_input p e b a)) \<subseteq> insert (p, e) (set (am_inputs a))"
  using set_set_key by (simp add: put_input_def)

lemma later_input_bytes [later_intros]: "later (input_bytes_of w p cap sources a item)"
  unfolding input_bytes_of_def by (intro later_intros)

lemma admit_input_recorded:
  assumes w: "stamps_tell w" and step: "admit_input w sources pc a t = (Inr a', t')"
  shows "t \<le> t' \<and> (\<forall>pe \<in> set (am_inputs a'). pe \<in> set (am_inputs a) \<or> recorded w t t' pe)"
proof -
  obtain p cap where pc: "pc = (p, cap)" by force
  from step pc obtain found t1 where m: "metadata_of w p t = (Inr found, t1)"
    and k: "(case found of None \<Rightarrow> answer (Inr (put_input p None None a))
       | Some item \<Rightarrow> and_then (input_bytes_of w p cap sources a item) (\<lambda>bytes.
           answer (Inr (put_input p found bytes a)))) t1 = (Inr a', t')"
    by (auto simp: admit_input_def)
  have t1: "t1 = t + 1" and shown: "case found of None \<Rightarrow> wd_names w t p = None | Some s \<Rightarrow> noted w p s t"
    using metadata_Inr [OF w m] by auto
  from k obtain b where a': "a' = put_input p found b a" and "t1 \<le> t'"
    by (auto split: option.splits dest: laterD [OF later_input_bytes])
  with t1 shown have "recorded w t t' (p, found)"
    by (cases found) (auto simp: recorded_def intro!: exI [of _ t])
  with a' t1 \<open>t1 \<le> t'\<close> put_input_inputs [of p found b a] show ?thesis by auto
qed

lemma admit_inputs_recorded:
  assumes w: "stamps_tell w"
  shows "admit_inputs w sources pcs a t = (Inr a', t') \<Longrightarrow>
    t \<le> t' \<and> (\<forall>pe \<in> set (am_inputs a'). pe \<in> set (am_inputs a) \<or> recorded w t t' pe)"
proof (induction pcs arbitrary: a t)
  case (Cons pc pcs)
  then obtain a1 t1 where one: "admit_input w sources pc a t = (Inr a1, t1)"
    and rest: "admit_inputs w sources pcs a1 t1 = (Inr a', t')" by auto
  from admit_input_recorded [OF w one] Cons.IH [OF rest] show ?case
    using recorded_mono by (meson le_refl le_trans)
qed auto

lemma admit_running_recorded:
  assumes "admit_running_executable w im sources a t = (Inr a', t')"
  shows "t \<le> t' \<and> (\<forall>pe \<in> set (am_inputs a'). pe \<in> set (am_inputs a) \<or> fst pe = im_path im)"
proof -
  have later: "later (admit_running_executable w im sources a)"
    unfolding admit_running_executable_def Let_def verify_stat_def by (intro later_intros)
  from assms have "a' = put_input (im_path im) (Some (im_initial im)) None a"
    by (auto simp: admit_running_executable_def Let_def)
  then show ?thesis
    using put_input_inputs [of "im_path im" "Some (im_initial im)" None a] laterD [OF later assms] by auto
qed

text \<open>The second look at an input: it is there with the admitted stamp and bytes, or still absent.\<close>

definition confirmed :: "world \<Rightarrow> capture \<Rightarrow> nat \<Rightarrow> nat \<Rightarrow> path \<times> stamp option \<Rightarrow> bool" where
  "confirmed w c lo hi pe \<longleftrightarrow> fst pe = im_path (cp_image c) \<or>
     (\<exists>b. lo \<le> b \<and> b < hi \<and> (case snd pe of None \<Rightarrow> wd_names w b (fst pe) = None
        | Some s \<Rightarrow> \<exists>bytes. map_of (cp_input_bytes c) (fst pe) = Some (Some bytes) \<and> seen w (fst pe) s bytes b))"

lemma confirmed_mono: "confirmed w c lo hi pe \<Longrightarrow> lo' \<le> lo \<Longrightarrow> hi \<le> hi' \<Longrightarrow> confirmed w c lo' hi' pe"
  unfolding confirmed_def by (meson le_trans less_le_trans)

lemma later_verify_input [later_intros]: "later (verify_input w c pe)"
  unfolding verify_input_def verify_stat_def by (intro later_intros)

lemma verify_input_confirmed:
  assumes w: "stamps_tell w" and v: "verify_input w c pe t = (Inr (), t')"
  shows "t \<le> t' \<and> confirmed w c t t' pe"
proof -
  obtain p e where pe: "pe = (p, e)" by force
  have le: "t \<le> t'" using laterD [OF later_verify_input v] .
  show ?thesis
  proof (cases "p = im_path (cp_image c)")
    case True
    with le pe show ?thesis by (simp add: confirmed_def)
  next
    case False
    with v pe obtain t1 where m: "metadata_of w p t = (Inr e, t1)"
      and k: "(case e of None \<Rightarrow> answer (Inr ()) | Some s \<Rightarrow>
           and_then (regular_read w p (input_cap c p) s) (\<lambda>bytes.
           must (map_of (cp_input_bytes c) p = Some (Some bytes)) (at_path w ''input contents drift'' p))) t1 = (Inr (), t')"
      by (auto simp: verify_input_def)
    have t1: "t1 = t + 1" using metadata_Inr [OF w m] by simp
    show ?thesis
    proof (cases e)
      case None
      then have "wd_names w t p = None" using metadata_Inr [OF w m] by simp
      with None k t1 pe show ?thesis by (auto simp: confirmed_def intro!: exI [of _ t])
    next
      case (Some s)
      with k obtain bytes where r: "regular_read w p (input_cap c p) s t1 = (Inr bytes, t')"
        and b: "map_of (cp_input_bytes c) p = Some (Some bytes)" by auto
      from regular_read_seen [OF w r] obtain k where "t1 \<le> k" "k < t'" "seen w p s bytes k" by blast
      with Some b pe t1 le show ?thesis by (auto simp: confirmed_def intro!: exI [of _ k])
    qed
  qed
qed

lemma verify_inputs_confirmed:
  assumes w: "stamps_tell w"
  shows "verify_inputs w c pes t = (Inr (), t') \<Longrightarrow> t \<le> t' \<and> list_all (confirmed w c t t') pes"
proof (induction pes arbitrary: t)
  case (Cons pe pes)
  then obtain t1 where one: "verify_input w c pe t = (Inr (), t1)" and rest: "verify_inputs w c pes t1 = (Inr (), t')"
    by auto
  note o = verify_input_confirmed [OF w one] and r = Cons.IH [OF rest]
  have "list_all (confirmed w c t t') pes"
    using r o by (auto simp: list_all_iff intro: confirmed_mono)
  moreover have "confirmed w c t t' pe" using o r confirmed_mono by blast
  ultimately show ?case using o r by simp
qed simp

lemma same_map_lookup: "same_map a b \<Longrightarrow> map_of b k = Some v \<Longrightarrow> map_of a k = Some v"
proof -
  assume same: "same_map a b" and v: "map_of b k = Some v"
  have "(k, v) \<in> set (a @ b)" using map_of_SomeD [OF v] by simp
  with same have "case (k, v) of (k, _) \<Rightarrow> map_of a k = map_of b k"
    unfolding same_map_def list_all_iff by (rule bspec)
  with v show ?thesis by simp
qed

lemma verify_capture_confirmed:
  assumes w: "stamps_tell w" and v: "verify_capture w c t = (Inr (), t')"
  shows "t \<le> t' \<and> (\<forall>p s. map_of (cp_inventory c) p = Some s \<longrightarrow> (\<exists>b. t \<le> b \<and> b < t' \<and> noted w p s b))
    \<and> list_all (confirmed w c t t') (cp_inputs c)"
proof -
  from v obtain found t1 k t2 where m: "metadata_of w (cp_admission_root c) t = (Inr found, t1)"
    and walk: "walk_tree w (cp_root c) t1 = (Inr k, t2)" and same: "same_map (wk_inventory k) (cp_inventory c)"
    and rest: "verify_inputs w c (cp_inputs c) t2 = (Inr (), t')"
    by (auto simp: verify_capture_def)
  have t1: "t1 = t + 1" using metadata_Inr [OF w m] by simp
  note walked = walk_noted [OF w walk] and inputs = verify_inputs_confirmed [OF w rest]
  have "\<exists>b. t \<le> b \<and> b < t' \<and> noted w p s b" if "map_of (cp_inventory c) p = Some s" for p s
  proof -
    have "(p, s) \<in> set (wk_inventory k)" using same_map_lookup [OF same that] by (rule map_of_SomeD)
    with walked obtain b where "t1 \<le> b" "b < t2" "noted w p s b" by auto
    with t1 inputs show ?thesis by (intro exI [of _ b]) simp
  qed
  moreover have "list_all (confirmed w c t t') (cp_inputs c)"
    using inputs walked t1 by (auto simp: list_all_iff intro: confirmed_mono)
  ultimately show ?thesis using t1 walked inputs by simp
qed

lemma collect_captured:
  assumes w: "stamps_tell w" and col: "collect_capture w opts im t = (Inr c, t')"
  shows "t \<le> t' \<and> cp_image c = im
    \<and> (\<exists>sources. list_all2 (source_captured w (cp_root c) (cp_inventory c) t t') sources (cp_files c))
    \<and> (\<forall>pe \<in> set (cp_inputs c). fst pe = im_path im \<or> recorded w t t' pe)"
proof -
  from col obtain found t1 base t2 k t3 ids a1 t4 a2 t5 a3 t6 files where
    meta: "metadata_of w (co_root opts) t = (Inr found, t1)"
    and canon: "syscall w (\<lambda>_. wd_canonical w (co_root opts)) t1 = (Inr base, t2)"
    and walk: "walk_tree w base t2 = (Inr k, t3)"
    and first: "admit_inputs w ids (config_inputs opts base (wk_inventory k)) no_inputs t3 = (Inr a1, t4)"
    and exe: "admit_running_executable w im ids a1 t4 = (Inr a2, t5)"
    and second: "admit_inputs w ids (optional_inputs opts) a2 t5 = (Inr a3, t6)"
    and files: "read_sources w base (min (co_max opts) (256 * MEBIBYTE)) (wk_inventory k) 0
        (sort_key (wd_show w) (wk_sources k)) t6 = (Inr files, t')"
    and c: "cp_root c = base" "cp_inventory c = wk_inventory k" "cp_inputs c = am_inputs a3" "cp_files c = files"
      "cp_image c = im"
    by (auto simp: collect_capture_def Let_def)
  note times = laterD [OF later_calls(1) meta] laterD [OF later_syscall canon] walk_noted [OF w walk]
  note i1 = admit_inputs_recorded [OF w first] and i2 = admit_running_recorded [OF exe]
    and i3 = admit_inputs_recorded [OF w second] and fs = read_sources_captured [OF w files]
  have "fst pe = im_path im \<or> recorded w t t' pe" if "pe \<in> set (cp_inputs c)" for pe
    using that c(3) times i1 i2 i3 fs recorded_mono [of w t3 t4 pe t t'] recorded_mono [of w t5 t6 pe t t']
    by (auto simp: no_inputs_def)
  moreover have "list_all2 (source_captured w base (wk_inventory k) t t') (sort_key (wd_show w) (wk_sources k)) files"
    using fs times i1 i2 i3 by (auto elim!: list_all2_mono intro: source_captured_mono)
  ultimately show ?thesis using times i1 i2 i3 fs c by auto
qed

subsection \<open>The snapshot\<close>

text \<open>At the moment \<open>T\<close> the file had exactly these bytes, and the path named it before and after.\<close>

definition held :: "world \<Rightarrow> nat \<Rightarrow> nat \<Rightarrow> nat \<Rightarrow> path \<Rightarrow> stamp \<Rightarrow> string \<Rightarrow> bool" where
  "held w lo T hi p s bytes \<longleftrightarrow> wd_file w T (st_identity s) = (s, bytes)
     \<and> (\<exists>a b. lo \<le> a \<and> a \<le> T \<and> T \<le> b \<and> b \<le> hi
          \<and> wd_names w a p = Some (st_identity s) \<and> wd_names w b p = Some (st_identity s))"


definition sample_world :: world where
  "sample_world = \<lparr>wd_names = (\<lambda>t p. if p = [RootDir, Normal ''w''] then Some (7, 3)
       else if p = [RootDir, Normal ''w'', Normal ''a.py''] then Some (7, 4) else None),
     wd_file = (\<lambda>t i. (\<lparr>st_kind = (if i = (7, 3) then 1 else 2), st_len = 2, st_identity = i, st_mtime = (0, 0), st_ctime = (0, 0)\<rparr>, ''xy'')),
     wd_fails = (\<lambda>_. None), wd_short = (\<lambda>_. 5), wd_cancel = (\<lambda>_. False), wd_canonical = Inr,
     wd_walk = (\<lambda>_ _. [Inr ([RootDir, Normal ''w''], DirType), Inr ([RootDir, Normal ''w'', Normal ''a.py''], FileType)]),
     wd_show = (\<lambda>p. concat (map component_text p)), wd_utf8 = (\<lambda>_. True), wd_sha = (\<lambda>s. s)\<rparr>"

definition sample_image :: image where
  "sample_image = \<lparr>im_path = [RootDir, Normal ''trellis''], im_file = (7, 9), im_initial =
     \<lparr>st_kind = 2, st_len = 2, st_identity = (7, 9), st_mtime = (0, 0), st_ctime = (0, 0)\<rparr>, im_digest = ''d''\<rparr>"

definition sample_capture_options :: capture_options where
  "sample_capture_options = \<lparr>co_root = [RootDir, Normal ''w''], co_scip = None, co_manifest = None, co_max = 10\<rparr>"

text \<open>Inputs that are absent all the time are admitted and confirmed.\<close>

definition absent :: "world \<Rightarrow> path \<Rightarrow> bool" where
  "absent w p \<longleftrightarrow> (\<forall>t. wd_names w t p = None)"

lemma absent_metadata: "absent w p \<Longrightarrow> wd_fails w t = None \<Longrightarrow> metadata_of w p t = (Inr None, t + 1)"
  by (simp add: metadata_of_def syscall_def absent_def)

lemma absent_admitted:
  assumes ok: "\<And>t. wd_fails w t = None"
  shows "\<forall>pc \<in> set pcs. absent w (fst pc) \<Longrightarrow> \<exists>a' t'. admit_inputs w ids pcs a t = (Inr a', t')
    \<and> (\<forall>pe \<in> set (am_inputs a'). pe \<in> set (am_inputs a) \<or> snd pe = None \<and> fst pe \<in> fst ` set pcs)
    \<and> am_identities a' = am_identities a"
proof (induction pcs arbitrary: a t)
  case (Cons pc pcs)
  obtain p cap where pc: "pc = (p, cap)" by force
  with Cons.prems have p: "absent w p" by simp
  have step: "admit_input w ids pc a t = (Inr (put_input p None None a), t + 1)"
    by (simp add: pc admit_input_def absent_metadata [OF p ok])
  from Cons.IH [of "put_input p None None a" "t + 1"] Cons.prems obtain a' t'
    where r: "admit_inputs w ids pcs (put_input p None None a) (t + 1) = (Inr a', t')"
    "\<forall>pe \<in> set (am_inputs a'). pe \<in> set (am_inputs (put_input p None None a)) \<or> snd pe = None \<and> fst pe \<in> fst ` set pcs"
    "am_identities a' = am_identities a" by (auto simp: put_input_def)
  then show ?case using step pc put_input_inputs [of p None None a] by fastforce
qed simp

lemma absent_verified:
  assumes ok: "\<And>t. wd_fails w t = None" "\<And>t. \<not> wd_cancel w t"
    and exe: "\<And>t. \<exists>t'. verify_input w c (im_path (cp_image c), Some (im_initial (cp_image c))) t = (Inr (), t')"
  shows "\<forall>pe \<in> set pes. pe = (im_path (cp_image c), Some (im_initial (cp_image c)))
      \<or> snd pe = None \<and> absent w (fst pe) \<and> fst pe \<noteq> im_path (cp_image c) \<Longrightarrow>
    \<exists>t'. verify_inputs w c pes t = (Inr (), t')"
proof (induction pes arbitrary: t)
  case (Cons pe pes)
  have "\<exists>t1. verify_input w c pe t = (Inr (), t1)"
  proof (cases "snd pe")
    case None
    with Cons.prems obtain p where "pe = (p, None)" "absent w p" "p \<noteq> im_path (cp_image c)" by (cases pe) auto
    then show ?thesis by (simp add: verify_input_def ok absent_metadata)
  next
    case (Some s)
    with Cons.prems exe show ?thesis by (cases pe) auto
  qed
  with Cons show ?case by fastforce
qed simp

abbreviation sample_base :: path where "sample_base \<equiv> [RootDir, Normal ''w'']"
abbreviation sample_source :: path where "sample_source \<equiv> [RootDir, Normal ''w'', Normal ''a.py'']"

abbreviation sample_stamp :: "nat \<Rightarrow> stamp" where
  "sample_stamp n \<equiv> \<lparr>st_kind = (if n = 3 then 1 else 2), st_len = 2, st_identity = (7, n), st_mtime = (0, 0), st_ctime = (0, 0)\<rparr>"

lemma sample_world_calls:
  "wd_fails sample_world t = None" "\<not> wd_cancel sample_world t"
  "metadata_of sample_world sample_base t = (Inr (Some (sample_stamp 3)), t + 1)"
  "metadata_of sample_world sample_source t = (Inr (Some (sample_stamp 4)), t + 1)"
  "open_file sample_world sample_source t = (Inr (7, 4), t + 1)"
  "fstat sample_world (7, n) t = (Inr (sample_stamp n), t + 1)"
  "read_at sample_world (7, 4) 0 t = (Inr ''xy'', t + 1)" "read_at sample_world (7, 4) (Suc (Suc 0)) t = (Inr [], t + 1)"
  by (simp_all add: sample_world_def metadata_of_def syscall_def open_file_def fstat_def read_at_def Let_def)

lemma sample_stamps: "stamps_tell sample_world"
  by (simp add: stamps_tell_def sample_world_def)

lemma sample_read_file:
  "regular_read sample_world sample_source 10 (sample_stamp 4) t = (Inr ''xy'', t + 6)"
  by (simp add: regular_read_def and_then_def must_def answer_def sample_world_calls read_loop_bytes.simps)

lemma sample_is_source: "is_source sample_source"
  by code_simp

lemma sample_walk: "walk_tree sample_world sample_base t = (Inr \<lparr>wk_inventory =
    [(sample_base, sample_stamp 3), (sample_source, sample_stamp 4)], wk_sources = [sample_source]\<rparr>, t + 2)"
proof -
  have walker: "wd_walk sample_world t sample_base = [Inr (sample_base, DirType), Inr (sample_source, FileType)]"
    by (simp add: sample_world_def)
  have one: "walk_entry sample_world (Inr (sample_base, DirType)) \<lparr>wk_inventory = [], wk_sources = []\<rparr> t =
    (Inr \<lparr>wk_inventory = [(sample_base, sample_stamp 3)], wk_sources = []\<rparr>, t + 1)"
    by (simp add: walk_entry_def and_then_def must_def answer_def sample_world_calls check_cancel_def)
  have two: "walk_entry sample_world (Inr (sample_source, FileType))
      \<lparr>wk_inventory = [(sample_base, sample_stamp 3)], wk_sources = []\<rparr> (t + 1) =
    (Inr \<lparr>wk_inventory = [(sample_base, sample_stamp 3), (sample_source, sample_stamp 4)],
          wk_sources = [sample_source]\<rparr>, t + 2)"
    by (simp add: walk_entry_def and_then_def must_def answer_def sample_world_calls check_cancel_def sample_is_source)
  show ?thesis
    unfolding walk_tree_def walker walk_entries.simps and_then_def one prod.case sum.case two answer_def by (rule refl)
qed

lemma sample_absent:
  assumes "pc \<in> set (config_inputs sample_capture_options sample_base
    [(sample_base, sample_stamp 3), (sample_source, sample_stamp 4)])"
  shows "absent sample_world (fst pc) \<and> fst pc \<noteq> im_path sample_image"
proof -
  obtain n where "fst pc = [RootDir, Normal ''w'', Normal n]" "n \<noteq> ''a.py''"
    using assms by (auto simp: config_inputs_def ROOT_INPUTS_def Let_def)
  then show ?thesis by (simp add: absent_def sample_world_def sample_image_def)
qed

lemma sample_options_eval: "co_root sample_capture_options = sample_base"
    "min (co_max sample_capture_options) (256 * MEBIBYTE) = 10"
    "optional_inputs sample_capture_options = []"
  by (simp_all add: sample_capture_options_def MEBIBYTE_def optional_inputs_def)

lemma sample_canonical: "syscall sample_world (\<lambda>_. wd_canonical sample_world sample_base) t = (Inr sample_base, t + 1)"
  by (simp add: syscall_def sample_world_def)

lemma sample_verify_stat: "verify_stat sample_world sample_image t = (Inr (), t + 1)"
proof -
  have im: "im_file sample_image = (7, 9)" "im_initial sample_image = sample_stamp 9"
    by (simp_all add: sample_image_def)
  show ?thesis unfolding verify_stat_def im by (rule and_thenI, rule sample_world_calls) (simp add: and_then_def must_def answer_def)
qed

lemma sample_source_read: "\<exists>f n. read_source sample_world sample_base 10
    [(sample_base, sample_stamp 3), (sample_source, sample_stamp 4)] 0 sample_source t = (Inr (f, n), t + 6) \<and> sf_text f = ''xy''"
proof -
  have "relative_text sample_world sample_base sample_source = Inr ''a.py''" by code_simp
  moreover have "map_of [(sample_base, sample_stamp 3), (sample_source, sample_stamp 4)] sample_source = Some (sample_stamp 4)"
    by simp
  moreover have "wd_utf8 sample_world b" for b by (simp add: sample_world_def)
  ultimately show ?thesis
    using sample_read_file [of t] sample_world_calls(2)
    by (auto simp: read_source_def and_then_def must_def answer_def check_cancel_def MEBIBYTE_def)
qed

lemma sample_admits: "\<exists>c t1. admit_capture sample_world sample_capture_options sample_image 0 = (Inr c, t1)
    \<and> map sf_text (cp_files c) = [''xy'']"
proof -
  let ?w = sample_world and ?im = sample_image and ?inven = "[(sample_base, sample_stamp 3), (sample_source, sample_stamp 4)]"
  let ?pcs = "config_inputs sample_capture_options sample_base ?inven"
  let ?k = "\<lparr>wk_inventory = ?inven, wk_sources = [sample_source]\<rparr>"
  have check: "check_cancel ?w t = (Inr (), t)" for t using sample_world_calls(2) by (simp add: check_cancel_def)
  obtain a1 t4 where a1: "admit_inputs ?w [(7, 4)] ?pcs no_inputs (0 + 1 + 1 + 2) = (Inr a1, t4)"
    and in1: "\<forall>pe \<in> set (am_inputs a1). snd pe = None \<and> fst pe \<in> fst ` set ?pcs"
    and id1: "am_identities a1 = []"
    using absent_admitted [of ?w ?pcs "[(7, 4)]" no_inputs "0 + 1 + 1 + 2"] sample_world_calls(1) sample_absent
    by (auto simp: no_inputs_def)
  let ?a2 = "put_input (im_path ?im) (Some (im_initial ?im)) None a1"
  have keys: "\<not> has_key (am_inputs a1) (im_path ?im)"
  proof
    assume "has_key (am_inputs a1) (im_path ?im)"
    then obtain e where "(im_path ?im, e) \<in> set (am_inputs a1)" by (auto simp: has_key_map_of dest: map_of_SomeD)
    with in1 obtain pc where "pc \<in> set ?pcs" "fst pc = im_path ?im" by auto
    with sample_absent show False by blast
  qed
  have stamps: "st_identity (im_initial ?im) = (7, 9)" by (simp add: sample_image_def)
  have a2: "admit_running_executable ?w ?im [(7, 4)] a1 t4 = (Inr ?a2, t4 + 1)"
    using keys id1 stamps
    by (simp add: admit_running_executable_def and_then_def check must_def answer_def sample_verify_stat has_key_map_of)
  obtain f n where f: "read_source ?w sample_base 10 ?inven 0 sample_source (t4 + 1) = (Inr (f, n), t4 + 1 + 6)" "sf_text f = ''xy''"
    using sample_source_read by blast
  let ?c = "\<lparr>cp_admission_root = sample_base, cp_root_stamp = sample_stamp 3, cp_root = sample_base,
       cp_inventory = ?inven, cp_inputs = am_inputs ?a2, cp_files = [f], cp_image = ?im,
       cp_input_bytes = am_bytes ?a2, cp_options = sample_capture_options\<rparr>"
  have outside: "im_path ?im \<notin> set [sample_source]" by (simp add: sample_image_def)
  have files: "read_sources ?w sample_base 10 ?inven 0 [sample_source] (t4 + 1) = (Inr [f], t4 + 1 + 6)"
    unfolding read_sources.simps by (rule and_thenI, rule f) (simp add: and_then_def answer_def)
  have "collect_capture ?w sample_capture_options ?im 0 = (Inr ?c, t4 + 1 + 6)"
    unfolding collect_capture_def sample_options_eval Let_def
    apply (rule and_thenI, rule check)
    apply (rule and_thenI, rule sample_world_calls)
    apply (rule and_thenI, rule answer_holds, rule ok_or_simps(2), rule and_thenI, rule must_holds, simp)
    apply (rule and_thenI, rule sample_canonical, rule and_thenI, rule sample_walk)
    apply (simp only: walked.simps sort_key_simps insort_key.simps)
    apply (rule and_thenI, rule must_holds, rule outside)
    apply (rule and_thenI, rule answer_holds, simp)
    apply (rule and_thenI, rule a1, rule and_thenI, rule a2, rule and_thenI, rule check)
    apply (simp only: admit_inputs.simps)
    apply (rule and_thenI, rule answer_holds, rule refl)
    apply (rule and_thenI, rule files, rule answer_holds, rule refl)
    done
  moreover have "\<exists>t'. verify_capture ?w ?c (t4 + 1 + 6) = (Inr (), t')"
  proof -
    let ?t = "t4 + 1 + 6 + 1 + 2"
    have exe: "\<exists>t'. verify_input ?w ?c (im_path (cp_image ?c), Some (im_initial (cp_image ?c))) t = (Inr (), t')" for t
      by (simp add: verify_input_def and_then_def check must_def answer_def sample_verify_stat put_input_def)
    have "\<forall>pe \<in> set (cp_inputs ?c). pe = (im_path (cp_image ?c), Some (im_initial (cp_image ?c)))
      \<or> snd pe = None \<and> absent ?w (fst pe) \<and> fst pe \<noteq> im_path (cp_image ?c)"
      using in1 sample_absent put_input_inputs [of "im_path ?im" "Some (im_initial ?im)" None a1] by fastforce
    from absent_verified [OF sample_world_calls(1,2) exe this, of ?t] obtain t' where
      v: "verify_inputs ?w ?c (cp_inputs ?c) ?t = (Inr (), t')" by blast
    have same: "same_map ?inven ?inven" by (simp add: same_map_def)
    have c: "cp_admission_root ?c = sample_base" "cp_root_stamp ?c = sample_stamp 3" "cp_root ?c = sample_base"
      "cp_inventory ?c = ?inven" by simp_all
    have "verify_capture ?w ?c (t4 + 1 + 6) = (Inr (), t')"
      unfolding verify_capture_def c
      apply (rule and_thenI, rule check, rule and_thenI, rule sample_world_calls)
      apply (rule and_thenI, rule must_holds, rule refl, rule and_thenI, rule sample_walk)
      apply (rule and_thenI, rule must_holds, simp only: walked.simps, rule same)
      apply (rule and_thenI, rule v, rule check)
      done
    then show ?thesis ..
  qed
  ultimately have "\<exists>t1. admit_capture ?w sample_capture_options ?im 0 = (Inr ?c, t1)"
    by (auto simp: admit_capture_def)
  then show ?thesis using f(2) by (intro exI [of _ ?c]) auto
qed


end
