(* ===== verification/Graph.thy ===== *)
theory Graph
  imports Model
begin

section \<open>Validation of the extracted graph (\<open>store.rs\<close>)\<close>

text \<open>
  \<open>validate_graph\<close> guards everything the extractors publish: the paths and identifiers, the
  references between symbols, regions and calls, and the byte span and line/column of every
  range against the text of its file. The maps the function fills are association lists in the
  order of insertion; the cancellation flag, which another thread may set at any time, is the
  stream of its readings, one for every \<open>check_cancel_flag\<close>.
\<close>

definition check_cancel_flag :: "bool \<Rightarrow> unit result" where
  "check_cancel_flag cancelled = ensure (\<not> cancelled) ''index publication cancelled'' (Inr ())"

text \<open>The offsets at which a line of the text starts.\<close>

definition line_starts :: "string \<Rightarrow> nat list" where
  "line_starts text = 0 # map Suc (filter (\<lambda>i. text ! i = CHR 0x0A) [0..<length text])"

definition graph_path_ok :: "string \<Rightarrow> bool" where
  "graph_path_ok path \<longleftrightarrow> path \<noteq> [] \<and> \<not> starts_with ''/'' path
     \<and> \<not> list_ex (\<lambda>p. p = ''..'' \<or> p = []) (split_on (CHR ''/'') path)"

fun index_files :: "(nat \<Rightarrow> bool) \<Rightarrow> nat \<Rightarrow> source_file list \<Rightarrow> (string \<times> source_file \<times> nat list) list
    \<Rightarrow> (string \<times> source_file \<times> nat list) list result" where
  "index_files cancel n [] files = Inr files"
| "index_files cancel n (f # fs) files =
     bind_result (check_cancel_flag (cancel n)) (\<lambda>_.
     ensure (graph_path_ok (sf_path f)) ''invalid source path'' (
     ensure (\<not> has_key files (sf_path f)) ''duplicate file path''
       (index_files cancel (Suc n) fs (files @ [(sf_path f, f, line_starts (sf_text f))]))))"

text \<open>
  \<open>lines.partition_point(|start| *start <= byte) - 1\<close>; the starts ascend from 0, so the
  partition point is the length of the prefix that satisfies the predicate, and at least 1.
\<close>

definition line_index :: "nat list \<Rightarrow> nat \<Rightarrow> nat" where
  "line_index lines b = length (takeWhile (\<lambda>start. start \<le> b) lines) - 1"

definition place_ok :: "nat list \<Rightarrow> nat \<times> nat \<times> nat \<Rightarrow> bool" where
  "place_ok lines = (\<lambda>(b, line, column).
     let index = line_index lines b in line = index + 1 \<and> column = b - lines ! index + 1)"

definition check_span :: "(string \<times> source_file \<times> nat list) list \<Rightarrow> string \<Rightarrow> source_range \<Rightarrow> unit result" where
  "check_span files path r =
     bind_result (ok_or (map_of files path) ''graph references missing source file'') (\<lambda>(f, lines).
     ensure (start_byte r \<le> end_byte r \<and> end_byte r \<le> length (sf_text f)
         \<and> char_boundary (sf_text f) (start_byte r) \<and> char_boundary (sf_text f) (end_byte r))
       ''invalid source byte span'' (
     for_each (\<lambda>p. ensure (place_ok lines p) ''invalid source line/column span'' (Inr ()))
       [(start_byte r, start_line r, start_column r), (end_byte r, end_line r, end_column r)]))"

definition check_graph_id :: "string \<Rightarrow> unit result" where
  "check_graph_id i =
     ensure (i \<noteq> [] \<and> length i \<le> 8192 \<and> CHR 0x00 \<notin> set i) ''invalid graph id'' (Inr ())"

fun index_nodes :: "(nat \<Rightarrow> bool) \<Rightarrow> nat \<Rightarrow> (string \<times> source_file \<times> nat list) list \<Rightarrow> symbol list
    \<Rightarrow> (string \<times> symbol) list \<Rightarrow> (string \<times> symbol) list result" where
  "index_nodes cancel n files [] nodes = Inr nodes"
| "index_nodes cancel n files (s # ss) nodes =
     bind_result (check_cancel_flag (cancel n)) (\<lambda>_.
     bind_result (check_graph_id (sy_id s)) (\<lambda>_.
     bind_result (check_span files (sy_path s) (sy_range s)) (\<lambda>_.
     ensure (\<not> has_key nodes (sy_id s)) ''duplicate node id''
       (index_nodes cancel (Suc n) files ss (nodes @ [(sy_id s, s)])))))"

definition check_parent :: "(string \<times> symbol) list \<Rightarrow> symbol \<Rightarrow> unit result" where
  "check_parent nodes s = (case sy_parent s of None \<Rightarrow> Inr ()
     | Some p \<Rightarrow> ensure (has_key nodes p) ''dangling node parent'' (Inr ()))"

fun index_regions :: "(nat \<Rightarrow> bool) \<Rightarrow> nat \<Rightarrow> (string \<times> source_file \<times> nat list) list
    \<Rightarrow> (string \<times> symbol) list \<Rightarrow> control_region list
    \<Rightarrow> (string \<times> control_region) list \<Rightarrow> (string \<times> control_region) list result" where
  "index_regions cancel n files nodes [] regions = Inr regions"
| "index_regions cancel n files nodes (r # rs) regions =
     bind_result (check_cancel_flag (cancel n)) (\<lambda>_.
     bind_result (check_graph_id (cr_id r)) (\<lambda>_.
     bind_result (check_span files (cr_path r) (cr_range r)) (\<lambda>_.
     ensure (has_key nodes (cr_owner r)) ''dangling region owner'' (
     ensure (\<not> has_key regions (cr_id r)) ''duplicate region id''
       (index_regions cancel (Suc n) files nodes rs (regions @ [(cr_id r, r)]))))))"

text \<open>\<open>regions.get(id).is_some_and(|r| r.owner == owner)\<close>.\<close>

definition owned_by :: "(string \<times> control_region) list \<Rightarrow> string \<Rightarrow> string \<Rightarrow> bool" where
  "owned_by regions owner i =
     (case map_of regions i of None \<Rightarrow> False | Some r \<Rightarrow> cr_owner r = owner)"

definition check_region_parent :: "(string \<times> control_region) list \<Rightarrow> control_region \<Rightarrow> unit result" where
  "check_region_parent regions r = (case cr_parent r of None \<Rightarrow> Inr ()
     | Some p \<Rightarrow> ensure (owned_by regions (cr_owner r) p) ''dangling or foreign region parent'' (Inr ()))"

fun index_calls :: "(nat \<Rightarrow> bool) \<Rightarrow> nat \<Rightarrow> (string \<times> source_file \<times> nat list) list
    \<Rightarrow> (string \<times> symbol) list \<Rightarrow> (string \<times> control_region) list
    \<Rightarrow> call_site list \<Rightarrow> string list \<Rightarrow> index_stats \<Rightarrow> index_stats result" where
  "index_calls cancel n files nodes regions [] calls stats = Inr stats"
| "index_calls cancel n files nodes regions (c # cs) calls stats =
     bind_result (check_cancel_flag (cancel n)) (\<lambda>_.
     bind_result (check_graph_id (cs_id c)) (\<lambda>_.
     bind_result (check_span files (cs_path c) (cs_range c)) (\<lambda>_.
     ensure (cs_id c \<notin> set calls) ''duplicate call id'' (
     ensure (has_key nodes (cs_caller c)) ''dangling call caller'' (
     bind_result (for_each (\<lambda>i. ensure (owned_by regions (cs_caller c) i)
         ''dangling or foreign call region'' (Inr ())) (cs_regions c)) (\<lambda>_.
       index_calls cancel (Suc n) files nodes regions cs (cs_id c # calls)
         (stats\<lparr>is_unresolved := is_unresolved stats + 1\<rparr>)))))))"

definition validate_graph :: "(nat \<Rightarrow> bool) \<Rightarrow> graph \<Rightarrow> index_stats result" where
  "validate_graph cancel g =
     bind_result (index_files cancel 0 (g_files g) []) (\<lambda>files.
     let n = length (g_files g) in
     bind_result (index_nodes cancel n files (g_nodes g) []) (\<lambda>nodes.
     bind_result (for_each (check_parent nodes) (g_nodes g)) (\<lambda>_.
     let m = n + length (g_nodes g) in
     bind_result (index_regions cancel m files nodes (g_regions g) []) (\<lambda>regions.
     bind_result (for_each (check_region_parent regions) (g_regions g)) (\<lambda>_.
     let stats = (g_stats g)\<lparr>is_files := length (g_files g), is_symbols := length (g_nodes g),
           is_calls := length (g_calls g), is_regions := length (g_regions g), is_internal := 0,
           is_external := 0, is_unresolved := 0, is_ambiguous := 0\<rparr> in
     ensure (is_parse_error_files stats \<le> is_files stats) ''parse error count exceeds source files''
       (index_calls cancel (m + length (g_regions g)) files nodes regions (g_calls g) [] stats))))))"

section \<open>Validation accepts exactly the well-formed graphs\<close>

text \<open>
  The specification knows no maps and no line tables. The place of a byte is counted in the text
  before it: one line for every newline, one column for every byte since the last one.
\<close>

definition place_of :: "string \<Rightarrow> nat \<Rightarrow> nat \<times> nat" where
  "place_of text b = (Suc (count_list (take b text) (CHR 0x0A)),
     Suc (length (takeWhile (\<lambda>c. c \<noteq> CHR 0x0A) (rev (take b text)))))"

definition range_measured :: "string \<Rightarrow> source_range \<Rightarrow> bool" where
  "range_measured text r \<longleftrightarrow> start_byte r \<le> end_byte r \<and> end_byte r \<le> length text
     \<and> char_boundary text (start_byte r) \<and> char_boundary text (end_byte r)
     \<and> (start_line r, start_column r) = place_of text (start_byte r)
     \<and> (end_line r, end_column r) = place_of text (end_byte r)"

definition in_source :: "graph \<Rightarrow> string \<Rightarrow> source_range \<Rightarrow> bool" where
  "in_source g path r \<longleftrightarrow>
     (\<exists>f \<in> set (g_files g). sf_path f = path \<and> range_measured (sf_text f) r)"

definition graph_id :: "string \<Rightarrow> bool" where
  "graph_id i \<longleftrightarrow> i \<noteq> [] \<and> length i \<le> 8192 \<and> CHR 0x00 \<notin> set i"

definition known_symbol :: "graph \<Rightarrow> string \<Rightarrow> bool" where
  "known_symbol g i \<longleftrightarrow> (\<exists>s \<in> set (g_nodes g). sy_id s = i)"

definition region_of :: "graph \<Rightarrow> string \<Rightarrow> string \<Rightarrow> bool" where
  "region_of g owner i \<longleftrightarrow> (\<exists>r \<in> set (g_regions g). cr_id r = i \<and> cr_owner r = owner)"

definition symbol_formed :: "graph \<Rightarrow> symbol \<Rightarrow> bool" where
  "symbol_formed g s \<longleftrightarrow> graph_id (sy_id s) \<and> in_source g (sy_path s) (sy_range s)
     \<and> (\<forall>p. sy_parent s = Some p \<longrightarrow> known_symbol g p)"

definition region_formed :: "graph \<Rightarrow> control_region \<Rightarrow> bool" where
  "region_formed g r \<longleftrightarrow> graph_id (cr_id r) \<and> in_source g (cr_path r) (cr_range r)
     \<and> known_symbol g (cr_owner r) \<and> (\<forall>p. cr_parent r = Some p \<longrightarrow> region_of g (cr_owner r) p)"

definition call_formed :: "graph \<Rightarrow> call_site \<Rightarrow> bool" where
  "call_formed g c \<longleftrightarrow> graph_id (cs_id c) \<and> in_source g (cs_path c) (cs_range c)
     \<and> known_symbol g (cs_caller c) \<and> (\<forall>i \<in> set (cs_regions c). region_of g (cs_caller c) i)"

definition graph_formed :: "graph \<Rightarrow> bool" where
  "graph_formed g \<longleftrightarrow>
     distinct (map sf_path (g_files g)) \<and> distinct (map sy_id (g_nodes g))
     \<and> distinct (map cr_id (g_regions g)) \<and> distinct (map cs_id (g_calls g))
     \<and> (\<forall>f \<in> set (g_files g). \<forall>p \<in> set (split_on (CHR ''/'') (sf_path f)). p \<noteq> [] \<and> p \<noteq> ''..'')
     \<and> (\<forall>s \<in> set (g_nodes g). symbol_formed g s)
     \<and> (\<forall>r \<in> set (g_regions g). region_formed g r)
     \<and> (\<forall>c \<in> set (g_calls g). call_formed g c)
     \<and> is_parse_error_files (g_stats g) \<le> length (g_files g)"

text \<open>What is recorded of the extractor's own statistics: the counts are taken anew.\<close>

definition recounted :: "graph \<Rightarrow> index_stats" where
  "recounted g = (g_stats g)\<lparr>is_files := length (g_files g), is_symbols := length (g_nodes g),
     is_calls := length (g_calls g), is_regions := length (g_regions g), is_internal := 0,
     is_external := 0, is_unresolved := length (g_calls g), is_ambiguous := 0\<rparr>"

definition never_cancelled :: "(nat \<Rightarrow> bool) \<Rightarrow> graph \<Rightarrow> bool" where
  "never_cancelled cancel g \<longleftrightarrow> (\<forall>i < length (g_files g) + length (g_nodes g) + length (g_regions g)
     + length (g_calls g). \<not> cancel i)"

subsection \<open>Lines and columns\<close>

definition newlines :: "string \<Rightarrow> nat list" where
  "newlines text = filter (\<lambda>i. text ! i = CHR 0x0A) [0..<length text]"

lemma line_starts_newlines: "line_starts t = 0 # map Suc (newlines t)"
  by (simp add: line_starts_def newlines_def)

lemma newlines_snoc: "newlines (t @ [c]) = newlines t @ (if c = CHR 0x0A then [length t] else [])"
proof -
  have "filter (\<lambda>i. (t @ [c]) ! i = CHR 0x0A) [0..<length t] = newlines t"
    unfolding newlines_def by (rule filter_cong) (auto simp: nth_append)
  then show ?thesis by (simp add: newlines_def nth_append)
qed

lemma newlines_count: "length (newlines t) = count_list t (CHR 0x0A)"
proof (induction t rule: rev_induct)
  case (snoc c t)
  then show ?case by (simp add: newlines_snoc)
qed (simp add: newlines_def)

lemma newlines_last:
  "last (0 # map Suc (newlines t)) + length (takeWhile (\<lambda>c. c \<noteq> CHR 0x0A) (rev t)) = length t"
proof (induction t rule: rev_induct)
  case (snoc c t)
  then show ?case by (simp add: newlines_snoc split: if_splits)
qed (simp add: newlines_def)

lemma newlines_split:
  assumes "b \<le> length t"
  shows "\<exists>later. newlines t = newlines (take b t) @ later \<and> (\<forall>i \<in> set later. b \<le> i)"
proof -
  have "[0..<length t] = [0..<b] @ [b..<length t]"
    using assms upt_add_eq_append [of 0 b "length t - b"] by simp
  then have "newlines t = filter (\<lambda>i. t ! i = CHR 0x0A) [0..<b] @ filter (\<lambda>i. t ! i = CHR 0x0A) [b..<length t]"
    by (simp add: newlines_def)
  moreover have "filter (\<lambda>i. t ! i = CHR 0x0A) [0..<b] = newlines (take b t)"
    unfolding newlines_def using assms by (intro filter_cong) (auto simp: min_absorb2)
  ultimately show ?thesis by auto
qed

lemma newlines_bound: "i \<in> set (newlines t) \<Longrightarrow> i < length t"
  by (simp add: newlines_def)

lemma line_prefix:
  assumes b: "b \<le> length t"
  shows "takeWhile (\<lambda>start. start \<le> b) (line_starts t) = 0 # map Suc (newlines (take b t))"
proof -
  obtain later where split: "newlines t = newlines (take b t) @ later" and far: "\<forall>i \<in> set later. b \<le> i"
    using newlines_split [OF b] by (elim exE conjE) (rule that)
  have near: "s \<le> b" if "s \<in> set (map Suc (newlines (take b t)))" for s
  proof -
    obtain i where "i \<in> set (newlines (take b t))" "s = Suc i" using \<open>s \<in> _\<close> by (auto simp only: set_map)
    then show ?thesis using newlines_bound [of i "take b t"] by simp
  qed
  have none: "takeWhile (\<lambda>start. start \<le> b) (map Suc later) = []"
    using far by (cases later) auto
  have "takeWhile (\<lambda>start. start \<le> b) ((0 # map Suc (newlines (take b t))) @ map Suc later)
      = (0 # map Suc (newlines (take b t))) @ takeWhile (\<lambda>start. start \<le> b) (map Suc later)"
  proof (rule takeWhile_append2)
    show "s \<le> b" if "s \<in> set (0 # map Suc (newlines (take b t)))" for s
      using that near by (metis le0 set_ConsD)
  qed
  moreover have "line_starts t = (0 # map Suc (newlines (take b t))) @ map Suc later"
    unfolding line_starts_newlines by (subst split) (simp only: map_append append_Cons)
  ultimately show ?thesis by (simp only: none append_Nil2)
qed

lemma place_ok_iff:
  assumes b: "b \<le> length t"
  shows "place_ok (line_starts t) (b, line, column) \<longleftrightarrow> (line, column) = place_of t b"
proof -
  let ?p = "0 # map Suc (newlines (take b t))"
  have index: "line_index (line_starts t) b = length ?p - 1"
    by (simp add: line_index_def line_prefix [OF b])
  have "line_starts t ! (length ?p - 1) = takeWhile (\<lambda>start. start \<le> b) (line_starts t) ! (length ?p - 1)"
    using line_prefix [OF b] by (metis One_nat_def diff_less length_greater_0_conv list.discI takeWhile_nth zero_less_Suc)
  also have "\<dots> = last ?p" by (simp add: line_prefix [OF b] last_conv_nth)
  finally have start: "line_starts t ! (length ?p - 1) = last ?p" .
  have count: "length ?p = Suc (count_list (take b t) (CHR 0x0A))" by (simp add: newlines_count)
  have column: "b - last ?p = length (takeWhile (\<lambda>c. c \<noteq> CHR 0x0A) (rev (take b t)))"
    using newlines_last [of "take b t"] b by (simp only: length_take min_absorb2)
  show ?thesis
    unfolding place_ok_def Let_def prod.case place_of_def index
    using start column count by (auto simp del: last.simps)
qed

corollary place_ok_pair:
  "b \<le> length t \<Longrightarrow> place_ok (line_starts t) (b, p) \<longleftrightarrow> p = place_of t b"
  using place_ok_iff [of b t "fst p" "snd p"] by simp

subsection \<open>Every loop on its own\<close>

text \<open>The check of a span and of identifiers, over any file map that holds a graph's files.\<close>

definition file_entry :: "source_file \<Rightarrow> string \<times> source_file \<times> nat list" where
  "file_entry f = (sf_path f, f, line_starts (sf_text f))"

lemma has_key_append [simp]: "has_key (m @ [(k, v)]) i \<longleftrightarrow> has_key m i \<or> i = k"
  by (auto simp: has_key_def)

lemma has_key_keyed [simp]: "has_key (map (\<lambda>x. (key x, x)) xs) i \<longleftrightarrow> i \<in> key ` set xs"
  by (force simp: has_key_def)

lemma check_cancel_flag_Inr [simp]: "check_cancel_flag c = Inr () \<longleftrightarrow> \<not> c"
  by (simp add: check_cancel_flag_def)

lemma check_graph_id_Inr [simp]: "check_graph_id i = Inr () \<longleftrightarrow> graph_id i"
  by (simp add: check_graph_id_def graph_id_def)

lemma graph_path_ok_iff:
  "graph_path_ok path \<longleftrightarrow> (\<forall>p \<in> set (split_on (CHR ''/'') path). p \<noteq> [] \<and> p \<noteq> ''..'')"
proof -
  have "starts_with ''/'' path \<Longrightarrow> [] \<in> set (split_on (CHR ''/'') path)"
    by (cases path) (auto simp: starts_with_def)
  moreover have "path = [] \<Longrightarrow> [] \<in> set (split_on (CHR ''/'') path)" by simp
  ultimately show ?thesis by (auto simp: graph_path_ok_def list_ex_iff)
qed

lemma all_from_Suc: "(\<forall>i < Suc k. \<not> c (n + i)) \<longleftrightarrow> \<not> c n \<and> (\<forall>i < k. \<not> c (Suc n + i))"
  by (auto simp: less_Suc_eq_0_disj)

lemma index_files_Inr:
  "index_files c n fs m = Inr m' \<longleftrightarrow>
     (\<forall>i < length fs. \<not> c (n + i)) \<and> (\<forall>f \<in> set fs. graph_path_ok (sf_path f))
     \<and> distinct (map sf_path fs) \<and> (\<forall>f \<in> set fs. \<not> has_key m (sf_path f))
     \<and> m' = m @ map file_entry fs"
proof (induction fs arbitrary: n m)
  case (Cons f fs)
  show ?case
    unfolding length_Cons all_from_Suc by (auto simp: Cons.IH file_entry_def intro: rev_image_eqI)
qed auto

lemma map_of_file_entries:
  assumes "distinct (map sf_path fs)"
  shows "map_of (map file_entry fs) path = Some e
     \<longleftrightarrow> (\<exists>f \<in> set fs. sf_path f = path \<and> e = (f, line_starts (sf_text f)))"
proof -
  have "map_of (map file_entry fs) path = Some e \<longleftrightarrow> (path, e) \<in> set (map file_entry fs)"
    using assms by (intro map_of_eq_Some_iff) (simp add: file_entry_def comp_def)
  then show ?thesis by (auto simp: file_entry_def)
qed

lemma check_span_Inr:
  assumes "distinct (map sf_path (g_files g))"
  shows "check_span (map file_entry (g_files g)) path r = Inr () \<longleftrightarrow> in_source g path r"
proof -
  have "range_measured (sf_text f) r \<longleftrightarrow>
      start_byte r \<le> end_byte r \<and> end_byte r \<le> length (sf_text f)
      \<and> char_boundary (sf_text f) (start_byte r) \<and> char_boundary (sf_text f) (end_byte r)
      \<and> place_ok (line_starts (sf_text f)) (start_byte r, start_line r, start_column r)
      \<and> place_ok (line_starts (sf_text f)) (end_byte r, end_line r, end_column r)" for f
    unfolding range_measured_def using place_ok_pair [of _ "sf_text f"] by (metis le_trans)
  then show ?thesis
    unfolding in_source_def check_span_def
    by (auto simp: map_of_file_entries [OF assms])
qed

lemma index_nodes_Inr:
  "index_nodes c n files ss m = Inr m' \<longleftrightarrow>
     (\<forall>i < length ss. \<not> c (n + i)) \<and> distinct (map sy_id ss)
     \<and> (\<forall>s \<in> set ss. graph_id (sy_id s) \<and> check_span files (sy_path s) (sy_range s) = Inr ()
          \<and> \<not> has_key m (sy_id s))
     \<and> m' = m @ map (\<lambda>s. (sy_id s, s)) ss"
proof (induction ss arbitrary: n m)
  case (Cons s ss)
  show ?case
    unfolding length_Cons all_from_Suc by (auto simp: Cons.IH intro: rev_image_eqI)
qed auto

lemma index_regions_Inr:
  "index_regions c n files nodes rs m = Inr m' \<longleftrightarrow>
     (\<forall>i < length rs. \<not> c (n + i)) \<and> distinct (map cr_id rs)
     \<and> (\<forall>r \<in> set rs. graph_id (cr_id r) \<and> check_span files (cr_path r) (cr_range r) = Inr ()
          \<and> has_key nodes (cr_owner r) \<and> \<not> has_key m (cr_id r))
     \<and> m' = m @ map (\<lambda>r. (cr_id r, r)) rs"
proof (induction rs arbitrary: n m)
  case (Cons r rs)
  show ?case
    unfolding length_Cons all_from_Suc by (auto simp: Cons.IH intro: rev_image_eqI)
qed auto

lemma index_calls_Inr:
  "index_calls c n files nodes regions cs ids st = Inr st' \<longleftrightarrow>
     (\<forall>i < length cs. \<not> c (n + i)) \<and> distinct (map cs_id cs)
     \<and> (\<forall>k \<in> set cs. graph_id (cs_id k) \<and> check_span files (cs_path k) (cs_range k) = Inr ()
          \<and> cs_id k \<notin> set ids \<and> has_key nodes (cs_caller k)
          \<and> (\<forall>i \<in> set (cs_regions k). owned_by regions (cs_caller k) i))
     \<and> st' = st\<lparr>is_unresolved := is_unresolved st + length cs\<rparr>"
proof (induction cs arbitrary: n ids st)
  case (Cons k cs)
  show ?case
    unfolding length_Cons all_from_Suc by (auto simp: Cons.IH intro: rev_image_eqI)
qed auto

lemma owned_by_keyed:
  assumes "distinct (map cr_id (g_regions g))"
  shows "owned_by (map (\<lambda>r. (cr_id r, r)) (g_regions g)) owner i \<longleftrightarrow> region_of g owner i"
proof -
  have "map_of (map (\<lambda>r. (cr_id r, r)) (g_regions g)) i = Some r
      \<longleftrightarrow> r \<in> set (g_regions g) \<and> cr_id r = i" for r
    using assms by (subst map_of_eq_Some_iff) (auto simp: comp_def)
  then have "(\<exists>r. map_of (map (\<lambda>r. (cr_id r, r)) (g_regions g)) i = Some r \<and> cr_owner r = owner)
      \<longleftrightarrow> region_of g owner i"
    unfolding region_of_def by blast
  then show ?thesis
    by (cases "map_of (map (\<lambda>r. (cr_id r, r)) (g_regions g)) i") (simp_all add: owned_by_def)
qed

subsection \<open>The whole function\<close>

lemma all_less_add: "(\<forall>i < m + (k::nat). P i) \<longleftrightarrow> (\<forall>i < m. P i) \<and> (\<forall>i < k. P (m + i))"
  by (metis add_less_cancel_left le_add_diff_inverse less_diff_conv2 nat_le_linear not_le trans_less_add1)

lemma never_cancelled_iff:
  "never_cancelled c g \<longleftrightarrow> (\<forall>i < length (g_files g). \<not> c i)
     \<and> (\<forall>i < length (g_nodes g). \<not> c (length (g_files g) + i))
     \<and> (\<forall>i < length (g_regions g). \<not> c (length (g_files g) + length (g_nodes g) + i))
     \<and> (\<forall>i < length (g_calls g). \<not> c (length (g_files g) + length (g_nodes g) + length (g_regions g) + i))"
  unfolding never_cancelled_def all_less_add by simp

lemma check_parent_Inr:
  "check_parent (map (\<lambda>s. (sy_id s, s)) (g_nodes g)) s = Inr ()
     \<longleftrightarrow> (\<forall>p. sy_parent s = Some p \<longrightarrow> known_symbol g p)"
  by (cases "sy_parent s") (auto simp: check_parent_def known_symbol_def)

lemma check_region_parent_Inr:
  "check_region_parent regions r = Inr ()
     \<longleftrightarrow> (\<forall>p. cr_parent r = Some p \<longrightarrow> owned_by regions (cr_owner r) p)"
  by (cases "cr_parent r") (auto simp: check_region_parent_def)

lemma validate_graph_loops:
  fixes g cancel stats
  defines "files \<equiv> map file_entry (g_files g)"
    and "nodes \<equiv> map (\<lambda>s. (sy_id s, s)) (g_nodes g)"
    and "regions \<equiv> map (\<lambda>r. (cr_id r, r)) (g_regions g)"
  shows "validate_graph cancel g = Inr stats \<longleftrightarrow>
     (\<exists>st. index_files cancel 0 (g_files g) [] = Inr files
     \<and> index_nodes cancel (length (g_files g)) files (g_nodes g) [] = Inr nodes
     \<and> (\<forall>s \<in> set (g_nodes g). check_parent nodes s = Inr ())
     \<and> index_regions cancel (length (g_files g) + length (g_nodes g)) files nodes (g_regions g) [] = Inr regions
     \<and> (\<forall>r \<in> set (g_regions g). check_region_parent regions r = Inr ())
     \<and> is_parse_error_files (g_stats g) \<le> length (g_files g)
     \<and> st = (g_stats g)\<lparr>is_files := length (g_files g), is_symbols := length (g_nodes g),
           is_calls := length (g_calls g), is_regions := length (g_regions g), is_internal := 0,
           is_external := 0, is_unresolved := 0, is_ambiguous := 0\<rparr>
     \<and> index_calls cancel (length (g_files g) + length (g_nodes g) + length (g_regions g))
           files nodes regions (g_calls g) [] st = Inr stats)"
  unfolding validate_graph_def Let_def
  by (auto simp: index_files_Inr index_nodes_Inr index_regions_Inr assms)


text \<open>A file with a function on its second line, a region in it and a call: it is accepted, and its call counted.\<close>

definition sample_graph :: graph where
  "sample_graph =
     (let pv = \<lparr>pv_source = ''tree-sitter'', pv_semantic = SemUnavailable\<rparr>;
          r = \<lparr>start_byte = 3, end_byte = 9, start_line = 2, start_column = 1, end_line = 2, end_column = 7\<rparr> in
     \<lparr>g_schema_version = SCHEMA_VERSION,
      g_files = [\<lparr>sf_path = ''src/a.js'', sf_hash = ''h'', sf_language = ''javascript'',
                  sf_text = ''//'' @ [CHR 0x0A] @ ''f(g())'' @ [CHR 0x0A]\<rparr>],
      g_nodes = [\<lparr>sy_id = ''f'', sy_name = ''f'', sy_display_label = None, sy_kind = KFunction,
                  sy_path = ''src/a.js'', sy_range = r, sy_parent = None, sy_accessor = False, sy_provenance = pv\<rparr>],
      g_calls = [\<lparr>cs_id = ''c'', cs_caller = ''f'', cs_callee_text = Some ''g'', cs_path = ''src/a.js'',
                  cs_range = r\<lparr>start_byte := 5, start_column := 3, end_byte := 8, end_column := 6\<rparr>,
                  cs_callee_range = None, cs_ordinal = 0, cs_regions = [''r''], cs_provenance = pv\<rparr>],
      g_regions = [\<lparr>cr_id = ''r'', cr_kind = ''block'', cr_label = [], cr_parent = None,
                  cr_owner = ''f'', cr_path = ''src/a.js'', cr_range = r\<rparr>],
      g_diagnostics = [], g_stats = default_stats\<rparr>)"

lemma sample_graph_accepted:
  "validate_graph (\<lambda>_. False) sample_graph = Inr (recounted sample_graph)"
  "is_unresolved (recounted sample_graph) = 1"
  by code_simp+

end
