(* ===== verification/Reads.thy ===== *)
theory Reads
  imports Json Model
begin

section \<open>Reads of one published revision (\<open>store.rs\<close>)\<close>

text \<open>
  A read happens in one SQLite read transaction, so it sees one state of the tables: a value of
  \<open>index_db\<close>, whose lists are the rows in the order SQLite returns them where the statement
  gives no order. A join with the manifest of a revision is the list of its matches. What is read
  from a payload column (serde and SQLite's \<open>json_extract\<close>), the printing of a UUID, the check of
  the producer and the attestation of a document against its source are the fields of \<open>read_env\<close>.
\<close>

record node_row =
  nr_projection :: string
  nr_id :: string
  nr_name :: string
  nr_path :: string
  nr_payload :: string

record call_row =
  kr_projection :: string
  kr_id :: string
  kr_caller :: string
  kr_path :: string
  kr_payload :: string

record region_row =
  gr_projection :: string
  gr_id :: string
  gr_payload :: string

record manifest_row =
  mr_revision :: string
  mr_path :: string
  mr_language :: string
  mr_graph :: string
  mr_class :: string

record revision_row =
  rr_id :: string
  rr_published :: nat
  rr_released :: bool

record version_row =
  dv_revision :: string
  dv_manifest_path :: string
  dv_source_set :: string
  dv_language :: string
  dv_path :: string
  dv_hash :: string
  dv_length :: int
  dv_bytes :: string

record index_db =
  db_head :: "index_pin result"
  db_revisions :: "revision_row list"
  db_manifest :: "manifest_row list"
  db_nodes :: "node_row list"
  db_calls :: "call_row list"
  db_regions :: "region_row list"
  db_versions :: "version_row list"

record read_env =
  re_uuid :: "uuid \<Rightarrow> string"
  re_producer :: "string \<Rightarrow> unit result"
  re_attest :: "string \<Rightarrow> string \<Rightarrow> unit result"
  re_symbol :: "string \<Rightarrow> symbol result"
  re_call :: "string \<Rightarrow> call_site result"
  re_region :: "string \<Rightarrow> control_region result"
  re_kind :: "string \<Rightarrow> string"
  re_span :: "string \<Rightarrow> nat \<times> nat"
  re_sha :: "string \<Rightarrow> string"
  re_utf8 :: "string \<Rightarrow> bool"
  re_chunks :: "source_file \<Rightarrow> string list"

subsection \<open>The selected revision\<close>

record read_revision =
  rv_pin :: index_pin
  rv_key :: string

definition pin_key :: "read_env \<Rightarrow> index_pin \<Rightarrow> string" where
  "pin_key env p = ''pin:v1:'' @ re_uuid env (ip_generation p) @ '':'' @ nat_text (ip_revision p)"

definition read_revision_for :: "read_env \<Rightarrow> index_db \<Rightarrow> index_pin option \<Rightarrow> read_revision result" where
  "read_revision_for env db expected =
     bind_result (db_head db) (\<lambda>head.
     let pin = (case expected of None \<Rightarrow> head | Some p \<Rightarrow> p); key = pin_key env pin in
     ensure (ip_generation pin = ip_generation head \<and> ip_revision pin > 0
         \<and> ip_revision pin \<le> ip_revision head)
       ''revision conflict: foreign or missing native pin'' (
     case filter (\<lambda>r. rr_id r = key \<and> rr_published r = ip_revision pin) (db_revisions db) of
       [] \<Rightarrow> Inl ''revision conflict: missing native pin''
     | r # _ \<Rightarrow>
         if rr_released r then Inl ''pin_expired: released native revision''
         else bind_result (re_producer env key) (\<lambda>_. Inr \<lparr>rv_pin = pin, rv_key = key\<rparr>)))"

subsection \<open>Rows of the selected revision\<close>

text \<open>The rows of a table whose projection the revision's manifest names.\<close>

definition in_manifest :: "index_db \<Rightarrow> string \<Rightarrow> (manifest_row \<Rightarrow> string) \<Rightarrow> ('r \<Rightarrow> string) \<Rightarrow> 'r list \<Rightarrow> 'r list" where
  "in_manifest db key column projection rows =
     concat (map (\<lambda>r. map (\<lambda>_. r)
       (filter (\<lambda>m. mr_revision m = key \<and> column m = projection r) (db_manifest db))) rows)"

text \<open>\<open>one_at\<close>: the payload of the first row, parsed.\<close>

definition one_at :: "(string \<Rightarrow> 'a result) \<Rightarrow> string list \<Rightarrow> 'a option result" where
  "one_at parse payloads = (case payloads of [] \<Rightarrow> Inr None
     | p # _ \<Rightarrow> bind_result (parse p) (\<lambda>x. Inr (Some x)))"

definition nodes_with_id :: "index_db \<Rightarrow> string \<Rightarrow> string \<Rightarrow> node_row list" where
  "nodes_with_id db key i = filter (\<lambda>r. nr_id r = i) (in_manifest db key mr_graph nr_projection (db_nodes db))"

definition symbol_row :: "read_env \<Rightarrow> index_db \<Rightarrow> string \<Rightarrow> string \<Rightarrow> symbol option result" where
  "symbol_row env db key i = one_at (re_symbol env) (map nr_payload (nodes_with_id db key i))"

definition region_row_at :: "read_env \<Rightarrow> index_db \<Rightarrow> string \<Rightarrow> string \<Rightarrow> control_region option result" where
  "region_row_at env db key i = one_at (re_region env) (map gr_payload
     (filter (\<lambda>r. gr_id r = i) (in_manifest db key mr_graph gr_projection (db_regions db))))"

text \<open>\<open>ORDER BY c.path, startByte, endByte DESC, c.id\<close>.\<close>

definition call_order :: "read_env \<Rightarrow> call_row \<Rightarrow> string \<times> nat \<times> int \<times> string" where
  "call_order env k = (kr_path k, fst (re_span env (kr_payload k)),
     - int (snd (re_span env (kr_payload k))), kr_id k)"

definition calls_of_caller :: "read_env \<Rightarrow> index_db \<Rightarrow> string \<Rightarrow> string \<Rightarrow> call_row list" where
  "calls_of_caller env db key caller = sort_key (call_order env)
     (filter (\<lambda>k. kr_caller k = caller) (in_manifest db key mr_graph kr_projection (db_calls db)))"

text \<open>Attesting the document of a node before its payload is used.\<close>

definition attest_node :: "read_env \<Rightarrow> index_db \<Rightarrow> string \<Rightarrow> string \<Rightarrow> unit result" where
  "attest_node env db key i = (case nodes_with_id db key i of [] \<Rightarrow> Inr ()
     | r # _ \<Rightarrow> re_attest env key (nr_path r))"

definition symbol_at :: "read_env \<Rightarrow> index_db \<Rightarrow> string \<Rightarrow> index_pin option \<Rightarrow> (index_pin \<times> symbol) option result" where
  "symbol_at env db i expected =
     bind_result (read_revision_for env db expected) (\<lambda>rv.
     bind_result (attest_node env db (rv_key rv) i) (\<lambda>_.
     bind_result (symbol_row env db (rv_key rv) i) (\<lambda>s.
     Inr (map_option (\<lambda>s. (rv_pin rv, s)) s))))"

subsection \<open>The source of a document\<close>

text \<open>
  The rows of \<open>db_versions\<close> are those of \<open>revision_documents\<close> joined with their document version;
  the size statement reads at most two of them. \<open>re_chunks\<close> are the chunks that serde
  writes for the file; \<open>EncodedSourceBudget\<close> counts them and refuses the first one over its limit.
\<close>

definition source_sizes_ok :: "nat \<Rightarrow> version_row \<Rightarrow> bool" where
  "source_sizes_ok cap d \<longleftrightarrow> length (dv_bytes d) \<le> cap
     \<and> list_all (\<lambda>c. length c \<le> 16 * 1024) [dv_source_set d, dv_language d, dv_path d, dv_hash d]"

fun scan_sizes :: "nat \<Rightarrow> bool \<Rightarrow> version_row list \<Rightarrow> bool result" where
  "scan_sizes cap present [] = Inr present"
| "scan_sizes cap present (d # ds) =
     ensure (\<not> present) ''incompatible_index: ambiguous manifest source'' (
     ensure (source_sizes_ok cap d) ''incompatible_index: selected source byte budget exceeded''
       (scan_sizes cap True ds))"

fun budget_write :: "nat \<Rightarrow> nat \<Rightarrow> string list \<Rightarrow> nat result" where
  "budget_write cap bytes [] = Inr bytes"
| "budget_write cap bytes (c # cs) =
     ensure (bytes + length c \<le> cap) ''selected source JSON budget exceeded''
       (budget_write cap (bytes + length c) cs)"

definition source_row_bounded :: "read_env \<Rightarrow> index_db \<Rightarrow> string \<Rightarrow> nat \<Rightarrow> string \<Rightarrow> source_file option result" where
  "source_row_bounded env db path cap key =
     (let rows = filter (\<lambda>d. dv_revision d = key \<and> dv_manifest_path d = path) (db_versions db) in
     bind_result (scan_sizes cap False (take 2 rows)) (\<lambda>present.
     if \<not> present then Inr None else
     let d = hd rows in
     ensure (starts_with ''source-set:v1:'' (dv_source_set d) \<and> dv_path d = path
         \<and> dv_length d = int (length (dv_bytes d)) \<and> dv_hash d = re_sha env (dv_bytes d))
       ''incompatible_index: source hash mismatch'' (
     ensure (re_utf8 env (dv_bytes d)) ''invalid utf-8'' (
     let f = \<lparr>sf_path = dv_path d, sf_hash = dv_hash d, sf_language = dv_language d, sf_text = dv_bytes d\<rparr> in
     bind_result (budget_write (cap + 16 * 1024) 0 (re_chunks env f)) (\<lambda>_. Inr (Some f))))))"

definition source_row :: "read_env \<Rightarrow> index_db \<Rightarrow> string \<Rightarrow> string \<Rightarrow> source_file option result" where
  "source_row env db key path = source_row_bounded env db path (256 * 1024 * 1024) key"

definition source_at :: "read_env \<Rightarrow> index_db \<Rightarrow> string \<Rightarrow> index_pin option \<Rightarrow> (index_pin \<times> source_file) option result" where
  "source_at env db path expected =
     bind_result (read_revision_for env db expected) (\<lambda>rv.
     bind_result (source_row env db (rv_key rv) path) (\<lambda>f.
     bind_result (if f = None then Inr () else re_attest env (rv_key rv) path) (\<lambda>_.
     Inr (map_option (\<lambda>f. (rv_pin rv, f)) f))))"

subsection \<open>The measured view of a symbol\<close>

definition excluded :: "string list \<Rightarrow> string \<Rightarrow> bool" where
  "excluded prefixes path \<longleftrightarrow> list_ex (\<lambda>p. starts_with p path) prefixes"

fun take_calls :: "read_env \<Rightarrow> string list \<Rightarrow> nat \<Rightarrow> call_row list \<Rightarrow> call_site list
    \<Rightarrow> (call_site list \<times> bool) result" where
  "take_calls env prefixes cap [] calls = Inr (calls, False)"
| "take_calls env prefixes cap (k # ks) calls =
     bind_result (re_call env (kr_payload k)) (\<lambda>c.
       if excluded prefixes (cs_path c) then take_calls env prefixes cap ks calls
       else if cap \<le> length calls then Inr (calls, True)
       else take_calls env prefixes cap ks (calls @ [c]))"

text \<open>A \<open>BTreeMap\<close> insertion: the association list stays sorted by its keys.\<close>

definition put_sorted :: "string \<Rightarrow> 'v \<Rightarrow> (string \<times> 'v) list \<Rightarrow> (string \<times> 'v) list" where
  "put_sorted k v m = insort_key fst (k, v) (drop_key k m)"

text \<open>
  The loop over the pending region identifiers, a \<open>BTreeSet\<close> whose least element is taken first.
  Nothing in it stops a region from being visited again, so it is a partial function: \<open>None\<close> is a
  loop that does not return.
\<close>

partial_function (option) gather_regions ::
  "(string \<Rightarrow> control_region option result) \<Rightarrow> string list \<Rightarrow> (string \<times> control_region) list
     \<Rightarrow> (string \<times> control_region) list result option" where
  "gather_regions look ids found = (case ids of [] \<Rightarrow> Some (Inr found)
     | i # rest \<Rightarrow> (case look i of Inl e \<Rightarrow> Some (Inl e)
         | Inr region \<Rightarrow> (case region of None \<Rightarrow> gather_regions look rest found
             | Some r \<Rightarrow> gather_regions look
                 (case cr_parent r of None \<Rightarrow> rest | Some p \<Rightarrow> insort_insert p rest)
                 (put_sorted i r found))))"

definition proceed :: "'a result \<Rightarrow> ('a \<Rightarrow> 'b result option) \<Rightarrow> 'b result option" where
  "proceed r k = (case r of Inl e \<Rightarrow> Some (Inl e) | Inr x \<Rightarrow> k x)"

definition view_paths :: "symbol \<Rightarrow> call_site list \<Rightarrow> control_region list \<Rightarrow> string set" where
  "view_paths s calls regions =
     insert (sy_path s) (cs_path ` set calls \<union> cr_path ` set regions)"

definition measured_view :: "read_env \<Rightarrow> index_db \<Rightarrow> view_query \<Rightarrow> read_revision \<Rightarrow> symbol
    \<Rightarrow> view_result option result option" where
  "measured_view env db q rv s =
     proceed (if excluded (vq_exclude_paths q) (sy_path s) then Inr ([], False)
        else take_calls env (vq_exclude_paths q) (vq_max_calls q)
          (take (vq_max_calls q + 1) (calls_of_caller env db (rv_key rv) (sy_id s))) []) (\<lambda>(calls, truncated).
     case gather_regions (region_row_at env db (rv_key rv))
         (sorted_list_of_set (\<Union>c \<in> set calls. set (cs_regions c))) [] of None \<Rightarrow> None
     | Some gathered \<Rightarrow> proceed gathered (\<lambda>regions.
     proceed (for_each (re_attest env (rv_key rv)) (sorted_list_of_set (view_paths s calls (map snd regions)))) (\<lambda>_.
     Some (Inr (Some \<lparr>vr_revision = rv_pin rv, vr_query = q, vr_nodes = [s], vr_calls = calls,
       vr_regions = map snd regions, vr_truncated = truncated, vr_omitted_nodes = 0,
       vr_warnings = (if truncated then [''Measured calls truncated at the request limit.''] else [])\<rparr>)))))"

definition query_view :: "read_env \<Rightarrow> index_db \<Rightarrow> view_query \<Rightarrow> index_pin option
    \<Rightarrow> view_result option result option" where
  "query_view env db q expected =
     proceed (validate_query q) (\<lambda>_.
     proceed (read_revision_for env db expected) (\<lambda>rv.
     proceed (attest_node env db (rv_key rv) (vq_seed q)) (\<lambda>_.
     proceed (symbol_row env db (rv_key rv) (vq_seed q)) (\<lambda>found. case found of None \<Rightarrow> Some (Inr None)
       | Some s \<Rightarrow> measured_view env db q rv s))))"

subsection \<open>Checking a cached packet again\<close>

definition call_row_at :: "read_env \<Rightarrow> index_db \<Rightarrow> string \<Rightarrow> string \<Rightarrow> call_site option result" where
  "call_row_at env db key i = one_at (re_call env) (map kr_payload
     (filter (\<lambda>k. kr_id k = i) (in_manifest db key mr_graph kr_projection (db_calls db))))"

definition still :: "'a option result \<Rightarrow> 'a \<Rightarrow> string \<Rightarrow> unit result" where
  "still actual x msg = bind_result actual (\<lambda>a. ensure (a = Some x) msg (Inr ()))"

definition validate_selected_view :: "read_env \<Rightarrow> index_db \<Rightarrow> view_result \<Rightarrow> source_file list \<Rightarrow> unit result" where
  "validate_selected_view env db v sources =
     bind_result (read_revision_for env db (Some (vr_revision v))) (\<lambda>rv. let key = rv_key rv in
     bind_result (for_each (re_attest env key) (sorted_list_of_set
       (sy_path ` set (vr_nodes v) \<union> cs_path ` set (vr_calls v) \<union> cr_path ` set (vr_regions v)
          \<union> sf_path ` set sources))) (\<lambda>_.
     bind_result (for_each (\<lambda>s. still (symbol_row env db key (sy_id s)) s
       ''incompatible_index: cached packet selected graph declaration changed'') (vr_nodes v)) (\<lambda>_.
     bind_result (for_each (\<lambda>c. still (call_row_at env db key (cs_id c)) c
       ''incompatible_index: cached packet selected graph call changed'') (vr_calls v)) (\<lambda>_.
     bind_result (for_each (\<lambda>r. still (region_row_at env db key (cr_id r)) r
       ''incompatible_index: cached packet selected graph region changed'') (vr_regions v)) (\<lambda>_.
     for_each (\<lambda>f. still (source_row env db key (sf_path f)) f
       ''incompatible_index: cached packet selected source changed'') sources)))))"

section \<open>The view is exact\<close>

subsection \<open>The regions around the calls\<close>

text \<open>The identifiers the loop must visit: those of the calls, and the parents of regions found.\<close>

inductive encloses :: "(string \<Rightarrow> control_region option result) \<Rightarrow> string set \<Rightarrow> string \<Rightarrow> bool"
  for look ids where
  own: "i \<in> ids \<Longrightarrow> encloses look ids i"
| outer: "encloses look ids i \<Longrightarrow> look i = Inr (Some r) \<Longrightarrow> cr_parent r = Some p \<Longrightarrow> encloses look ids p"

definition found_at :: "(string \<Rightarrow> control_region option result) \<Rightarrow> string \<Rightarrow> control_region option" where
  "found_at look i = (case look i of Inr (Some r) \<Rightarrow> Some r | _ \<Rightarrow> None)"

text \<open>Every parent is nested strictly deeper by some measure, e.g. the length of the region.\<close>

definition well_nested :: "(string \<Rightarrow> control_region option result) \<Rightarrow> (string \<Rightarrow> nat) \<Rightarrow> bool" where
  "well_nested look rank \<longleftrightarrow>
     (\<forall>i r p. look i = Inr (Some r) \<longrightarrow> cr_parent r = Some p \<longrightarrow> rank p < rank i)"

lemma encloses_parent:
  assumes step: "look i = Inr (Some r)"
  shows "encloses look (insert i ids) j \<longleftrightarrow> j = i \<or> encloses look (ids \<union> set_option (cr_parent r)) j"
proof
  assume "encloses look (insert i ids) j"
  then show "j = i \<or> encloses look (ids \<union> set_option (cr_parent r)) j"
  proof (induction)
    case (own j)
    then show ?case by (auto intro: encloses.own)
  next
    case (outer j s p)
    then show ?case using step by (auto intro: encloses.intros)
  qed
next
  have "encloses look (insert i ids) j" if "encloses look (ids \<union> set_option (cr_parent r)) j"
    using that
  proof (induction)
    case (own j)
    have "encloses look (insert i ids) p" if "cr_parent r = Some p" for p
      using encloses.own [of i "insert i ids"] step that by (auto intro: encloses.outer)
    with own show ?case by (auto intro: encloses.own)
  qed (rule encloses.outer)
  then show "j = i \<or> encloses look (ids \<union> set_option (cr_parent r)) j \<Longrightarrow> encloses look (insert i ids) j"
    by (auto intro: encloses.own)
qed

lemma encloses_absent:
  assumes "\<And>r. look i \<noteq> Inr (Some r)"
  shows "encloses look (insert i ids) j \<longleftrightarrow> j = i \<or> encloses look ids j"
proof
  assume "encloses look (insert i ids) j"
  then show "j = i \<or> encloses look ids j"
  proof (induction)
    case (outer j s p)
    then show ?case using assms by (auto intro: encloses.outer)
  qed (auto intro: encloses.own)
next
  have "encloses look (insert i ids) j" if "encloses look ids j"
    using that by (induction) (auto intro: encloses.intros)
  then show "j = i \<or> encloses look ids j \<Longrightarrow> encloses look (insert i ids) j"
    by (auto intro: encloses.own)
qed

lemma encloses_none: "encloses look {} i \<longleftrightarrow> False"
proof -
  have "encloses look {} i \<Longrightarrow> False" by (induction rule: encloses.induct) auto
  then show ?thesis by blast
qed

definition load :: "(string \<Rightarrow> nat) \<Rightarrow> string list \<Rightarrow> nat" where
  "load rank ids = (\<Sum>i\<leftarrow>ids. Suc (rank i))"

lemma load_insort: "load rank (insort_insert p ids) \<le> load rank ids + Suc (rank p)"
proof (cases "p \<in> set ids")
  case False
  then have "load rank (insort_insert p ids) = load rank (insort p ids)" by (simp add: insort_insert_key_def)
  also have "\<dots> = load rank ids + Suc (rank p)" by (induction ids) (auto simp: load_def)
  finally show ?thesis by simp
qed (simp add: insort_insert_key_def)

lemma map_fst_insort: "map fst (insort_key fst e m) = insort (fst e) (map fst m)"
  by (induction m) auto

lemma map_of_insort: "fst e \<notin> fst ` set m \<Longrightarrow> map_of (insort_key fst e m) = (map_of m)(fst e \<mapsto> snd e)"
  by (induction m) (auto simp: fun_eq_iff)
lemma put_sorted_map [simp]:
  assumes "distinct (map fst m)"
  shows "map_of (put_sorted k v m) = (map_of m)(k \<mapsto> v)"
    and "distinct (map fst (put_sorted k v m))"
    and "sorted (map fst m) \<Longrightarrow> sorted (map fst (put_sorted k v m))"
proof -
  have fresh: "k \<notin> set (map fst (drop_key k m))" and tidy: "distinct (map fst (drop_key k m))"
    using assms by (simp_all add: distinct_drop_key del: set_map)
  show dis: "distinct (map fst (put_sorted k v m))"
    using fresh tidy by (simp add: put_sorted_def distinct_insort map_fst_insort del: set_map)
  show "map_of (put_sorted k v m) = (map_of m)(k \<mapsto> v)"
    using fresh by (simp add: put_sorted_def map_of_insort fun_eq_iff)
  show "sorted (map fst m) \<Longrightarrow> sorted (map fst (put_sorted k v m))"
    by (simp add: put_sorted_def map_fst_insort sorted_insort drop_key_def sorted_filter)
qed

definition gathered :: "(string \<Rightarrow> control_region option result) \<Rightarrow> string set \<Rightarrow> (string \<times> control_region) list
    \<Rightarrow> (string \<times> control_region) list \<Rightarrow> bool" where
  "gathered look ids found m \<longleftrightarrow> distinct (map fst m) \<and> sorted (map fst m)
     \<and> (\<forall>j. map_of m j = (if encloses look ids j \<and> found_at look j \<noteq> None then found_at look j else map_of found j))"

lemma gathered_absent:
  assumes "look i = Inr None" and "gathered look (set rest) found m"
  shows "gathered look (insert i (set rest)) found m"
  using assms encloses_absent [of look i] by (auto simp: gathered_def found_at_def)

lemma gathered_parent:
  assumes step: "look i = Inr (Some r)" and found: "distinct (map fst found)"
    and g: "gathered look (ids \<union> set_option (cr_parent r)) (put_sorted i r found) m"
  shows "gathered look (insert i ids) found m"
  using g encloses_parent [of look i r, OF step] put_sorted_map(1) [OF found]
  by (auto simp: gathered_def found_at_def step)

lemma gather_step:
  "gather_regions look [] found = Some (Inr found)"
  "look i = Inl e \<Longrightarrow> gather_regions look (i # rest) found = Some (Inl e)"
  "look i = Inr None \<Longrightarrow> gather_regions look (i # rest) found = gather_regions look rest found"
  "look i = Inr (Some r) \<Longrightarrow> gather_regions look (i # rest) found =
     gather_regions look (case cr_parent r of None \<Rightarrow> rest | Some p \<Rightarrow> insort_insert p rest) (put_sorted i r found)"
  by (subst gather_regions.simps, simp)+

text \<open>
  With nested regions the loop returns, and unless a row cannot be read it has visited exactly the
  regions that enclose what it started from.
\<close>

lemma gather_exact:
  assumes nested: "well_nested look rank"
  shows "distinct (map fst found) \<Longrightarrow> sorted (map fst found) \<Longrightarrow>
     (\<exists>e. gather_regions look ids found = Some (Inl e))
     \<or> (\<exists>m. gather_regions look ids found = Some (Inr m) \<and> gathered look (set ids) found m)"
proof (induction "load rank ids" arbitrary: ids found rule: less_induct)
  case less
  show ?case
  proof (cases ids)
    case Nil
    then show ?thesis using less.prems by (simp add: gather_step gathered_def encloses_none)
  next
    case (Cons i rest)
    show ?thesis
    proof (cases "look i")
      case (Inl e)
      then show ?thesis using Cons by (simp add: gather_step)
    next
      case (Inr region)
      show ?thesis
      proof (cases region)
        case None
        have "load rank rest < load rank ids" by (simp add: Cons load_def)
        from less.hyps [OF this less.prems] show ?thesis
          using gathered_absent [of look i rest found] Inr None Cons by (auto simp: gather_step)
      next
        case (Some r)
        let ?next = "case cr_parent r of None \<Rightarrow> rest | Some p \<Rightarrow> insort_insert p rest"
        have step: "look i = Inr (Some r)" using Inr Some by simp
        have lighter: "load rank ?next < load rank ids"
        proof (cases "cr_parent r")
          case (Some p)
          then have "rank p < rank i" using nested step by (auto simp: well_nested_def)
          then show ?thesis using load_insort [of rank p rest] Some by (simp add: Cons load_def)
        qed (simp add: Cons load_def)
        have next_ids: "set ?next = set rest \<union> set_option (cr_parent r)"
          by (auto simp: set_insort_insert split: option.split)
        have tidy: "distinct (map fst (put_sorted i r found))" "sorted (map fst (put_sorted i r found))"
          using put_sorted_map [OF less.prems(1)] less.prems(2) by blast+
        have whole: "gathered look (insert i (set rest)) found m"
          if "gathered look (set ?next) (put_sorted i r found) m" for m
          using gathered_parent [of look i r, OF step less.prems(1)] that by (simp only: next_ids)
        show ?thesis
          using less.hyps [OF lighter tidy] whole
          unfolding Cons gather_step(4) [of look i r, OF step] list.set by blast
      qed
    qed
  qed
qed

text \<open>What the loop adds to an empty map, as a list: the enclosing regions in the order of their identifiers.\<close>

definition enclosing_regions :: "(string \<Rightarrow> control_region option result) \<Rightarrow> string set \<Rightarrow> control_region list \<Rightarrow> bool" where
  "enclosing_regions look ids rs \<longleftrightarrow> (\<exists>is. sorted is \<and> distinct is \<and> map Some rs = map (found_at look) is
     \<and> set is = {i. encloses look ids i \<and> found_at look i \<noteq> None})"

lemma gathered_regions:
  assumes g: "gathered look ids [] m"
  shows "enclosing_regions look ids (map snd m)"
  unfolding enclosing_regions_def
proof (intro exI conjI)
  show "sorted (map fst m)" "distinct (map fst m)" using g by (simp_all add: gathered_def)
  have at: "map_of m j = (if encloses look ids j then found_at look j else None)" for j
    using g by (cases "found_at look j") (auto simp: gathered_def)
  have "found_at look (fst e) = Some (snd e)" if "e \<in> set m" for e
    using map_of_is_SomeI [of m "fst e" "snd e"] that at [of "fst e"] g
    by (auto simp: gathered_def split: if_splits)
  then show "map Some (map snd m) = map (found_at look) (map fst m)" by simp
  have "i \<in> set (map fst m) \<longleftrightarrow> map_of m i \<noteq> None" for i
    by (simp only: map_of_eq_None_iff set_map) blast
  then show "set (map fst m) = {i. encloses look ids i \<and> found_at look i \<noteq> None}"
    unfolding at by (simp only: set_eq_iff mem_Collect_eq split: if_splits) simp
qed

subsection \<open>The calls shown\<close>

definition measured_calls :: "read_env \<Rightarrow> index_db \<Rightarrow> string \<Rightarrow> symbol \<Rightarrow> call_site list \<Rightarrow> bool" where
  "measured_calls env db key s cs \<longleftrightarrow>
     map (\<lambda>k. re_call env (kr_payload k)) (calls_of_caller env db key (sy_id s)) = map Inr cs"

text \<open>What the attestation of documents guarantees: the calls of a symbol are calls in its own file.\<close>

definition local_calls :: "read_env \<Rightarrow> index_db \<Rightarrow> bool" where
  "local_calls env db \<longleftrightarrow> (\<forall>key i s. symbol_row env db key i = Inr (Some s) \<longrightarrow>
     (\<exists>cs. measured_calls env db key s cs \<and> (\<forall>c \<in> set cs. cs_path c = sy_path s)))"

definition exact_view :: "read_env \<Rightarrow> index_db \<Rightarrow> view_query \<Rightarrow> index_pin option \<Rightarrow> view_result \<Rightarrow> bool" where
  "exact_view env db q expected v \<longleftrightarrow> (\<exists>rv s cs.
     read_revision_for env db expected = Inr rv \<and> symbol_row env db (rv_key rv) (vq_seed q) = Inr (Some s)
     \<and> measured_calls env db (rv_key rv) s cs
     \<and> vr_revision v = rv_pin rv \<and> vr_nodes v = [s]
     \<and> vr_calls v = (if excluded (vq_exclude_paths q) (sy_path s) then [] else take (vq_max_calls q) cs)
     \<and> (vr_truncated v \<longleftrightarrow> \<not> excluded (vq_exclude_paths q) (sy_path s) \<and> vq_max_calls q < length cs)
     \<and> enclosing_regions (region_row_at env db (rv_key rv)) (\<Union>c \<in> set (vr_calls v). set (cs_regions c)) (vr_regions v)
     \<and> (\<forall>p \<in> view_paths s (vr_calls v) (vr_regions v). re_attest env (rv_key rv) p = Inr ()))"

lemma proceed_Some [simp]:
  "proceed (Inl e) k = Some (Inl e)" "proceed (Inr x) k = k x"
  by (simp_all add: proceed_def)

lemma take_calls_all:
  assumes "map (\<lambda>k. re_call env (kr_payload k)) ks = map Inr cs"
    and "\<forall>c \<in> set cs. \<not> excluded ps (cs_path c)" and "length acc \<le> cap"
  shows "take_calls env ps cap ks acc = Inr (acc @ take (cap - length acc) cs, cap < length acc + length cs)"
  using assms
proof (induction ks arbitrary: cs acc)
  case (Cons k ks)
  then obtain c rest where cs: "cs = c # rest" by (cases cs) auto
  have c: "re_call env (kr_payload k) = Inr c" and ks: "map (\<lambda>k. re_call env (kr_payload k)) ks = map Inr rest"
    using Cons.prems(1) cs by simp_all
  show ?case
  proof (cases "length acc < cap")
    case True
    then have "cap - length acc = Suc (cap - Suc (length acc))" by simp
    then show ?thesis
      using Cons.IH [OF ks, of "acc @ [c]"] Cons.prems(2) cs c True by simp
  next
    case False
    then show ?thesis using Cons.prems(2,3) cs c by simp
  qed
qed simp

lemma take_calls_limited:
  assumes cs: "map (\<lambda>k. re_call env (kr_payload k)) ks = map Inr cs"
    and "\<forall>c \<in> set cs. \<not> excluded ps (cs_path c)"
  shows "take_calls env ps cap (take (cap + 1) ks) [] = Inr (take cap cs, cap < length cs)"
proof -
  have "map (\<lambda>k. re_call env (kr_payload k)) (take (cap + 1) ks) = map Inr (take (cap + 1) cs)"
    by (simp only: take_map [symmetric] cs)
  then have "take_calls env ps cap (take (cap + 1) ks) []
      = Inr ([] @ take (cap - length ([] :: call_site list)) (take (cap + 1) cs),
          cap < length ([] :: call_site list) + length (take (cap + 1) cs))"
    by (rule take_calls_all) (use assms(2) in \<open>auto dest: in_set_takeD\<close>)
  then show ?thesis by (simp add: min_def)
qed

lemma gather_view:
  assumes "well_nested look rank"
  shows "\<exists>g. gather_regions look ids [] = Some g
     \<and> (\<forall>m. g = Inr m \<longrightarrow> enclosing_regions look (set ids) (map snd m))"
  using gather_exact [OF assms, of "[]" ids] gathered_regions [of look "set ids"] by auto

text \<open>A computation that returns, with a property of the view it returns.\<close>

definition returns_with :: "('a \<Rightarrow> bool) \<Rightarrow> 'a option result option \<Rightarrow> bool" where
  "returns_with R r \<longleftrightarrow> (\<exists>x. r = Some x \<and> (\<forall>v. x = Inr (Some v) \<longrightarrow> R v))"

lemma returns_proceed:
  "(\<And>x. r = Inr x \<Longrightarrow> returns_with R (k x)) \<Longrightarrow> returns_with R (proceed r k)"
  by (cases r) (auto simp: returns_with_def)

lemma returns_none [simp]: "returns_with R (Some (Inr None))"
  and returns_some [simp]: "returns_with R (Some (Inr (Some v))) \<longleftrightarrow> R v"
  by (auto simp: returns_with_def)

lemma measured_view_exact:
  assumes nested: "well_nested (region_row_at env db (rv_key rv)) rank"
    and local: "local_calls env db" and rv: "read_revision_for env db expected = Inr rv"
    and s: "symbol_row env db (rv_key rv) (vq_seed q) = Inr (Some s)"
  shows "returns_with (exact_view env db q expected) (measured_view env db q rv s)"
proof -
  obtain cs where cs: "measured_calls env db (rv_key rv) s cs" and path: "\<forall>c \<in> set cs. cs_path c = sy_path s"
    using local s unfolding local_calls_def by blast
  let ?out = "excluded (vq_exclude_paths q) (sy_path s)"
  define calls where "calls = (if ?out then [] else take (vq_max_calls q) cs)"
  have taken: "(if ?out then Inr ([], False) else take_calls env (vq_exclude_paths q) (vq_max_calls q)
      (take (vq_max_calls q + 1) (calls_of_caller env db (rv_key rv) (sy_id s))) [])
      = Inr (calls, \<not> ?out \<and> vq_max_calls q < length cs)"
    using take_calls_limited cs path by (auto simp: calls_def measured_calls_def)
  let ?ids = "\<Union>c \<in> set calls. set (cs_regions c)"
  obtain g where g: "gather_regions (region_row_at env db (rv_key rv)) (sorted_list_of_set ?ids) [] = Some g"
    and regions: "\<And>m. g = Inr m \<Longrightarrow> enclosing_regions (region_row_at env db (rv_key rv)) ?ids (map snd m)"
    using gather_view [OF nested, of "sorted_list_of_set ?ids"] by auto
  show ?thesis
    unfolding measured_view_def taken proceed_Some prod.case g option.case
  proof (intro returns_proceed)
    fix m :: "(string \<times> control_region) list" and u
    let ?v = "\<lparr>vr_revision = rv_pin rv, vr_query = q, vr_nodes = [s], vr_calls = calls,
      vr_regions = map snd m, vr_truncated = \<not> ?out \<and> vq_max_calls q < length cs, vr_omitted_nodes = 0,
      vr_warnings = (if \<not> ?out \<and> vq_max_calls q < length cs
        then [''Measured calls truncated at the request limit.''] else [])\<rparr>"
    assume "g = Inr m"
      and "for_each (re_attest env (rv_key rv)) (sorted_list_of_set (view_paths s calls (map snd m))) = Inr u"
    then have "enclosing_regions (region_row_at env db (rv_key rv)) ?ids (map snd m)"
      and "\<forall>p \<in> view_paths s calls (map snd m). re_attest env (rv_key rv) p = Inr ()"
      using regions by (auto simp: view_paths_def simp del: sorted_list_of_set_insert_remove)
    then have "exact_view env db q expected ?v"
      unfolding exact_view_def using rv s cs by (intro exI [of _ rv] exI [of _ s] exI [of _ cs]) (simp add: calls_def)
    then show "returns_with (exact_view env db q expected) (Some (Inr (Some ?v)))" by simp
  qed
qed


subsection \<open>A packet read is a packet that validates\<close>

lemma read_revision_again:
  "read_revision_for env db expected = Inr rv \<Longrightarrow> read_revision_for env db (Some (rv_pin rv)) = Inr rv"
  by (cases "db_head db")
    (auto simp: read_revision_for_def Let_def split: list.splits if_splits option.splits)

text \<open>Payloads carry the identifier of their row, and identifiers are unique in a revision.\<close>

definition materialised :: "read_env \<Rightarrow> index_db \<Rightarrow> bool" where
  "materialised env db \<longleftrightarrow> (\<forall>key.
     (\<forall>i s. symbol_row env db key i = Inr (Some s) \<longrightarrow> sy_id s = i)
     \<and> (\<forall>i r. region_row_at env db key i = Inr (Some r) \<longrightarrow> cr_id r = i)
     \<and> (\<forall>k \<in> set (in_manifest db key mr_graph kr_projection (db_calls db)). \<forall>c.
          re_call env (kr_payload k) = Inr c \<longrightarrow> call_row_at env db key (cs_id c) = Inr (Some c)))"

lemma still_Inr [simp]: "still actual x msg = Inr () \<longleftrightarrow> actual = Inr (Some x)"
  by (cases actual) (auto simp: still_def)

lemma set_calls_of_caller: "set (calls_of_caller env db key i)
    \<subseteq> set (in_manifest db key mr_graph kr_projection (db_calls db))"
  by (auto simp: calls_of_caller_def)

lemma enclosing_regions_found:
  assumes "enclosing_regions look ids rs" and "r \<in> set rs"
  shows "\<exists>i. look i = Inr (Some r)"
proof -
  obtain keys where "map Some rs = map (found_at look) keys"
    using assms(1) by (auto simp: enclosing_regions_def)
  then have "Some r \<in> set (map (found_at look) keys)" using assms(2) by (metis image_eqI list.set_map)
  then obtain i where "found_at look i = Some r" by force
  then show ?thesis by (auto simp: found_at_def split: sum.splits option.splits intro!: exI [of _ i])
qed

lemma exact_view_validates:
  assumes exact: "exact_view env db q expected v" and mat: "materialised env db"
    and sources: "\<forall>f \<in> set sources. source_at env db (sf_path f) (Some (vr_revision v)) = Inr (Some (vr_revision v, f))"
  shows "validate_selected_view env db v sources = Inr ()"
proof -
  obtain rv s cs where rv: "read_revision_for env db expected = Inr rv"
    and s: "symbol_row env db (rv_key rv) (vq_seed q) = Inr (Some s)"
    and cs: "measured_calls env db (rv_key rv) s cs"
    and v: "vr_revision v = rv_pin rv" "vr_nodes v = [s]"
    and shown: "vr_calls v = (if excluded (vq_exclude_paths q) (sy_path s) then [] else take (vq_max_calls q) cs)"
    and regions: "enclosing_regions (region_row_at env db (rv_key rv)) (\<Union>c \<in> set (vr_calls v). set (cs_regions c)) (vr_regions v)"
    and attested: "\<forall>p \<in> view_paths s (vr_calls v) (vr_regions v). re_attest env (rv_key rv) p = Inr ()"
    using exact unfolding exact_view_def by (elim exE conjE) (rule that)
  have sub: "set (vr_calls v) \<subseteq> set cs" unfolding shown by (auto dest: in_set_takeD)
  have again: "read_revision_for env db (Some (vr_revision v)) = Inr rv"
    using read_revision_again [OF rv] v by simp
  have node: "symbol_row env db (rv_key rv) (sy_id s) = Inr (Some s)"
    using mat s unfolding materialised_def by metis
  have call: "call_row_at env db (rv_key rv) (cs_id c) = Inr (Some c)" if "c \<in> set (vr_calls v)" for c
  proof -
    have "Inr c \<in> set (map (\<lambda>k. re_call env (kr_payload k)) (calls_of_caller env db (rv_key rv) (sy_id s)))"
      using cs that sub by (auto simp: measured_calls_def)
    then show ?thesis using mat set_calls_of_caller unfolding materialised_def by fastforce
  qed
  have region: "region_row_at env db (rv_key rv) (cr_id r) = Inr (Some r)" if "r \<in> set (vr_regions v)" for r
    using enclosing_regions_found [OF regions that] mat unfolding materialised_def by metis
  have source: "source_row env db (rv_key rv) (sf_path f) = Inr (Some f) \<and> re_attest env (rv_key rv) (sf_path f) = Inr ()"
    if "f \<in> set sources" for f
    using sources that by (auto simp: source_at_def again unit_result split: if_splits)
  have "\<forall>p \<in> sy_path ` set (vr_nodes v) \<union> cs_path ` set (vr_calls v) \<union> cr_path ` set (vr_regions v)
      \<union> sf_path ` set sources. re_attest env (rv_key rv) p = Inr ()"
    using attested source v(2) by (auto simp: view_paths_def)
  then have "for_each (re_attest env (rv_key rv)) (sorted_list_of_set (sy_path ` set (vr_nodes v)
      \<union> cs_path ` set (vr_calls v) \<union> cr_path ` set (vr_regions v) \<union> sf_path ` set sources)) = Inr ()"
    by (simp only: for_each_Inr set_sorted_list_of_set finite_Un finite_imageI finite_set)
  then show ?thesis
    using source node call region
    by (auto simp: validate_selected_view_def again Let_def v(2) simp del: sorted_list_of_set_insert_remove)
qed


section \<open>A concrete revision\<close>

text \<open>One function with three calls, two of which are in a block that lies in a loop; the query shows two.\<close>

definition sample_at :: "nat \<Rightarrow> nat \<Rightarrow> source_range" where
  "sample_at a b = \<lparr>start_byte = a, end_byte = b, start_line = 2, start_column = a, end_line = 2, end_column = b\<rparr>"

definition sample_mark :: provenance where
  "sample_mark = \<lparr>pv_source = ''parser'', pv_semantic = SemUnavailable\<rparr>"

definition sample_function :: symbol where
  "sample_function = \<lparr>sy_id = ''f'', sy_name = ''f'', sy_display_label = None, sy_kind = KFunction,
     sy_path = ''a.js'', sy_range = sample_at 2 90, sy_parent = None, sy_accessor = False,
     sy_provenance = sample_mark\<rparr>"

definition sample_site :: "string \<Rightarrow> nat \<Rightarrow> string list \<Rightarrow> call_site" where
  "sample_site i a rs = \<lparr>cs_id = i, cs_caller = ''f'', cs_callee_text = Some ''g'', cs_path = ''a.js'',
     cs_range = sample_at a (a + 3), cs_callee_range = None, cs_ordinal = 0, cs_regions = rs,
     cs_provenance = sample_mark\<rparr>"

definition sample_block :: "string \<Rightarrow> string option \<Rightarrow> control_region" where
  "sample_block i p = \<lparr>cr_id = i, cr_kind = ''loop'', cr_label = [], cr_parent = p, cr_owner = ''f'',
     cr_path = ''a.js'', cr_range = sample_at 5 50\<rparr>"

definition sample_read_env :: read_env where
  "sample_read_env = \<lparr>re_uuid = (\<lambda>_. ''g''), re_producer = (\<lambda>_. Inr ()), re_attest = (\<lambda>_ _. Inr ()),
     re_symbol = (\<lambda>p. if p = ''F'' then Inr sample_function else Inl ''bad json''),
     re_call = (\<lambda>p. if p = ''A'' then Inr (sample_site ''a'' 10 [''in''])
        else if p = ''B'' then Inr (sample_site ''b'' 20 []) else if p = ''C'' then Inr (sample_site ''c'' 30 [''in''])
        else Inl ''bad json''),
     re_region = (\<lambda>p. if p = ''I'' then Inr (sample_block ''in'' (Some ''out''))
        else if p = ''O'' then Inr (sample_block ''out'' None) else Inl ''bad json''),
     re_kind = (\<lambda>_. ''function''),
     re_span = (\<lambda>p. if p = ''A'' then (10, 13) else if p = ''B'' then (20, 23) else (30, 33)),
     re_sha = (\<lambda>s. s), re_utf8 = (\<lambda>_. True), re_chunks = (\<lambda>f. [sf_text f])\<rparr>"

definition sample_pin_of :: index_pin where
  "sample_pin_of = \<lparr>ip_generation = 7, ip_revision = 3\<rparr>"

definition sample_db :: index_db where
  "sample_db = (let row = (\<lambda>i p. \<lparr>kr_projection = ''G'', kr_id = i, kr_caller = ''f'', kr_path = ''a.js'', kr_payload = p\<rparr>) in
     \<lparr>db_head = Inr sample_pin_of,
      db_revisions = [\<lparr>rr_id = ''pin:v1:g:3'', rr_published = 3, rr_released = False\<rparr>],
      db_manifest = [\<lparr>mr_revision = ''pin:v1:g:3'', mr_path = ''a.js'', mr_language = ''javascript'', mr_graph = ''G'', mr_class = ''K''\<rparr>],
      db_nodes = [\<lparr>nr_projection = ''G'', nr_id = ''f'', nr_name = ''f'', nr_path = ''a.js'', nr_payload = ''F''\<rparr>],
      db_calls = [row ''c'' ''C'', row ''a'' ''A'', row ''b'' ''B''],
      db_regions = [\<lparr>gr_projection = ''G'', gr_id = ''in'', gr_payload = ''I''\<rparr>,
                    \<lparr>gr_projection = ''G'', gr_id = ''out'', gr_payload = ''O''\<rparr>],
      db_versions = []\<rparr>)"

lemma sample_regions:
  "region_row_at sample_read_env sample_db key i = Inr (if key = ''pin:v1:g:3'' then
     if i = ''in'' then Some (sample_block ''in'' (Some ''out''))
     else if i = ''out'' then Some (sample_block ''out'' None) else None else None)"
  by (simp add: region_row_at_def in_manifest_def one_at_def sample_db_def sample_read_env_def Let_def)

lemma sample_symbols:
  "symbol_row sample_read_env sample_db key i =
     Inr (if key = ''pin:v1:g:3'' \<and> i = ''f'' then Some sample_function else None)"
  by (simp add: symbol_row_def nodes_with_id_def in_manifest_def one_at_def sample_db_def sample_read_env_def Let_def)

lemma sample_calls_rows:
  "map kr_payload (calls_of_caller sample_read_env sample_db ''pin:v1:g:3'' ''f'') = [''A'', ''B'', ''C'']"
  by (simp add: calls_of_caller_def in_manifest_def call_order_def sample_db_def sample_read_env_def Let_def
      less_prod_def less_eq_prod_def insort_key.simps)

lemma sample_well_nested: "well_nested (region_row_at sample_read_env sample_db key) (\<lambda>i. if i = ''in'' then 1 else 0)"
  by (auto simp: well_nested_def sample_regions sample_block_def split: if_splits)

lemma sample_measured:
  "measured_calls sample_read_env sample_db ''pin:v1:g:3'' sample_function
     [sample_site ''a'' 10 [''in''], sample_site ''b'' 20 [], sample_site ''c'' 30 [''in'']]"
proof -
  have "map (re_call sample_read_env) (map kr_payload (calls_of_caller sample_read_env sample_db ''pin:v1:g:3'' ''f''))
      = map Inr [sample_site ''a'' 10 [''in''], sample_site ''b'' 20 [], sample_site ''c'' 30 [''in'']]"
    by (simp only: sample_calls_rows) (simp add: sample_read_env_def)
  then show ?thesis by (simp add: measured_calls_def sample_function_def comp_def)
qed

lemma sample_local: "local_calls sample_read_env sample_db"
proof -
  have "\<forall>c \<in> set [sample_site ''a'' 10 [''in''], sample_site ''b'' 20 [], sample_site ''c'' 30 [''in'']].
      cs_path c = sy_path sample_function"
    by (simp add: sample_site_def sample_function_def)
  then show ?thesis
    unfolding local_calls_def using sample_measured by (auto simp: sample_symbols split: if_splits)
qed

lemma sample_materialised: "materialised sample_read_env sample_db"
proof -
  have "call_row_at sample_read_env sample_db key (cs_id c) = Inr (Some c)"
    if "k \<in> set (in_manifest sample_db key mr_graph kr_projection (db_calls sample_db))"
      and "re_call sample_read_env (kr_payload k) = Inr c" for key k c
    using that
    by (auto simp: in_manifest_def sample_db_def sample_read_env_def Let_def call_row_at_def one_at_def sample_site_def
        split: if_splits)
  then show ?thesis
    unfolding materialised_def
    by (auto simp: sample_regions sample_symbols sample_function_def sample_block_def split: if_splits)
qed

definition sample_query :: view_query where
  "sample_query = (default_query ''f'')\<lparr>vq_max_calls := 2\<rparr>"

definition sample_view_result :: view_result where
  "sample_view_result = \<lparr>vr_revision = sample_pin_of, vr_query = sample_query, vr_nodes = [sample_function],
     vr_calls = [sample_site ''a'' 10 [''in''], sample_site ''b'' 20 []],
     vr_regions = [sample_block ''in'' (Some ''out''), sample_block ''out'' None], vr_truncated = True,
     vr_omitted_nodes = 0, vr_warnings = [''Measured calls truncated at the request limit.'']\<rparr>"

lemma sample_revision: "read_revision_for sample_read_env sample_db None
    = Inr \<lparr>rv_pin = sample_pin_of, rv_key = ''pin:v1:g:3''\<rparr>"
proof -
  have "nat_text 3 = ''3''" by code_simp
  then show ?thesis
    by (simp add: read_revision_for_def sample_db_def sample_read_env_def sample_pin_of_def pin_key_def Let_def)
qed

lemma sample_gather:
  "gather_regions (region_row_at sample_read_env sample_db ''pin:v1:g:3'') [''in''] []
     = Some (Inr [(''in'', sample_block ''in'' (Some ''out'')), (''out'', sample_block ''out'' None)])"
  by (simp add: gather_step sample_regions insort_insert_key_def put_sorted_def drop_key_def)
     (simp add: gather_step sample_regions sample_block_def put_sorted_def drop_key_def insort_insert_key_def)

lemma sample_query_runs:
  "query_view sample_read_env sample_db sample_query None = Some (Inr (Some sample_view_result))"
proof -
  have taken: "take_calls sample_read_env [] 2 (take 3 (calls_of_caller sample_read_env sample_db ''pin:v1:g:3'' ''f'')) []
      = Inr ([sample_site ''a'' 10 [''in''], sample_site ''b'' 20 []], True)"
    using take_calls_limited [OF sample_measured [unfolded measured_calls_def], of "[]" 2]
    by (simp add: excluded_def sample_function_def numeral_3_eq_3 numeral_2_eq_2)
  have gathered: "gather_regions (region_row_at sample_read_env sample_db ''pin:v1:g:3'')
      (sorted_list_of_set (\<Union>c \<in> set [sample_site ''a'' 10 [''in''], sample_site ''b'' 20 []]. set (cs_regions c))) []
      = Some (Inr [(''in'', sample_block ''in'' (Some ''out'')), (''out'', sample_block ''out'' None)])"
    using sample_gather by (simp add: sample_site_def)
  have valid: "validate_query sample_query = Inr ()"
    by (simp add: validate_query_def sample_query_def default_query_def)
  have attested: "re_attest sample_read_env key p = Inr ()" for key p by (simp add: sample_read_env_def)
  have all_attested: "for_each (re_attest sample_read_env key) ps = Inr ()" for key ps by (simp add: attested)
  have node: "attest_node sample_read_env sample_db key i = Inr ()" for key i
    by (simp add: attest_node_def attested split: list.split)
  have query: "vq_exclude_paths sample_query = []" "vq_max_calls sample_query = 2" "vq_seed sample_query = ''f''"
    "sy_id sample_function = ''f''"
    by (simp_all add: sample_query_def default_query_def sample_function_def)
  show ?thesis
    unfolding query_view_def valid sample_revision proceed_Some read_revision.simps node query sample_symbols
      measured_view_def
    using taken gathered
    by (simp add: excluded_def query all_attested sample_view_result_def)
qed



end
