(* ===== verification/Classes.thy ===== *)
theory Classes
  imports Json Model
begin

section \<open>Composition of the class catalogue (\<open>classes.rs\<close>)\<close>

text \<open>
  \<open>Catalog::compose\<close> builds the class catalogue of a workspace from what was extracted of every
  file, within the limits of one \<open>Limits\<close> value. The extraction of one file walks a tree-sitter
  tree and is not modelled; its result, a \<open>FileExtraction\<close>, is the input here.
\<close>

record class_member =
  cm_name :: string
  cm_type_hint :: "string option"
  cm_symbol_id :: "string option"
  cm_path :: string
  cm_range :: source_range

record class_definition =
  cd_symbol :: symbol
  cd_qualified_name :: string
  cd_language :: string
  cd_declaration_kind :: string
  cd_fields :: "class_member list"
  cd_methods :: "class_member list"
  cd_truncated :: bool

record class_relationship =
  cl_id :: string
  cl_owner :: string
  cl_target :: "string option"
  cl_type_name :: string
  cl_kind :: string
  cl_path :: string
  cl_range :: source_range
  cl_candidate_ids :: "string list"
  cl_match_kind :: string

record catalog =
  ct_classes :: "class_definition list"
  ct_relations :: "class_relationship list"
  ct_warnings :: "string list"
  ct_truncated :: bool

record limits =
  lm_file_bytes :: nat
  lm_total_bytes :: nat
  lm_visits :: nat
  lm_depth :: nat
  lm_file_classes :: nat
  lm_classes :: nat
  lm_members :: nat
  lm_file_refs :: nat
  lm_records :: nat
  lm_text :: nat
  lm_output_text :: nat
  lm_registry_text :: nat
  lm_files :: nat
  lm_symbols :: nat

definition default_limits :: limits where
  "default_limits = \<lparr>lm_file_bytes = 2 * 1024 * 1024, lm_total_bytes = 256 * 1024 * 1024,
     lm_visits = 100000, lm_depth = 64, lm_file_classes = 1000, lm_classes = 20000, lm_members = 256,
     lm_file_refs = 8192, lm_records = 250000, lm_text = 2048, lm_output_text = 64 * 1024 * 1024,
     lm_registry_text = 32 * 1024 * 1024, lm_files = 100000, lm_symbols = 1000000\<rparr>"

datatype detail_value =
    DetailField class_member | DetailMethod class_member | DetailRelation class_relationship | ScopeText

record detail_item =
  di_class_index :: nat
  di_records :: nat
  di_text :: nat
  di_value :: detail_value

record file_extraction =
  fx_path :: string
  fx_source_bytes :: nat
  fx_registry_bytes :: nat
  fx_warnings :: "string list"
  fx_truncated :: bool
  fx_registry_incomplete :: bool
  fx_classes :: "class_definition list"
  fx_items :: "detail_item list"

definition empty_catalog :: catalog where
  "empty_catalog = \<lparr>ct_classes = [], ct_relations = [], ct_warnings = [], ct_truncated = False\<rparr>"

definition add_warning :: "nat \<Rightarrow> string \<Rightarrow> catalog \<Rightarrow> catalog" where
  "add_warning text message c =
     (if length (ct_warnings c) < 100 \<and> message \<notin> set (ct_warnings c)
      then c\<lparr>ct_warnings := ct_warnings c @ [take_chars text message]\<rparr> else c)"

definition limit_warning :: "nat \<Rightarrow> string \<Rightarrow> catalog \<Rightarrow> catalog" where
  "limit_warning text message c = add_warning text message (c\<lparr>ct_truncated := True\<rparr>)"

subsection \<open>The loops of \<open>compose\<close>\<close>

text \<open>
  The counters are \<open>usize\<close> with saturating additions that are only compared with limits below
  the maximum, so they are natural numbers here.
\<close>

record composing =
  cp_catalog :: catalog
  cp_source :: nat
  cp_registry :: nat
  cp_records :: nat
  cp_detail :: nat
  cp_complete :: bool
  cp_open :: bool

definition mib :: "nat \<Rightarrow> string" where
  "mib n = nat_text (n div (1024 * 1024))"

definition records_message :: "limits \<Rightarrow> string" where
  "records_message l = ''Class detail limit reached ('' @ nat_text (lm_records l) @ '' records / ''
     @ mib (lm_output_text l) @ '' MiB text / '' @ nat_text (lm_visits l)
     @ '' visits per file); declaration discovery continues''"

definition text_message :: "limits \<Rightarrow> string" where
  "text_message l = ''Class detail text limit reached ('' @ mib (lm_output_text l)
     @ '' MiB); declaration discovery continues''"

text \<open>One retained detail: a member of the class, a relation of the catalogue, or text of a scope.\<close>

fun keep_value :: "detail_value \<Rightarrow> composing \<times> class_definition \<Rightarrow> composing \<times> class_definition" where
  "keep_value (DetailField m) (s, c) = (s, c\<lparr>cd_fields := cd_fields c @ [m]\<rparr>)"
| "keep_value (DetailMethod m) (s, c) = (s, c\<lparr>cd_methods := cd_methods c @ [m]\<rparr>)"
| "keep_value (DetailRelation r) (s, c) =
     (s\<lparr>cp_catalog := (cp_catalog s)\<lparr>ct_relations := ct_relations (cp_catalog s) @ [r]\<rparr>\<rparr>, c)"
| "keep_value ScopeText (s, c) = (s, c)"

definition compose_item :: "limits \<Rightarrow> detail_item \<Rightarrow> composing \<times> class_definition \<Rightarrow> composing \<times> class_definition" where
  "compose_item l i = (\<lambda>(s, c).
     if \<not> cp_open s then (s, c\<lparr>cd_truncated := True\<rparr>)
     else if lm_records l < cp_records s + di_records i \<or> lm_output_text l < cp_detail s + di_text i
     then (let message = (if lm_records l < cp_records s + di_records i then records_message l else text_message l) in
        (s\<lparr>cp_catalog := limit_warning (lm_text l) message (cp_catalog s), cp_open := False\<rparr>,
         c\<lparr>cd_truncated := True\<rparr>))
     else keep_value (di_value i)
       (s\<lparr>cp_records := cp_records s + di_records i, cp_detail := cp_detail s + di_text i\<rparr>, c))"

definition compose_class :: "limits \<Rightarrow> detail_item list \<Rightarrow> nat \<Rightarrow> class_definition \<Rightarrow> composing \<Rightarrow> composing" where
  "compose_class l items index c s =
     (let (s', c') = fold (compose_item l) (filter (\<lambda>i. di_class_index i = index) items)
        (s, c\<lparr>cd_fields := [], cd_methods := []\<rparr>) in
      s'\<lparr>cp_catalog := (cp_catalog s')\<lparr>ct_classes := ct_classes (cp_catalog s') @ [c']\<rparr>\<rparr>)"

text \<open>\<open>True\<close> with the state is \<open>break 'file_loop\<close>.\<close>

fun compose_classes :: "limits \<Rightarrow> detail_item list \<Rightarrow> nat \<Rightarrow> class_definition list \<Rightarrow> composing \<Rightarrow> bool \<times> composing" where
  "compose_classes l items index [] s = (False, s)"
| "compose_classes l items index (c # cs) s =
     (if length (ct_classes (cp_catalog s)) = lm_classes l
      then (True, s\<lparr>cp_catalog := limit_warning (lm_text l)
             (''Class catalog declaration limit reached ('' @ nat_text (lm_classes l) @ '')'') (cp_catalog s),
           cp_complete := False\<rparr>)
      else compose_classes l items (Suc index) cs (compose_class l items index c s))"

definition enter_file :: "limits \<Rightarrow> file_extraction \<Rightarrow> composing \<Rightarrow> composing" where
  "enter_file l f s =
     (let cat = fold (add_warning (lm_text l)) (fx_warnings f) (cp_catalog s) in
      s\<lparr>cp_catalog := cat\<lparr>ct_truncated := ct_truncated cat \<or> fx_truncated f\<rparr>,
        cp_source := cp_source s + fx_source_bytes f,
        cp_registry := cp_registry s + fx_registry_bytes f,
        cp_complete := cp_complete s \<and> \<not> fx_registry_incomplete f\<rparr>)"

fun compose_files :: "limits \<Rightarrow> file_extraction list \<Rightarrow> composing \<Rightarrow> composing" where
  "compose_files l [] s = s"
| "compose_files l (f # fs) s =
     (if lm_total_bytes l < cp_source s + fx_source_bytes f
      then s\<lparr>cp_catalog := limit_warning (lm_text l)
             (''Class catalog source limit exceeded ('' @ mib (lm_total_bytes l) @ '' MiB)'') (cp_catalog s),
           cp_complete := False\<rparr>
      else if lm_registry_text l < cp_registry s + fx_registry_bytes f
      then s\<lparr>cp_catalog := limit_warning (lm_text l)
             (''Class declaration registry text limit reached ('' @ mib (lm_registry_text l) @ '' MiB)'') (cp_catalog s),
           cp_complete := False\<rparr>
      else (case compose_classes l (fx_items f) 0 (fx_classes f) (enter_file l f s) of
          (True, s') \<Rightarrow> s'
        | (False, s') \<Rightarrow> compose_files l fs s'))"

definition class_place :: "class_definition \<Rightarrow> string \<times> nat \<times> string" where
  "class_place c = (sy_path (cd_symbol c), start_byte (sy_range (cd_symbol c)), sy_id (cd_symbol c))"

definition relation_place :: "class_relationship \<Rightarrow> string \<times> nat \<times> string" where
  "relation_place r = (cl_path r, start_byte (cl_range r), cl_id r)"

text \<open>\<open>Vec::dedup_by\<close> on the identifiers: of equal neighbours the first stays.\<close>

fun dedup_ids :: "class_relationship list \<Rightarrow> class_relationship list" where
  "dedup_ids (x # y # ys) = (if cl_id x = cl_id y then dedup_ids (x # ys) else x # dedup_ids (y # ys))"
| "dedup_ids xs = xs"

definition declared_types_notice :: string where
  "declared_types_notice = ''Declared types are terminal source text, not class relationships. Direct Java/Python declarations only; no function-body, conditional/anonymous class, generated member, wildcard-import, type-alias or dependency discovery.''"

definition registry_notice :: string where
  "registry_notice = ''Incomplete class declaration registry: some declarations may be absent.''"

definition start_composing :: composing where
  "start_composing = \<lparr>cp_catalog = empty_catalog, cp_source = 0, cp_registry = 0, cp_records = 0,
     cp_detail = 0, cp_complete = True, cp_open = True\<rparr>"

definition finish_catalog :: "composing \<Rightarrow> catalog" where
  "finish_catalog s = (let c = cp_catalog s in c\<lparr>
     ct_classes := sort_key class_place (ct_classes c),
     ct_relations := dedup_ids (sort_key relation_place (ct_relations c)),
     ct_warnings := ct_warnings c @ (if ct_classes c \<noteq> [] then [declared_types_notice] else [])
       @ (if cp_complete s then [] else [registry_notice])\<rparr>)"

definition compose :: "file_extraction list \<Rightarrow> nat \<Rightarrow> nat \<Rightarrow> limits \<Rightarrow> catalog" where
  "compose extracts file_count symbol_count l =
     (if lm_files l < file_count \<or> lm_symbols l < symbol_count
      then empty_catalog\<lparr>ct_truncated := True,
        ct_warnings := [''Class catalog input limit exceeded ('' @ nat_text (lm_files l) @ '' files / ''
          @ nat_text (lm_symbols l) @ '' symbols)'']\<rparr>
      else finish_catalog (compose_files l (sort_key fx_path extracts) start_composing))"

section \<open>An untruncated catalogue is complete\<close>

text \<open>What the extracted details of a class say, in order, with nothing left out.\<close>

definition details_of :: "file_extraction \<Rightarrow> nat \<Rightarrow> detail_value list" where
  "details_of f index = map di_value (filter (\<lambda>i. di_class_index i = index) (fx_items f))"

definition fields_in :: "detail_value list \<Rightarrow> class_member list" where
  "fields_in vs = concat (map (\<lambda>v. case v of DetailField m \<Rightarrow> [m] | _ \<Rightarrow> []) vs)"

definition methods_in :: "detail_value list \<Rightarrow> class_member list" where
  "methods_in vs = concat (map (\<lambda>v. case v of DetailMethod m \<Rightarrow> [m] | _ \<Rightarrow> []) vs)"

definition relations_in :: "detail_value list \<Rightarrow> class_relationship list" where
  "relations_in vs = concat (map (\<lambda>v. case v of DetailRelation r \<Rightarrow> [r] | _ \<Rightarrow> []) vs)"

definition whole_class :: "file_extraction \<Rightarrow> nat \<times> class_definition \<Rightarrow> class_definition" where
  "whole_class f = (\<lambda>(index, c). c\<lparr>cd_fields := fields_in (details_of f index),
     cd_methods := methods_in (details_of f index)\<rparr>)"

definition whole_classes :: "file_extraction \<Rightarrow> class_definition list" where
  "whole_classes f = map (whole_class f) (enumerate 0 (fx_classes f))"

definition whole_relations :: "file_extraction \<Rightarrow> class_relationship list" where
  "whole_relations f = concat (map (\<lambda>i. relations_in (details_of f i)) [0..<length (fx_classes f)])"

definition complete_catalog :: "file_extraction list \<Rightarrow> catalog \<Rightarrow> bool" where
  "complete_catalog fs c \<longleftrightarrow>
     mset (ct_classes c) = (\<Sum>f \<in># mset fs. mset (whole_classes f))
     \<and> sorted (map class_place (ct_classes c))
     \<and> cl_id ` set (ct_relations c) = cl_id ` (\<Union>f \<in> set fs. set (whole_relations f))
     \<and> set (ct_relations c) \<subseteq> (\<Union>f \<in> set fs. set (whole_relations f))
     \<and> sorted (map relation_place (ct_relations c)) \<and> distinct (map relation_place (ct_relations c))
     \<and> ((\<exists>f \<in> set fs. fx_registry_incomplete f) \<longrightarrow> registry_notice \<in> set (ct_warnings c))"

subsection \<open>What the loops keep\<close>

lemma add_warning_fields [simp]:
  "ct_classes (add_warning t m c) = ct_classes c" "ct_relations (add_warning t m c) = ct_relations c"
  "ct_truncated (add_warning t m c) = ct_truncated c"
  by (simp_all add: add_warning_def)

lemma limit_warning_fields [simp]:
  "ct_classes (limit_warning t m c) = ct_classes c" "ct_relations (limit_warning t m c) = ct_relations c"
  "ct_truncated (limit_warning t m c)"
  by (simp_all add: limit_warning_def)

lemma add_warnings_fields [simp]:
  "ct_classes (fold (add_warning t) ms c) = ct_classes c" "ct_relations (fold (add_warning t) ms c) = ct_relations c"
  "ct_truncated (fold (add_warning t) ms c) = ct_truncated c"
  by (induction ms arbitrary: c) simp_all

text \<open>Details are closed only together with the mark of truncation.\<close>

definition open_or_marked :: "composing \<Rightarrow> bool" where
  "open_or_marked s \<longleftrightarrow> cp_open s \<or> ct_truncated (cp_catalog s)"

text \<open>\<open>s'\<close> has grown from \<open>s\<close> by exactly these classes and relations.\<close>

definition grown :: "composing \<Rightarrow> class_definition list \<Rightarrow> class_relationship list \<Rightarrow> composing \<Rightarrow> bool" where
  "grown s cs rs s' \<longleftrightarrow> ct_classes (cp_catalog s') = ct_classes (cp_catalog s) @ cs
     \<and> ct_relations (cp_catalog s') = ct_relations (cp_catalog s) @ rs
     \<and> open_or_marked s' \<and> cp_open s' \<and> \<not> ct_truncated (cp_catalog s)"

lemma details_Cons:
  "fields_in (v # vs) = fields_in [v] @ fields_in vs" "methods_in (v # vs) = methods_in [v] @ methods_in vs"
  "relations_in (v # vs) = relations_in [v] @ relations_in vs"
  by (simp_all add: fields_in_def methods_in_def relations_in_def)

lemma compose_item_step:
  assumes step: "compose_item l i (s, c) = (s', c')" and mark: "open_or_marked s"
    and clean: "\<not> ct_truncated (cp_catalog s')"
  shows "grown s [] (relations_in [di_value i]) s' \<and> cp_complete s' = cp_complete s
     \<and> c' = c\<lparr>cd_fields := cd_fields c @ fields_in [di_value i], cd_methods := cd_methods c @ methods_in [di_value i]\<rparr>"
  using assms
  by (cases "di_value i")
    (auto simp: compose_item_def open_or_marked_def grown_def Let_def relations_in_def fields_in_def methods_in_def
      split: if_splits)

lemma compose_item_mark:
  assumes "compose_item l i (s, c) = (s', c')" and "open_or_marked s"
  shows "open_or_marked s'" and "ct_truncated (cp_catalog s) \<Longrightarrow> ct_truncated (cp_catalog s')"
  using assms
  by (cases "di_value i"; auto simp: compose_item_def open_or_marked_def Let_def split: if_splits)+

lemma compose_items_mark:
  assumes "fold (compose_item l) is (s, c) = (s', c')" and "open_or_marked s"
  shows "open_or_marked s' \<and> (ct_truncated (cp_catalog s) \<longrightarrow> ct_truncated (cp_catalog s'))"
  using assms
proof (induction "is" arbitrary: s c)
  case (Cons i "is")
  obtain s1 c1 where one: "compose_item l i (s, c) = (s1, c1)" by (cases "compose_item l i (s, c)")
  with Cons.prems Cons.IH [of s1 c1] compose_item_mark [OF one] show ?case by auto
qed simp

lemma compose_items_whole:
  assumes "fold (compose_item l) is (s, c) = (s', c')" and "open_or_marked s"
    and "\<not> ct_truncated (cp_catalog s')"
  shows "grown s [] (relations_in (map di_value is)) s' \<and> cp_complete s' = cp_complete s
     \<and> c' = c\<lparr>cd_fields := cd_fields c @ fields_in (map di_value is),
              cd_methods := cd_methods c @ methods_in (map di_value is)\<rparr>"
  using assms
proof (induction "is" arbitrary: s c)
  case Nil
  then show ?case
    by (auto simp: grown_def open_or_marked_def relations_in_def fields_in_def methods_in_def)
next
  case (Cons i "is")
  obtain s1 c1 where one: "compose_item l i (s, c) = (s1, c1)" by (cases "compose_item l i (s, c)")
  then have rest: "fold (compose_item l) is (s1, c1) = (s', c')" using Cons.prems(1) by simp
  have mark: "open_or_marked s1" using compose_item_mark(1) [OF one Cons.prems(2)] .
  have clean: "\<not> ct_truncated (cp_catalog s1)"
    using compose_items_mark [OF rest mark] Cons.prems(3) by blast
  show ?case
    using Cons.IH [OF rest mark Cons.prems(3)] compose_item_step [OF one Cons.prems(2) clean]
      details_Cons [of "di_value i" "map di_value is"]
    by (simp add: grown_def)
qed

lemma grown_trans: "grown s cs rs t \<Longrightarrow> grown t cs' rs' u \<Longrightarrow> grown s (cs @ cs') (rs @ rs') u"
  by (simp add: grown_def)

lemma grown_refl: "open_or_marked s \<Longrightarrow> \<not> ct_truncated (cp_catalog s) \<Longrightarrow> grown s [] [] s"
  by (auto simp: grown_def open_or_marked_def)

lemma compose_class_mark:
  assumes "open_or_marked s"
  shows "open_or_marked (compose_class l items index c s)
    \<and> (ct_truncated (cp_catalog s) \<longrightarrow> ct_truncated (cp_catalog (compose_class l items index c s)))"
proof -
  obtain s' c' where run: "fold (compose_item l) (filter (\<lambda>i. di_class_index i = index) items)
      (s, c\<lparr>cd_fields := [], cd_methods := []\<rparr>) = (s', c')" by force
  from compose_items_mark [OF run assms] show ?thesis
    by (simp add: compose_class_def run open_or_marked_def)
qed

lemma compose_class_whole:
  assumes "open_or_marked s" and "\<not> ct_truncated (cp_catalog (compose_class l (fx_items f) index c s))"
  shows "grown s [whole_class f (index, c)] (relations_in (details_of f index)) (compose_class l (fx_items f) index c s)
     \<and> cp_complete (compose_class l (fx_items f) index c s) = cp_complete s"
proof -
  obtain s' c' where run: "fold (compose_item l) (filter (\<lambda>i. di_class_index i = index) (fx_items f))
      (s, c\<lparr>cd_fields := [], cd_methods := []\<rparr>) = (s', c')" by force
  have "\<not> ct_truncated (cp_catalog s')" using assms(2) by (simp add: compose_class_def run)
  from compose_items_whole [OF run assms(1) this] show ?thesis
    by (simp add: compose_class_def run grown_def open_or_marked_def whole_class_def details_of_def)
qed

lemma compose_classes_mark:
  assumes "compose_classes l items index cs s = (stop, s')" and "open_or_marked s"
  shows "open_or_marked s' \<and> (ct_truncated (cp_catalog s) \<longrightarrow> ct_truncated (cp_catalog s'))"
  using assms
proof (induction cs arbitrary: index s)
  case (Cons c cs)
  show ?case
    using Cons.prems Cons.IH [of "Suc index" "compose_class l items index c s"] compose_class_mark [OF Cons.prems(2)]
    by (auto simp: open_or_marked_def split: if_splits)
qed simp

lemma compose_classes_whole:
  assumes "compose_classes l (fx_items f) index cs s = (stop, s')" and "open_or_marked s"
    and "\<not> ct_truncated (cp_catalog s')"
  shows "\<not> stop \<and> cp_complete s' = cp_complete s
     \<and> grown s (map (whole_class f) (enumerate index cs))
         (concat (map (\<lambda>i. relations_in (details_of f i)) [index..<index + length cs])) s'"
  using assms
proof (induction cs arbitrary: index s)
  case Nil
  then show ?case by (auto intro: grown_refl)
next
  case (Cons c cs)
  let ?t = "compose_class l (fx_items f) index c s"
  have rest: "compose_classes l (fx_items f) (Suc index) cs ?t = (stop, s')"
    using Cons.prems(1,3) by (auto split: if_splits)
  have mark: "open_or_marked ?t" using compose_class_mark [OF Cons.prems(2)] by blast
  have clean: "\<not> ct_truncated (cp_catalog ?t)" using compose_classes_mark [OF rest mark] Cons.prems(3) by blast
  have "[index..<index + length (c # cs)] = index # [Suc index..<Suc index + length cs]"
    by (simp add: upt_conv_Cons del: upt_Suc)
  then show ?case
    using Cons.IH [OF rest mark Cons.prems(3)] compose_class_whole [OF Cons.prems(2) clean]
    by (auto dest: grown_trans)
qed

lemma enter_file_fields [simp]:
  "ct_classes (cp_catalog (enter_file l f s)) = ct_classes (cp_catalog s)"
  "ct_relations (cp_catalog (enter_file l f s)) = ct_relations (cp_catalog s)"
  "ct_truncated (cp_catalog (enter_file l f s)) \<longleftrightarrow> ct_truncated (cp_catalog s) \<or> fx_truncated f"
  "cp_open (enter_file l f s) = cp_open s"
  "cp_complete (enter_file l f s) \<longleftrightarrow> cp_complete s \<and> \<not> fx_registry_incomplete f"
  "open_or_marked s \<Longrightarrow> open_or_marked (enter_file l f s)"
  by (auto simp: enter_file_def Let_def open_or_marked_def)

lemma compose_files_mark:
  assumes "open_or_marked s"
  shows "open_or_marked (compose_files l fs s)
     \<and> (ct_truncated (cp_catalog s) \<longrightarrow> ct_truncated (cp_catalog (compose_files l fs s)))"
  using assms
proof (induction fs arbitrary: s)
  case (Cons f fs)
  obtain stop s' where run: "compose_classes l (fx_items f) 0 (fx_classes f) (enter_file l f s) = (stop, s')"
    by force
  have "open_or_marked s' \<and> (ct_truncated (cp_catalog s) \<longrightarrow> ct_truncated (cp_catalog s'))"
    using compose_classes_mark [OF run] Cons.prems by simp
  then show ?case using Cons.IH [of s'] run Cons.prems by (cases stop) (auto simp: open_or_marked_def)
qed simp

lemma compose_files_whole:
  assumes "open_or_marked s" and "\<not> ct_truncated (cp_catalog (compose_files l fs s))"
  shows "grown s (concat (map whole_classes fs)) (concat (map whole_relations fs)) (compose_files l fs s)
     \<and> (cp_complete (compose_files l fs s) \<longleftrightarrow> cp_complete s \<and> (\<forall>f \<in> set fs. \<not> fx_registry_incomplete f))"
  using assms
proof (induction fs arbitrary: s)
  case Nil
  then show ?case by (auto intro: grown_refl)
next
  case (Cons f fs)
  obtain stop s' where run: "compose_classes l (fx_items f) 0 (fx_classes f) (enter_file l f s) = (stop, s')"
    by force
  have mark: "open_or_marked s'" using compose_classes_mark [OF run] Cons.prems by simp
  have rest: "compose_files l (f # fs) s = (if stop then s' else compose_files l fs s')"
    using Cons.prems(2) run by (auto split: if_splits)
  have clean: "\<not> ct_truncated (cp_catalog s')"
    using Cons.prems(2) rest compose_files_mark [OF mark, of l fs] by (auto split: if_splits)
  have here: "\<not> stop \<and> cp_complete s' = cp_complete (enter_file l f s)
     \<and> grown (enter_file l f s) (whole_classes f) (whole_relations f) s'"
    using compose_classes_whole [OF run _ clean] Cons.prems(1) by (simp add: whole_classes_def whole_relations_def)
  then have "grown s (whole_classes f) (whole_relations f) s'" by (simp add: grown_def)
  then show ?case
    using Cons.IH [OF mark] here rest Cons.prems(2) by (auto dest: grown_trans)
qed

subsection \<open>The catalogue\<close>

lemma dedup_ids_sub: "set (dedup_ids xs) \<subseteq> set xs \<and> cl_id ` set (dedup_ids xs) = cl_id ` set xs"
proof (induction xs rule: dedup_ids.induct)
  case (1 x y ys)
  then show ?case by (cases "cl_id x = cl_id y") auto
qed auto

lemma dedup_ids_hd: "\<exists>ys. dedup_ids (x # xs) = x # ys"
proof (induction xs arbitrary: x)
  case (Cons y ys)
  then show ?case by (cases "cl_id x = cl_id y") auto
qed simp

lemma dedup_ids_strict:
  "sorted (map relation_place xs) \<Longrightarrow> sorted_wrt (\<lambda>a b. relation_place a < relation_place b) (dedup_ids xs)"
proof (induction xs rule: dedup_ids.induct)
  case (1 x y ys)
  show ?case
  proof (cases "cl_id x = cl_id y")
    case True
    then show ?thesis using 1 by auto
  next
    case False
    then have "relation_place x \<noteq> relation_place y" by (auto simp: relation_place_def)
    moreover have "relation_place x \<le> relation_place y" using 1(3) by simp
    ultimately have less: "relation_place x < relation_place y" by (rule le_neq_trans [rotated])
    have later: "sorted_wrt (\<lambda>a b. relation_place a < relation_place b) (dedup_ids (y # ys))"
      using 1(2) [OF False] 1(3) by simp
    obtain zs where "dedup_ids (y # ys) = y # zs" using dedup_ids_hd by blast
    then show ?thesis using False less later by (auto intro: less_trans)
  qed
qed auto

lemma sorted_wrt_places:
  assumes "sorted_wrt (\<lambda>a b. relation_place a < relation_place b) rs"
  shows "sorted (map relation_place rs)" "distinct (map relation_place rs)"
  using assms by (induction rs) (auto simp: less_le)

lemma mset_concat_map: "mset (concat (map g xs)) = (\<Sum>x \<in># mset xs. mset (g x))"
  by (induction xs) simp_all

text \<open>C37: The class catalogue loses nothing silently: unless it is marked as truncated it holds, in source
  order, every class extracted from every file with all its fields and methods, and exactly the extracted
  relations, each place once; and a file whose declarations are incomplete is always announced.
\<close>

theorem untruncated_catalog_complete:
  assumes "\<not> ct_truncated (compose fs files symbols l)"
  shows "complete_catalog fs (compose fs files symbols l)"
proof -
  let ?s = "compose_files l (sort_key fx_path fs) start_composing"
  have within: "compose fs files symbols l = finish_catalog ?s"
    using assms by (auto simp: compose_def)
  have "open_or_marked start_composing" "ct_classes (cp_catalog start_composing) = []"
    "ct_relations (cp_catalog start_composing) = []" "cp_complete start_composing"
    by (simp_all add: start_composing_def empty_catalog_def open_or_marked_def)
  moreover have "\<not> ct_truncated (cp_catalog ?s)" using assms by (simp add: within finish_catalog_def Let_def)
  ultimately have "ct_classes (cp_catalog ?s) = concat (map whole_classes (sort_key fx_path fs))"
    and "ct_relations (cp_catalog ?s) = concat (map whole_relations (sort_key fx_path fs))"
    and "cp_complete ?s \<longleftrightarrow> (\<forall>f \<in> set fs. \<not> fx_registry_incomplete f)"
    using compose_files_whole [of start_composing l "sort_key fx_path fs"] by (simp_all add: grown_def)
  then show ?thesis
    using sorted_wrt_places [OF dedup_ids_strict, of "sort_key relation_place (concat (map whole_relations (sort_key fx_path fs)))"]
      dedup_ids_sub [of "sort_key relation_place (concat (map whole_relations (sort_key fx_path fs)))"]
    unfolding complete_catalog_def within
    by (simp add: finish_catalog_def Let_def mset_concat_map)
qed

text \<open>The catalogue does not depend on the order in which the files were extracted.
\<close>

theorem catalog_order_free:
  assumes "mset fs = mset fs'" and "distinct (map fx_path fs)"
  shows "compose fs files symbols l = compose fs' files symbols l"
proof -
  have "sort_key fx_path fs = sort_key fx_path fs'"
    using assms by (intro sort_key_inj_key_eq) (auto simp: distinct_map)
  then show ?thesis by (simp add: compose_def)
qed

section \<open>The catalogue stays within its limits\<close>

definition detail_count :: "class_definition list \<Rightarrow> class_relationship list \<Rightarrow> nat" where
  "detail_count cs rs = (\<Sum>c\<leftarrow>cs. length (cd_fields c) + length (cd_methods c)) + length rs"

text \<open>What the extractor records: every member and every relation counts as one record.\<close>

definition counts_records :: "detail_item list \<Rightarrow> bool" where
  "counts_records items \<longleftrightarrow> (\<forall>i \<in> set items. di_value i = ScopeText \<or> 1 \<le> di_records i)"

definition within_limits :: "limits \<Rightarrow> nat \<Rightarrow> composing \<Rightarrow> bool" where
  "within_limits l extra s \<longleftrightarrow>
     detail_count (ct_classes (cp_catalog s)) (ct_relations (cp_catalog s)) + extra \<le> cp_records s
     \<and> cp_records s \<le> lm_records l \<and> length (ct_classes (cp_catalog s)) \<le> lm_classes l
     \<and> length (ct_warnings (cp_catalog s)) \<le> 100"

lemma add_warning_count:
  "length (ct_warnings c) \<le> 100 \<Longrightarrow> length (ct_warnings (add_warning t m c)) \<le> 100"
  by (simp add: add_warning_def)

lemma add_warnings_count:
  "length (ct_warnings c) \<le> 100 \<Longrightarrow> length (ct_warnings (fold (add_warning t) ms c)) \<le> 100"
  by (induction ms arbitrary: c) (simp_all add: add_warning_count)

lemma limit_warning_count:
  "length (ct_warnings c) \<le> 100 \<Longrightarrow> length (ct_warnings (limit_warning t m c)) \<le> 100"
  by (simp add: limit_warning_def add_warning_count)

lemma compose_item_within:
  assumes "compose_item l i (s, c) = (s', c')"
    and "within_limits l (length (cd_fields c) + length (cd_methods c)) s"
    and "di_value i = ScopeText \<or> 1 \<le> di_records i"
  shows "within_limits l (length (cd_fields c') + length (cd_methods c')) s'
     \<and> ct_classes (cp_catalog s') = ct_classes (cp_catalog s)"
  using assms
  by (cases "di_value i")
    (auto simp: compose_item_def within_limits_def detail_count_def Let_def limit_warning_count split: if_splits)

lemma compose_items_within:
  assumes "fold (compose_item l) is (s, c) = (s', c')" and "counts_records is"
    and "within_limits l (length (cd_fields c) + length (cd_methods c)) s"
  shows "within_limits l (length (cd_fields c') + length (cd_methods c')) s'
     \<and> ct_classes (cp_catalog s') = ct_classes (cp_catalog s)"
  using assms
proof (induction "is" arbitrary: s c)
  case (Cons i "is")
  obtain s1 c1 where one: "compose_item l i (s, c) = (s1, c1)" by (cases "compose_item l i (s, c)")
  with Cons show ?case using compose_item_within [OF one] by (simp add: counts_records_def)
qed simp

lemma compose_class_within:
  assumes "within_limits l 0 s" and "counts_records items"
    and "length (ct_classes (cp_catalog s)) \<noteq> lm_classes l"
  shows "within_limits l 0 (compose_class l items index c s)"
proof -
  obtain s' c' where run: "fold (compose_item l) (filter (\<lambda>i. di_class_index i = index) items)
      (s, c\<lparr>cd_fields := [], cd_methods := []\<rparr>) = (s', c')" by force
  have "counts_records (filter (\<lambda>i. di_class_index i = index) items)"
    using assms(2) by (simp add: counts_records_def)
  from compose_items_within [OF run this] assms show ?thesis
    by (auto simp: compose_class_def run within_limits_def detail_count_def)
qed

lemma compose_classes_within:
  assumes "within_limits l 0 s" and "counts_records items"
  shows "within_limits l 0 (snd (compose_classes l items index cs s))"
  using assms
proof (induction cs arbitrary: index s)
  case (Cons c cs)
  then show ?case
    using compose_class_within [of l s items index c] by (auto simp: within_limits_def limit_warning_count)
qed simp

lemma compose_files_within:
  assumes "within_limits l 0 s" and "\<forall>f \<in> set fs. counts_records (fx_items f)"
  shows "within_limits l 0 (compose_files l fs s)"
  using assms
proof (induction fs arbitrary: s)
  case (Cons f fs)
  obtain stop s' where run: "compose_classes l (fx_items f) 0 (fx_classes f) (enter_file l f s) = (stop, s')"
    by force
  have "within_limits l 0 (enter_file l f s)"
    using Cons.prems(1) by (simp add: within_limits_def) (simp add: enter_file_def Let_def add_warnings_count)
  then have "within_limits l 0 s'"
    using compose_classes_within [of l "enter_file l f s" "fx_items f" 0 "fx_classes f"] run Cons.prems(2) by simp
  then show ?case
    using Cons.IH [of s'] run Cons.prems by (cases stop) (auto simp: within_limits_def limit_warning_count)
qed simp

lemma dedup_ids_length: "length (dedup_ids rs) \<le> length rs"
  by (induction rs rule: dedup_ids.induct) auto

text \<open>Whatever was extracted, a catalogue holds at most the permitted number of classes, at most the
  permitted number of members and relations, and at most 102 warnings.
\<close>

theorem catalog_bounded:
  assumes "\<forall>f \<in> set fs. counts_records (fx_items f)"
  shows "length (ct_classes (compose fs files symbols l)) \<le> lm_classes l
     \<and> detail_count (ct_classes (compose fs files symbols l)) (ct_relations (compose fs files symbols l)) \<le> lm_records l
     \<and> length (ct_warnings (compose fs files symbols l)) \<le> 102"
proof -
  let ?s = "compose_files l (sort_key fx_path fs) start_composing"
  have "within_limits l 0 start_composing"
    by (simp add: within_limits_def start_composing_def empty_catalog_def detail_count_def)
  then have s: "within_limits l 0 ?s" by (rule compose_files_within) (use assms in simp)
  have perm: "detail_count (sort_key class_place cs) rs = detail_count cs rs" for cs rs
    unfolding detail_count_def by (simp flip: sum_mset_sum_list)
  have fewer: "detail_count cs (dedup_ids rs) \<le> detail_count cs rs" for cs rs
    using dedup_ids_length [of rs] by (simp add: detail_count_def)
  show ?thesis
  proof (cases "lm_files l < files \<or> lm_symbols l < symbols")
    case True
    then show ?thesis by (simp add: compose_def empty_catalog_def detail_count_def)
  next
    case False
    then have out: "compose fs files symbols l = finish_catalog ?s" by (simp add: compose_def)
    have "detail_count (ct_classes (cp_catalog ?s)) (dedup_ids (sort_key relation_place (ct_relations (cp_catalog ?s)))) \<le> lm_records l"
      using s fewer [of "ct_classes (cp_catalog ?s)" "sort_key relation_place (ct_relations (cp_catalog ?s))"]
      by (simp add: within_limits_def detail_count_def)
    then show ?thesis
      using s by (simp add: out finish_catalog_def Let_def within_limits_def perm)
  qed
qed

section \<open>A concrete catalogue\<close>

definition sample_class :: "string \<Rightarrow> string \<Rightarrow> nat \<Rightarrow> class_definition" where
  "sample_class path i a =
     (let r = \<lparr>start_byte = a, end_byte = a + 9, start_line = 1, start_column = a, end_line = 1, end_column = a + 9\<rparr> in
     \<lparr>cd_symbol = \<lparr>sy_id = i, sy_name = i, sy_display_label = None, sy_kind = KClass, sy_path = path,
        sy_range = r, sy_parent = None, sy_accessor = False,
        sy_provenance = \<lparr>pv_source = ''parser'', pv_semantic = SemUnavailable\<rparr>\<rparr>,
      cd_qualified_name = i, cd_language = ''python'', cd_declaration_kind = ''class'', cd_fields = [],
      cd_methods = [], cd_truncated = False\<rparr>)"

definition sample_member :: "string \<Rightarrow> class_member" where
  "sample_member n = \<lparr>cm_name = n, cm_type_hint = Some ''int'', cm_symbol_id = None, cm_path = ''b.py'',
     cm_range = sy_range (cd_symbol (sample_class [] [] 4))\<rparr>"

definition sample_relation :: class_relationship where
  "sample_relation = \<lparr>cl_id = ''r'', cl_owner = ''B'', cl_target = None, cl_type_name = ''A'',
     cl_kind = ''field'', cl_path = ''b.py'', cl_range = sy_range (cd_symbol (sample_class [] [] 4)),
     cl_candidate_ids = [], cl_match_kind = ''syntax''\<rparr>"

definition sample_extracts :: "file_extraction list" where
  "sample_extracts = [
     \<lparr>fx_path = ''b.py'', fx_source_bytes = 40, fx_registry_bytes = 9, fx_warnings = [''recovered''],
      fx_truncated = False, fx_registry_incomplete = True, fx_classes = [sample_class ''b.py'' ''B'' 3],
      fx_items = [\<lparr>di_class_index = 0, di_records = 1, di_text = 4, di_value = DetailField (sample_member ''x'')\<rparr>,
                  \<lparr>di_class_index = 0, di_records = 0, di_text = 2, di_value = ScopeText\<rparr>,
                  \<lparr>di_class_index = 0, di_records = 1, di_text = 4, di_value = DetailRelation sample_relation\<rparr>,
                  \<lparr>di_class_index = 0, di_records = 1, di_text = 4, di_value = DetailRelation sample_relation\<rparr>]\<rparr>,
     \<lparr>fx_path = ''a.py'', fx_source_bytes = 20, fx_registry_bytes = 5, fx_warnings = [],
      fx_truncated = False, fx_registry_incomplete = False, fx_classes = [sample_class ''a.py'' ''A'' 0],
      fx_items = []\<rparr>]"

definition sample_limits :: "nat \<Rightarrow> limits" where
  "sample_limits classes = \<lparr>lm_file_bytes = 64, lm_total_bytes = 64, lm_visits = 9, lm_depth = 9,
     lm_file_classes = 9, lm_classes = classes, lm_members = 9, lm_file_refs = 9, lm_records = 9, lm_text = 9,
     lm_output_text = 64, lm_registry_text = 64, lm_files = 3, lm_symbols = 9\<rparr>"

lemma sample_extracts_composed:
  "\<not> ct_truncated (compose sample_extracts 2 2 (sample_limits 5))"
  "map cd_qualified_name (ct_classes (compose sample_extracts 2 2 (sample_limits 5))) = [''A'', ''B'']"
  "length (ct_relations (compose sample_extracts 2 2 (sample_limits 5))) = 1"
  by code_simp+

theorem untruncated_catalog_complete_witness:
  "complete_catalog sample_extracts (compose sample_extracts 2 2 (sample_limits 5))
     \<and> length (ct_relations (compose sample_extracts 2 2 (sample_limits 5))) = 1"
  using untruncated_catalog_complete [OF sample_extracts_composed(1)] sample_extracts_composed(3) by simp

theorem catalog_bounded_witness:
  "length (ct_warnings (compose sample_extracts 2 2 (sample_limits 1))) \<le> 102
     \<and> ct_truncated (compose sample_extracts 2 2 (sample_limits 1))"
proof -
  have "counts_records (fx_items f)" if "f \<in> set sample_extracts" for f
    using that by (auto simp: sample_extracts_def counts_records_def)
  then have "length (ct_warnings (compose sample_extracts 2 2 (sample_limits 1))) \<le> 102"
    using catalog_bounded [of sample_extracts 2 2 "sample_limits 1"] by blast
  moreover have "ct_truncated (compose sample_extracts 2 2 (sample_limits 1))"
    by code_simp
  ultimately show ?thesis ..
qed

end
