(* ===== verification/Paging.thy ===== *)
theory Paging
  imports Prelude
begin

section \<open>Catalogues read page by page\<close>

text \<open>
  Several requests return one page of a catalogue with the offset of the next one. What their
  client relies on is one law, stated here as a locale: a page renders a run of the rows from its
  offset on, at least one row where there is one, and names the offset after it exactly when rows
  remain. A client that follows the offsets then sees every row once.
\<close>

text \<open>Following the offsets with some fuel; \<open>None\<close> when it does not suffice.\<close>

fun walk_pages :: "(nat \<Rightarrow> ('i list \<times> nat option) result) \<Rightarrow> nat \<Rightarrow> nat \<Rightarrow> 'i list result option" where
  "walk_pages page 0 off = None"
| "walk_pages page (Suc n) off = (case page off of Inl e \<Rightarrow> Some (Inl e)
     | Inr (items, None) \<Rightarrow> Some (Inr items)
     | Inr (items, Some next) \<Rightarrow> (case walk_pages page n next of None \<Rightarrow> None
         | Some (Inl e) \<Rightarrow> Some (Inl e) | Some (Inr more) \<Rightarrow> Some (Inr (items @ more))))"

definition run_of :: "('r \<Rightarrow> 'i list) \<Rightarrow> 'r list \<Rightarrow> nat \<Rightarrow> nat \<Rightarrow> 'i list \<times> nat option" where
  "run_of render rows off k =
     (concat (map render (take k (drop off rows))), if off + k < length rows then Some (off + k) else None)"

locale paging =
  fixes page :: "nat \<Rightarrow> ('i list \<times> nat option) result"
    and rows :: "'r list"
    and render :: "'r \<Rightarrow> 'i list"
  assumes page_run: "off \<le> length rows \<Longrightarrow>
    \<exists>k. page off = Inr (run_of render rows off k) \<and> (off < length rows \<longrightarrow> 0 < k)"
begin

lemma walk_all:
  "off \<le> length rows \<Longrightarrow> length rows - off < n \<Longrightarrow>
     walk_pages page n off = Some (Inr (concat (map render (drop off rows))))"
proof (induction n arbitrary: off)
  case (Suc n)
  obtain k where k: "page off = Inr (run_of render rows off k)" and pos: "off < length rows \<longrightarrow> 0 < k"
    using page_run [OF Suc.prems(1)] by blast
  show ?case
  proof (cases "off + k < length rows")
    case True
    have "drop off rows = take k (drop off rows) @ drop (off + k) rows"
      by (metis add.commute append_take_drop_id drop_drop)
    then have "concat (map render (drop off rows))
        = concat (map render (take k (drop off rows))) @ concat (map render (drop (off + k) rows))"
      by (metis concat_append map_append)
    moreover have "walk_pages page n (off + k) = Some (Inr (concat (map render (drop (off + k) rows))))"
      using Suc.prems True pos by (intro Suc.IH) auto
    ultimately show ?thesis using True by (simp add: k run_of_def)
  next
    case False
    then show ?thesis by (simp add: k run_of_def)
  qed
qed simp

lemma walk_complete: "walk_pages page (Suc (length rows)) 0 = Some (Inr (concat (map render rows)))"
  using walk_all [of 0 "Suc (length rows)"] by simp

end

text \<open>The plain page: a slice of the rows, with the next offset computed from the length.\<close>

definition slice_page :: "'r list \<Rightarrow> nat \<Rightarrow> nat \<Rightarrow> 'r list \<times> nat option" where
  "slice_page rows limit off =
     (take limit (drop off rows), if off + limit < length rows then Some (off + limit) else None)"

interpretation slices: paging "\<lambda>off. Inr (slice_page rows (Suc limit) off)" rows "\<lambda>r. [r]" for rows limit
proof
  fix off
  have "concat (map (\<lambda>r. [r]) xs) = xs" for xs :: "'a list" by (induction xs) simp_all
  then show "\<exists>k. (Inr (slice_page rows (Suc limit) off) :: ('a list \<times> nat option) result)
      = Inr (run_of (\<lambda>r. [r]) rows off k) \<and> (off < length rows \<longrightarrow> 0 < k)"
    by (intro exI [of _ "Suc limit"]) (simp add: slice_page_def run_of_def)
qed

end
