(* ===== verification/Catalogs.thy ===== *)
theory Catalogs
  imports Reads Classes Paging
begin

section \<open>Class catalogue, class diagrams and file lists (\<open>store.rs\<close>, \<open>class_diagram.rs\<close>)\<close>

text \<open>
  The read-only requests on the class catalogue of a revision and on its documents: bounded
  presentations of one class, search by name page by page, the class around a symbol, and the
  diagram of explicitly selected classes. As in \<open>Reads\<close> a request sees one state of the tables;
  what SQLite and serde compute from a payload are the fields of \<open>class_env\<close>.
\<close>

record class_row =
  kc_projection :: string
  kc_id :: string
  kc_name :: string
  kc_qualified :: string
  kc_path :: string
  kc_payload :: string

record class_db =
  cb_index :: index_db
  cb_classes :: "class_row list"
  cb_warning_json :: "string \<Rightarrow> nat"
  cb_warnings :: "string \<Rightarrow> string list result"
  cb_truncated :: "string \<Rightarrow> bool"

record class_env =
  ce_read :: read_env
  ce_json_valid :: "string \<Rightarrow> bool"
  ce_class :: "string \<Rightarrow> class_definition result"
  ce_clip_shape :: "string \<Rightarrow> bool"
  ce_clip :: "nat \<Rightarrow> string \<Rightarrow> string"
  ce_json_bytes :: "string \<Rightarrow> nat"
  ce_attest_classes :: "string \<Rightarrow> string set \<Rightarrow> unit result"

definition CLASS_BYTES :: nat where "CLASS_BYTES = 64 * 1024"
definition PAGE_BYTES :: nat where "PAGE_BYTES = 3 * 1024 * 1024"
definition MAX_NODES :: nat where "MAX_NODES = 24"
definition MAX_EXPANDED :: nat where "MAX_EXPANDED = 12"

definition BYTE_NOTICE :: string where
  "BYTE_NOTICE = ''Presentation byte limits omitted some class members or relationships; stored source evidence is unchanged.''"

definition INDEX_NOTICE :: string where
  "INDEX_NOTICE = ''Index workspace to build class diagrams for this snapshot.''"

definition valid_class_id :: "string \<Rightarrow> bool" where
  "valid_class_id i \<longleftrightarrow> i \<noteq> [] \<and> length i \<le> 8192 \<and> CHR 0x00 \<notin> set i"

subsection \<open>Metadata of the catalogue\<close>

fun visible_warnings :: "(string \<Rightarrow> nat) \<Rightarrow> nat \<Rightarrow> string list \<Rightarrow> string list \<times> bool" where
  "visible_warnings cost bytes [] = ([], False)"
| "visible_warnings cost bytes (w # ws) =
     (if 256 * 1024 < bytes + cost w + 1
      then ([''Further catalog warnings omitted by the presentation byte limit.''], True)
      else let (rest, cut) = visible_warnings cost (bytes + cost w + 1) ws in (w # rest, cut))"

definition class_metadata :: "class_env \<Rightarrow> class_db \<Rightarrow> string \<Rightarrow> (string list \<times> bool) result" where
  "class_metadata env db key =
     ensure (cb_warning_json db key \<le> 256 * 1024) ''incompatible_index: class catalog byte budget exceeded'' (
     bind_result (cb_warnings db key) (\<lambda>ws.
     let (shown, cut) = visible_warnings (ce_json_bytes env) 0 ws in
     Inr (shown, cb_truncated db key \<or> cut)))"

subsection \<open>The presentation of one class\<close>

definition classes_of :: "class_db \<Rightarrow> string \<Rightarrow> class_row list" where
  "classes_of db key = in_manifest (cb_index db) key mr_class kc_projection (cb_classes db)"

fun clipped_class :: "class_env \<Rightarrow> string \<Rightarrow> nat list \<Rightarrow> (class_definition \<times> nat \<times> bool) option result" where
  "clipped_class env payload [] = Inr None"
| "clipped_class env payload (n # ns) =
     (if length (ce_clip env n payload) \<le> CLASS_BYTES
      then bind_result (ce_class env (ce_clip env n payload)) (\<lambda>c.
        Inr (Some (c, length (ce_clip env n payload), True)))
      else clipped_class env payload ns)"

definition presentation_class :: "class_env \<Rightarrow> class_db \<Rightarrow> string \<Rightarrow> string
    \<Rightarrow> (class_definition \<times> nat \<times> bool) option result" where
  "presentation_class env db key i =
     (case filter (\<lambda>r. kc_id r = i) (classes_of db key) of [] \<Rightarrow> Inr None
     | r # _ \<Rightarrow>
       ensure (ce_json_valid env (kc_payload r)) ''incompatible_index: selected class JSON invalid'' (
       if length (kc_payload r) \<le> CLASS_BYTES
       then bind_result (ce_class env (kc_payload r)) (\<lambda>c. Inr (Some (c, length (kc_payload r), False)))
       else ensure (ce_clip_shape env (kc_payload r)) ''incompatible_index: selected class member JSON invalid''
         (clipped_class env (kc_payload r) [32, 16, 8, 4, 2, 1, 0])))"

subsection \<open>The class around a symbol\<close>

definition unindexed_class :: string where
  "unindexed_class = ''Choose an indexed Java or Python class or method.''"

text \<open>\<open>for depth in 0..64\<close>: the first argument counts the turns left, the second is the depth.\<close>

fun resolve_steps :: "class_env \<Rightarrow> class_db \<Rightarrow> string \<Rightarrow> nat \<Rightarrow> nat \<Rightarrow> string set \<Rightarrow> string \<Rightarrow> string result" where
  "resolve_steps env db key 0 depth seen current = Inl ''The selected symbol exceeds the class ancestry limit.''"
| "resolve_steps env db key (Suc n) depth seen current =
     ensure (current \<notin> seen) ''The selected symbol has a cyclic class ancestry.'' (
     if current \<in> kc_id ` set (classes_of db key) then Inr current
     else bind_result (symbol_row (ce_read env) (cb_index db) key current) (\<lambda>found.
       bind_result (ok_or found unindexed_class) (\<lambda>s.
       ensure (0 < depth \<or> sy_kind s = KMethod \<or> sy_kind s = KFunction) unindexed_class (
       bind_result (ok_or (sy_parent s) ''The selected method has no supported enclosing class.'') (\<lambda>p.
       resolve_steps env db key n (Suc depth) (insert current seen) p)))))"

definition resolve_class_id :: "class_env \<Rightarrow> class_db \<Rightarrow> string \<Rightarrow> string \<Rightarrow> string result" where
  "resolve_class_id env db key i = resolve_steps env db key 64 0 {} i"

definition resolve_class :: "class_env \<Rightarrow> class_db \<Rightarrow> string \<Rightarrow> string \<Rightarrow> (class_definition \<times> bool) result" where
  "resolve_class env db key i =
     bind_result (resolve_class_id env db key i) (\<lambda>c.
     bind_result (presentation_class env db key c) (\<lambda>p.
     bind_result (ok_or p ''Class metadata exceeds the presentation byte limit.'') (\<lambda>(class, _, clipped).
     Inr (class, clipped))))"

subsection \<open>Class diagrams\<close>

record class_diagram_request =
  cq_seed :: string
  cq_expected_revision :: index_pin
  cq_expanded :: "string list"
  cq_include_unmatched :: bool
  cq_include_hierarchy :: bool

definition validate_diagram_request :: "class_diagram_request \<Rightarrow> unit result" where
  "validate_diagram_request q =
     ensure (valid_class_id (cq_seed q)) ''Choose a valid class or method ID.'' (
     ensure (length (cq_expanded q) \<le> MAX_EXPANDED \<and> list_all valid_class_id (cq_expanded q))
       ''Choose at most 12 valid related classes to expand.'' (Inr ()))"

record class_diagram_node =
  cn_id :: string
  cn_class :: "class_definition option"
  cn_label :: string
  cn_kind :: string
  cn_expandable :: bool

record class_diagram =
  cg_revision :: index_pin
  cg_seed :: string
  cg_nodes :: "class_diagram_node list"
  cg_edges :: "class_relationship list"
  cg_warnings :: "string list"
  cg_truncated :: bool
  cg_require_index :: bool

definition project :: "index_pin \<Rightarrow> string list \<Rightarrow> (string \<times> class_definition) list \<Rightarrow> string list \<Rightarrow> bool \<Rightarrow> class_diagram" where
  "project revision seeds classes warnings truncated =
     (let nodes = concat (map (\<lambda>s. case map_of classes s of None \<Rightarrow> []
          | Some c \<Rightarrow> [\<lparr>cn_id = sy_id (cd_symbol c), cn_class = Some c, cn_label = cd_qualified_name c,
                       cn_kind = ''class'', cn_expandable = True\<rparr>]) seeds);
          cut = truncated \<or> MAX_NODES < length nodes in
     \<lparr>cg_revision = revision, cg_seed = hd seeds, cg_nodes = take MAX_NODES nodes, cg_edges = [],
      cg_warnings = warnings @ (if cut then [''Class diagram is partial: catalog or node limit was reached.''] else []),
      cg_truncated = cut, cg_require_index = False\<rparr>)"

text \<open>The loop over the expansions: a class that is there already is not added again.\<close>

fun expand_classes :: "class_env \<Rightarrow> class_db \<Rightarrow> string \<Rightarrow> string list \<Rightarrow> string list \<Rightarrow> (string \<times> class_definition) list
    \<Rightarrow> (string list \<times> (string \<times> class_definition) list) result" where
  "expand_classes env db key [] seeds classes = Inr (seeds, classes)"
| "expand_classes env db key (e # es) seeds classes =
     bind_result (resolve_class env db key e) (\<lambda>(class, _).
     let i = sy_id (cd_symbol class) in
     if has_key classes i then expand_classes env db key es seeds classes
     else ensure (length classes < MAX_NODES) ''Too many selected classes.''
       (expand_classes env db key es (seeds @ [i]) (classes @ [(i, class)])))"

definition class_diagram_at :: "class_env \<Rightarrow> class_db \<Rightarrow> class_diagram_request \<Rightarrow> class_diagram result" where
  "class_diagram_at env db q =
     bind_result (validate_diagram_request q) (\<lambda>_.
     bind_result (read_revision_for (ce_read env) (cb_index db) (Some (cq_expected_revision q))) (\<lambda>rv.
     bind_result (class_metadata env db (rv_key rv)) (\<lambda>(warnings, truncated).
     bind_result (resolve_class env db (rv_key rv) (cq_seed q)) (\<lambda>(seed, clipped).
     let i = sy_id (cd_symbol seed) in
     bind_result (expand_classes env db (rv_key rv) (cq_expanded q) [i] [(i, seed)]) (\<lambda>(seeds, classes).
     bind_result (ce_attest_classes env (rv_key rv) ((\<lambda>(_, c). sy_path (cd_symbol c)) ` set classes)) (\<lambda>_.
     Inr (project (rv_pin rv) seeds classes warnings (truncated \<or> clipped))))))))"

subsection \<open>Searching classes\<close>

text \<open>
  SQLite's \<open>LIKE ... ESCAPE '\'\<close>, which ignores the case of ASCII letters, and the pattern the
  request builds from its text.
\<close>

definition ascii_lower :: "char \<Rightarrow> char" where
  "ascii_lower c = (if 65 \<le> byte c \<and> byte c \<le> 90 then char_of (byte c + 32) else c)"

function like :: "string \<Rightarrow> string \<Rightarrow> bool" where
  "like [] t \<longleftrightarrow> t = []"
| "like (c # p) t \<longleftrightarrow>
     (if c = CHR 0x5C then (case (p, t) of (d # p', x # t') \<Rightarrow> ascii_lower x = ascii_lower d \<and> like p' t' | _ \<Rightarrow> False)
      else if c = CHR ''%'' then like p t \<or> (case t of [] \<Rightarrow> False | _ # t' \<Rightarrow> like (c # p) t')
      else if c = CHR ''_'' then (case t of [] \<Rightarrow> False | _ # t' \<Rightarrow> like p (dropWhile continuation t'))
      else (case t of [] \<Rightarrow> False | x # t' \<Rightarrow> ascii_lower x = ascii_lower c \<and> like p t'))"
  by pat_completeness auto
termination
  by (relation "measure (\<lambda>(p, t). length p + length t)")
     (auto simp: less_Suc_eq_le intro: le_SucI length_dropWhile_le)

definition replace_char :: "char \<Rightarrow> string \<Rightarrow> string \<Rightarrow> string" where
  "replace_char c by s = concat (map (\<lambda>x. if x = c then by else [x]) s)"

definition search_pattern :: "string \<Rightarrow> string" where
  "search_pattern q = ''%'' @ replace_char (CHR ''_'') [CHR 0x5C, CHR ''_'']
     (replace_char (CHR ''%'') [CHR 0x5C, CHR ''%''] (replace_char (CHR 0x5C) [CHR 0x5C, CHR 0x5C] q)) @ ''%''"

definition class_order :: "string \<Rightarrow> class_row \<Rightarrow> nat \<times> string \<times> string \<times> string" where
  "class_order query r = (if map ascii_lower (kc_name r) = map ascii_lower query then 0 else 1,
     kc_qualified r, kc_path r, kc_id r)"

definition matching_classes :: "class_db \<Rightarrow> string \<Rightarrow> string option \<Rightarrow> string \<Rightarrow> string list" where
  "matching_classes db key path query = map kc_id (sort_key (class_order query)
     (filter (\<lambda>r. (case path of None \<Rightarrow> True | Some p \<Rightarrow> kc_path r = p)
        \<and> (like (search_pattern query) (kc_name r) \<or> like (search_pattern query) (kc_qualified r) \<or> kc_id r = query))
      (classes_of db key)))"

record class_page =
  pg_revision :: index_pin
  pg_items :: "class_definition list"
  pg_next_offset :: "nat option"
  pg_truncated :: bool
  pg_warnings :: "string list"
  pg_require_index :: bool

text \<open>The loop that fills a page: classes, rows consumed, and whether a byte limit was met.\<close>

fun fill_page :: "(string \<Rightarrow> (class_definition \<times> nat \<times> bool) option result) \<Rightarrow> string list \<Rightarrow> nat
    \<Rightarrow> (class_definition list \<times> nat \<times> bool) result" where
  "fill_page look [] bytes = Inr ([], 0, False)"
| "fill_page look (i # is) bytes =
     bind_result (look i) (\<lambda>p. case p of
       None \<Rightarrow> bind_result (fill_page look is bytes) (\<lambda>(items, consumed, _). Inr (items, Suc consumed, True))
     | Some (class, n, clipped) \<Rightarrow>
         if PAGE_BYTES < bytes + n then Inr ([], 0, True)
         else bind_result (fill_page look is (bytes + n)) (\<lambda>(items, consumed, limited).
           Inr (class # items, Suc consumed, clipped \<or> limited)))"

definition class_path_ok :: "string \<Rightarrow> bool" where
  "class_path_ok path \<longleftrightarrow> path \<noteq> [] \<and> length path \<le> 8192
     \<and> CHR 0x00 \<notin> set path \<and> CHR 0x5C \<notin> set path \<and> CHR '':'' \<notin> set path
     \<and> \<not> list_ex (\<lambda>p. p = [] \<or> p = ''.'' \<or> p = ''..'') (split_on (CHR ''/'') path)"

definition ends_with :: "string \<Rightarrow> string \<Rightarrow> bool" where
  "ends_with s path \<longleftrightarrow> starts_with (rev s) (rev path)"

definition class_language_notice :: "string option \<Rightarrow> string list" where
  "class_language_notice path = (case path of None \<Rightarrow> [] | Some p \<Rightarrow>
     if ends_with ''.java'' p \<or> ends_with ''.py'' p then []
     else [''Class diagrams currently support Java and Python declarations only.''])"

text \<open>The paths whose classes are attested: those shown, and a Java or Python file asked for.\<close>

definition page_paths :: "class_db \<Rightarrow> string \<Rightarrow> string option \<Rightarrow> class_definition list \<Rightarrow> string set" where
  "page_paths db key path items = (\<lambda>c. sy_path (cd_symbol c)) ` set items \<union> (case path of None \<Rightarrow> {} | Some p \<Rightarrow>
     if last (split_on (CHR ''.'') p) \<in> {''java'', ''py''}
        \<and> (\<exists>m \<in> set (db_manifest (cb_index db)). mr_revision m = key \<and> mr_path m = p)
     then {p} else {})"

definition classes_at :: "class_env \<Rightarrow> class_db \<Rightarrow> string option \<Rightarrow> string \<Rightarrow> index_pin option \<Rightarrow> nat \<Rightarrow> nat
    \<Rightarrow> class_page result" where
  "classes_at env db asked query expected limit offset =
     (let path = (if asked = Some [] then None else asked) in
     ensure (1 \<le> limit \<and> limit \<le> 100 \<and> offset \<le> 1000000 \<and> length query \<le> 512 \<and> CHR 0x00 \<notin> set query)
       (''Class search allows 1'' @ [CHR 0xE2, CHR 0x80, CHR 0x93] @ ''100 results and a query of at most 512 bytes.'') (
     ensure (case path of None \<Rightarrow> True | Some p \<Rightarrow> class_path_ok p)
       ''Choose a workspace-relative class source path.'' (
     bind_result (read_revision_for (ce_read env) (cb_index db) expected) (\<lambda>rv. let key = rv_key rv in
     bind_result (class_metadata env db key) (\<lambda>(warnings, truncated).
     let ids = take (limit + 1) (drop offset (matching_classes db key path query)) in
     bind_result (fill_page (presentation_class env db key) (take limit ids) 0) (\<lambda>(items, consumed, limited).
     bind_result (ce_attest_classes env key (page_paths db key path items)) (\<lambda>_.
     Inr \<lparr>pg_revision = rv_pin rv, pg_items = items,
       pg_next_offset = (if consumed < length ids then Some (offset + consumed) else None),
       pg_truncated = truncated \<or> limited,
       pg_warnings = warnings @ (if limited then [BYTE_NOTICE] else []) @ class_language_notice path,
       pg_require_index = False\<rparr>)))))))"

section \<open>Search finds exactly the text asked for\<close>

definition like_escape :: "char \<Rightarrow> string" where
  "like_escape c = (if c = CHR 0x5C \<or> c = CHR ''%'' \<or> c = CHR ''_'' then [CHR 0x5C, c] else [c])"

lemma search_pattern_escapes: "search_pattern q = ''%'' @ concat (map like_escape q) @ ''%''"
  unfolding search_pattern_def replace_char_def
  by (induction q) (auto simp: like_escape_def)

lemma like_any: "like (CHR ''%'' # p) t \<longleftrightarrow> (\<exists>a b. t = a @ b \<and> like p b)"
proof (induction t)
  case Nil
  then show ?case by simp
next
  case (Cons x t)
  have "(\<exists>a b. x # t = a @ b \<and> like p b) \<longleftrightarrow> like p (x # t) \<or> (\<exists>a b. t = a @ b \<and> like p b)"
    by (metis append_Cons append_Nil list.exhaust list.inject)
  then show ?case using Cons by simp
qed

lemma like_escape_step:
  "like (like_escape c @ p) t \<longleftrightarrow> (\<exists>x t'. t = x # t' \<and> ascii_lower x = ascii_lower c \<and> like p t')"
  by (cases t) (auto simp: like_escape_def)

lemma like_escaped:
  "like (concat (map like_escape q) @ p) t
     \<longleftrightarrow> (\<exists>m b. t = m @ b \<and> map ascii_lower m = map ascii_lower q \<and> like p b)"
proof (induction q arbitrary: t)
  case (Cons c q)
  have "like (concat (map like_escape (c # q)) @ p) t \<longleftrightarrow>
      (\<exists>x t'. t = x # t' \<and> ascii_lower x = ascii_lower c \<and> like (concat (map like_escape q) @ p) t')"
    using like_escape_step [of c "concat (map like_escape q) @ p" t] by simp
  also have "\<dots> \<longleftrightarrow> (\<exists>m b. t = m @ b \<and> map ascii_lower m = map ascii_lower (c # q) \<and> like p b)"
    unfolding Cons.IH
  proof (intro iffI; elim exE conjE)
    fix x t' m b
    assume "t = x # t'" "ascii_lower x = ascii_lower c" "t' = m @ b" "map ascii_lower m = map ascii_lower q" "like p b"
    then show "\<exists>m b. t = m @ b \<and> map ascii_lower m = map ascii_lower (c # q) \<and> like p b"
      by (intro exI [of _ "x # m"] exI [of _ b]) simp
  next
    fix m b
    assume t: "t = m @ b" "map ascii_lower m = map ascii_lower (c # q)" "like p b"
    then obtain x m' where "m = x # m'" "ascii_lower x = ascii_lower c" "map ascii_lower m' = map ascii_lower q"
      by (cases m) simp_all
    with t show "\<exists>x t'. t = x # t' \<and> ascii_lower x = ascii_lower c
        \<and> (\<exists>m b. t' = m @ b \<and> map ascii_lower m = map ascii_lower q \<and> like p b)"
      by (intro exI [of _ x] exI [of _ "m' @ b"]) auto
  qed
  finally show ?case .
qed simp

text \<open>The class search means what it says: a name is found exactly when it contains the text of the
  query, ignoring the case of ASCII letters; no character of the query acts as a wildcard.
\<close>

theorem class_search_is_containment:
  "like (search_pattern q) name \<longleftrightarrow> (\<exists>before found after.
     name = before @ found @ after \<and> map ascii_lower found = map ascii_lower q)"
proof -
  have "like ''%'' b" for b using like_any [of "[]" b] by simp
  then have "like (concat (map like_escape q) @ ''%'') t
      \<longleftrightarrow> (\<exists>m b. t = m @ b \<and> map ascii_lower m = map ascii_lower q)" for t
    by (simp only: like_escaped simp_thms)
  then show ?thesis
    using like_any [of "concat (map like_escape q) @ ''%''" name] by (simp add: search_pattern_escapes) blast
qed

section \<open>Following the pages of the class search shows every class\<close>

definition rendered :: "(string \<Rightarrow> (class_definition \<times> nat \<times> bool) option result) \<Rightarrow> string \<Rightarrow> class_definition list" where
  "rendered look i = (case look i of Inr (Some (c, _, _)) \<Rightarrow> [c] | _ \<Rightarrow> [])"

lemma clipped_class_bound: "clipped_class env payload ns = Inr (Some (c, n, clip)) \<Longrightarrow> n \<le> CLASS_BYTES"
  by (induction env payload ns rule: clipped_class.induct) (auto split: if_splits)

lemma presentation_bound:
  "presentation_class env db key i = Inr (Some (c, n, clip)) \<Longrightarrow> n \<le> CLASS_BYTES"
  by (auto simp: presentation_class_def dest: clipped_class_bound split: list.splits if_splits)

lemma fill_page_run:
  assumes "\<forall>i \<in> set is. \<exists>p. look i = Inr p"
  shows "\<exists>k limited. fill_page look is bytes = Inr (concat (map (rendered look) (take k is)), k, limited)
     \<and> k \<le> length is \<and> (\<not> limited \<longrightarrow> k = length is)"
  using assms
proof (induction "is" arbitrary: bytes)
  case Nil
  then show ?case by (intro exI [of _ 0] exI [of _ False]) simp
next
  case (Cons i "is")
  then obtain p where p: "look i = Inr p" by auto
  show ?case
  proof (cases p)
    case None
    obtain k limited where "fill_page look is bytes = Inr (concat (map (rendered look) (take k is)), k, limited)"
      and "k \<le> length is" using Cons.IH [of bytes] Cons.prems by auto
    moreover have "rendered look i = []" using p None by (simp add: rendered_def)
    ultimately show ?thesis using p None by (intro exI [of _ "Suc k"] exI [of _ True]) simp
  next
    case (Some q)
    obtain c n clip where q: "q = (c, n, clip)" by (cases q)
    show ?thesis
    proof (cases "PAGE_BYTES < bytes + n")
      case True
      then show ?thesis using p Some q by (intro exI [of _ 0] exI [of _ True]) simp
    next
      case False
      obtain k limited where "fill_page look is (bytes + n) = Inr (concat (map (rendered look) (take k is)), k, limited)"
        and "k \<le> length is" "\<not> limited \<longrightarrow> k = length is"
        using Cons.IH [of "bytes + n"] Cons.prems by auto
      moreover have "rendered look i = [c]" using p Some q by (simp add: rendered_def)
      ultimately show ?thesis
        using p Some q False by (intro exI [of _ "Suc k"] exI [of _ "clip \<or> limited"]) simp
    qed
  qed
qed

lemma fill_page_first:
  assumes "fill_page (presentation_class env db key) (i # is) 0 = Inr (items, k, limited)"
  shows "0 < k"
proof (cases "presentation_class env db key i")
  case (Inr p)
  show ?thesis
  proof (cases p)
    case None
    then show ?thesis using assms Inr by auto
  next
    case (Some q)
    obtain c n clip where q: "q = (c, n, clip)" by (cases q)
    have "n \<le> CLASS_BYTES" using presentation_bound Inr Some q by metis
    then have "\<not> PAGE_BYTES < n" by (simp add: CLASS_BYTES_def PAGE_BYTES_def)
    then show ?thesis using assms Inr Some q by auto
  qed
qed (use assms in simp)

definition class_page_at :: "class_env \<Rightarrow> class_db \<Rightarrow> string option \<Rightarrow> string \<Rightarrow> index_pin option \<Rightarrow> nat \<Rightarrow> nat
    \<Rightarrow> (class_definition list \<times> nat option) result" where
  "class_page_at env db path query expected limit offset =
     bind_result (classes_at env db path query expected limit offset) (\<lambda>p. Inr (pg_items p, pg_next_offset p))"

text \<open>A request that the validation accepts, on a revision whose rows can all be read and attested.\<close>

definition readable_search :: "class_env \<Rightarrow> class_db \<Rightarrow> string option \<Rightarrow> string \<Rightarrow> index_pin option \<Rightarrow> nat \<Rightarrow> string \<Rightarrow> bool" where
  "readable_search env db path query expected limit key \<longleftrightarrow>
     1 \<le> limit \<and> limit \<le> 100 \<and> length query \<le> 512 \<and> CHR 0x00 \<notin> set query
     \<and> (case path of None \<Rightarrow> True | Some p \<Rightarrow> class_path_ok p)
     \<and> (\<exists>pin. read_revision_for (ce_read env) (cb_index db) expected = Inr \<lparr>rv_pin = pin, rv_key = key\<rparr>)
     \<and> is_ok (class_metadata env db key)
     \<and> (\<forall>i \<in> set (matching_classes db key path query). is_ok (presentation_class env db key i))
     \<and> (\<forall>paths. ce_attest_classes env key paths = Inr ())
     \<and> length (matching_classes db key path query) \<le> 1000000"

lemma class_page_run:
  assumes ok: "readable_search env db path query expected limit key"
    and off: "offset \<le> length (matching_classes db key path query)"
  shows "\<exists>k. class_page_at env db path query expected limit offset
        = Inr (run_of (rendered (presentation_class env db key)) (matching_classes db key path query) offset k)
      \<and> (offset < length (matching_classes db key path query) \<longrightarrow> 0 < k)"
proof -
  let ?rows = "matching_classes db key path query" and ?look = "presentation_class env db key"
  let ?ids = "take (limit + 1) (drop offset ?rows)"
  obtain pin where rv: "read_revision_for (ce_read env) (cb_index db) expected = Inr \<lparr>rv_pin = pin, rv_key = key\<rparr>"
    using ok by (auto simp: readable_search_def)
  obtain ws tr where meta: "class_metadata env db key = Inr (ws, tr)"
    using ok by (auto simp: readable_search_def is_ok_iff)
  have path: "path \<noteq> Some []" using ok by (auto simp: readable_search_def class_path_ok_def)
  have "\<forall>i \<in> set (take limit ?ids). \<exists>p. ?look i = Inr p"
    using ok by (auto simp: readable_search_def is_ok_iff dest!: in_set_takeD in_set_dropD)
  then obtain k limited where fill: "fill_page ?look (take limit ?ids) 0
      = Inr (concat (map (rendered ?look) (take k (take limit ?ids))), k, limited)"
    and k: "k \<le> length (take limit ?ids)" using fill_page_run [of "take limit ?ids" ?look 0] by blast
  have same: "take k (take limit ?ids) = take k (drop offset ?rows)"
  proof -
    have "k \<le> limit" using k by simp
    then show ?thesis by (simp add: min_absorb1 min_absorb2)
  qed
  have next_off: "(if k < length ?ids then Some (offset + k) else None)
      = (if offset + k < length ?rows then Some (offset + k) else None)"
    using k off by (auto simp: min_def split: if_splits)
  have "0 < k" if more: "offset < length ?rows"
  proof -
    obtain i "is" where "take limit ?ids = i # is"
      using more ok by (cases "take limit ?ids") (auto simp: readable_search_def)
    then show ?thesis using fill fill_page_first by metis
  qed
  moreover have "class_page_at env db path query expected limit offset
      = Inr (run_of (rendered ?look) ?rows offset k)"
    using ok off path rv meta fill next_off same
    by (simp add: class_page_at_def classes_at_def readable_search_def run_of_def Let_def)
  ultimately show ?thesis by blast
qed


section \<open>The class around a symbol and the diagrams\<close>

text \<open>\<open>enclosed_by env db key i c\<close>: going from \<open>i\<close> to parents, the first class met is \<open>c\<close>.\<close>

inductive enclosed_by :: "class_env \<Rightarrow> class_db \<Rightarrow> string \<Rightarrow> string \<Rightarrow> string \<Rightarrow> bool" for env db key where
  itself: "c \<in> kc_id ` set (classes_of db key) \<Longrightarrow> enclosed_by env db key c c"
| parent: "i \<notin> kc_id ` set (classes_of db key) \<Longrightarrow>
     symbol_row (ce_read env) (cb_index db) key i = Inr (Some s) \<Longrightarrow> sy_parent s = Some p \<Longrightarrow>
     enclosed_by env db key p c \<Longrightarrow> enclosed_by env db key i c"

inductive_cases enclosed_itself: "enclosed_by env db key i c"

lemma resolve_steps_sound:
  "resolve_steps env db key n depth seen i = Inr c \<Longrightarrow> enclosed_by env db key i c"
proof (induction n arbitrary: depth seen i)
  case (Suc n)
  show ?case
  proof (cases "i \<in> kc_id ` set (classes_of db key)")
    case True
    then show ?thesis using Suc.prems by (auto intro: enclosed_by.itself)
  next
    case False
    then obtain s p where "symbol_row (ce_read env) (cb_index db) key i = Inr (Some s)" "sy_parent s = Some p"
      and "resolve_steps env db key n (Suc depth) (insert i seen) p = Inr c"
      using Suc.prems by auto
    then show ?thesis using False Suc.IH by (blast intro: enclosed_by.parent)
  qed
qed simp

lemma enclosed_class: "enclosed_by env db key i c \<Longrightarrow> c \<in> kc_id ` set (classes_of db key)"
  by (induction rule: enclosed_by.induct)

text \<open>The nearest class is unique.\<close>

lemma enclosed_unique: "enclosed_by env db key i c \<Longrightarrow> enclosed_by env db key i d \<Longrightarrow> c = d"
proof (induction arbitrary: d rule: enclosed_by.induct)
  case (itself c)
  show ?case by (rule enclosed_itself [OF itself.prems]) (use itself.hyps in simp_all)
next
  case (parent i s p c)
  show ?case
  proof (rule enclosed_itself [OF parent.prems])
    assume "i \<in> kc_id ` set (classes_of db key)"
    then show ?thesis using parent.hyps(1) by blast
  next
    fix s' p'
    assume "symbol_row (ce_read env) (cb_index db) key i = Inr (Some s')" "sy_parent s' = Some p'"
      and up: "enclosed_by env db key p' d"
    then have "p' = p" using parent.hyps(2,3) by simp
    with up show ?thesis using parent.IH by simp
  qed
qed

definition shown_class :: "class_env \<Rightarrow> class_db \<Rightarrow> string \<Rightarrow> string \<Rightarrow> class_definition \<Rightarrow> bool" where
  "shown_class env db key i d \<longleftrightarrow> (\<exists>c n clip. enclosed_by env db key i c
     \<and> presentation_class env db key c = Inr (Some (d, n, clip)))"

lemma resolve_class_shown:
  "resolve_class env db key i = Inr (d, clip) \<Longrightarrow> shown_class env db key i d"
  by (auto simp: resolve_class_def resolve_class_id_def shown_class_def dest!: resolve_steps_sound)

lemma shown_unique: "shown_class env db key i d \<Longrightarrow> shown_class env db key i d' \<Longrightarrow> d = d'"
  by (auto simp: shown_class_def dest: enclosed_unique)

definition class_node :: "class_definition \<Rightarrow> class_diagram_node" where
  "class_node c = \<lparr>cn_id = sy_id (cd_symbol c), cn_class = Some c, cn_label = cd_qualified_name c,
     cn_kind = ''class'', cn_expandable = True\<rparr>"

text \<open>What the loop over the expansions keeps: one entry for every identifier, in the order of the seeds.\<close>

definition seeded :: "string list \<Rightarrow> (string \<times> class_definition) list \<Rightarrow> bool" where
  "seeded seeds classes \<longleftrightarrow> seeds = map fst classes \<and> distinct seeds \<and> seeds \<noteq> []
     \<and> (\<forall>(i, c) \<in> set classes. i = sy_id (cd_symbol c))"

lemma expand_classes_seeded:
  assumes "expand_classes env db key es seeds classes = Inr (seeds', classes')" and "seeded seeds classes"
  shows "seeded seeds' classes' \<and> length classes' \<le> length classes + length es
     \<and> (\<exists>more. classes' = classes @ more \<and> (\<forall>(i, c) \<in> set more. \<exists>e \<in> set es. shown_class env db key e c))
     \<and> (\<forall>e \<in> set es. \<exists>c. shown_class env db key e c \<and> has_key classes' (sy_id (cd_symbol c)))"
  using assms
proof (induction es arbitrary: seeds classes)
  case (Cons e es)
  obtain d clip where res: "resolve_class env db key e = Inr (d, clip)"
    using Cons.prems(1) by auto
  let ?i = "sy_id (cd_symbol d)"
  note shown = resolve_class_shown [OF res]
  show ?case
  proof (cases "has_key classes ?i")
    case True
    then have "expand_classes env db key es seeds classes = Inr (seeds', classes')"
      using Cons.prems(1) res by (simp add: Let_def)
    note ih = Cons.IH [OF this Cons.prems(2)]
    then have "has_key classes' ?i" using True by (auto simp: has_key_def)
    then show ?thesis using ih shown by (intro conjI) (auto split: prod.splits)
  next
    case False
    then have rest: "expand_classes env db key es (seeds @ [?i]) (classes @ [(?i, d)]) = Inr (seeds', classes')"
      using Cons.prems(1) res by (simp add: Let_def)
    have "seeded (seeds @ [?i]) (classes @ [(?i, d)])"
      using Cons.prems(2) False by (auto simp: seeded_def has_key_def)
    note ih = Cons.IH [OF rest this]
    then obtain more where more: "classes' = (classes @ [(?i, d)]) @ more"
      and later: "\<forall>(i, c) \<in> set more. \<exists>e \<in> set es. shown_class env db key e c" by blast
    then have "has_key classes' ?i" by (auto simp: has_key_def)
    moreover have "classes' = classes @ (?i, d) # more"
      and "\<forall>(i, c) \<in> set ((?i, d) # more). \<exists>e' \<in> set (e # es). shown_class env db key e' c"
      using more later shown by auto
    ultimately show ?thesis using ih shown by (intro conjI) (auto simp del: set_simps, auto)
  qed
qed (auto simp: has_key_def)

lemma project_nodes:
  assumes "seeded seeds classes"
  shows "concat (map (\<lambda>s. case map_of classes s of None \<Rightarrow> []
      | Some c \<Rightarrow> [\<lparr>cn_id = sy_id (cd_symbol c), cn_class = Some c, cn_label = cd_qualified_name c,
          cn_kind = ''class'', cn_expandable = True\<rparr>]) seeds) = map class_node (map snd classes)"
proof -
  have at: "map_of classes (fst e) = Some (snd e)" if "e \<in> set classes" for e
    using assms that by (cases e) (auto simp: seeded_def intro: map_of_is_SomeI)
  have "map (\<lambda>s. case map_of classes s of None \<Rightarrow> []
      | Some c \<Rightarrow> [\<lparr>cn_id = sy_id (cd_symbol c), cn_class = Some c, cn_label = cd_qualified_name c,
          cn_kind = ''class'', cn_expandable = True\<rparr>]) (map fst classes) = map (\<lambda>e. [class_node (snd e)]) classes"
    unfolding map_map by (rule map_cong) (simp_all add: at class_node_def)
  moreover have "concat (map (\<lambda>e. [class_node (snd e)]) classes) = map class_node (map snd classes)"
    by (induction classes) simp_all
  moreover have "seeds = map fst classes" using assms by (simp add: seeded_def)
  ultimately show ?thesis by (simp only:)
qed

text \<open>A class diagram shows what was selected and nothing else: its first node is the class around the seed,
  every expansion is shown, every node is the class around the seed or around an expansion, no class appears
  twice, there are at most 13 nodes and no edges, so the node limit of 24 never cuts one off: the diagram is
  partial only when the catalogue or the seed's own presentation is.
\<close>

theorem class_diagram_exact:
  assumes run: "class_diagram_at env db q = Inr g"
    and rv: "read_revision_for (ce_read env) (cb_index db) (Some (cq_expected_revision q)) = Inr rv"
  shows "\<exists>classes. cg_nodes g = map class_node classes \<and> distinct (map cn_id (cg_nodes g))
     \<and> length classes \<le> 13 \<and> cg_edges g = [] \<and> classes \<noteq> []
     \<and> shown_class env db (rv_key rv) (cq_seed q) (hd classes)
     \<and> (\<forall>c \<in> set classes. \<exists>e \<in> insert (cq_seed q) (set (cq_expanded q)). shown_class env db (rv_key rv) e c)
     \<and> (\<forall>e \<in> set (cq_expanded q). \<exists>c \<in> set classes. \<exists>d. shown_class env db (rv_key rv) e d
          \<and> sy_id (cd_symbol c) = sy_id (cd_symbol d))
     \<and> (cg_truncated g \<longrightarrow> (\<exists>warnings clip seed. class_metadata env db (rv_key rv) = Inr (warnings, True)
          \<or> resolve_class env db (rv_key rv) (cq_seed q) = Inr (seed, True)))"
proof -
  obtain warnings truncated seed clip seeds classes u
    where limit: "length (cq_expanded q) \<le> MAX_EXPANDED"
      and meta: "class_metadata env db (rv_key rv) = Inr (warnings, truncated)"
      and seed: "resolve_class env db (rv_key rv) (cq_seed q) = Inr (seed, clip)"
      and expand: "expand_classes env db (rv_key rv) (cq_expanded q) [sy_id (cd_symbol seed)]
          [(sy_id (cd_symbol seed), seed)] = Inr (seeds, classes)"
      and g: "g = project (rv_pin rv) seeds classes warnings (truncated \<or> clip)"
    using run rv by (auto simp: class_diagram_at_def validate_diagram_request_def Let_def)
  have "seeded [sy_id (cd_symbol seed)] [(sy_id (cd_symbol seed), seed)]" by (simp add: seeded_def)
  note facts = expand_classes_seeded [OF expand this]
  then have ok: "seeded seeds classes" and len: "length classes \<le> 13"
    using limit by (auto simp: MAX_EXPANDED_def)
  obtain more where more: "classes = (sy_id (cd_symbol seed), seed) # more"
    and later: "\<forall>(i, c) \<in> set more. \<exists>e \<in> set (cq_expanded q). shown_class env db (rv_key rv) e c"
    using facts by auto
  have count: "length (map class_node (map snd classes)) \<le> MAX_NODES" using len by (simp add: MAX_NODES_def)
  have nodes: "cg_nodes g = map class_node (map snd classes)" and cut: "cg_truncated g = (truncated \<or> clip)"
    and edges: "cg_edges g = []"
    unfolding g project_def project_nodes [OF ok] Let_def using count by simp_all
  have ids: "map cn_id (cg_nodes g) = seeds"
    unfolding nodes using ok by (auto simp: seeded_def class_node_def)
  have all: "\<forall>c \<in> set (map snd classes). \<exists>e \<in> insert (cq_seed q) (set (cq_expanded q)). shown_class env db (rv_key rv) e c"
    using more later resolve_class_shown [OF seed] by fastforce
  have each: "\<forall>e \<in> set (cq_expanded q). \<exists>c \<in> set (map snd classes). \<exists>d. shown_class env db (rv_key rv) e d
      \<and> sy_id (cd_symbol c) = sy_id (cd_symbol d)"
    using facts ok by (fastforce simp: seeded_def has_key_def)
  show ?thesis
  proof (intro exI [of _ "map snd classes"] conjI)
    show "distinct (map cn_id (cg_nodes g))" using ids ok unfolding seeded_def by metis
    show "cg_truncated g \<longrightarrow> (\<exists>warnings clip seed. class_metadata env db (rv_key rv) = Inr (warnings, True)
          \<or> resolve_class env db (rv_key rv) (cq_seed q) = Inr (seed, True))"
      using cut meta seed by auto
  qed (use nodes edges all each len more resolve_class_shown [OF seed] in simp_all)
qed

section \<open>A concrete catalogue of two classes\<close>

definition sample_class_env :: class_env where
  "sample_class_env = \<lparr>ce_read = sample_read_env\<lparr>re_symbol := (\<lambda>p. Inr (sample_function\<lparr>sy_id := ''m'', sy_kind := KMethod, sy_parent := Some ''A''\<rparr>))\<rparr>,
     ce_json_valid = (\<lambda>_. True), ce_class = (\<lambda>p. Inr (sample_class ''a.py'' p 0)), ce_clip_shape = (\<lambda>_. True),
     ce_clip = (\<lambda>_ p. p), ce_json_bytes = length, ce_attest_classes = (\<lambda>_ _. Inr ())\<rparr>"

definition sample_class_db :: class_db where
  "sample_class_db = (let row = (\<lambda>i. \<lparr>kc_projection = ''K'', kc_id = i, kc_name = i, kc_qualified = i, kc_path = ''a.py'', kc_payload = i\<rparr>) in
     \<lparr>cb_index = sample_db\<lparr>db_nodes := [\<lparr>nr_projection = ''G'', nr_id = ''m'', nr_name = ''m'', nr_path = ''a.py'', nr_payload = ''M''\<rparr>]\<rparr>,
      cb_classes = [row ''B'', row ''A''], cb_warning_json = (\<lambda>_. 0), cb_warnings = (\<lambda>_. Inr []),
      cb_truncated = (\<lambda>_. False)\<rparr>)"

definition sample_key :: string where "sample_key = ''pin:v1:g:3''"

lemma sample_class_rows: "map kc_id (classes_of sample_class_db sample_key) = [''B'', ''A'']"
  by (simp add: classes_of_def in_manifest_def sample_class_db_def sample_db_def sample_key_def Let_def)

lemma sample_class_revision:
  assumes "e = None \<or> e = Some sample_pin_of"
  shows "read_revision_for (ce_read sample_class_env) (cb_index sample_class_db) e = Inr \<lparr>rv_pin = sample_pin_of, rv_key = sample_key\<rparr>"
proof -
  have head: "db_head (cb_index sample_class_db) = Inr sample_pin_of"
    and rows: "db_revisions (cb_index sample_class_db) = [\<lparr>rr_id = sample_key, rr_published = 3, rr_released = False\<rparr>]"
    and producer: "re_producer (ce_read sample_class_env) = (\<lambda>_. Inr ())"
    and uuid: "re_uuid (ce_read sample_class_env) = (\<lambda>_. ''g'')"
    by (simp_all add: sample_class_db_def sample_db_def sample_key_def sample_class_env_def sample_read_env_def Let_def)
  have "nat_text 3 = ''3''" by code_simp
  then have "pin_key (ce_read sample_class_env) sample_pin_of = sample_key" "ip_revision sample_pin_of = 3"
    by (simp_all add: pin_key_def uuid sample_key_def sample_pin_of_def)
  moreover have "(case e of None \<Rightarrow> sample_pin_of | Some p \<Rightarrow> p) = sample_pin_of" using assms by auto
  ultimately show ?thesis by (simp add: read_revision_for_def head rows producer Let_def)
qed

lemma sample_class_metadata: "class_metadata sample_class_env sample_class_db key = Inr ([], False)"
  by (simp add: class_metadata_def sample_class_db_def sample_class_env_def Let_def)

lemma sample_presentation:
  "presentation_class sample_class_env sample_class_db sample_key i =
     Inr (if i = ''A'' \<or> i = ''B'' then Some (sample_class ''a.py'' i 0, 1, False) else None)"
  by (simp add: presentation_class_def classes_of_def in_manifest_def sample_class_db_def sample_db_def
      sample_key_def sample_class_env_def CLASS_BYTES_def Let_def)

lemma sample_matching: "matching_classes sample_class_db sample_key None [] = [''A'', ''B'']"
proof -
  have "like ''%'' t" for t using like_any [of "[]" t] by simp
  then have "like (search_pattern []) t" for t using like_any [of "''%''" t] by (simp add: search_pattern_escapes)
  then show ?thesis
    by (simp add: matching_classes_def classes_of_def in_manifest_def sample_class_db_def sample_db_def
      sample_key_def Let_def class_order_def less_prod_def less_eq_prod_def)
qed


definition sample_diagram_request :: class_diagram_request where
  "sample_diagram_request = \<lparr>cq_seed = ''m'', cq_expected_revision = sample_pin_of, cq_expanded = [''B'', ''A''],
     cq_include_unmatched = False, cq_include_hierarchy = False\<rparr>"

lemma sample_is_class: "i \<in> kc_id ` set (classes_of sample_class_db sample_key) \<longleftrightarrow> i = ''A'' \<or> i = ''B''"
  using arg_cong [OF sample_class_rows, of set] by auto

lemma sample_resolve:
  "resolve_class sample_class_env sample_class_db sample_key ''m'' = Inr (sample_class ''a.py'' ''A'' 0, False)"
  "resolve_class sample_class_env sample_class_db sample_key ''A'' = Inr (sample_class ''a.py'' ''A'' 0, False)"
  "resolve_class sample_class_env sample_class_db sample_key ''B'' = Inr (sample_class ''a.py'' ''B'' 0, False)"
proof -
  have row: "symbol_row (ce_read sample_class_env) (cb_index sample_class_db) sample_key ''m''
      = Inr (Some (sample_function\<lparr>sy_id := ''m'', sy_kind := KMethod, sy_parent := Some ''A''\<rparr>))"
    by (simp add: symbol_row_def nodes_with_id_def in_manifest_def one_at_def sample_class_db_def sample_db_def
      sample_class_env_def sample_key_def Let_def)
  have steps: "resolve_steps sample_class_env sample_class_db sample_key (Suc (Suc n)) 0 {} i
      = Inr (if i = ''m'' then ''A'' else i)" if "i \<in> {''m'', ''A'', ''B''}" for n i
    using that by (auto simp: sample_is_class row)
  have id: "resolve_class_id sample_class_env sample_class_db sample_key i = Inr (if i = ''m'' then ''A'' else i)"
    if "i \<in> {''m'', ''A'', ''B''}" for i
    using steps [OF that, of 62] by (simp add: resolve_class_id_def)
  show "resolve_class sample_class_env sample_class_db sample_key ''m'' = Inr (sample_class ''a.py'' ''A'' 0, False)"
    "resolve_class sample_class_env sample_class_db sample_key ''A'' = Inr (sample_class ''a.py'' ''A'' 0, False)"
    "resolve_class sample_class_env sample_class_db sample_key ''B'' = Inr (sample_class ''a.py'' ''B'' 0, False)"
    by (simp_all add: resolve_class_def id sample_presentation)
qed

theorem class_diagram_exact_witness:
  "\<exists>g. class_diagram_at sample_class_env sample_class_db sample_diagram_request = Inr g
     \<and> map cn_id (cg_nodes g) = [''A'', ''B''] \<and> distinct (map cn_id (cg_nodes g)) \<and> cg_edges g = []"
proof -
  have run: "class_diagram_at sample_class_env sample_class_db sample_diagram_request
      = Inr (project sample_pin_of [''A'', ''B''] [(''A'', sample_class ''a.py'' ''A'' 0), (''B'', sample_class ''a.py'' ''B'' 0)] [] False)"
    by (simp add: class_diagram_at_def validate_diagram_request_def sample_diagram_request_def valid_class_id_def
      MAX_EXPANDED_def MAX_NODES_def sample_class_revision sample_class_metadata sample_resolve Let_def has_key_def)
      (simp add: sample_class_def sample_class_env_def Let_def)
  have rv: "read_revision_for (ce_read sample_class_env) (cb_index sample_class_db)
      (Some (cq_expected_revision sample_diagram_request)) = Inr \<lparr>rv_pin = sample_pin_of, rv_key = sample_key\<rparr>"
    by (simp add: sample_diagram_request_def sample_class_revision)
  let ?g = "project sample_pin_of [''A'', ''B''] [(''A'', sample_class ''a.py'' ''A'' 0), (''B'', sample_class ''a.py'' ''B'' 0)] [] False"
  have "distinct (map cn_id (cg_nodes ?g)) \<and> cg_edges ?g = []"
    using class_diagram_exact [OF run rv] by blast
  moreover have "map cn_id (cg_nodes ?g) = [''A'', ''B'']"
    by (simp add: project_def sample_class_def MAX_NODES_def Let_def)
  ultimately show ?thesis using run by (intro exI [of _ ?g] conjI) simp_all
qed

end
