(* ===== verification/Navigation.thy ===== *)
theory Navigation
  imports Catalogs
begin

section \<open>Line navigation (\<open>navigation.rs\<close>)\<close>

text \<open>
  A navigation request names a line of a cached source or a recorded class member; the answer
  lists the declarations measured there. The reader counts rows, bytes read and bytes written,
  and marks its result as truncated when it stops early. The payload columns are read through
  \<open>nav_env\<close>: the lines of a symbol, the members of a class, and the size serde gives a target.
\<close>

definition INPUT_BYTES :: nat where "INPUT_BYTES = 256 * 1024"
definition RECORD_BYTES :: nat where "RECORD_BYTES = 32 * 1024"
definition QUERY_ROWS :: nat where "QUERY_ROWS = 128"
definition TOTAL_ROWS :: nat where "TOTAL_ROWS = 256"
definition TARGETS :: nat where "TARGETS = 64"
definition WARNINGS :: nat where "WARNINGS = 32"
definition NAV_RESPONSE_BYTES :: nat where "NAV_RESPONSE_BYTES = 512 * 1024"

record source_selector =
  ss_expected_revision :: index_pin
  ss_path :: string
  ss_line :: nat

record member_selector =
  ms_expected_revision :: index_pin
  ms_class_id :: string
  ms_member_name :: string
  ms_start_byte :: nat
  ms_end_byte :: nat

datatype navigation_request = NavSource source_selector | NavMember member_selector

definition nav_text :: "string \<Rightarrow> nat \<Rightarrow> bool" where
  "nav_text s cap \<longleftrightarrow> s \<noteq> [] \<and> length s \<le> cap \<and> CHR 0x00 \<notin> set s"

fun validate_navigation :: "navigation_request \<Rightarrow> unit result" where
  "validate_navigation (NavSource s) =
     ensure (nav_text (ss_path s) 8192 \<and> CHR 0x5C \<notin> set (ss_path s) \<and> CHR '':'' \<notin> set (ss_path s)
         \<and> \<not> list_ex (\<lambda>p. p = [] \<or> p = ''.'' \<or> p = ''..'') (split_on (CHR ''/'') (ss_path s))
         \<and> 1 \<le> ss_line s \<and> ss_line s \<le> 10000000)
       ''Choose a cached workspace-relative path and a 1-based source line.'' (Inr ())"
| "validate_navigation (NavMember m) =
     ensure (nav_text (ms_class_id m) 8192 \<and> nav_text (ms_member_name m) 2048
         \<and> ms_start_byte m < ms_end_byte m \<and> ms_end_byte m \<le> 9223372036854775807)
       ''Choose a recorded class member by name and exact byte range.'' (Inr ())"

record navigation_target =
  nt_symbol :: symbol
  nt_action :: string
  nt_reason :: string
  nt_match_kind :: string

record navigation_result =
  nr_revision :: index_pin
  nr_targets :: "navigation_target list"
  nr_warnings :: "string list"
  nr_truncated :: bool
  nr_require_index :: bool

record reader =
  rd_result :: navigation_result
  rd_input_bytes :: nat
  rd_rows :: nat
  rd_output_bytes :: nat
  rd_seen :: "(string \<times> string \<times> string) list"

record nav_env =
  ne_class :: class_env
  ne_lines :: "string \<Rightarrow> nat \<times> nat \<times> nat"
  ne_members :: "string \<Rightarrow> string list"
  ne_member_key :: "string \<Rightarrow> string \<times> nat \<times> nat"
  ne_member :: "string \<Rightarrow> class_member result"
  ne_target_bytes :: "navigation_target \<Rightarrow> nat"

subsection \<open>The reader\<close>

definition warn :: "string \<Rightarrow> reader \<Rightarrow> reader" where
  "warn message r =
     (let m = take_chars 512 message; res = rd_result r in
      if m \<in> set (nr_warnings res) then r
      else if length (nr_warnings res) < WARNINGS
      then r\<lparr>rd_result := res\<lparr>nr_warnings := nr_warnings res @ [m]\<rparr>\<rparr>
      else r\<lparr>rd_result := res\<lparr>nr_truncated := True\<rparr>\<rparr>)"

definition clipped :: "reader \<Rightarrow> reader" where
  "clipped r = warn ''Navigation limits reached; some cached evidence or targets were omitted.''
     (r\<lparr>rd_result := (rd_result r)\<lparr>nr_truncated := True\<rparr>\<rparr>)"

text \<open>The loop over the rows of one statement; a \<open>NULL\<close> payload is a record that is too large.\<close>

fun records :: "(string \<Rightarrow> 'a result) \<Rightarrow> nat \<Rightarrow> string option list \<Rightarrow> reader \<Rightarrow> ('a list \<times> reader) result" where
  "records parse n [] r = Inr ([], r)"
| "records parse n (p # ps) r =
     (let r1 = r\<lparr>rd_rows := rd_rows r + 1\<rparr> in
      if QUERY_ROWS < n + 1 \<or> TOTAL_ROWS < rd_rows r1 then Inr ([], clipped r1)
      else (case p of None \<Rightarrow> records parse (n + 1) ps (clipped r1)
        | Some payload \<Rightarrow>
            if INPUT_BYTES < rd_input_bytes r1 + length payload then Inr ([], clipped r1)
            else bind_result (parse payload) (\<lambda>x.
              bind_result (records parse (n + 1) ps (r1\<lparr>rd_input_bytes := rd_input_bytes r1 + length payload\<rparr>))
                (\<lambda>(xs, r2). Inr (x # xs, r2)))))"

text \<open>\<open>CASE WHEN length(CAST(payload AS BLOB)) <= RECORD_BYTES THEN payload END\<close>.\<close>

definition bounded_payload :: "string \<Rightarrow> string option" where
  "bounded_payload p = (if length p \<le> RECORD_BYTES then Some p else None)"

definition nav_symbol :: "nav_env \<Rightarrow> class_db \<Rightarrow> string \<Rightarrow> string \<Rightarrow> reader \<Rightarrow> (symbol option \<times> reader) result" where
  "nav_symbol env db key i r =
     bind_result (records (re_symbol (ce_read (ne_class env))) 0
        (map (bounded_payload \<circ> nr_payload) (nodes_with_id (cb_index db) key i)) r)
       (\<lambda>(xs, r'). Inr (if xs = [] then None else Some (last xs), r'))"

definition nav_action :: "class_db \<Rightarrow> string \<Rightarrow> symbol \<Rightarrow> string option" where
  "nav_action db key s = (case sy_kind s of KFunction \<Rightarrow> Some ''sequence'' | KMethod \<Rightarrow> Some ''sequence''
     | KClass \<Rightarrow> if sy_id s \<in> kc_id ` set (classes_of db key) then Some ''class'' else None
     | _ \<Rightarrow> None)"

definition add_target :: "nav_env \<Rightarrow> class_db \<Rightarrow> string \<Rightarrow> string \<Rightarrow> string \<Rightarrow> symbol \<Rightarrow> reader \<Rightarrow> reader" where
  "add_target env db key reason certainty s r =
     (case nav_action db key s of None \<Rightarrow> r
     | Some action \<Rightarrow>
        if reason = ''enclosing'' \<and> list_ex (\<lambda>t. sy_id (nt_symbol t) = sy_id s \<and> nt_reason t = ''declaration'')
             (nr_targets (rd_result r))
        then r
        else if (sy_id s, reason, certainty) \<in> set (rd_seen r) then r
        else (let r1 = r\<lparr>rd_seen := (sy_id s, reason, certainty) # rd_seen r\<rparr>;
                 t = \<lparr>nt_symbol = s, nt_action = action, nt_reason = reason, nt_match_kind = certainty\<rparr>;
                 bytes = ne_target_bytes env t + 1 in
          if TARGETS \<le> length (nr_targets (rd_result r1))
            \<or> NAV_RESPONSE_BYTES - 100 * 1024 < rd_output_bytes r1 + bytes
          then clipped r1
          else r1\<lparr>rd_output_bytes := rd_output_bytes r1 + bytes,
                 rd_result := (rd_result r1)\<lparr>nr_targets := nr_targets (rd_result r1) @ [t]\<rparr>\<rparr>))"

subsection \<open>A line of a source\<close>

definition nodes_on :: "class_db \<Rightarrow> string \<Rightarrow> string \<Rightarrow> node_row list" where
  "nodes_on db key path = filter (\<lambda>n. nr_path n = path)
     (in_manifest (cb_index db) key mr_graph nr_projection (db_nodes (cb_index db)))"

definition node_kind :: "nav_env \<Rightarrow> node_row \<Rightarrow> string" where
  "node_kind env n = re_kind (ce_read (ne_class env)) (nr_payload n)"

definition declared_on :: "nav_env \<Rightarrow> class_db \<Rightarrow> string \<Rightarrow> source_selector \<Rightarrow> node_row list" where
  "declared_on env db key s = take 129 (sort_key nr_id (filter (\<lambda>n.
     node_kind env n \<in> {''class'', ''method'', ''function''} \<and> fst (ne_lines env (nr_payload n)) = ss_line s)
     (nodes_on db key (ss_path s))))"

definition node_extent :: "nav_env \<Rightarrow> node_row \<Rightarrow> int \<times> string" where
  "node_extent env n = (let (a, b) = re_span (ce_read (ne_class env)) (nr_payload n) in (int b - int a, nr_id n))"

definition enclosing_on :: "nav_env \<Rightarrow> class_db \<Rightarrow> string \<Rightarrow> source_selector \<Rightarrow> string set \<Rightarrow> node_row list" where
  "enclosing_on env db key s kinds = take 1 (sort_key (node_extent env) (filter (\<lambda>n.
     node_kind env n \<in> kinds
     \<and> (case ne_lines env (nr_payload n) of (first, final, column) \<Rightarrow>
          first \<le> ss_line s \<and> (ss_line s < final \<or> final = ss_line s \<and> 1 < column)))
     (nodes_on db key (ss_path s))))"

definition line_count :: "string \<Rightarrow> nat" where
  "line_count bytes = 1 + count_list bytes (CHR 0x0A)"

definition navigate_source :: "nav_env \<Rightarrow> class_db \<Rightarrow> string \<Rightarrow> source_selector \<Rightarrow> reader \<Rightarrow> reader result" where
  "navigate_source env db key s r =
     (let sources = filter (\<lambda>d. dv_revision d = key \<and> dv_manifest_path d = ss_path s) (db_versions (cb_index db));
          parse = re_symbol (ce_read (ne_class env)); payloads = map (bounded_payload \<circ> nr_payload) in
     ensure (case sources of [] \<Rightarrow> False | d # _ \<Rightarrow> ss_line s \<le> line_count (dv_bytes d))
       ''The path or line is not present in the cached revision.'' (
     bind_result (records parse 0 (payloads (declared_on env db key s)) r) (\<lambda>(ds, r).
     let r = fold (add_target env db key ''declaration'' ''measured'') ds r in
     bind_result (records parse 0 (payloads (enclosing_on env db key s {''class''})) r) (\<lambda>(cs, r).
     let r = fold (add_target env db key ''enclosing'' ''measured'') cs r in
     bind_result (records parse 0 (payloads (enclosing_on env db key s {''function'', ''method''})) r) (\<lambda>(fs, r).
     Inr (fold (add_target env db key ''enclosing'' ''measured'') fs r))))))"

subsection \<open>A member of a class\<close>

definition members_named :: "nav_env \<Rightarrow> class_db \<Rightarrow> string \<Rightarrow> member_selector \<Rightarrow> string list" where
  "members_named env db key m = take 2 (filter (\<lambda>v.
       ne_member_key env v = (ms_member_name m, ms_start_byte m, ms_end_byte m))
     (concat (map (\<lambda>r. ne_members env (kc_payload r)) (filter (\<lambda>r. kc_id r = ms_class_id m) (classes_of db key)))))"

definition member_symbol_ok :: "member_selector \<Rightarrow> class_member \<Rightarrow> symbol \<Rightarrow> bool" where
  "member_symbol_ok m member s \<longleftrightarrow> (sy_kind s = KMethod \<or> sy_kind s = KFunction) \<and> sy_name s = cm_name member
     \<and> sy_path s = cm_path member \<and> sy_range s = cm_range member \<and> sy_parent s = Some (ms_class_id m)"

definition navigate_member :: "nav_env \<Rightarrow> class_db \<Rightarrow> string \<Rightarrow> member_selector \<Rightarrow> reader \<Rightarrow> reader result" where
  "navigate_member env db key m r =
     (if nr_require_index (rd_result r) then Inr r else
     let found = members_named env db key m in
     ensure (length found = 1) ''The selector does not match one recorded class member.'' (
     bind_result (records (ne_member env) 0 (map bounded_payload found) r) (\<lambda>(members, r).
     case members of [] \<Rightarrow> Inr (warn ''The recorded member exceeds the navigation evidence budget.'' r)
     | member # _ \<Rightarrow> (case cm_symbol_id member of None \<Rightarrow> Inr r
         | Some i \<Rightarrow> bind_result (nav_symbol env db key i r) (\<lambda>(found, r). case found of None \<Rightarrow> Inr r
             | Some s \<Rightarrow> Inr (if member_symbol_ok m member s
                 then add_target env db key ''declaration'' ''measured'' s r else r))))))"

definition start_reader :: "index_pin \<Rightarrow> bool option \<Rightarrow> reader" where
  "start_reader revision metadata =
     (let r = \<lparr>rd_result = \<lparr>nr_revision = revision, nr_targets = [], nr_warnings = [],
          nr_truncated = (metadata = Some True), nr_require_index = (metadata = None)\<rparr>,
        rd_input_bytes = 0, rd_rows = 0, rd_output_bytes = 0, rd_seen = []\<rparr>;
        r = (if metadata = None then warn INDEX_NOTICE r else r) in
      if metadata = Some True
      then warn ''The cached class projection is incomplete; some declared types or members may be absent.'' r else r)"

text \<open>\<open>metadata\<close> is \<open>class_truncated\<close> of the revision's row, absent without a row.\<close>

definition navigate :: "nav_env \<Rightarrow> class_db \<Rightarrow> navigation_request \<Rightarrow> index_pin \<Rightarrow> string \<Rightarrow> bool option
    \<Rightarrow> navigation_result result" where
  "navigate env db q revision key metadata =
     bind_result (case q of NavSource s \<Rightarrow> navigate_source env db key s (start_reader revision metadata)
         | NavMember m \<Rightarrow> navigate_member env db key m (start_reader revision metadata)) (\<lambda>r.
     Inr (rd_result (if nr_targets (rd_result r) = [] \<and> nr_warnings (rd_result r) = []
        then warn ''No indexed navigation target on this source line.'' r else r)))"

subsection \<open>The request on a revision (\<open>Store::navigation_at\<close>)\<close>

text \<open>The document whose source and rows the request reads; it is attested first.\<close>

fun navigation_path :: "nav_env \<Rightarrow> class_db \<Rightarrow> string \<Rightarrow> navigation_request \<Rightarrow> string option result" where
  "navigation_path env db key (NavSource s) = Inr (Some (ss_path s))"
| "navigation_path env db key (NavMember m) = (case nodes_with_id (cb_index db) key (ms_class_id m) of
     [] \<Rightarrow> Inr None
   | n # _ \<Rightarrow> ensure (ce_json_valid (ne_class env) (nr_payload n)) ''incompatible_index: selected navigation node JSON invalid''
       (Inr (if node_kind env n = ''class'' then Some (nr_path n) else None)))"

definition attest_navigation :: "nav_env \<Rightarrow> class_db \<Rightarrow> string \<Rightarrow> string \<Rightarrow> unit result" where
  "attest_navigation env db key path =
     (case filter (\<lambda>d. dv_revision d = key \<and> dv_manifest_path d = path) (db_versions (cb_index db)) of
       d # _ \<Rightarrow> ensure (length (dv_bytes d) \<le> 2 * 1024 * 1024) ''incompatible_index: selected navigation source exceeds budget''
         (re_attest (ce_read (ne_class env)) key path)
     | [] \<Rightarrow> ensure (\<not> list_ex (\<lambda>m. mr_revision m = key \<and> mr_path m = path) (db_manifest (cb_index db)))
         ''incompatible_index: selected native document missing'' (Inr ()))"

fun expected_revision :: "navigation_request \<Rightarrow> index_pin" where
  "expected_revision (NavSource s) = ss_expected_revision s"
| "expected_revision (NavMember m) = ms_expected_revision m"

definition navigation_at :: "nav_env \<Rightarrow> class_db \<Rightarrow> navigation_request \<Rightarrow> navigation_result result" where
  "navigation_at env db q =
     bind_result (validate_navigation q) (\<lambda>_.
     bind_result (read_revision_for (ce_read (ne_class env)) (cb_index db) (Some (expected_revision q))) (\<lambda>rv.
     bind_result (navigation_path env db (rv_key rv) q) (\<lambda>path.
     bind_result (case path of None \<Rightarrow> Inr () | Some p \<Rightarrow> attest_navigation env db (rv_key rv) p) (\<lambda>_.
     navigate env db q (rv_pin rv) (rv_key rv)
       (if list_ex (\<lambda>r. rr_id r = rv_key rv) (db_revisions (cb_index db))
        then Some (cb_truncated db (rv_key rv)) else None)))))"

section \<open>A navigation answer is bounded and navigable\<close>

definition char_count :: "string \<Rightarrow> nat" where
  "char_count s = length (filter (\<lambda>c. \<not> continuation c) s)"

lemma char_count_take: "char_count (take_chars n s) \<le> n"
  by (induction n s rule: take_chars.induct) (auto simp: char_count_def split: nat.split)

text \<open>
  JSON writes at most six bytes for a character (a control character as a \<open>\u\<close> escape) and two
  quotes and a comma around a string: the bytes a warning can cost.
\<close>

definition warning_cost :: "string \<Rightarrow> nat" where
  "warning_cost w = 6 * char_count w + 3"

definition target_cost :: "nav_env \<Rightarrow> navigation_target list \<Rightarrow> nat" where
  "target_cost env ts = (\<Sum>t\<leftarrow>ts. ne_target_bytes env t + 1)"

definition target_ok :: "class_db \<Rightarrow> string \<Rightarrow> navigation_target \<Rightarrow> bool" where
  "target_ok db key t \<longleftrightarrow> nav_action db key (nt_symbol t) = Some (nt_action t)
     \<and> nt_reason t \<in> {''declaration'', ''enclosing''} \<and> nt_match_kind t = ''measured''"

definition target_key :: "navigation_target \<Rightarrow> string \<times> string \<times> string" where
  "target_key t = (sy_id (nt_symbol t), nt_reason t, nt_match_kind t)"

text \<open>The invariant of the reader.\<close>

definition reader_ok :: "nav_env \<Rightarrow> class_db \<Rightarrow> string \<Rightarrow> reader \<Rightarrow> bool" where
  "reader_ok env db key r \<longleftrightarrow>
     length (nr_warnings (rd_result r)) \<le> WARNINGS \<and> (\<forall>w \<in> set (nr_warnings (rd_result r)). char_count w \<le> 512)
     \<and> length (nr_targets (rd_result r)) \<le> TARGETS
     \<and> rd_output_bytes r = target_cost env (nr_targets (rd_result r))
     \<and> rd_output_bytes r \<le> NAV_RESPONSE_BYTES - 100 * 1024
     \<and> (\<forall>t \<in> set (nr_targets (rd_result r)). target_ok db key t)
     \<and> distinct (map target_key (nr_targets (rd_result r)))
     \<and> target_key ` set (nr_targets (rd_result r)) \<subseteq> set (rd_seen r)"

lemma warn_ok: "reader_ok env db key r \<Longrightarrow> reader_ok env db key (warn m r)"
  by (auto simp: warn_def reader_ok_def Let_def char_count_take)

lemma clipped_ok: "reader_ok env db key r \<Longrightarrow> reader_ok env db key (clipped r)"
  unfolding clipped_def by (rule warn_ok) (simp add: reader_ok_def)

lemma records_ok:
  "records parse n ps r = Inr (xs, r') \<Longrightarrow> reader_ok env db key r \<Longrightarrow> reader_ok env db key r'"
proof (induction parse n ps r arbitrary: xs r' rule: records.induct)
  case (2 parse n p ps r)
  let ?r1 = "r\<lparr>rd_rows := rd_rows r + 1\<rparr>"
  have r1: "reader_ok env db key ?r1" using 2(4) by (simp add: reader_ok_def)
  show ?case
  proof (cases "QUERY_ROWS < n + 1 \<or> TOTAL_ROWS < rd_rows ?r1")
    case True
    then show ?thesis using 2(3) clipped_ok [OF r1] by (auto simp: Let_def)
  next
    case low: False
    show ?thesis
    proof (cases p)
      case None
      then show ?thesis using 2(1) [OF refl low None] 2(3) low clipped_ok [OF r1] by (simp add: Let_def)
    next
      case (Some payload)
      let ?r2 = "?r1\<lparr>rd_input_bytes := rd_input_bytes ?r1 + length payload\<rparr>"
      show ?thesis
      proof (cases "INPUT_BYTES < rd_input_bytes ?r1 + length payload")
        case True
        then show ?thesis using 2(3) low Some clipped_ok [OF r1] by (simp add: Let_def)
      next
        case False
        then obtain x ys where "parse payload = Inr x" "records parse (n + 1) ps ?r2 = Inr (ys, r')"
          using 2(3) low Some by (auto simp: Let_def)
        moreover have "reader_ok env db key ?r2" using r1 by (simp add: reader_ok_def)
        ultimately show ?thesis using 2(2) [OF refl low Some False] by blast
      qed
    qed
  qed
qed simp

lemma add_target_ok:
  assumes ok: "reader_ok env db key r" and reason: "reason \<in> {''declaration'', ''enclosing''}"
  shows "reader_ok env db key (add_target env db key reason ''measured'' s r)"
proof (cases "nav_action db key s")
  case (Some action)
  let ?t = "\<lparr>nt_symbol = s, nt_action = action, nt_reason = reason, nt_match_kind = ''measured''\<rparr>"
  let ?r1 = "r\<lparr>rd_seen := (sy_id s, reason, ''measured'') # rd_seen r\<rparr>"
  have r1: "reader_ok env db key ?r1" using ok by (auto simp: reader_ok_def)
  have t: "target_ok db key ?t" "target_key ?t = (sy_id s, reason, ''measured'')"
    using Some reason by (simp_all add: target_ok_def target_key_def)
  have fresh: "target_key ?t \<notin> target_key ` set (nr_targets (rd_result r))" if "(sy_id s, reason, ''measured'') \<notin> set (rd_seen r)"
    using ok t(2) that by (auto simp: reader_ok_def)
  show ?thesis
    using ok r1 t fresh clipped_ok [OF r1]
    by (auto simp: add_target_def Some Let_def reader_ok_def target_cost_def)
qed (simp add: add_target_def ok)

lemma add_targets_ok:
  "reader_ok env db key r \<Longrightarrow> reason \<in> {''declaration'', ''enclosing''} \<Longrightarrow>
     reader_ok env db key (fold (add_target env db key reason ''measured'') ss r)"
  by (induction ss arbitrary: r) (simp_all only: fold_simps comp_apply add_target_ok)

lemma start_reader_ok: "reader_ok env db key (start_reader revision metadata)"
proof -
  have "reader_ok env db key \<lparr>rd_result = \<lparr>nr_revision = revision, nr_targets = [], nr_warnings = [],
      nr_truncated = tr, nr_require_index = rq\<rparr>,
      rd_input_bytes = 0, rd_rows = 0, rd_output_bytes = 0, rd_seen = []\<rparr>" for tr rq
    by (simp add: reader_ok_def target_cost_def)
  then show ?thesis
    unfolding start_reader_def Let_def by (simp add: warn_ok)
qed

lemma navigate_source_ok:
  assumes "navigate_source env db key s r = Inr r'" and "reader_ok env db key r"
  shows "reader_ok env db key r'"
  using assms
  by (auto simp: navigate_source_def Let_def dest!: records_ok intro!: add_targets_ok)

lemma nav_symbol_ok:
  "nav_symbol env db key i r = Inr (s, r') \<Longrightarrow> reader_ok env db key r \<Longrightarrow> reader_ok env db key r'"
  by (auto simp: nav_symbol_def dest: records_ok)

lemma navigate_member_ok:
  assumes "navigate_member env db key m r = Inr r'" and "reader_ok env db key r"
  shows "reader_ok env db key r'"
proof (cases "nr_require_index (rd_result r)")
  case False
  then obtain ms r1 where read: "records (ne_member env) 0 (map bounded_payload (members_named env db key m)) r = Inr (ms, r1)"
    and rest: "(case ms of [] \<Rightarrow> Inr (warn ''The recorded member exceeds the navigation evidence budget.'' r1)
     | member # _ \<Rightarrow> (case cm_symbol_id member of None \<Rightarrow> Inr r1
         | Some i \<Rightarrow> bind_result (nav_symbol env db key i r1) (\<lambda>(found, r). case found of None \<Rightarrow> Inr r
             | Some s \<Rightarrow> Inr (if member_symbol_ok m member s
                 then add_target env db key ''declaration'' ''measured'' s r else r)))) = Inr r'"
    using assms(1) by (auto simp: navigate_member_def Let_def)
  have r1: "reader_ok env db key r1" using records_ok [OF read assms(2)] .
  show ?thesis
  proof (cases ms)
    case Nil
    then show ?thesis using rest warn_ok [OF r1] by auto
  next
    case (Cons member more)
    show ?thesis
    proof (cases "cm_symbol_id member")
      case None
      then show ?thesis using rest Cons r1 by simp
    next
      case (Some i)
      obtain found r2 where "nav_symbol env db key i r1 = Inr (found, r2)"
        and out: "(case found of None \<Rightarrow> Inr r2 | Some s \<Rightarrow> Inr (if member_symbol_ok m member s
            then add_target env db key ''declaration'' ''measured'' s r2 else r2)) = (Inr r' :: reader result)"
        using rest Cons Some by auto
      then have "reader_ok env db key r2" using nav_symbol_ok r1 by blast
      then show ?thesis using out by (auto intro: add_target_ok split: option.splits if_splits)
    qed
  qed
qed (use assms in \<open>simp add: navigate_member_def\<close>)

lemma navigate_fits:
  assumes "navigate env db q revision key metadata = Inr res"
  shows "length (nr_targets res) \<le> 64 \<and> length (nr_warnings res) \<le> 32
     \<and> target_cost env (nr_targets res) + (\<Sum>w\<leftarrow>nr_warnings res. warning_cost w) + 4000 \<le> 512 * 1024
     \<and> distinct (map target_key (nr_targets res)) \<and> (\<forall>t \<in> set (nr_targets res). target_ok db key t)"
proof -
  obtain r where run: "(case q of NavSource s \<Rightarrow> navigate_source env db key s (start_reader revision metadata)
         | NavMember m \<Rightarrow> navigate_member env db key m (start_reader revision metadata)) = Inr r"
    and res: "res = rd_result (if nr_targets (rd_result r) = [] \<and> nr_warnings (rd_result r) = []
        then warn ''No indexed navigation target on this source line.'' r else r)"
    using assms by (auto simp: navigate_def)
  have "reader_ok env db key r"
    using run start_reader_ok navigate_source_ok navigate_member_ok by (cases q) auto
  then have "reader_ok env db key (if nr_targets (rd_result r) = [] \<and> nr_warnings (rd_result r) = []
        then warn ''No indexed navigation target on this source line.'' r else r)"
    by (simp add: warn_ok)
  then obtain r' where ok: "reader_ok env db key r'" and out: "res = rd_result r'"
    using that res by blast
  have "(\<Sum>w\<leftarrow>ws. warning_cost w) \<le> 3075 * length ws" if "\<forall>w \<in> set ws. char_count w \<le> 512" for ws
    using that by (induction ws) (auto simp: warning_cost_def)
  then have "(\<Sum>w\<leftarrow>nr_warnings res. warning_cost w) \<le> 3075 * length (nr_warnings res)"
    using ok out by (simp add: reader_ok_def)
  moreover have "length (nr_warnings res) \<le> 32" "length (nr_targets res) \<le> 64"
    "target_cost env (nr_targets res) \<le> 512 * 1024 - 100 * 1024"
    "distinct (map target_key (nr_targets res))" "\<forall>t \<in> set (nr_targets res). target_ok db key t"
    using ok out unfolding reader_ok_def WARNINGS_def TARGETS_def NAV_RESPONSE_BYTES_def by simp_all
  ultimately show ?thesis by simp
qed


section \<open>A concrete request\<close>

definition sample_nav_env :: nav_env where
  "sample_nav_env = \<lparr>ne_class = sample_class_env\<lparr>ce_read := sample_read_env\<rparr>, ne_lines = (\<lambda>_. (2, 4, 1)),
     ne_members = (\<lambda>_. []), ne_member_key = (\<lambda>_. ([], 0, 0)), ne_member = (\<lambda>_. Inl ''bad json''),
     ne_target_bytes = (\<lambda>_. 300)\<rparr>"

definition sample_nav_db :: class_db where
  "sample_nav_db = \<lparr>cb_index = sample_db\<lparr>db_versions := [\<lparr>dv_revision = sample_key, dv_manifest_path = ''a.js'',
      dv_source_set = ''source-set:v1:r'', dv_language = ''javascript'', dv_path = ''a.js'', dv_hash = ''h'',
      dv_length = 2, dv_bytes = [CHR 0x0A, CHR 0x0A]\<rparr>]\<rparr>,
     cb_classes = [], cb_warning_json = (\<lambda>_. 0), cb_warnings = (\<lambda>_. Inr []), cb_truncated = (\<lambda>_. True)\<rparr>"

definition sample_nav_request :: navigation_request where
  "sample_nav_request = NavSource \<lparr>ss_expected_revision = sample_pin_of, ss_path = ''a.js'', ss_line = 2\<rparr>"

definition sample_target :: navigation_target where
  "sample_target = \<lparr>nt_symbol = sample_function, nt_action = ''sequence'', nt_reason = ''declaration'',
     nt_match_kind = ''measured''\<rparr>"

definition sample_navigation :: navigation_result where
  "sample_navigation = \<lparr>nr_revision = sample_pin_of, nr_targets = [sample_target],
     nr_warnings = [''The cached class projection is incomplete; some declared types or members may be absent.''],
     nr_truncated = True, nr_require_index = False\<rparr>"

lemma sample_nav_rows:
  "declared_on sample_nav_env sample_nav_db sample_key \<lparr>ss_expected_revision = p, ss_path = ''a.js'', ss_line = 2\<rparr>
     = [\<lparr>nr_projection = ''G'', nr_id = ''f'', nr_name = ''f'', nr_path = ''a.js'', nr_payload = ''F''\<rparr>]"
  "enclosing_on sample_nav_env sample_nav_db sample_key \<lparr>ss_expected_revision = p, ss_path = ''a.js'', ss_line = 2\<rparr> {''class''} = []"
  "enclosing_on sample_nav_env sample_nav_db sample_key \<lparr>ss_expected_revision = p, ss_path = ''a.js'', ss_line = 2\<rparr> {''function'', ''method''}
     = [\<lparr>nr_projection = ''G'', nr_id = ''f'', nr_name = ''f'', nr_path = ''a.js'', nr_payload = ''F''\<rparr>]"
  by (simp_all add: declared_on_def enclosing_on_def nodes_on_def node_kind_def in_manifest_def sample_nav_env_def
      sample_nav_db_def sample_db_def sample_key_def sample_class_env_def sample_read_env_def Let_def)

lemma sample_nav_parse: "re_symbol (ce_read (ne_class sample_nav_env)) ''F'' = Inr sample_function"
  by (simp add: sample_nav_env_def sample_class_env_def sample_read_env_def)

lemma sample_nav_sources:
  "filter (\<lambda>d. dv_revision d = sample_key \<and> dv_manifest_path d = ''a.js'') (db_versions (cb_index sample_nav_db))
     = [\<lparr>dv_revision = sample_key, dv_manifest_path = ''a.js'', dv_source_set = ''source-set:v1:r'',
        dv_language = ''javascript'', dv_path = ''a.js'', dv_hash = ''h'', dv_length = 2, dv_bytes = [CHR 0x0A, CHR 0x0A]\<rparr>]"
  by (simp add: sample_nav_db_def)

lemma sample_nav_revision:
  "read_revision_for (ce_read (ne_class sample_nav_env)) (cb_index sample_nav_db) (Some sample_pin_of)
     = Inr \<lparr>rv_pin = sample_pin_of, rv_key = sample_key\<rparr>"
proof -
  have head: "db_head (cb_index sample_nav_db) = Inr sample_pin_of"
    and rows: "db_revisions (cb_index sample_nav_db) = [\<lparr>rr_id = sample_key, rr_published = 3, rr_released = False\<rparr>]"
    and producer: "re_producer (ce_read (ne_class sample_nav_env)) = (\<lambda>_. Inr ())"
    and uuid: "re_uuid (ce_read (ne_class sample_nav_env)) = (\<lambda>_. ''g'')"
    by (simp_all add: sample_nav_db_def sample_db_def sample_key_def sample_nav_env_def sample_class_env_def
        sample_read_env_def Let_def)
  have "nat_text 3 = ''3''" by code_simp
  then have "pin_key (ce_read (ne_class sample_nav_env)) sample_pin_of = sample_key" "ip_revision sample_pin_of = 3"
    by (simp_all add: pin_key_def uuid sample_key_def sample_pin_of_def)
  then show ?thesis by (simp add: read_revision_for_def head rows producer Let_def)
qed

lemma sample_navigates: "navigation_at sample_nav_env sample_nav_db sample_nav_request = Inr sample_navigation"
proof -
  have valid: "validate_navigation sample_nav_request = Inr ()"
    by (simp add: sample_nav_request_def nav_text_def)
  have attest: "attest_navigation sample_nav_env sample_nav_db sample_key ''a.js'' = Inr ()"
    unfolding attest_navigation_def sample_nav_sources
    by (simp add: sample_nav_env_def sample_class_env_def sample_read_env_def)
  have meta: "list_ex (\<lambda>r. rr_id r = sample_key) (db_revisions (cb_index sample_nav_db))" "cb_truncated sample_nav_db sample_key"
    by (simp_all add: sample_nav_db_def sample_db_def sample_key_def Let_def)
  have notice: "take_chars 512 ''The cached class projection is incomplete; some declared types or members may be absent.''
      = ''The cached class projection is incomplete; some declared types or members may be absent.''"
    by code_simp
  have bounded: "bounded_payload ''F'' = Some ''F''" by (simp add: bounded_payload_def RECORD_BYTES_def)
  have action: "nav_action db key sample_function = Some ''sequence''" for db key
    by (simp add: nav_action_def sample_function_def)
  have bytes: "ne_target_bytes sample_nav_env t = 300" for t by (simp add: sample_nav_env_def)
  have one: "records (re_symbol (ce_read (ne_class sample_nav_env))) 0 [Some ''F''] r
      = Inr ([sample_function], r\<lparr>rd_rows := rd_rows r + 1, rd_input_bytes := rd_input_bytes r + 1\<rparr>)"
    if "rd_rows r \<le> 1" "rd_input_bytes r \<le> 1" for r
    using that by (simp add: sample_nav_parse QUERY_ROWS_def TOTAL_ROWS_def INPUT_BYTES_def Let_def)
  let ?res = "\<lambda>ts. \<lparr>nr_revision = sample_pin_of, nr_targets = ts,
      nr_warnings = [''The cached class projection is incomplete; some declared types or members may be absent.''],
      nr_truncated = True, nr_require_index = False\<rparr>"
  let ?r = "\<lambda>ts n bytes seen. \<lparr>rd_result = ?res ts, rd_input_bytes = n, rd_rows = n, rd_output_bytes = bytes, rd_seen = seen\<rparr>"
  have start: "start_reader sample_pin_of (Some True) = ?r [] 0 0 []"
    by (simp only: start_reader_def warn_def notice Let_def) (simp add: WARNINGS_def)
  have first: "add_target sample_nav_env sample_nav_db sample_key ''declaration'' ''measured'' sample_function (?r [] 1 0 [])
      = ?r [sample_target] 1 301 [(sy_id sample_function, ''declaration'', ''measured'')]"
    by (simp add: add_target_def action bytes TARGETS_def NAV_RESPONSE_BYTES_def sample_target_def Let_def)
  have again: "add_target sample_nav_env sample_nav_db sample_key ''enclosing'' ''measured'' sample_function
      (?r [sample_target] n 301 seen) = ?r [sample_target] n 301 seen" for n seen
    by (simp add: add_target_def action sample_target_def)
  have line: "2 \<le> line_count [CHR 0x0A, CHR 0x0A]" by (simp add: line_count_def)
  have source: "navigate_source sample_nav_env sample_nav_db sample_key
      \<lparr>ss_expected_revision = sample_pin_of, ss_path = ''a.js'', ss_line = 2\<rparr> (?r [] 0 0 [])
      = Inr (?r [sample_target] (Suc (Suc 0)) 301 [(sy_id sample_function, ''declaration'', ''measured'')])"
    unfolding navigate_source_def Let_def source_selector.simps sample_nav_sources sample_nav_rows
    using line one [of "?r [] 0 0 []"] one [of "?r [sample_target] 1 301 [(sy_id sample_function, ''declaration'', ''measured'')]"] first again
    by (simp add: bounded del: records.simps(2))
  have "navigate sample_nav_env sample_nav_db sample_nav_request sample_pin_of sample_key (Some True) = Inr sample_navigation"
    by (simp add: navigate_def sample_nav_request_def start source sample_navigation_def)
  moreover have "expected_revision sample_nav_request = sample_pin_of"
    and "navigation_path sample_nav_env sample_nav_db sample_key sample_nav_request = Inr (Some ''a.js'')"
    by (simp_all add: sample_nav_request_def)
  ultimately show ?thesis
    by (simp only: navigation_at_def valid sample_nav_revision attest meta bind_result_simps option.case
        read_revision.simps if_True)
qed


end
