(* ===== verification/File_Tree.thy ===== *)
theory File_Tree
  imports Paging
begin

section \<open>Browsing the source directory (\<open>file_tree.rs\<close>)\<close>

text \<open>
  The directory handle pins one root; every request descends from it component by component with
  \<open>openat\<close> and \<open>O_NOFOLLOW\<close>. The file system under the root is a tree of \<open>fs_node\<close>s: a regular
  file carries the size \<open>fstat\<close> reports and the bytes the following reads return, which may be
  more when the file grows meanwhile. Error values name the failing call.
\<close>

datatype fs_node =
    Directory "(string \<times> fs_node) list"
  | Regular nat string
  | Symlink
  | Special

definition SCAN_LIMIT :: nat where "SCAN_LIMIT = 10000"
definition MAX_BYTES :: nat where "MAX_BYTES = 2 * 1024 * 1024"

record dir_entry =
  en_name :: string
  en_path :: string
  en_kind :: string
  en_indexed_path :: "string option"
  en_method_count :: "nat option"
  en_unindexed_reason :: "string option"

definition valid_tree_path :: "string \<Rightarrow> bool" where
  "valid_tree_path path \<longleftrightarrow> length path \<le> 8192
     \<and> CHR 0x00 \<notin> set path \<and> CHR 0x5C \<notin> set path \<and> CHR '':'' \<notin> set path
     \<and> (path = [] \<or> list_all (\<lambda>p. p \<noteq> [] \<and> p \<noteq> ''.'' \<and> p \<noteq> ''..'') (split_on (CHR ''/'') path))"

subsection \<open>The system calls\<close>

text \<open>\<open>openat(dir, name, O_DIRECTORY | O_NOFOLLOW)\<close> and \<open>openat(dir, name, O_NOFOLLOW | O_NONBLOCK)\<close>.\<close>

fun open_directory :: "fs_node \<Rightarrow> string \<Rightarrow> fs_node result" where
  "open_directory (Directory es) name =
     (if name = ''.'' then Inr (Directory es)
      else case map_of es name of None \<Rightarrow> Inl ''ENOENT''
        | Some (Directory d) \<Rightarrow> Inr (Directory d) | Some Symlink \<Rightarrow> Inl ''ELOOP'' | Some _ \<Rightarrow> Inl ''ENOTDIR'')"
| "open_directory _ name = Inl ''ENOTDIR''"

fun open_leaf :: "fs_node \<Rightarrow> string \<Rightarrow> fs_node result" where
  "open_leaf (Directory es) name = (case map_of es name of None \<Rightarrow> Inl ''ENOENT''
     | Some Symlink \<Rightarrow> Inl ''ELOOP'' | Some node \<Rightarrow> Inr node)"
| "open_leaf _ name = Inl ''ENOTDIR''"

fun descend :: "fs_node \<Rightarrow> string list \<Rightarrow> fs_node result" where
  "descend dir [] = Inr dir"
| "descend dir (c # cs) = bind_result (open_directory dir c) (\<lambda>d. descend d cs)"

subsection \<open>Reading a file\<close>

definition read_regular :: "(string \<Rightarrow> bool) \<Rightarrow> fs_node \<Rightarrow> string result" where
  "read_regular utf8 node = (case node of
     Regular len bytes \<Rightarrow>
       ensure (len \<le> MAX_BYTES) ''file exceeds limit'' (
       let got = take (MAX_BYTES + 1) bytes in
       ensure (length got \<le> MAX_BYTES) ''file exceeds limit'' (
       ensure (utf8 got) ''file is not UTF-8'' (Inr got)))
   | _ \<Rightarrow> Inl ''not a regular file'')"

definition read_file :: "(string \<Rightarrow> bool) \<Rightarrow> fs_node \<Rightarrow> string \<Rightarrow> string result" where
  "read_file utf8 base path =
     ensure (path \<noteq> [] \<and> valid_tree_path path) ''invalid file path'' (
     let components = split_on (CHR ''/'') path in
     bind_result (descend base (butlast components)) (\<lambda>dir.
     bind_result (open_leaf dir (last components)) (read_regular utf8)))"

subsection \<open>Listing a directory\<close>

fun node_kind_name :: "fs_node \<Rightarrow> string" where
  "node_kind_name (Directory _) = ''directory''"
| "node_kind_name (Regular _ _) = ''file''"
| "node_kind_name Symlink = ''symlink''"
| "node_kind_name Special = ''other''"

definition entry_of_node :: "string \<Rightarrow> string \<Rightarrow> fs_node \<Rightarrow> dir_entry" where
  "entry_of_node path name node = \<lparr>en_name = name,
     en_path = (if path = [] then name else path @ ''/'' @ name), en_kind = node_kind_name node,
     en_indexed_path = None, en_method_count = None, en_unindexed_reason = None\<rparr>"

text \<open>
  The \<open>readdir\<close> loop over the stream of a directory: \<open>stat\<close> says for which names \<open>fstatat\<close> still
  succeeds, \<open>failure\<close> is an error that ends the stream. The result has the mark of truncation.
\<close>

fun scan_directory :: "(string \<Rightarrow> bool) \<Rightarrow> (string \<Rightarrow> bool) \<Rightarrow> string option \<Rightarrow> string \<Rightarrow> nat
    \<Rightarrow> (string \<times> fs_node) list \<Rightarrow> (dir_entry list \<times> bool) result" where
  "scan_directory utf8 stat failure path scanned [] =
     (case failure of Some e \<Rightarrow> Inl e | None \<Rightarrow> Inr ([], False))"
| "scan_directory utf8 stat failure path scanned ((name, node) # es) =
     (if name = ''.'' \<or> name = ''..'' then scan_directory utf8 stat failure path scanned es
      else if scanned = SCAN_LIMIT then Inr ([], True)
      else if \<not> utf8 name \<or> \<not> valid_tree_path name
      then bind_result (scan_directory utf8 stat failure path (Suc scanned) es) (\<lambda>(xs, _). Inr (xs, True))
      else ensure (stat name) ''fstatat'' (
        bind_result (scan_directory utf8 stat failure path (Suc scanned) es) (\<lambda>(xs, truncated).
        Inr (entry_of_node path name node # xs, truncated))))"

definition entry_order :: "dir_entry \<Rightarrow> bool \<times> string" where
  "entry_order e = (en_kind e \<noteq> ''directory'', en_name e)"

definition tree_list :: "(string \<Rightarrow> bool) \<Rightarrow> (string \<Rightarrow> bool) \<Rightarrow> string option \<Rightarrow> fs_node \<Rightarrow> string \<Rightarrow> nat \<Rightarrow> nat
    \<Rightarrow> (dir_entry list \<times> nat option \<times> bool) result" where
  "tree_list utf8 stat failure base path limit offset =
     ensure (valid_tree_path path \<and> 1 \<le> limit \<and> limit \<le> 200 \<and> offset \<le> SCAN_LIMIT)
       ''invalid directory path or pagination'' (
     bind_result (descend base (''.'' # filter (\<lambda>c. c \<noteq> []) (split_on (CHR ''/'') path))) (\<lambda>dir.
     case dir of Directory es \<Rightarrow>
       bind_result (scan_directory utf8 stat failure path 0 es) (\<lambda>(entries, truncated).
       let (items, nxt) = slice_page (sort_key entry_order entries) limit offset in
       Inr (items, nxt, truncated))
     | _ \<Rightarrow> Inl ''ENOTDIR''))"

section \<open>Reads stay below the root and within the bound\<close>

text \<open>The node at a path of components: only real directories are entered.\<close>

fun node_at :: "fs_node \<Rightarrow> string list \<Rightarrow> fs_node option" where
  "node_at node [] = Some node"
| "node_at (Directory es) (c # cs) = (case map_of es c of None \<Rightarrow> None | Some n \<Rightarrow> node_at n cs)"
| "node_at _ (c # cs) = None"

definition plain_component :: "string \<Rightarrow> bool" where
  "plain_component c \<longleftrightarrow> c \<noteq> [] \<and> c \<noteq> ''.'' \<and> c \<noteq> ''..''"

lemma open_directory_at:
  "plain_component c \<Longrightarrow> open_directory d c = Inr e \<longleftrightarrow> (\<exists>es. node_at d [c] = Some (Directory es) \<and> e = Directory es)"
  by (cases d) (auto simp: plain_component_def split: option.splits fs_node.splits)

lemma open_leaf_at: "open_leaf d c = Inr n \<longleftrightarrow> node_at d [c] = Some n \<and> n \<noteq> Symlink"
  by (cases d) (auto split: option.splits fs_node.splits)

lemma node_at_append: "node_at d (cs @ ds) = (case node_at d cs of None \<Rightarrow> None | Some e \<Rightarrow> node_at e ds)"
  by (induction d cs rule: node_at.induct) (auto split: option.split)

lemma descend_at:
  "cs \<noteq> [] \<Longrightarrow> list_all plain_component cs \<Longrightarrow>
     descend d cs = Inr e \<longleftrightarrow> (\<exists>es. node_at d cs = Some (Directory es) \<and> e = Directory es)"
proof (induction cs arbitrary: d)
  case (Cons c cs)
  show ?case
  proof (cases "cs = []")
    case True
    then show ?thesis using open_directory_at [of c d e] Cons.prems by auto
  next
    case False
    have "node_at d (c # cs) = (case node_at d [c] of None \<Rightarrow> None | Some e \<Rightarrow> node_at e cs)"
      using node_at_append [of d "[c]" cs] by simp
    moreover have "node_at n cs \<noteq> Some x" if "\<And>es. n \<noteq> Directory es" for n x
      using False that by (cases n; cases cs) auto
    ultimately show ?thesis
      using Cons False open_directory_at [of c d]
      by (auto split: option.splits) (metis fs_node.exhaust)+
  qed
qed simp

lemma read_regular_exact:
  "read_regular utf8 n = Inr text \<longleftrightarrow>
     (\<exists>len. n = Regular len text \<and> len \<le> MAX_BYTES) \<and> length text \<le> MAX_BYTES \<and> utf8 text"
proof (cases n)
  case (Regular len bytes)
  show ?thesis
    by (cases "length bytes \<le> MAX_BYTES") (auto simp: read_regular_def Regular)
qed (simp_all add: read_regular_def)

text \<open>C40: A file read returns exactly the text of the regular file at that path below the root: every
  component before it is a real directory and no link is followed, the file is within 2 MiB both by its
  size and by what was read while it may grow, and its bytes are UTF-8; every other read fails.
\<close>

theorem read_file_exact:
  "read_file utf8 base path = Inr text \<longleftrightarrow>
     path \<noteq> [] \<and> valid_tree_path path
     \<and> (\<exists>len. node_at base (split_on (CHR ''/'') path) = Some (Regular len text) \<and> len \<le> MAX_BYTES)
     \<and> length text \<le> MAX_BYTES \<and> utf8 text"
proof (cases "path \<noteq> [] \<and> valid_tree_path path")
  case True
  let ?cs = "split_on (CHR ''/'') path"
  have plain: "list_all plain_component ?cs" using True by (auto simp: valid_tree_path_def plain_component_def list_all_iff)
  have cs: "?cs = butlast ?cs @ [last ?cs]" by (simp add: split_on_nonempty)
  have leaf: "read_file utf8 base path = bind_result (descend base (butlast ?cs)) (\<lambda>dir.
      bind_result (open_leaf dir (last ?cs)) (read_regular utf8))"
    using True by (simp add: read_file_def Let_def)
  have opened: "bind_result (descend base (butlast ?cs)) (\<lambda>dir. open_leaf dir (last ?cs)) = Inr n
      \<longleftrightarrow> node_at base ?cs = Some n \<and> n \<noteq> Symlink" for n
  proof (cases "butlast ?cs = []")
    case True
    then show ?thesis using cs open_leaf_at [of base "last ?cs" n] by simp
  next
    case False
    have "list_all plain_component (butlast ?cs)" using plain cs by (metis list_all_append)
    note at = descend_at [OF False this, of base]
    have "node_at base ?cs = (case node_at base (butlast ?cs) of None \<Rightarrow> None | Some e \<Rightarrow> node_at e [last ?cs])"
      by (subst cs) (rule node_at_append)
    moreover have leaf_in: "node_at e [c] = Some x \<Longrightarrow> \<exists>es. e = Directory es" for e c x by (cases e) auto
    moreover have "bind_result (descend base (butlast ?cs)) (\<lambda>dir. open_leaf dir (last ?cs)) = Inr n
        \<longleftrightarrow> (\<exists>d. descend base (butlast ?cs) = Inr d \<and> node_at d [last ?cs] = Some n \<and> n \<noteq> Symlink)"
      by (cases "descend base (butlast ?cs)") (simp_all add: open_leaf_at del: node_at.simps)
    ultimately show ?thesis
      unfolding at by (cases "node_at base (butlast ?cs)") (simp_all del: node_at.simps, metis)
  qed
  have "read_file utf8 base path = Inr text \<longleftrightarrow>
      (\<exists>n. bind_result (descend base (butlast ?cs)) (\<lambda>dir. open_leaf dir (last ?cs)) = Inr n \<and> read_regular utf8 n = Inr text)"
    unfolding leaf by (cases "descend base (butlast ?cs)") auto
  also have "\<dots> \<longleftrightarrow> (\<exists>n. node_at base ?cs = Some n \<and> n \<noteq> Symlink \<and> read_regular utf8 n = Inr text)"
    unfolding opened by blast
  also have "\<dots> \<longleftrightarrow> (\<exists>len. node_at base ?cs = Some (Regular len text) \<and> len \<le> MAX_BYTES)
      \<and> length text \<le> MAX_BYTES \<and> utf8 text"
    by (auto simp: read_regular_exact)
  finally show ?thesis using True by simp
qed (auto simp: read_file_def)

section \<open>Following the pages of a directory shows every entry\<close>

definition listed :: "(string \<Rightarrow> bool) \<Rightarrow> string \<times> fs_node \<Rightarrow> bool" where
  "listed utf8 e \<longleftrightarrow> fst e \<noteq> ''.'' \<and> fst e \<noteq> ''..'' \<and> utf8 (fst e) \<and> valid_tree_path (fst e)"

lemma scan_directory_entries:
  assumes "scan_directory utf8 stat failure path n es = Inr (xs, truncated)" and "n \<le> SCAN_LIMIT"
  shows "length xs \<le> SCAN_LIMIT - n
     \<and> (\<not> truncated \<longrightarrow> xs = map (\<lambda>(name, node). entry_of_node path name node) (filter (listed utf8) es))"
  using assms
proof (induction utf8 stat failure path n es arbitrary: xs truncated rule: scan_directory.induct)
  case (1 utf8 stat failure path scanned)
  then show ?case by (auto split: option.splits)
next
  case (2 utf8 stat failure path scanned name node es)
  show ?case
  proof (cases "name = ''.'' \<or> name = ''..''")
    case True
    then show ?thesis using 2(1,4,5) by (auto simp: listed_def)
  next
    case dots: False
    show ?thesis
    proof (cases "scanned = SCAN_LIMIT")
      case True
      then show ?thesis using 2(4) dots by auto
    next
      case False
      then have more: "Suc scanned \<le> SCAN_LIMIT" using 2(5) by simp
      show ?thesis
      proof (cases "\<not> utf8 name \<or> \<not> valid_tree_path name")
        case True
        then show ?thesis using 2(2) [OF dots False True] 2(4) dots False more by (fastforce simp: less_diff_conv)
      next
        case ok: False
        then obtain ys t where "scan_directory utf8 stat failure path (Suc scanned) es = Inr (ys, t)"
          and "xs = entry_of_node path name node # ys" "truncated = t"
          using 2(4) dots False by auto
        then show ?thesis
          using 2(3) [OF dots False ok, of ys t] dots ok more by (auto simp: listed_def)
      qed
    qed
  qed
qed

definition tree_page :: "(string \<Rightarrow> bool) \<Rightarrow> (string \<Rightarrow> bool) \<Rightarrow> string option \<Rightarrow> fs_node \<Rightarrow> string \<Rightarrow> nat \<Rightarrow> nat
    \<Rightarrow> (dir_entry list \<times> nat option) result" where
  "tree_page utf8 stat failure base path limit offset =
     bind_result (tree_list utf8 stat failure base path limit offset) (\<lambda>(items, nxt, _). Inr (items, nxt))"

lemma walk_pages_cong:
  assumes "\<And>off. off \<le> bound \<Longrightarrow> page off = page' off"
    and "\<And>off items nxt. page' off = Inr (items, Some nxt) \<Longrightarrow> nxt \<le> bound"
  shows "off \<le> bound \<Longrightarrow> walk_pages page n off = walk_pages page' n off"
proof (induction n arbitrary: off)
  case (Suc n)
  then show ?case using assms by (auto split: sum.split option.split)
qed simp

text \<open>While a directory does not change, following the offsets of its listing from 0 ends and shows, directories
  first and each group by name, every entry once; unless the listing is marked as truncated these are all entries
  whose names are UTF-8 and plain.
\<close>

theorem tree_pages_complete:
  assumes ok: "tree_list utf8 stat failure base path limit 0 = Inr (items, nxt, truncated)"
    and dir: "descend base (''.'' # filter (\<lambda>c. c \<noteq> []) (split_on (CHR ''/'') path)) = Inr (Directory es)"
  shows "\<exists>entries n. walk_pages (tree_page utf8 stat failure base path limit) n 0 = Some (Inr (sort_key entry_order entries))
     \<and> length entries \<le> 10000
     \<and> (\<not> truncated \<longrightarrow> entries = map (\<lambda>(name, node). entry_of_node path name node) (filter (listed utf8) es))"
proof -
  obtain entries where scan: "scan_directory utf8 stat failure path 0 es = Inr (entries, truncated)"
  proof (cases "scan_directory utf8 stat failure path 0 es")
    case (Inl e)
    then show thesis using ok by (simp add: tree_list_def dir del: descend.simps)
  next
    case (Inr r)
    obtain xs t where r: "r = (xs, t)" by (cases r)
    have "t = truncated"
      using ok by (simp add: tree_list_def dir Inr r Let_def del: descend.simps split: prod.splits)
    then show thesis using Inr r that by simp
  qed
  have valid: "valid_tree_path path" "1 \<le> limit" "limit \<le> 200" using ok by (simp_all add: tree_list_def)
  then obtain l where l: "limit = Suc l" by (cases limit) simp_all
  let ?rows = "sort_key entry_order entries"
  have short: "length entries \<le> SCAN_LIMIT"
    and all: "\<not> truncated \<longrightarrow> entries = map (\<lambda>(name, node). entry_of_node path name node) (filter (listed utf8) es)"
    using scan_directory_entries [OF scan] by auto
  have page: "tree_page utf8 stat failure base path limit off = Inr (slice_page ?rows (Suc l) off)" if "off \<le> SCAN_LIMIT" for off
    using that valid scan by (simp add: tree_page_def tree_list_def dir l Let_def del: descend.simps split: prod.split)
  have "walk_pages (tree_page utf8 stat failure base path limit) (Suc (length ?rows)) 0
      = walk_pages (\<lambda>off. Inr (slice_page ?rows (Suc l) off)) (Suc (length ?rows)) 0"
    using page short by (intro walk_pages_cong [of SCAN_LIMIT]) (auto simp: slice_page_def split: if_splits)
  also have "\<dots> = Some (Inr (concat (map (\<lambda>r. [r]) ?rows)))" by (rule slices.walk_complete)
  also have "concat (map (\<lambda>r. [r]) ?rows) = ?rows" by (induction ?rows) simp_all
  finally have "walk_pages (tree_page utf8 stat failure base path limit) (Suc (length ?rows)) 0 = Some (Inr ?rows)" .
  moreover have "length entries \<le> 10000" using short by (simp add: SCAN_LIMIT_def)
  ultimately show ?thesis using all by blast
qed

section \<open>A concrete directory\<close>

definition sample_directory :: fs_node where
  "sample_directory = Directory [(''.'', Special), (''z.rs'', Regular 3 ''fn ''), (''src'', Directory []), (''link'', Symlink)]"

lemma sample_tree_list:
  "tree_list (\<lambda>_. True) (\<lambda>_. True) None sample_directory [] 2 0 =
     Inr ([entry_of_node [] ''src'' (Directory []), entry_of_node [] ''link'' Symlink], Some 2, False)"
  by (simp add: tree_list_def sample_directory_def valid_tree_path_def SCAN_LIMIT_def slice_page_def
      entry_of_node_def entry_order_def less_prod_def less_eq_prod_def Let_def)

theorem tree_pages_complete_witness:
  "\<exists>entries n. walk_pages (tree_page (\<lambda>_. True) (\<lambda>_. True) None sample_directory [] 2) n 0
      = Some (Inr (sort_key entry_order entries)) \<and> length entries = 3"
proof -
  have "descend sample_directory (''.'' # filter (\<lambda>c. c \<noteq> []) (split_on (CHR ''/'') []))
      = Inr (Directory [(''.'', Special), (''z.rs'', Regular 3 ''fn ''), (''src'', Directory []), (''link'', Symlink)])"
    by (simp add: sample_directory_def)
  from tree_pages_complete [OF sample_tree_list this] obtain entries n
    where walk: "walk_pages (tree_page (\<lambda>_. True) (\<lambda>_. True) None sample_directory [] 2) n 0
        = Some (Inr (sort_key entry_order entries))"
      and all: "entries = map (\<lambda>(name, node). entry_of_node [] name node) (filter (listed (\<lambda>_. True))
        [(''.'', Special), (''z.rs'', Regular 3 ''fn ''), (''src'', Directory []), (''link'', Symlink)])"
    by blast
  have "length entries = 3" unfolding all by (simp add: listed_def valid_tree_path_def)
  then show ?thesis using walk by blast
qed

end
