(* ===== verification/Locks.thy ===== *)
theory Locks
  imports Prelude
begin

section \<open>Lock files and use guards (\<open>store/topology.rs\<close>)\<close>

text \<open>
  The lock primitives of the private storage over the part of the file system they see: names,
  inodes, open descriptors and \<open>flock\<close> locks. Between any two system calls other processes may act,
  so an operation is a step function on its program counter and one step is one system call; only
  the two metadata calls of \<open>private_file\<close> are one observation, since the inode of a descriptor does
  not change in between.
\<close>

datatype file_kind = RegularFile | OtherFile

record inode =
  in_kind :: file_kind
  in_owned :: bool
  in_mode :: nat
  in_links :: nat
  in_content :: string

record lock_fs =
  fs_names :: "string \<Rightarrow> nat option"
  fs_inode :: "nat \<Rightarrow> inode"
  fs_inodes :: nat
  fs_files :: "nat \<Rightarrow> nat option"
  fs_locks :: "nat \<Rightarrow> bool option"
  fs_descriptors :: nat

text \<open>Mode \<open>0o600\<close>.\<close>

definition private_mode :: nat where "private_mode = 384"

definition private_file :: "string \<Rightarrow> nat \<Rightarrow> lock_fs \<Rightarrow> unit result" where
  "private_file path fd s =
     (case fs_names s path of None \<Rightarrow> Inl ''inspect''
      | Some named \<Rightarrow>
         ensure (case fs_files s fd of None \<Rightarrow> False
           | Some i \<Rightarrow> (let m = fs_inode s i in
               in_kind m = RegularFile \<and> in_owned m \<and> in_mode m = private_mode \<and> in_links m = 1
               \<and> in_kind (fs_inode s named) = RegularFile \<and> i = named))
           ''unsafe managed file'' (Inr ()))"

subsection \<open>System calls\<close>

definition new_inode :: inode where
  "new_inode = \<lparr>in_kind = RegularFile, in_owned = True, in_mode = private_mode, in_links = 1, in_content = []\<rparr>"

definition create_file :: "string \<Rightarrow> lock_fs \<Rightarrow> lock_fs" where
  "create_file path s = s\<lparr>fs_names := (fs_names s)(path \<mapsto> fs_inodes s),
     fs_inode := (fs_inode s)(fs_inodes s := new_inode), fs_inodes := fs_inodes s + 1\<rparr>"

definition open_inode :: "nat \<Rightarrow> lock_fs \<Rightarrow> lock_fs" where
  "open_inode i s = s\<lparr>fs_files := (fs_files s)(fs_descriptors s \<mapsto> i), fs_descriptors := fs_descriptors s + 1\<rparr>"

definition close_file :: "nat \<Rightarrow> lock_fs \<Rightarrow> lock_fs" where
  "close_file fd s = s\<lparr>fs_files := (fs_files s)(fd := None), fs_locks := (fs_locks s)(fd := None)\<rparr>"

definition unlock_file :: "nat \<Rightarrow> lock_fs \<Rightarrow> lock_fs" where
  "unlock_file fd s = s\<lparr>fs_locks := (fs_locks s)(fd := None)\<rparr>"

definition lock_file :: "nat \<Rightarrow> bool \<Rightarrow> lock_fs \<Rightarrow> lock_fs" where
  "lock_file fd exclusive s = s\<lparr>fs_locks := (fs_locks s)(fd \<mapsto> exclusive)\<rparr>"

definition write_content :: "nat \<Rightarrow> string \<Rightarrow> lock_fs \<Rightarrow> lock_fs" where
  "write_content fd text s = (case fs_files s fd of None \<Rightarrow> s
     | Some i \<Rightarrow> s\<lparr>fs_inode := (fs_inode s)(i := (fs_inode s i)\<lparr>in_content := text\<rparr>)\<rparr>)"

definition unlink_name :: "string \<Rightarrow> lock_fs \<Rightarrow> lock_fs" where
  "unlink_name path s = (case fs_names s path of None \<Rightarrow> s
     | Some i \<Rightarrow> s\<lparr>fs_names := (fs_names s)(path := None),
         fs_inode := (fs_inode s)(i := (fs_inode s i)\<lparr>in_links := in_links (fs_inode s i) - 1\<rparr>)\<rparr>)"

text \<open>\<open>flock\<close> by \<open>fd\<close> would block: another descriptor of the same inode holds a conflicting lock.\<close>

definition would_block :: "nat \<Rightarrow> bool \<Rightarrow> lock_fs \<Rightarrow> bool" where
  "would_block fd exclusive s \<longleftrightarrow>
     list_ex (\<lambda>g. g \<noteq> fd \<and> fs_files s g = fs_files s fd
         \<and> (case fs_locks s g of None \<Rightarrow> False | Some e \<Rightarrow> e \<or> exclusive))
       [0..<fs_descriptors s]"

text \<open>\<open>open_managed\<close> with its check; a new file is created empty and private.\<close>

definition open_managed :: "string \<Rightarrow> bool \<Rightarrow> lock_fs \<Rightarrow> nat result \<times> lock_fs" where
  "open_managed path create s =
     (let s1 = (if fs_names s path = None \<and> create then create_file path s else s) in
      case fs_names s1 path of None \<Rightarrow> (Inl ''ENOENT'', s1)
      | Some i \<Rightarrow>
         (let fd = fs_descriptors s1; s2 = open_inode i s1 in
          case private_file path fd s2 of Inl e \<Rightarrow> (Inl e, close_file fd s2) | Inr _ \<Rightarrow> (Inr fd, s2)))"

subsection \<open>Acquiring a use guard\<close>

record use_guard =
  ug_file :: nat
  ug_path :: string
  ug_exclusive :: bool

record use_request =
  ur_path :: string
  ur_exclusive :: bool
  ur_nonblocking :: bool
  ur_create :: bool

text \<open>The loop of \<open>acquire_mode\<close>: about to open, about to lock, about to compare the name.\<close>

datatype use_pc = UseOpen nat | UseLock nat nat | UseCheck nat nat

datatype use_outcome = UseNext use_pc | UseReady use_guard | UseError string

definition LOCK_TRIES :: nat where "LOCK_TRIES = 20"

fun use_step :: "use_request \<Rightarrow> use_pc \<Rightarrow> lock_fs \<Rightarrow> use_outcome \<times> lock_fs" where
  "use_step u (UseOpen k) s =
     (if LOCK_TRIES \<le> k then (UseError ''lock pathname changed repeatedly'', s)
      else case open_managed (ur_path u) (ur_create u) s of
          (Inl e, s') \<Rightarrow> (UseError e, s') | (Inr fd, s') \<Rightarrow> (UseNext (UseLock k fd), s'))"
| "use_step u (UseLock k fd) s =
     (if would_block fd (ur_exclusive u) s
      then if ur_nonblocking u then (UseError ''storage_busy'', close_file fd s) else (UseNext (UseLock k fd), s)
      else (UseNext (UseCheck k fd), lock_file fd (ur_exclusive u) s))"
| "use_step u (UseCheck k fd) s =
     (if fs_names s (ur_path u) \<noteq> None \<and> fs_names s (ur_path u) = fs_files s fd
      then case private_file (ur_path u) fd s of
          Inl e \<Rightarrow> (UseError e, close_file fd s)
        | Inr _ \<Rightarrow> (UseReady \<lparr>ug_file = fd, ug_path = ur_path u, ug_exclusive = ur_exclusive u\<rparr>, s)
      else (UseNext (UseOpen (k + 1)), close_file fd s))"

definition use_verify :: "use_guard \<Rightarrow> lock_fs \<Rightarrow> unit result" where
  "use_verify g s = private_file (ug_path g) (ug_file g) s"

definition use_belongs_to :: "use_guard \<Rightarrow> string \<Rightarrow> bool \<Rightarrow> lock_fs \<Rightarrow> unit result" where
  "use_belongs_to g path exclusive s =
     ensure (ug_path g = path \<and> ug_exclusive g = exclusive) ''unsafe_index: wrong index use lock path or mode''
       (use_verify g s)"

text \<open>\<open>remove_last\<close>: the guard is consumed, so the descriptor is closed on every path.\<close>

definition remove_last :: "use_guard \<Rightarrow> lock_fs \<Rightarrow> unit result \<times> lock_fs" where
  "remove_last g s =
     (case ensure (ug_exclusive g) ''exclusive use lock required for removal'' (use_verify g s) of
       Inl e \<Rightarrow> (Inl e, close_file (ug_file g) s)
     | Inr _ \<Rightarrow> (Inr (), close_file (ug_file g) (unlink_name (ug_path g) s)))"

section \<open>What the kernel keeps\<close>

text \<open>Open descriptors are numbered below the next one, locks belong to open descriptors, and an exclusive lock is alone.\<close>

definition kernel_ok :: "lock_fs \<Rightarrow> bool" where
  "kernel_ok s \<longleftrightarrow>
     (\<forall>fd i. fs_files s fd = Some i \<longrightarrow> fd < fs_descriptors s)
     \<and> (\<forall>fd. fs_locks s fd \<noteq> None \<longrightarrow> fs_files s fd \<noteq> None)
     \<and> (\<forall>fd g. fs_locks s fd = Some True \<longrightarrow> g \<noteq> fd \<longrightarrow> fs_files s g = fs_files s fd \<longrightarrow> fs_locks s g = None)"

lemma kernel_exclusive:
  "kernel_ok s \<Longrightarrow> fs_locks s fd = Some True \<Longrightarrow> fs_files s g = fs_files s fd \<Longrightarrow> fs_locks s g = Some e \<Longrightarrow> g = fd"
  unfolding kernel_ok_def by (metis option.distinct(1))

lemma would_block_iff:
  assumes "kernel_ok s" and "fs_files s fd \<noteq> None"
  shows "would_block fd exclusive s \<longleftrightarrow>
     (\<exists>g e. g \<noteq> fd \<and> fs_files s g = fs_files s fd \<and> fs_locks s g = Some e \<and> (e \<or> exclusive))"
proof -
  have "g < fs_descriptors s" if "fs_files s g = fs_files s fd" for g
    using assms that unfolding kernel_ok_def by (metis option.exhaust)
  then show ?thesis
    by (auto simp: would_block_def list_ex_iff split: option.splits)
qed

lemma private_file_named:
  "private_file path fd s = Inr () \<Longrightarrow> \<exists>i. fs_names s path = Some i \<and> fs_files s fd = Some i"
  by (auto simp: private_file_def Let_def split: option.splits)

text \<open>What an operation may do to the descriptors outside the set \<open>mine\<close>: nothing.\<close>

definition others_kept :: "nat set \<Rightarrow> lock_fs \<Rightarrow> lock_fs \<Rightarrow> bool" where
  "others_kept mine s s' \<longleftrightarrow>
     fs_descriptors s \<le> fs_descriptors s'
     \<and> (\<forall>fd. fd \<notin> mine \<and> fd < fs_descriptors s \<longrightarrow> fs_files s' fd = fs_files s fd \<and> fs_locks s' fd = fs_locks s fd)"

lemma others_kept_refl [simp]: "others_kept mine s s"
  by (simp add: others_kept_def)

lemma others_kept_mono: "others_kept mine s s' \<Longrightarrow> mine \<subseteq> mine' \<Longrightarrow> others_kept mine' s s'"
  by (auto simp: others_kept_def)

lemma kernel_close: "kernel_ok s \<Longrightarrow> kernel_ok (close_file fd s)"
  unfolding kernel_ok_def close_file_def by auto

lemma kernel_unlock: "kernel_ok s \<Longrightarrow> kernel_ok (unlock_file fd s)"
  unfolding kernel_ok_def unlock_file_def by auto

lemma kernel_create: "kernel_ok s \<Longrightarrow> kernel_ok (create_file path s)"
  unfolding kernel_ok_def create_file_def by auto

lemma kernel_write: "kernel_ok s \<Longrightarrow> kernel_ok (write_content fd text s)"
  unfolding kernel_ok_def write_content_def by (auto split: option.splits)

lemma kernel_unlink: "kernel_ok s \<Longrightarrow> kernel_ok (unlink_name path s)"
  unfolding kernel_ok_def unlink_name_def by (auto split: option.splits)

lemma kernel_above:
  assumes "kernel_ok s" and "fs_descriptors s \<le> fd"
  shows "fs_files s fd = None \<and> fs_locks s fd = None"
proof -
  have files: "fs_files s fd = None"
  proof (rule ccontr)
    assume "fs_files s fd \<noteq> None"
    then show False using assms unfolding kernel_ok_def by (metis leD option.exhaust)
  qed
  moreover have "fs_locks s fd = None" using assms(1) files unfolding kernel_ok_def by blast
  ultimately show ?thesis by simp
qed

lemma kernel_next:
  "kernel_ok s \<Longrightarrow> fs_files s (fs_descriptors s) = None \<and> fs_locks s (fs_descriptors s) = None"
  by (rule kernel_above) simp_all

lemma kernel_open: "kernel_ok s \<Longrightarrow> kernel_ok (open_inode i s)"
  using kernel_next [of s] unfolding kernel_ok_def open_inode_def
  by (auto simp: less_Suc_eq split: if_splits)

lemma kernel_lock:
  assumes "kernel_ok s" and "fs_files s fd \<noteq> None" and "\<not> would_block fd exclusive s"
  shows "kernel_ok (lock_file fd exclusive s)"
proof -
  have free: "\<not> (e \<or> exclusive)" if "g \<noteq> fd" "fs_files s g = fs_files s fd" "fs_locks s g = Some e" for g e
    using assms(3) that unfolding would_block_iff [OF assms(1,2)] by blast
  show ?thesis
    using assms(1,2) free unfolding kernel_ok_def lock_file_def
    by (auto split: if_splits) (metis option.exhaust)+
qed

lemmas kernel_steps = kernel_close kernel_unlock kernel_create kernel_write kernel_unlink kernel_open kernel_lock

lemma others_close: "others_kept {fd} s (close_file fd s)"
  and others_unlock: "others_kept {fd} s (unlock_file fd s)"
  and others_lock: "others_kept {fd} s (lock_file fd e s)"
  and others_create: "others_kept {} s (create_file path s)"
  and others_write: "others_kept {} s (write_content fd text s)"
  and others_unlink: "others_kept {} s (unlink_name path s)"
  and others_open: "others_kept {} s (open_inode i s)"
  by (auto simp: others_kept_def close_file_def unlock_file_def lock_file_def create_file_def
      write_content_def unlink_name_def open_inode_def split: option.split)

lemma others_trans: "others_kept mine s t \<Longrightarrow> others_kept mine t u \<Longrightarrow> others_kept mine s u"
  by (auto simp: others_kept_def)

section \<open>What an operation may do\<close>

text \<open>
  \<open>moves old s new s'\<close>: an operation that held the descriptors \<open>old\<close> leaves those of other
  operations alone, ends holding \<open>new\<close>, of its own or freshly opened, and leaves no lock on any
  other descriptor of its own.
\<close>

definition moves :: "nat set \<Rightarrow> lock_fs \<Rightarrow> nat set \<Rightarrow> lock_fs \<Rightarrow> bool" where
  "moves old s new s' \<longleftrightarrow> kernel_ok s' \<and> others_kept old s s'
     \<and> (\<forall>fd \<in> new. (fd \<in> old \<or> fs_descriptors s \<le> fd) \<and> fs_files s' fd \<noteq> None)
     \<and> (\<forall>fd. (fd \<in> old \<or> fs_descriptors s \<le> fd) \<and> fd \<notin> new \<longrightarrow> fs_locks s' fd = None)"

lemma moves_stay: "kernel_ok s \<Longrightarrow> \<forall>fd \<in> old. fs_files s fd \<noteq> None \<Longrightarrow> moves old s old s"
  by (auto simp: moves_def kernel_above)

lemma moves_trans:
  assumes st: "moves old s mid t" and tu: "moves mid t new u"
  shows "moves old s new u"
proof -
  have le: "fs_descriptors s \<le> fs_descriptors t" "fs_descriptors t \<le> fs_descriptors u"
    using st tu by (auto simp: moves_def others_kept_def)
  have kept: "fs_files t fd = fs_files s fd \<and> fs_locks t fd = fs_locks s fd" if "fd \<notin> old" "fd < fs_descriptors s" for fd
    using st that by (auto simp: moves_def others_kept_def)
  have kept': "fs_files u fd = fs_files t fd \<and> fs_locks u fd = fs_locks t fd" if "fd \<notin> mid" "fd < fs_descriptors t" for fd
    using tu that by (auto simp: moves_def others_kept_def)
  have mid: "fd \<in> old \<or> fs_descriptors s \<le> fd" if "fd \<in> mid" for fd using st that by (simp add: moves_def)
  have new: "(fd \<in> mid \<or> fs_descriptors t \<le> fd) \<and> fs_files u fd \<noteq> None" if "fd \<in> new" for fd
    using tu that by (simp add: moves_def)
  have gone: "fs_locks t fd = None" if "fd \<in> old \<or> fs_descriptors s \<le> fd" "fd \<notin> mid" for fd
    using st that unfolding moves_def by blast
  have gone': "fs_locks u fd = None" if "fd \<in> mid \<or> fs_descriptors t \<le> fd" "fd \<notin> new" for fd
    using tu that unfolding moves_def by blast
  have others: "others_kept old s u"
    unfolding others_kept_def
  proof (intro conjI allI impI)
    show "fs_descriptors s \<le> fs_descriptors u" using le by simp
    fix fd assume "fd \<notin> old \<and> fd < fs_descriptors s"
    then have "fd \<notin> old" "fd < fs_descriptors s" "fd \<notin> mid" "fd < fs_descriptors t" using mid [of fd] le by auto
    then show "fs_files u fd = fs_files s fd" "fs_locks u fd = fs_locks s fd" using kept kept' by simp_all
  qed
  have held: "fd \<in> old \<or> fs_descriptors s \<le> fd" if "fd \<in> new" for fd
    using new [OF that] mid [of fd] le by auto
  have freed: "fs_locks u fd = None" if "fd \<in> old \<or> fs_descriptors s \<le> fd" "fd \<notin> new" for fd
    using gone' [of fd] gone [of fd] kept' [of fd] that by (cases "fd \<in> mid"; cases "fs_descriptors t \<le> fd") auto
  have "kernel_ok u" using tu by (simp add: moves_def)
  then show ?thesis unfolding moves_def using others held freed new by blast
qed

lemma moves_frame:
  assumes "moves old s new s'" and "\<forall>fd \<in> F. fs_files s fd \<noteq> None" and "kernel_ok s" and "F \<inter> old = {}"
  shows "moves (old \<union> F) s (new \<union> F) s'"
proof -
  have "fd < fs_descriptors s" if "fd \<in> F" for fd
    using assms(2,3) that unfolding kernel_ok_def by blast
  then show ?thesis using assms(1,2,4) unfolding moves_def others_kept_def
    by (auto simp: disjoint_iff)
qed

lemma moves_close:
  "kernel_ok s \<Longrightarrow> \<forall>g \<in> old. fs_files s g \<noteq> None \<Longrightarrow> fd \<in> old \<Longrightarrow> moves old s (old - {fd}) (close_file fd s)"
  using kernel_close [of s fd] kernel_above [of s]
  by (auto simp: moves_def others_kept_def close_file_def)

lemma moves_quiet:
  "kernel_ok s' \<Longrightarrow> others_kept {} s s' \<Longrightarrow> fs_descriptors s' = fs_descriptors s \<Longrightarrow>
     kernel_ok s \<Longrightarrow> \<forall>fd \<in> old. fs_files s fd \<noteq> None \<Longrightarrow> moves old s old s'"
proof -
  assume a: "kernel_ok s'" "others_kept {} s s'" "fs_descriptors s' = fs_descriptors s" "kernel_ok s"
    "\<forall>fd \<in> old. fs_files s fd \<noteq> None"
  have kept: "fs_files s' fd = fs_files s fd \<and> fs_locks s' fd = fs_locks s fd" for fd
    using a kernel_above [of s fd] kernel_above [of s' fd] by (cases "fd < fs_descriptors s") (auto simp: others_kept_def)
  show ?thesis using a moves_stay [OF a(4,5)] by (auto simp: moves_def others_kept_def kept)
qed

lemma moves_lock:
  "kernel_ok s \<Longrightarrow> \<forall>g \<in> old. fs_files s g \<noteq> None \<Longrightarrow> fd \<in> old \<Longrightarrow> \<not> would_block fd e s \<Longrightarrow> moves old s old (lock_file fd e s)"
  using kernel_lock [of s fd e] kernel_above [of s]
  by (auto simp: moves_def others_kept_def lock_file_def)

lemma moves_unlock:
  "kernel_ok s \<Longrightarrow> \<forall>g \<in> old. fs_files s g \<noteq> None \<Longrightarrow> fd \<in> old \<Longrightarrow> moves old s old (unlock_file fd s)"
  using kernel_unlock [of s fd] kernel_above [of s]
  by (auto simp: moves_def others_kept_def unlock_file_def)

lemma open_managed_moves:
  assumes "kernel_ok s" and "open_managed path create s = (r, s')"
  shows "moves {} s (case r of Inl _ \<Rightarrow> {} | Inr fd \<Rightarrow> {fd}) s'
     \<and> (\<forall>fd. r = Inr fd \<longrightarrow> fd = fs_descriptors s \<and> private_file path fd s' = Inr ())"
proof -
  define t where "t = (if fs_names s path = None \<and> create then create_file path s else s)"
  have t: "kernel_ok t" "moves {} s {} t" "fs_descriptors t = fs_descriptors s"
    using assms(1) kernel_create [of s path] others_create [of s path] moves_stay [of s "{}"]
      moves_quiet [of "create_file path s" s "{}"]
    by (auto simp: t_def create_file_def)
  show ?thesis
  proof (cases "fs_names t path")
    case None
    then show ?thesis using assms(2) t by (auto simp: open_managed_def t_def [symmetric] Let_def)
  next
    case (Some i)
    let ?u = "open_inode i t"
    have u: "kernel_ok ?u" "moves {} t {fs_descriptors t} ?u"
      using t(1) kernel_open [of t i] kernel_above [of t] others_open [of t i]
      by (auto simp: moves_def open_inode_def)
    have closed: "moves {fs_descriptors t} ?u {} (close_file (fs_descriptors t) ?u)"
      using moves_close [OF u(1), of "{fs_descriptors t}" "fs_descriptors t"] by (simp add: open_inode_def)
    have r: "(r, s') = (case private_file path (fs_descriptors t) ?u of
        Inl e \<Rightarrow> (Inl e, close_file (fs_descriptors t) ?u) | Inr _ \<Rightarrow> (Inr (fs_descriptors t), ?u))"
      using assms(2) Some by (simp add: open_managed_def t_def [symmetric] Let_def)
    show ?thesis
    proof (cases "private_file path (fs_descriptors t) ?u")
      case (Inl e)
      then show ?thesis using r moves_trans [OF t(2) moves_trans [OF u(2) closed]] by simp
    next
      case (Inr x)
      then show ?thesis using r moves_trans [OF t(2) u(2)] t(3) by simp
    qed
  qed
qed

fun use_files :: "use_pc \<Rightarrow> nat list" where
  "use_files (UseOpen k) = []"
| "use_files (UseLock k fd) = [fd]"
| "use_files (UseCheck k fd) = [fd]"

fun use_holds :: "use_request \<Rightarrow> use_pc \<Rightarrow> lock_fs \<Rightarrow> bool" where
  "use_holds u (UseCheck k fd) s \<longleftrightarrow> fs_locks s fd = Some (ur_exclusive u)"
| "use_holds u _ s \<longleftrightarrow> True"

fun outcome_files :: "use_outcome \<Rightarrow> nat list" where
  "outcome_files (UseNext pc) = use_files pc"
| "outcome_files (UseReady g) = [ug_file g]"
| "outcome_files (UseError e) = []"

definition guard_holds :: "use_guard \<Rightarrow> lock_fs \<Rightarrow> bool" where
  "guard_holds g s \<longleftrightarrow> fs_locks s (ug_file g) = Some (ug_exclusive g)"

text \<open>
  One system call of the loop. A guard it returns holds its lock in the mode requested, on a
  private file that the path names at that moment.
\<close>

lemma use_step_moves:
  assumes "kernel_ok s" and "\<forall>fd \<in> set (use_files pc). fs_files s fd \<noteq> None" and "use_holds u pc s"
    and "use_step u pc s = (r, s')"
  shows "moves (set (use_files pc)) s (set (outcome_files r)) s'
     \<and> (\<forall>pc'. r = UseNext pc' \<longrightarrow> use_holds u pc' s')
     \<and> (\<forall>g. r = UseReady g \<longrightarrow> guard_holds g s' \<and> use_verify g s' = Inr ()
          \<and> ug_path g = ur_path u \<and> ug_exclusive g = ur_exclusive u)"
  using assms
proof (cases pc)
  case (UseOpen k)
  show ?thesis
  proof (cases "LOCK_TRIES \<le> k")
    case True
    then show ?thesis using assms UseOpen moves_stay [of s "{}"] by auto
  next
    case False
    obtain q t where opened: "open_managed (ur_path u) (ur_create u) s = (q, t)" by (cases "open_managed (ur_path u) (ur_create u) s")
    show ?thesis
      using open_managed_moves [OF assms(1) opened] assms(4) UseOpen False opened
      by (cases q) auto
  qed
next
  case (UseLock k fd)
  then show ?thesis
    using assms moves_stay [of s "{fd}"] moves_close [of s "{fd}" fd] moves_lock [of s "{fd}" fd "ur_exclusive u"]
    by (auto simp: lock_file_def split: if_splits)
next
  case (UseCheck k fd)
  then show ?thesis
    using assms moves_stay [of s "{fd}"] moves_close [of s "{fd}" fd]
    by (auto simp: use_verify_def guard_holds_def split: if_splits sum.splits)
qed

lemma moves_keeps:
  assumes "moves old s new s'" and "kernel_ok s" and "fs_files s fd \<noteq> None" and "fd \<notin> old"
  shows "fs_files s' fd = fs_files s fd \<and> fs_locks s' fd = fs_locks s fd"
proof -
  have "fd < fs_descriptors s" using assms(2,3) by (metis kernel_above not_le)
  then show ?thesis using assms(1,4) by (auto simp: moves_def others_kept_def)
qed

lemma remove_last_moves:
  assumes "kernel_ok s" and "fs_files s (ug_file g) \<noteq> None" and "remove_last g s = (r, s')"
  shows "moves {ug_file g} s {} s'"
proof -
  have unlinked: "kernel_ok (unlink_name (ug_path g) s)" "moves {ug_file g} s {ug_file g} (unlink_name (ug_path g) s)"
    using assms(1,2) kernel_unlink [of s "ug_path g"] others_unlink [of s "ug_path g"]
      moves_quiet [of "unlink_name (ug_path g) s" s "{ug_file g}"]
    by (auto simp: unlink_name_def split: option.splits)
  then have closed: "moves {ug_file g} (unlink_name (ug_path g) s) {} (close_file (ug_file g) (unlink_name (ug_path g) s))"
    using moves_close [of "unlink_name (ug_path g) s" "{ug_file g}" "ug_file g"] by (auto simp: moves_def)
  note removed = moves_trans [OF unlinked(2) closed]
  show ?thesis
  proof (cases "ensure (ug_exclusive g) ''exclusive use lock required for removal'' (use_verify g s)")
    case (Inl e)
    then show ?thesis using assms moves_close [of s "{ug_file g}" "ug_file g"] by (simp add: remove_last_def)
  next
    case (Inr x)
    then show ?thesis using assms(3) removed unfolding remove_last_def Inr sum.case by simp
  qed
qed

end
