(* ===== verification/Leadership.thy ===== *)
theory Leadership
  imports Locks
begin

section \<open>Leaders and followers of an index (\<open>store/topology.rs\<close>)\<close>

text \<open>
  A leader holds the use lock and, exclusively, the lock on \<open>leader.lock\<close>, whose content is the
  incarnation it drew when it took over. A follower holds the use lock and compares incarnations.
  Processes interleave system call by system call; a process may also exit, and the names and
  attributes of files may change from outside. The \<open>n\<close>-th identifier of \<open>Uuid::new_v4\<close> and
  \<open>Uuid::parse_str\<close> (with the UTF-8 check before it) are \<open>lock_env\<close>; the outcome of
  \<open>identity.verify()\<close> comes with the step that makes the call.
\<close>

record lock_env =
  le_uuid :: "nat \<Rightarrow> string"
  le_parse :: "string \<Rightarrow> string option"

record leader_guard =
  lg_use :: use_guard
  lg_file :: nat
  lg_path :: string
  lg_incarnation :: string
  lg_predecessor :: "string option"

record follower_guard =
  fg_use :: use_guard
  fg_file :: nat
  fg_path :: string
  fg_incarnation :: string

text \<open>At most 64 bytes are read.\<close>

definition read_incarnation :: "lock_env \<Rightarrow> nat \<Rightarrow> lock_fs \<Rightarrow> string result" where
  "read_incarnation env fd s = (case fs_files s fd of None \<Rightarrow> Inl ''read''
     | Some i \<Rightarrow> ok_or (le_parse env (take 64 (in_content (fs_inode s i)))) ''index_not_ready: invalid leader incarnation'')"

definition leader_verify :: "lock_env \<Rightarrow> leader_guard \<Rightarrow> lock_fs \<Rightarrow> unit result" where
  "leader_verify env g s =
     bind_result (use_verify (lg_use g) s) (\<lambda>_.
     bind_result (private_file (lg_path g) (lg_file g) s) (\<lambda>_.
     bind_result (read_incarnation env (lg_file g) s) (\<lambda>inc.
     ensure (inc = lg_incarnation g) ''index_not_ready: leader incarnation changed'' (Inr ()))))"

subsection \<open>Taking the leader lock\<close>

text \<open>
  The calls of \<open>acquire_leader\<close>: open, lock, check the name, sample the predecessor, truncate (with
  the new incarnation drawn just before), write it, sync.
\<close>

datatype leader_pc =
    LeadOpen nat
  | LeadLock nat nat
  | LeadCheck nat nat
  | LeadSample nat
  | LeadTruncate nat "string option"
  | LeadWrite nat string "string option"
  | LeadSync nat string "string option"

datatype leader_outcome = LeadNext leader_pc | LeadReady leader_guard | LeadError string

fun leader_step :: "lock_env \<Rightarrow> use_guard \<Rightarrow> string \<Rightarrow> bool \<Rightarrow> string \<Rightarrow> leader_pc \<Rightarrow> lock_fs \<Rightarrow> leader_outcome \<times> lock_fs" where
  "leader_step env g path create fresh (LeadOpen k) s =
     (if (if create then LOCK_TRIES else 1) \<le> k then (LeadError ''leader lock pathname changed repeatedly'', s)
      else case open_managed path create s of
          (Inl e, s') \<Rightarrow> (LeadError e, s') | (Inr fd, s') \<Rightarrow> (LeadNext (LeadLock k fd), s'))"
| "leader_step env g path create fresh (LeadLock k fd) s =
     (if would_block fd True s then (LeadError ''storage_busy'', close_file fd s)
      else (LeadNext (LeadCheck k fd), lock_file fd True s))"
| "leader_step env g path create fresh (LeadCheck k fd) s =
     (case private_file path fd s of Inr _ \<Rightarrow> (LeadNext (LeadSample fd), s)
      | Inl e \<Rightarrow> if create then (LeadNext (LeadOpen (k + 1)), close_file fd s) else (LeadError e, close_file fd s))"
| "leader_step env g path create fresh (LeadSample fd) s =
     (case use_verify g s of Inl e \<Rightarrow> (LeadError e, close_file fd s)
      | Inr _ \<Rightarrow> (LeadNext (LeadTruncate fd
          (case read_incarnation env fd s of Inl _ \<Rightarrow> None | Inr inc \<Rightarrow> Some inc)), s))"
| "leader_step env g path create fresh (LeadTruncate fd prior) s =
     (LeadNext (LeadWrite fd fresh prior), write_content fd [] s)"
| "leader_step env g path create fresh (LeadWrite fd inc prior) s =
     (LeadNext (LeadSync fd inc prior), write_content fd inc s)"
| "leader_step env g path create fresh (LeadSync fd inc prior) s =
     (LeadReady \<lparr>lg_use = g, lg_file = fd, lg_path = path, lg_incarnation = inc, lg_predecessor = prior\<rparr>, s)"

subsection \<open>Following\<close>

text \<open>
  \<open>follower()\<close> reads the incarnation and probes the lock: when the probe gets it, nobody leads, and
  it is given back in the next call. Then the new guard is verified.
\<close>

datatype follower_pc = FollowOpen | FollowRead nat | FollowProbe nat string | FollowRelease nat

datatype follower_outcome = FollowNext follower_pc | FollowReady follower_guard | FollowError string

fun follower_step :: "lock_env \<Rightarrow> use_guard \<Rightarrow> string \<Rightarrow> follower_pc \<Rightarrow> lock_fs \<Rightarrow> follower_outcome \<times> lock_fs" where
  "follower_step env g path FollowOpen s =
     (case open_managed path False s of
        (Inl e, s') \<Rightarrow> (FollowError (if e = ''ENOENT'' then ''index_not_ready: missing leader lock'' else e), s')
      | (Inr fd, s') \<Rightarrow> (FollowNext (FollowRead fd), s'))"
| "follower_step env g path (FollowRead fd) s =
     (case read_incarnation env fd s of Inl e \<Rightarrow> (FollowError e, close_file fd s)
      | Inr inc \<Rightarrow> (FollowNext (FollowProbe fd inc), s))"
| "follower_step env g path (FollowProbe fd inc) s =
     (if would_block fd True s
      then (FollowReady \<lparr>fg_use = g, fg_file = fd, fg_path = path, fg_incarnation = inc\<rparr>, s)
      else (FollowNext (FollowRelease fd), lock_file fd True s))"
| "follower_step env g path (FollowRelease fd) s =
     (FollowError ''index_not_ready: leader lock is not held'', close_file fd s)"

text \<open>\<open>FollowerGuard::verify\<close>: compare, probe, compare again.\<close>

datatype verify_pc = VerifyFirst | VerifyProbe | VerifyRelease | VerifyLast

datatype verify_outcome = VerifyNext verify_pc | VerifyDone "unit result"

definition same_incarnation :: "lock_env \<Rightarrow> follower_guard \<Rightarrow> string \<Rightarrow> lock_fs \<Rightarrow> unit result" where
  "same_incarnation env g expected s =
     bind_result (private_file (fg_path g) (fg_file g) s) (\<lambda>_.
     bind_result (read_incarnation env (fg_file g) s) (\<lambda>inc.
     ensure (inc = expected) ''index_not_ready: leader incarnation changed'' (Inr ())))"

fun verify_step :: "lock_env \<Rightarrow> follower_guard \<Rightarrow> string \<Rightarrow> unit result \<Rightarrow> verify_pc \<Rightarrow> lock_fs \<Rightarrow> verify_outcome \<times> lock_fs" where
  "verify_step env g expected identity VerifyFirst s =
     (case bind_result identity (\<lambda>_. bind_result (use_verify (fg_use g) s) (\<lambda>_.
         bind_result (private_file (fg_path g) (fg_file g) s) (\<lambda>_.
         ensure (fg_incarnation g = expected) ''index_not_ready: leader incarnation changed''
           (same_incarnation env g expected s)))) of
        Inl e \<Rightarrow> (VerifyDone (Inl e), s) | Inr _ \<Rightarrow> (VerifyNext VerifyProbe, s))"
| "verify_step env g expected identity VerifyProbe s =
     (if would_block (fg_file g) True s then (VerifyNext VerifyLast, s)
      else (VerifyNext VerifyRelease, lock_file (fg_file g) True s))"
| "verify_step env g expected identity VerifyRelease s =
     (VerifyDone (Inl ''index_not_ready: leader lock is not held''), unlock_file (fg_file g) s)"
| "verify_step env g expected identity VerifyLast s =
     (VerifyDone (bind_result (same_incarnation env g expected s) (\<lambda>_. identity)), s)"

subsection \<open>A process\<close>

text \<open>
  What a process of the program is doing with one workspace. \<open>Downgrading\<close> is the middle of
  \<open>downgrade_use_to_shared\<close>: the kernel may release the old lock before it sets the new one.
  \<open>Stranded\<close> is a leader whose downgrade failed there, without its use lock.
\<close>

datatype worker =
    Stopped "string option"
  | TakingUse use_request use_pc
  | HoldingUse use_guard
  | TakingLead use_guard string bool leader_pc
  | Leading leader_guard
  | Downgrading leader_guard
  | Stranded leader_guard
  | Joining use_guard string follower_pc
  | Following follower_guard "unit result option"
  | Checking follower_guard string verify_pc bool

datatype operation =
    OpUse use_request
  | OpLead string string bool
  | OpFollow string
  | OpVerify string
  | OpDowngrade
  | OpRemoveLast
  | OpDrop

fun lead_files :: "leader_pc \<Rightarrow> nat list" where
  "lead_files (LeadOpen k) = []"
| "lead_files (LeadLock k fd) = [fd]"
| "lead_files (LeadCheck k fd) = [fd]"
| "lead_files (LeadSample fd) = [fd]"
| "lead_files (LeadTruncate fd prior) = [fd]"
| "lead_files (LeadWrite fd inc prior) = [fd]"
| "lead_files (LeadSync fd inc prior) = [fd]"

fun follow_files :: "follower_pc \<Rightarrow> nat list" where
  "follow_files FollowOpen = []"
| "follow_files (FollowRead fd) = [fd]"
| "follow_files (FollowProbe fd inc) = [fd]"
| "follow_files (FollowRelease fd) = [fd]"

fun worker_files :: "worker \<Rightarrow> nat list" where
  "worker_files (Stopped e) = []"
| "worker_files (TakingUse u pc) = use_files pc"
| "worker_files (HoldingUse g) = [ug_file g]"
| "worker_files (TakingLead g path create pc) = ug_file g # lead_files pc"
| "worker_files (Leading g) = [ug_file (lg_use g), lg_file g]"
| "worker_files (Downgrading g) = [ug_file (lg_use g), lg_file g]"
| "worker_files (Stranded g) = [ug_file (lg_use g), lg_file g]"
| "worker_files (Joining g path pc) = ug_file g # follow_files pc"
| "worker_files (Following g r) = [ug_file (fg_use g), fg_file g]"
| "worker_files (Checking g expected pc joining) = [ug_file (fg_use g), fg_file g]"

definition drop_worker :: "worker \<Rightarrow> lock_fs \<Rightarrow> lock_fs" where
  "drop_worker pr s = fold close_file (worker_files pr) s"

text \<open>
  The next system call of a process; an error drops what the operation had taken. \<open>fresh\<close> is the
  identifier drawn if the step draws one.
\<close>

fun next_call :: "lock_env \<Rightarrow> string \<Rightarrow> unit result \<Rightarrow> worker \<Rightarrow> lock_fs \<Rightarrow> worker \<times> lock_fs" where
  "next_call env fresh identity (TakingUse u pc) s = (case use_step u pc s of
       (UseNext pc', s') \<Rightarrow> (TakingUse u pc', s') | (UseReady g, s') \<Rightarrow> (HoldingUse g, s')
     | (UseError e, s') \<Rightarrow> (Stopped (Some e), s'))"
| "next_call env fresh identity (TakingLead g path create pc) s = (case leader_step env g path create fresh pc s of
       (LeadNext pc', s') \<Rightarrow> (TakingLead g path create pc', s') | (LeadReady l, s') \<Rightarrow> (Leading l, s')
     | (LeadError e, s') \<Rightarrow> (Stopped (Some e), close_file (ug_file g) s'))"
| "next_call env fresh identity (Downgrading g) s =
     (if would_block (ug_file (lg_use g)) False s then (Stranded g, s)
      else (Leading (g\<lparr>lg_use := (lg_use g)\<lparr>ug_exclusive := False\<rparr>\<rparr>), lock_file (ug_file (lg_use g)) False s))"
| "next_call env fresh identity (Joining g path pc) s = (case follower_step env g path pc s of
       (FollowNext pc', s') \<Rightarrow> (Joining g path pc', s') | (FollowReady f, s') \<Rightarrow> (Checking f (fg_incarnation f) VerifyFirst True, s')
     | (FollowError e, s') \<Rightarrow> (Stopped (Some e), close_file (ug_file g) s'))"
| "next_call env fresh identity (Checking g expected pc joining) s = (case verify_step env g expected identity pc s of
       (VerifyNext pc', s') \<Rightarrow> (Checking g expected pc' joining, s')
     | (VerifyDone (Inl e), s') \<Rightarrow> if joining then (Stopped (Some e), drop_worker (Following g None) s') else (Following g (Some (Inl e)), s')
     | (VerifyDone (Inr _), s') \<Rightarrow> (Following g (Some (Inr ())), s'))"
| "next_call env fresh identity pr s = (pr, s)"

text \<open>The next call fails: the operation is given up; a borrowed guard stays with its owner.\<close>

fun fail_call :: "string \<Rightarrow> worker \<Rightarrow> lock_fs \<Rightarrow> worker \<times> lock_fs" where
  "fail_call e (TakingUse u pc) s = (Stopped (Some e), drop_worker (TakingUse u pc) s)"
| "fail_call e (TakingLead g path create pc) s = (Stopped (Some e), drop_worker (TakingLead g path create pc) s)"
| "fail_call e (Joining g path pc) s = (Stopped (Some e), drop_worker (Joining g path pc) s)"
| "fail_call e (Downgrading g) s = (Stranded g, s)"
| "fail_call e (Checking g expected pc joining) s =
     (if pc = VerifyRelease then (Checking g expected pc joining, s)
      else if joining then (Stopped (Some e), drop_worker (Following g None) s) else (Following g (Some (Inl e)), s))"
| "fail_call e pr s = (pr, s)"

text \<open>
  The beginning of an operation. Acquiring starts with no guard, taking the lead and following
  with a use guard; the checks of identity that come first are \<open>identity\<close>.
\<close>

definition begin_operation :: "lock_env \<Rightarrow> unit result \<Rightarrow> operation \<Rightarrow> worker \<Rightarrow> lock_fs \<Rightarrow> worker \<times> lock_fs" where
  "begin_operation env identity op pr s = (case (op, pr) of
     (OpUse u, Stopped e) \<Rightarrow>
       (case identity of Inl e' \<Rightarrow> (Stopped (Some e'), s) | Inr _ \<Rightarrow> (TakingUse u (UseOpen 0), s))
   | (OpLead use_path path create, HoldingUse g) \<Rightarrow>
       (case bind_result identity (\<lambda>_. if create then Inr () else use_belongs_to g use_path True s) of
          Inl e \<Rightarrow> (Stopped (Some e), close_file (ug_file g) s) | Inr _ \<Rightarrow> (TakingLead g path create (LeadOpen 0), s))
   | (OpFollow path, HoldingUse g) \<Rightarrow> (Joining g path FollowOpen, s)
   | (OpVerify expected, Following g r) \<Rightarrow> (Checking g expected VerifyFirst False, s)
   | (OpDowngrade, Leading g) \<Rightarrow>
       if is_ok (leader_verify env g s) \<and> ug_exclusive (lg_use g)
       then (Downgrading g, unlock_file (ug_file (lg_use g)) s) else (pr, s)
   | (OpRemoveLast, HoldingUse g) \<Rightarrow>
       (case remove_last g s of (Inl e, s') \<Rightarrow> (Stopped (Some e), s') | (Inr _, s') \<Rightarrow> (Stopped None, s'))
   | (OpDrop, _) \<Rightarrow> (Stopped None, drop_worker pr s)
   | _ \<Rightarrow> (pr, s))"

subsection \<open>All processes\<close>

text \<open>
  \<open>reigns\<close> records, for each inode, the incarnations whose writing began. Foreign events change names and
  attributes, never the content of a private file; a name is only ever given to a new file.
\<close>

record topology =
  tp_fs :: lock_fs
  tp_worker :: "nat \<Rightarrow> worker"
  tp_uuids :: nat
  tp_reigns :: "(nat \<times> string) list"

datatype lock_event =
    Begin nat operation "unit result"
  | Advance nat "unit result"
  | Fault nat string
  | Exit nat
  | ForeignUnlink string
  | ForeignCreate string inode
  | ForeignChange nat inode

definition reign_of :: "string \<Rightarrow> worker \<Rightarrow> lock_fs \<Rightarrow> (nat \<times> string) list" where
  "reign_of fresh pr s = (case pr of TakingLead g path create (LeadTruncate fd prior) \<Rightarrow>
     (case fs_files s fd of None \<Rightarrow> [] | Some i \<Rightarrow> [(i, fresh)]) | _ \<Rightarrow> [])"

definition foreign_create :: "string \<Rightarrow> inode \<Rightarrow> lock_fs \<Rightarrow> lock_fs" where
  "foreign_create path m s = (let s1 = unlink_name path s in
     s1\<lparr>fs_names := (fs_names s1)(path \<mapsto> fs_inodes s1),
       fs_inode := (fs_inode s1)(fs_inodes s1 := m), fs_inodes := fs_inodes s1 + 1\<rparr>)"

definition foreign_change :: "nat \<Rightarrow> inode \<Rightarrow> lock_fs \<Rightarrow> lock_fs" where
  "foreign_change i m s = s\<lparr>fs_inode := (fs_inode s)(i := m\<lparr>in_content := in_content (fs_inode s i)\<rparr>)\<rparr>"

fun happen :: "lock_env \<Rightarrow> lock_event \<Rightarrow> topology \<Rightarrow> topology" where
  "happen env (Begin p op identity) t = (case begin_operation env identity op (tp_worker t p) (tp_fs t) of
     (pr, s) \<Rightarrow> t\<lparr>tp_fs := s, tp_worker := (tp_worker t)(p := pr)\<rparr>)"
| "happen env (Advance p identity) t = (case next_call env (le_uuid env (tp_uuids t)) identity (tp_worker t p) (tp_fs t) of
     (pr, s) \<Rightarrow> t\<lparr>tp_fs := s, tp_worker := (tp_worker t)(p := pr), tp_uuids := tp_uuids t + 1,
         tp_reigns := tp_reigns t @ reign_of (le_uuid env (tp_uuids t)) (tp_worker t p) (tp_fs t)\<rparr>)"
| "happen env (Fault p e) t = (case fail_call e (tp_worker t p) (tp_fs t) of
     (pr, s) \<Rightarrow> t\<lparr>tp_fs := s, tp_worker := (tp_worker t)(p := pr)\<rparr>)"
| "happen env (Exit p) t = t\<lparr>tp_fs := drop_worker (tp_worker t p) (tp_fs t), tp_worker := (tp_worker t)(p := Stopped None)\<rparr>"
| "happen env (ForeignUnlink path) t = t\<lparr>tp_fs := unlink_name path (tp_fs t)\<rparr>"
| "happen env (ForeignCreate path m) t = t\<lparr>tp_fs := foreign_create path m (tp_fs t)\<rparr>"
| "happen env (ForeignChange i m) t = t\<lparr>tp_fs := foreign_change i m (tp_fs t)\<rparr>"

definition empty_topology :: topology where
  "empty_topology = \<lparr>tp_fs = \<lparr>fs_names = (\<lambda>_. None), fs_inode = (\<lambda>_. new_inode), fs_inodes = 0,
       fs_files = (\<lambda>_. None), fs_locks = (\<lambda>_. None), fs_descriptors = 0\<rparr>,
     tp_worker = (\<lambda>_. Stopped None), tp_uuids = 0, tp_reigns = []\<rparr>"

definition after :: "lock_env \<Rightarrow> lock_event list \<Rightarrow> topology \<Rightarrow> topology" where
  "after env es t = fold (happen env) es t"

section \<open>Each process keeps what it holds\<close>

fun lead_holds :: "leader_pc \<Rightarrow> lock_fs \<Rightarrow> bool" where
  "lead_holds (LeadOpen k) s \<longleftrightarrow> True"
| "lead_holds (LeadLock k fd) s \<longleftrightarrow> True"
| "lead_holds (LeadCheck k fd) s \<longleftrightarrow> fs_locks s fd = Some True"
| "lead_holds (LeadSample fd) s \<longleftrightarrow> fs_locks s fd = Some True"
| "lead_holds (LeadTruncate fd prior) s \<longleftrightarrow> fs_locks s fd = Some True"
| "lead_holds (LeadWrite fd inc prior) s \<longleftrightarrow> fs_locks s fd = Some True"
| "lead_holds (LeadSync fd inc prior) s \<longleftrightarrow> fs_locks s fd = Some True"

fun worker_holds :: "worker \<Rightarrow> lock_fs \<Rightarrow> bool" where
  "worker_holds (Stopped e) s \<longleftrightarrow> True"
| "worker_holds (TakingUse u pc) s \<longleftrightarrow> use_holds u pc s"
| "worker_holds (HoldingUse g) s \<longleftrightarrow> guard_holds g s"
| "worker_holds (TakingLead g path create pc) s \<longleftrightarrow> guard_holds g s \<and> lead_holds pc s"
| "worker_holds (Leading g) s \<longleftrightarrow> guard_holds (lg_use g) s \<and> fs_locks s (lg_file g) = Some True"
| "worker_holds (Downgrading g) s \<longleftrightarrow> fs_locks s (lg_file g) = Some True"
| "worker_holds (Stranded g) s \<longleftrightarrow> fs_locks s (lg_file g) = Some True"
| "worker_holds (Joining g path pc) s \<longleftrightarrow> guard_holds g s"
| "worker_holds (Following g r) s \<longleftrightarrow> guard_holds (fg_use g) s"
| "worker_holds (Checking g expected pc joining) s \<longleftrightarrow> guard_holds (fg_use g) s"

definition worker_ok :: "worker \<Rightarrow> lock_fs \<Rightarrow> bool" where
  "worker_ok pr s \<longleftrightarrow> kernel_ok s \<and> distinct (worker_files pr)
     \<and> (\<forall>fd \<in> set (worker_files pr). fs_files s fd \<noteq> None) \<and> worker_holds pr s"

text \<open>A step of one process: it keeps its own invariant and moves no descriptor of another.\<close>

definition worker_step :: "worker \<Rightarrow> lock_fs \<Rightarrow> worker \<Rightarrow> lock_fs \<Rightarrow> bool" where
  "worker_step pr s pr' s' \<longleftrightarrow> worker_ok pr' s' \<and> moves (set (worker_files pr)) s (set (worker_files pr')) s'"

fun lead_outcome_files :: "leader_outcome \<Rightarrow> nat list" where
  "lead_outcome_files (LeadNext pc) = lead_files pc"
| "lead_outcome_files (LeadReady g) = [lg_file g]"
| "lead_outcome_files (LeadError e) = []"

fun follow_outcome_files :: "follower_outcome \<Rightarrow> nat list" where
  "follow_outcome_files (FollowNext pc) = follow_files pc"
| "follow_outcome_files (FollowReady g) = [fg_file g]"
| "follow_outcome_files (FollowError e) = []"

lemma write_moves:
  "kernel_ok s \<Longrightarrow> \<forall>g \<in> old. fs_files s g \<noteq> None \<Longrightarrow> moves old s old (write_content fd text s)"
  by (rule moves_quiet [OF kernel_write others_write]) (simp_all add: write_content_def split: option.split)

lemma write_locks [simp]:
  "fs_locks (write_content fd text s) = fs_locks s" "fs_files (write_content fd text s) = fs_files s"
  by (simp_all add: write_content_def split: option.split)

lemma leader_step_moves:
  assumes "kernel_ok s" and "\<forall>fd \<in> set (lead_files pc). fs_files s fd \<noteq> None" and "lead_holds pc s"
    and "leader_step env g path create fresh pc s = (r, s')"
  shows "moves (set (lead_files pc)) s (set (lead_outcome_files r)) s'
     \<and> distinct (lead_outcome_files r)
     \<and> (\<forall>pc'. r = LeadNext pc' \<longrightarrow> lead_holds pc' s')
     \<and> (\<forall>l. r = LeadReady l \<longrightarrow> lg_use l = g \<and> lg_path l = path \<and> fs_locks s' (lg_file l) = Some True)"
proof (cases pc)
  case (LeadOpen k)
  obtain q t where opened: "open_managed path create s = (q, t)" by (cases "open_managed path create s")
  show ?thesis
    using open_managed_moves [OF assms(1) opened] assms(4) LeadOpen opened moves_stay [of s "{}"] assms(1)
    by (cases q) (auto split: if_splits)
next
  case (LeadLock k fd)
  then show ?thesis
    using assms moves_close [of s "{fd}" fd] moves_lock [of s "{fd}" fd True]
    by (auto simp: lock_file_def split: if_splits)
next
  case (LeadCheck k fd)
  then show ?thesis
    using assms moves_stay [of s "{fd}"] moves_close [of s "{fd}" fd] by (auto split: if_splits sum.splits)
next
  case (LeadSample fd)
  then show ?thesis
    using assms moves_stay [of s "{fd}"] moves_close [of s "{fd}" fd] by (auto split: if_splits sum.splits)
qed (use assms moves_stay [of s] write_moves in auto)

lemma follower_step_moves:
  assumes "kernel_ok s" and "\<forall>fd \<in> set (follow_files pc). fs_files s fd \<noteq> None"
    and "follower_step env g path pc s = (r, s')"
  shows "moves (set (follow_files pc)) s (set (follow_outcome_files r)) s'
     \<and> distinct (follow_outcome_files r) \<and> (\<forall>f. r = FollowReady f \<longrightarrow> fg_use f = g \<and> fg_path f = path)"
proof (cases pc)
  case FollowOpen
  obtain q t where opened: "open_managed path False s = (q, t)" by (cases "open_managed path False s")
  show ?thesis
    using open_managed_moves [OF assms(1) opened] assms(3) FollowOpen opened by (cases q) auto
next
  case (FollowRead fd)
  then show ?thesis
    using assms moves_stay [of s "{fd}"] moves_close [of s "{fd}" fd] by (auto split: sum.splits)
next
  case (FollowProbe fd inc)
  then show ?thesis
    using assms moves_stay [of s "{fd}"] moves_lock [of s "{fd}" fd True] by (auto split: if_splits)
next
  case (FollowRelease fd)
  then show ?thesis using assms moves_close [of s "{fd}" fd] by auto
qed

lemma verify_step_moves:
  assumes "kernel_ok s" and "fs_files s (fg_file g) \<noteq> None"
    and "verify_step env g expected identity pc s = (r, s')"
  shows "moves {fg_file g} s {fg_file g} s'"
  using assms moves_stay [of s "{fg_file g}"] moves_lock [of s "{fg_file g}" "fg_file g" True]
    moves_unlock [of s "{fg_file g}" "fg_file g"]
  by (cases pc) (auto split: if_splits sum.splits)

text \<open>Next to an operation on one descriptor the process keeps its use guard.\<close>

lemma framed_step:
  assumes moved: "moves old s new s'" and kernel: "kernel_ok s" and guard: "fs_files s fd \<noteq> None" "fd \<notin> old"
  shows "moves (insert fd old) s (insert fd new) s' \<and> kernel_ok s' \<and> fs_files s' fd \<noteq> None
     \<and> fs_locks s' fd = fs_locks s fd \<and> fd \<notin> new \<and> (\<forall>g \<in> new. fs_files s' g \<noteq> None)"
proof -
  have "moves (old \<union> {fd}) s (new \<union> {fd}) s'"
    using moves_frame [OF moved, of "{fd}"] kernel guard by simp
  moreover have "fd \<notin> new" using moved guard kernel_above [OF kernel, of fd] by (auto simp: moves_def)
  ultimately show ?thesis using moves_keeps [OF moved kernel guard] moved guard by (auto simp: moves_def)
qed

lemma framed_error:
  assumes "moves old s {} t" and "kernel_ok s" and "fs_files s fd \<noteq> None" and "fd \<notin> old"
  shows "moves (insert fd old) s {} (close_file fd t)"
proof -
  note framed = framed_step [OF assms]
  then have "moves {fd} t {} (close_file fd t)" using moves_close [of t "{fd}" fd] by simp
  moreover have "moves (insert fd old) s {fd} t" using framed by simp
  ultimately show ?thesis by (blast intro: moves_trans)
qed

lemma drop_files:
  "kernel_ok s \<Longrightarrow> distinct fds \<Longrightarrow> \<forall>fd \<in> set fds. fs_files s fd \<noteq> None \<Longrightarrow> moves (set fds) s {} (fold close_file fds s)"
proof (induction fds arbitrary: s)
  case Nil
  then show ?case by (simp add: moves_stay)
next
  case (Cons fd fds)
  have closed: "moves (set (fd # fds)) s (set fds) (close_file fd s)"
    using moves_close [of s "set (fd # fds)" fd] Cons.prems by simp
  moreover have "moves (set fds) (close_file fd s) {} (fold close_file fds (close_file fd s))"
    by (rule Cons.IH) (use Cons.prems closed in \<open>auto simp: moves_def\<close>)
  ultimately show ?case using moves_trans by fastforce
qed

lemma drop_worker_step: "worker_ok pr s \<Longrightarrow> worker_step pr s (Stopped e) (drop_worker pr s)"
  using drop_files [of s "worker_files pr"] by (auto simp: worker_ok_def worker_step_def drop_worker_def moves_def)

lemma stay_step: "worker_ok pr s \<Longrightarrow> worker_holds pr' s \<Longrightarrow> worker_files pr' = worker_files pr \<Longrightarrow> worker_step pr s pr' s"
  by (simp add: worker_ok_def worker_step_def moves_stay)

lemma next_call_step:
  assumes ok: "worker_ok pr s" and call: "next_call env fresh identity pr s = (pr', s')"
  shows "worker_step pr s pr' s'"
proof (cases pr)
  case (TakingUse u pc)
  obtain r t where use: "use_step u pc s = (r, t)" by (cases "use_step u pc s")
  have moved: "moves (set (use_files pc)) s (set (outcome_files r)) t
     \<and> (\<forall>pc'. r = UseNext pc' \<longrightarrow> use_holds u pc' t) \<and> (\<forall>g. r = UseReady g \<longrightarrow> guard_holds g t)"
    using use_step_moves [OF _ _ _ use] ok TakingUse by (auto simp: worker_ok_def)
  moreover have "distinct (use_files pc')" for pc' by (cases pc') auto
  ultimately show ?thesis
    using call use TakingUse by (cases r) (auto simp: worker_step_def worker_ok_def moves_def)
next
  case (TakingLead g path create pc)
  obtain r t where lead: "leader_step env g path create fresh pc s = (r, t)" by (cases "leader_step env g path create fresh pc s")
  have kernel: "kernel_ok s" and guard: "fs_files s (ug_file g) \<noteq> None" "ug_file g \<notin> set (lead_files pc)" "guard_holds g s"
    using ok TakingLead by (auto simp: worker_ok_def)
  have moved: "moves (set (lead_files pc)) s (set (lead_outcome_files r)) t" "distinct (lead_outcome_files r)"
    "\<forall>pc'. r = LeadNext pc' \<longrightarrow> lead_holds pc' t"
    "\<forall>l. r = LeadReady l \<longrightarrow> lg_use l = g \<and> lg_path l = path \<and> fs_locks t (lg_file l) = Some True"
    using leader_step_moves [OF kernel _ _ lead] ok TakingLead by (auto simp: worker_ok_def)
  note framed = framed_step [OF moved(1) kernel guard(1,2)]
  show ?thesis
  proof (cases r)
    case (LeadError e)
    have "moves (insert (ug_file g) (set (lead_files pc))) s {} (close_file (ug_file g) t)"
      using framed_error [OF _ kernel guard(1,2)] moved(1) LeadError by simp
    then show ?thesis using call lead TakingLead LeadError by (auto simp: worker_step_def worker_ok_def moves_def)
  qed (use call lead TakingLead moved framed guard in \<open>auto simp: worker_step_def worker_ok_def guard_holds_def\<close>)
next
  case (Downgrading g)
  let ?use = "ug_file (lg_use g)"
  have kernel: "kernel_ok s" and files: "fs_files s ?use \<noteq> None" "fs_files s (lg_file g) \<noteq> None"
    and differ: "?use \<noteq> lg_file g" and lead: "fs_locks s (lg_file g) = Some True"
    using ok Downgrading by (auto simp: worker_ok_def)
  show ?thesis
  proof (cases "would_block ?use False s")
    case True
    then show ?thesis using call Downgrading stay_step [OF ok, of "Stranded g"] lead by auto
  next
    case False
    have "moves {?use, lg_file g} s {?use, lg_file g} (lock_file ?use False s)"
      using kernel files False by (intro moves_lock) auto
    moreover have "worker_ok pr' s'"
      using call Downgrading False kernel_lock [OF kernel files(1) False] files differ lead
      by (auto simp: worker_ok_def guard_holds_def lock_file_def)
    ultimately show ?thesis using call Downgrading False by (auto simp: worker_step_def)
  qed
next
  case (Joining g path pc)
  obtain r t where follow: "follower_step env g path pc s = (r, t)" by (cases "follower_step env g path pc s")
  have kernel: "kernel_ok s" and guard: "fs_files s (ug_file g) \<noteq> None" "ug_file g \<notin> set (follow_files pc)" "guard_holds g s"
    using ok Joining by (auto simp: worker_ok_def)
  have moved: "moves (set (follow_files pc)) s (set (follow_outcome_files r)) t" "distinct (follow_outcome_files r)"
    "\<forall>f. r = FollowReady f \<longrightarrow> fg_use f = g \<and> fg_path f = path"
    using follower_step_moves [OF kernel _ follow] ok Joining by (auto simp: worker_ok_def)
  note framed = framed_step [OF moved(1) kernel guard(1,2)]
  show ?thesis
  proof (cases r)
    case (FollowError e)
    have "moves (insert (ug_file g) (set (follow_files pc))) s {} (close_file (ug_file g) t)"
      using framed_error [OF _ kernel guard(1,2)] moved(1) FollowError by simp
    then show ?thesis using call follow Joining FollowError by (auto simp: worker_step_def worker_ok_def moves_def)
  qed (use call follow Joining moved framed guard in \<open>auto simp: worker_step_def worker_ok_def guard_holds_def\<close>)
next
  case (Checking g expected pc joining)
  obtain r t where verify: "verify_step env g expected identity pc s = (r, t)" by (cases "verify_step env g expected identity pc s")
  have kernel: "kernel_ok s" and guard: "fs_files s (ug_file (fg_use g)) \<noteq> None" "ug_file (fg_use g) \<notin> {fg_file g}" "guard_holds (fg_use g) s"
    and own: "fs_files s (fg_file g) \<noteq> None"
    using ok Checking by (auto simp: worker_ok_def)
  note moved = verify_step_moves [OF kernel own verify]
  note framed = framed_step [OF moved kernel guard(1,2)]
  have held: "worker_step pr s (Following g o') t" "worker_step pr s (Checking g expected pc' joining) t" for o' pc'
    using framed guard own Checking by (auto simp: worker_step_def worker_ok_def guard_holds_def)
  show ?thesis
  proof (cases r)
    case (VerifyDone q)
    have "worker_step (Following g None) t (Stopped e) (drop_worker (Following g None) t)" for e
      using held(1) by (intro drop_worker_step) (simp add: worker_step_def)
    then have "worker_step pr s (Stopped e) (drop_worker (Following g None) t)" for e
      using held(1) [of None] moves_trans unfolding worker_step_def by fastforce
    then show ?thesis using call verify Checking VerifyDone held by (auto split: sum.splits if_splits)
  qed (use call verify Checking held in auto)
qed (use ok call moves_stay in \<open>auto simp: worker_step_def worker_ok_def\<close>)

lemma fail_call_step: "worker_ok pr s \<Longrightarrow> fail_call e pr s = (pr', s') \<Longrightarrow> worker_step pr s pr' s'"
proof (cases pr)
  case (Checking g expected pc joining)
  assume ok: "worker_ok pr s" and call: "fail_call e pr s = (pr', s')"
  have "worker_step pr s (Following g r) s" for r using ok Checking by (intro stay_step) (auto simp: worker_ok_def)
  moreover have "worker_step pr s (Stopped e') (drop_worker (Following g None) s)" for e'
    using drop_worker_step [OF ok, of e'] Checking by (simp add: drop_worker_def)
  moreover have "worker_step pr s pr s" using ok by (intro stay_step) (auto simp: worker_ok_def)
  ultimately show ?thesis using call Checking by (auto split: if_splits)
next
  case (Downgrading g)
  assume ok: "worker_ok pr s" and call: "fail_call e pr s = (pr', s')"
  then show ?thesis using Downgrading stay_step [OF ok, of "Stranded g"] by (auto simp: worker_ok_def)
qed (use drop_worker_step stay_step in \<open>auto simp: worker_ok_def\<close>)

lemma begin_operation_step:
  assumes ok: "worker_ok pr s" and started: "begin_operation env identity op pr s = (pr', s')"
  shows "worker_step pr s pr' s'"
proof -
  have same: "worker_step pr s pr s" using ok by (intro stay_step) (auto simp: worker_ok_def)
  show ?thesis
  proof (cases op)
    case (OpUse u)
    then show ?thesis using started same ok stay_step [OF ok]
      by (cases pr) (auto simp: begin_operation_def worker_ok_def split: sum.splits)
  next
    case (OpLead use_path path create)
    have "worker_step (HoldingUse g) s (Stopped e) (close_file (ug_file g) s)" if "pr = HoldingUse g" for g e
      using drop_worker_step [OF ok, of e] that by (simp add: drop_worker_def)
    moreover have "worker_step (HoldingUse g) s (TakingLead g path create (LeadOpen 0)) s" if "pr = HoldingUse g" for g
      using ok that by (intro stay_step) (auto simp: worker_ok_def)
    ultimately show ?thesis using started same OpLead
      by (cases pr) (auto simp: begin_operation_def split: sum.splits)
  next
    case (OpFollow path)
    have "worker_step (HoldingUse g) s (Joining g path FollowOpen) s" if "pr = HoldingUse g" for g
      using ok that by (intro stay_step) (auto simp: worker_ok_def)
    then show ?thesis using started same OpFollow by (cases pr) (auto simp: begin_operation_def)
  next
    case (OpVerify expected)
    have "worker_step (Following g r) s (Checking g expected VerifyFirst False) s" if "pr = Following g r" for g r
      using ok that by (intro stay_step) (auto simp: worker_ok_def)
    then show ?thesis using started same OpVerify by (cases pr) (auto simp: begin_operation_def)
  next
    case OpDowngrade
    have "worker_step (Leading g) s (Downgrading g) (unlock_file (ug_file (lg_use g)) s)" if "pr = Leading g" for g
    proof -
      let ?fds = "{ug_file (lg_use g), lg_file g}"
      have "moves ?fds s ?fds (unlock_file (ug_file (lg_use g)) s)"
        using ok that by (intro moves_unlock) (auto simp: worker_ok_def)
      then show ?thesis using ok that by (auto simp: worker_step_def worker_ok_def moves_def unlock_file_def)
    qed
    then show ?thesis using started same OpDowngrade by (cases pr) (auto simp: begin_operation_def split: if_splits)
  next
    case OpRemoveLast
    have "worker_step (HoldingUse g) s (Stopped e) t" if "pr = HoldingUse g" "remove_last g s = (r, t)" for g r t e
      using remove_last_moves [OF _ _ that(2)] ok that(1) by (auto simp: worker_step_def worker_ok_def moves_def)
    then show ?thesis using started same OpRemoveLast
      by (cases pr) (auto simp: begin_operation_def split: prod.splits sum.splits)
  next
    case OpDrop
    then show ?thesis using started drop_worker_step [OF ok, of None] by (cases pr) (auto simp: begin_operation_def)
  qed
qed

section \<open>The invariant of all processes\<close>

definition topology_ok :: "topology \<Rightarrow> bool" where
  "topology_ok t \<longleftrightarrow> kernel_ok (tp_fs t) \<and> (\<forall>p. worker_ok (tp_worker t p) (tp_fs t))
     \<and> (\<forall>p q. p \<noteq> q \<longrightarrow> set (worker_files (tp_worker t p)) \<inter> set (worker_files (tp_worker t q)) = {})
     \<and> (\<forall>fd. fs_locks (tp_fs t) fd \<noteq> None \<longrightarrow> (\<exists>p. fd \<in> set (worker_files (tp_worker t p))))"

lemma topology_empty: "topology_ok empty_topology"
  by (simp add: topology_ok_def worker_ok_def kernel_ok_def empty_topology_def)

lemma worker_holds_cong:
  assumes "worker_holds pr s" and "\<forall>fd \<in> set (worker_files pr). fs_locks s' fd = fs_locks s fd"
  shows "worker_holds pr s'"
proof (cases pr)
  case (TakingUse u pc)
  then show ?thesis using assms by (cases pc) auto
next
  case (TakingLead g path create pc)
  then show ?thesis using assms by (cases pc) (auto simp: guard_holds_def)
qed (use assms in \<open>auto simp: guard_holds_def\<close>)

lemma topology_step:
  assumes ok: "topology_ok t" and step: "worker_step (tp_worker t p) (tp_fs t) pr s"
    and t': "tp_fs t' = s" "tp_worker t' = (tp_worker t)(p := pr)"
  shows "topology_ok t'"
proof -
  have kernel: "kernel_ok (tp_fs t)" "kernel_ok s" using ok step by (auto simp: topology_ok_def worker_step_def worker_ok_def)
  have moved: "moves (set (worker_files (tp_worker t p))) (tp_fs t) (set (worker_files pr)) s"
    using step by (simp add: worker_step_def)
  have workers: "worker_ok (tp_worker t q) (tp_fs t)" for q using ok by (simp add: topology_ok_def)
  have apart: "set (worker_files (tp_worker t q)) \<inter> set (worker_files (tp_worker t r)) = {}" if "q \<noteq> r" for q r
    using ok that by (simp add: topology_ok_def)
  have opened: "fs_files (tp_fs t) fd \<noteq> None" if "fd \<in> set (worker_files (tp_worker t q))" for fd q
    using workers [of q] that by (simp add: worker_ok_def)
  have kept: "fs_files s fd = fs_files (tp_fs t) fd \<and> fs_locks s fd = fs_locks (tp_fs t) fd"
    if "fd \<in> set (worker_files (tp_worker t q))" "q \<noteq> p" for fd q
    using moves_keeps [OF moved kernel(1) opened [OF that(1)]] apart [OF that(2)] that(1) by blast
  have others: "worker_ok (tp_worker t q) s" if "q \<noteq> p" for q
    using workers [of q] kept [OF _ that] kernel(2) worker_holds_cong [of "tp_worker t q" "tp_fs t" s]
    by (auto simp: worker_ok_def)
  have disjoint: "set (worker_files pr) \<inter> set (worker_files (tp_worker t q)) = {}" if other: "q \<noteq> p" for q
  proof -
    have "fd \<notin> set (worker_files (tp_worker t q))" if fd: "fd \<in> set (worker_files pr)" for fd
    proof
      assume q: "fd \<in> set (worker_files (tp_worker t q))"
      have "fd \<in> set (worker_files (tp_worker t p)) \<or> fs_descriptors (tp_fs t) \<le> fd"
        using moved fd by (simp add: moves_def)
      moreover have "fd < fs_descriptors (tp_fs t)" using opened [OF q] kernel_above [OF kernel(1), of fd] by fastforce
      ultimately show False using apart [OF other] q by auto
    qed
    then show ?thesis by blast
  qed
  have locks: "\<exists>q. fd \<in> set (worker_files (tp_worker t' q))" if "fs_locks s fd \<noteq> None" for fd
  proof (cases "fd \<in> set (worker_files pr)")
    case True
    then show ?thesis using t' by auto
  next
    case False
    then have old: "fd \<notin> set (worker_files (tp_worker t p))" "fd < fs_descriptors (tp_fs t)"
      using moved that unfolding moves_def by (auto simp: not_le [symmetric])
    then have "fs_locks (tp_fs t) fd \<noteq> None" using moved that by (auto simp: moves_def others_kept_def)
    then obtain q where "fd \<in> set (worker_files (tp_worker t q))" using ok unfolding topology_ok_def by blast
    then show ?thesis using old t' by (intro exI [of _ q]) auto
  qed
  show ?thesis
    unfolding topology_ok_def using t' kernel others disjoint apart locks step
    by (auto simp: worker_step_def Int_commute)
qed

lemma topology_foreign:
  assumes "topology_ok t" and "fs_files s = fs_files (tp_fs t)" "fs_locks s = fs_locks (tp_fs t)" "fs_descriptors s = fs_descriptors (tp_fs t)"
  shows "topology_ok (t\<lparr>tp_fs := s\<rparr>)"
proof -
  have "kernel_ok s" using assms unfolding topology_ok_def kernel_ok_def by simp
  then show ?thesis using assms worker_holds_cong [of _ "tp_fs t" s] by (auto simp: topology_ok_def worker_ok_def)
qed

lemma unlink_keeps [simp]:
  "fs_files (unlink_name path s) = fs_files s" "fs_locks (unlink_name path s) = fs_locks s"
  "fs_descriptors (unlink_name path s) = fs_descriptors s" "fs_inodes (unlink_name path s) = fs_inodes s"
  by (simp_all add: unlink_name_def split: option.split)

lemma topology_happen: "topology_ok t \<Longrightarrow> topology_ok (happen env e t)"
proof (cases e)
  case (Begin p op identity)
  assume ok: "topology_ok t"
  obtain pr s where run: "begin_operation env identity op (tp_worker t p) (tp_fs t) = (pr, s)"
    by (cases "begin_operation env identity op (tp_worker t p) (tp_fs t)")
  have "worker_step (tp_worker t p) (tp_fs t) pr s"
    using ok by (intro begin_operation_step [OF _ run]) (simp add: topology_ok_def)
  then show ?thesis using topology_step [OF ok] run Begin by simp
next
  case (Advance p identity)
  assume ok: "topology_ok t"
  obtain pr s where run: "next_call env (le_uuid env (tp_uuids t)) identity (tp_worker t p) (tp_fs t) = (pr, s)"
    by (cases "next_call env (le_uuid env (tp_uuids t)) identity (tp_worker t p) (tp_fs t)")
  have "worker_step (tp_worker t p) (tp_fs t) pr s"
    using ok by (intro next_call_step [OF _ run]) (simp add: topology_ok_def)
  then show ?thesis using topology_step [OF ok] run Advance by simp
next
  case (Fault p f)
  assume ok: "topology_ok t"
  obtain pr s where run: "fail_call f (tp_worker t p) (tp_fs t) = (pr, s)" by (cases "fail_call f (tp_worker t p) (tp_fs t)")
  have "worker_step (tp_worker t p) (tp_fs t) pr s"
    using ok by (intro fail_call_step [OF _ run]) (simp add: topology_ok_def)
  then show ?thesis using topology_step [OF ok] run Fault by simp
next
  case (Exit p)
  assume ok: "topology_ok t"
  have "worker_step (tp_worker t p) (tp_fs t) (Stopped None) (drop_worker (tp_worker t p) (tp_fs t))"
    using ok by (intro drop_worker_step) (simp add: topology_ok_def)
  then show ?thesis using topology_step [OF ok] Exit by simp
qed (auto intro!: topology_foreign simp: foreign_create_def foreign_change_def Let_def)

lemma topology_after: "topology_ok t \<Longrightarrow> topology_ok (after env es t)"
  by (induction es arbitrary: t) (simp_all add: after_def topology_happen)

section \<open>One leader, and exclusive use is exclusive\<close>

text \<open>The locks a process relies on: the descriptor, its path, and whether it is exclusive.\<close>

fun relied_locks :: "worker \<Rightarrow> (nat \<times> string \<times> bool) list" where
  "relied_locks (HoldingUse g) = [(ug_file g, ug_path g, ug_exclusive g)]"
| "relied_locks (TakingLead g path create pc) = (ug_file g, ug_path g, ug_exclusive g) # (case pc of
     LeadSample fd \<Rightarrow> [(fd, path, True)] | LeadTruncate fd prior \<Rightarrow> [(fd, path, True)]
   | LeadWrite fd inc prior \<Rightarrow> [(fd, path, True)] | LeadSync fd inc prior \<Rightarrow> [(fd, path, True)] | _ \<Rightarrow> [])"
| "relied_locks (Leading g) = [(ug_file (lg_use g), ug_path (lg_use g), ug_exclusive (lg_use g)), (lg_file g, lg_path g, True)]"
| "relied_locks (Downgrading g) = [(lg_file g, lg_path g, True)]"
| "relied_locks (Stranded g) = [(lg_file g, lg_path g, True)]"
| "relied_locks (Joining g path pc) = [(ug_file g, ug_path g, ug_exclusive g)]"
| "relied_locks (Following g r) = [(ug_file (fg_use g), ug_path (fg_use g), ug_exclusive (fg_use g))]"
| "relied_locks (Checking g expected pc joining) = [(ug_file (fg_use g), ug_path (fg_use g), ug_exclusive (fg_use g))]"
| "relied_locks pr = []"

lemma relied_locks_held:
  assumes "worker_ok pr s" and "(fd, path, e) \<in> set (relied_locks pr)"
  shows "fs_locks s fd = Some e \<and> fd \<in> set (worker_files pr)"
proof (cases pr)
  case (TakingLead g p create pc)
  then show ?thesis using assms by (cases pc) (auto simp: worker_ok_def guard_holds_def)
qed (use assms in \<open>auto simp: worker_ok_def guard_holds_def\<close>)

text \<open>C20: In every interleaving of any number of processes, with exits, failing calls and files that are
  removed and replaced from outside, an exclusive lock that its holder can verify on its path excludes every
  other process from a verified lock on that path. So there is at most one leader of an index whose
  guard verifies, and while an index or a record is removed under its exclusive use lock nobody uses it.
\<close>

theorem verified_exclusive_alone:
  assumes "t = after env es empty_topology"
    and "(fd, path, True) \<in> set (relied_locks (tp_worker t p))" "private_file path fd (tp_fs t) = Inr ()"
    and "(fd', path, e) \<in> set (relied_locks (tp_worker t q))" "private_file path fd' (tp_fs t) = Inr ()"
  shows "p = q"
proof (rule ccontr)
  assume "p \<noteq> q"
  have ok: "topology_ok t" using assms(1) topology_after [OF topology_empty] by simp
  have "fs_files (tp_fs t) fd' = fs_files (tp_fs t) fd"
    using private_file_named [OF assms(3)] private_file_named [OF assms(5)] by auto
  moreover have "fs_locks (tp_fs t) fd = Some True" "fd \<in> set (worker_files (tp_worker t p))"
    and "fs_locks (tp_fs t) fd' = Some e" "fd' \<in> set (worker_files (tp_worker t q))"
    using relied_locks_held [OF _ assms(2)] relied_locks_held [OF _ assms(4)] ok unfolding topology_ok_def by blast+
  ultimately have "fd' = fd" "fd \<in> set (worker_files (tp_worker t p)) \<inter> set (worker_files (tp_worker t q))"
    using kernel_exclusive [of "tp_fs t" fd fd' e] ok by (auto simp: topology_ok_def)
  then show False using ok \<open>p \<noteq> q\<close> by (auto simp: topology_ok_def)
qed

section \<open>An incarnation stays while its leader holds the lock\<close>

text \<open>How the file system grows: names and descriptors point to inodes in use, a descriptor is never pointed elsewhere.\<close>

definition inodes_ok :: "lock_fs \<Rightarrow> bool" where
  "inodes_ok s \<longleftrightarrow> (\<forall>path i. fs_names s path = Some i \<longrightarrow> i < fs_inodes s)
     \<and> (\<forall>fd i. fs_files s fd = Some i \<longrightarrow> i < fs_inodes s)"

definition content_of :: "lock_fs \<Rightarrow> nat \<Rightarrow> string" where
  "content_of s i = in_content (fs_inode s i)"

definition fs_grows :: "(nat \<Rightarrow> string option) \<Rightarrow> lock_fs \<Rightarrow> lock_fs \<Rightarrow> bool" where
  "fs_grows written s s' \<longleftrightarrow> (inodes_ok s \<longrightarrow> inodes_ok s')
     \<and> fs_inodes s \<le> fs_inodes s' \<and> fs_descriptors s \<le> fs_descriptors s'
     \<and> (\<forall>fd < fs_descriptors s. fs_files s' fd = fs_files s fd \<or> fs_files s' fd = None)
     \<and> (\<forall>i < fs_inodes s. content_of s' i = (case written i of None \<Rightarrow> content_of s i | Some text \<Rightarrow> text))"

abbreviation quiet :: "nat \<Rightarrow> string option" where "quiet \<equiv> (\<lambda>_. None)"

lemma fs_grows_refl [simp]: "fs_grows quiet s s"
  by (simp add: fs_grows_def)

lemma fs_grows_trans: "fs_grows w s t \<Longrightarrow> fs_grows quiet t u \<Longrightarrow> fs_grows w s u"
  by (auto simp: fs_grows_def) (metis option.distinct(1) order_less_le_trans)+

lemma fs_grows_close [simp]: "fs_grows quiet s (close_file fd s)"
  by (auto simp: fs_grows_def close_file_def inodes_ok_def content_of_def)

lemma fs_grows_lock [simp]: "fs_grows quiet s (lock_file fd e s)"
  by (auto simp: fs_grows_def lock_file_def inodes_ok_def content_of_def)

lemma fs_grows_unlock [simp]: "fs_grows quiet s (unlock_file fd s)"
  by (auto simp: fs_grows_def unlock_file_def inodes_ok_def content_of_def)

lemma fs_grows_unlink [simp]: "fs_grows quiet s (unlink_name path s)"
  by (auto simp: fs_grows_def unlink_name_def inodes_ok_def content_of_def split: option.split)

lemma fs_grows_create [simp]: "inodes_ok s \<Longrightarrow> fs_grows quiet s (create_file path s)"
  by (auto simp: fs_grows_def create_file_def inodes_ok_def content_of_def less_SucI)

lemma fs_grows_open: "fs_names s path = Some i \<Longrightarrow> fs_grows quiet s (open_inode i s)"
  by (auto simp: fs_grows_def open_inode_def inodes_ok_def content_of_def)

lemma fs_grows_write:
  "fs_files s fd \<noteq> None \<Longrightarrow> fs_grows (\<lambda>i. if fs_files s fd = Some i then Some text else None) s (write_content fd text s)"
  by (auto simp: fs_grows_def write_content_def inodes_ok_def content_of_def)

lemma fs_grows_fold_close [simp]: "fs_grows quiet s (fold close_file fds s)"
  by (induction fds arbitrary: s) (auto intro: fs_grows_trans [OF fs_grows_close])

lemma fs_grows_drop [simp]: "fs_grows quiet s (drop_worker pr s)"
  by (simp add: drop_worker_def)

lemma open_managed_fs_grows:
  assumes "inodes_ok s" and "open_managed path create s = (r, s')"
  shows "fs_grows quiet s s'"
proof -
  define t where "t = (if fs_names s path = None \<and> create then create_file path s else s)"
  have t: "fs_grows quiet s t" using assms(1) by (auto simp: t_def)
  show ?thesis
  proof (cases "fs_names t path")
    case None
    then show ?thesis using assms(2) t by (auto simp: open_managed_def t_def [symmetric] Let_def)
  next
    case (Some i)
    note opened = fs_grows_trans [OF t fs_grows_open [OF Some]]
    then have "fs_grows quiet s (close_file fd (open_inode i t))" for fd by (rule fs_grows_trans) simp
    then show ?thesis
      using assms(2) opened Some by (auto simp: open_managed_def t_def [symmetric] Let_def split: sum.splits)
  qed
qed

text \<open>What the next call of a process writes, and to which inode.\<close>

definition written_by :: "string \<Rightarrow> worker \<Rightarrow> lock_fs \<Rightarrow> nat \<Rightarrow> string option" where
  "written_by fresh pr s i = (case pr of
     TakingLead g path create (LeadTruncate fd prior) \<Rightarrow> if fs_files s fd = Some i then Some [] else None
   | TakingLead g path create (LeadWrite fd inc prior) \<Rightarrow> if fs_files s fd = Some i then Some inc else None
   | _ \<Rightarrow> None)"

lemma written_simps [simp]:
  "written_by fresh (Stopped e) s = quiet"
  "written_by fresh (TakingUse u pc) s = quiet"
  "written_by fresh (HoldingUse h) s = quiet"
  "written_by fresh (Leading l) s = quiet"
  "written_by fresh (Downgrading l) s = quiet"
  "written_by fresh (Stranded l) s = quiet"
  "written_by fresh (Joining h path fpc) s = quiet"
  "written_by fresh (Following f q) s = quiet"
  "written_by fresh (Checking f expected vpc joining) s = quiet"
  "written_by fresh (TakingLead g path create (LeadOpen k)) s = quiet"
  "written_by fresh (TakingLead g path create (LeadLock k fd)) s = quiet"
  "written_by fresh (TakingLead g path create (LeadCheck k fd)) s = quiet"
  "written_by fresh (TakingLead g path create (LeadSample fd)) s = quiet"
  "written_by fresh (TakingLead g path create (LeadSync fd inc prior)) s = quiet"
  "written_by fresh (TakingLead g path create (LeadTruncate fd prior)) s
     = (\<lambda>i. if fs_files s fd = Some i then Some [] else None)"
  "written_by fresh (TakingLead g path create (LeadWrite fd inc prior)) s
     = (\<lambda>i. if fs_files s fd = Some i then Some inc else None)"
  by (simp_all add: written_by_def fun_eq_iff)

lemma use_step_fs_grows: "inodes_ok s \<Longrightarrow> use_step u pc s = (r, s') \<Longrightarrow> fs_grows quiet s s'"
  by (cases pc) (auto split: if_splits prod.splits sum.splits dest: open_managed_fs_grows)

lemma follower_step_fs_grows: "inodes_ok s \<Longrightarrow> follower_step env g path pc s = (r, s') \<Longrightarrow> fs_grows quiet s s'"
  by (cases pc) (auto split: if_splits prod.splits sum.splits dest: open_managed_fs_grows)

lemma verify_step_fs_grows: "verify_step env g expected identity pc s = (r, s') \<Longrightarrow> fs_grows quiet s s'"
  by (cases pc) (auto split: if_splits sum.splits)

lemma leader_step_fs_grows:
  assumes "inodes_ok s" and "\<forall>fd \<in> set (lead_files pc). fs_files s fd \<noteq> None"
    and "leader_step env g path create fresh pc s = (r, s')"
  shows "fs_grows (written_by fresh (TakingLead g path create pc) s) s s'"
proof (cases pc)
  case (LeadTruncate fd prior)
  then show ?thesis using assms(2,3) fs_grows_write [of s fd "[]"] by auto
next
  case (LeadWrite fd inc prior)
  then show ?thesis using assms(2,3) fs_grows_write [of s fd inc] by auto
qed (use assms in \<open>auto split: if_splits prod.splits sum.splits dest: open_managed_fs_grows\<close>)

lemma next_call_fs_grows:
  assumes "inodes_ok s" and "worker_ok pr s" and "next_call env fresh identity pr s = (pr', s')"
  shows "fs_grows (written_by fresh pr s) s s'"
proof (cases pr)
  case (TakingUse u pc)
  obtain r t where "use_step u pc s = (r, t)" by (cases "use_step u pc s")
  then show ?thesis using assms TakingUse use_step_fs_grows [OF assms(1)]
    by (auto split: use_outcome.splits)
next
  case (TakingLead g path create pc)
  obtain r t where lead: "leader_step env g path create fresh pc s = (r, t)" by (cases "leader_step env g path create fresh pc s")
  have "fs_grows (written_by fresh pr s) s t"
    using leader_step_fs_grows [OF assms(1) _ lead] assms(2) TakingLead by (simp add: worker_ok_def)
  then show ?thesis using assms(3) TakingLead lead by (auto split: leader_outcome.splits intro: fs_grows_trans)
next
  case (Joining g path pc)
  obtain r t where "follower_step env g path pc s = (r, t)" by (cases "follower_step env g path pc s")
  then show ?thesis using assms Joining follower_step_fs_grows [OF assms(1)]
    by (auto split: follower_outcome.splits intro: fs_grows_trans [OF _ fs_grows_close])
next
  case (Checking g expected pc joining)
  obtain r t where "verify_step env g expected identity pc s = (r, t)" by (cases "verify_step env g expected identity pc s")
  then show ?thesis using assms Checking verify_step_fs_grows
    by (auto split: verify_outcome.splits sum.splits if_splits intro: fs_grows_trans [OF _ fs_grows_drop])
qed (use assms in \<open>auto split: if_splits\<close>)

lemma begin_operation_fs_grows: "begin_operation env identity op pr s = (pr', s') \<Longrightarrow> fs_grows quiet s s'"
  by (cases op; cases pr)
    (auto simp: begin_operation_def remove_last_def split: if_splits sum.splits prod.splits intro: fs_grows_trans [OF fs_grows_unlink fs_grows_close])

lemma fail_call_fs_grows: "fail_call e pr s = (pr', s') \<Longrightarrow> fs_grows quiet s s'"
  by (cases pr) (auto split: if_splits)

text \<open>The incarnation a process in charge of a lock file has written to it, with its descriptor.\<close>

fun inscribed :: "worker \<Rightarrow> (nat \<times> string) option" where
  "inscribed (TakingLead g path create (LeadWrite fd inc prior)) = Some (fd, [])"
| "inscribed (TakingLead g path create (LeadSync fd inc prior)) = Some (fd, inc)"
| "inscribed (Leading g) = Some (lg_file g, lg_incarnation g)"
| "inscribed (Downgrading g) = Some (lg_file g, lg_incarnation g)"
| "inscribed (Stranded g) = Some (lg_file g, lg_incarnation g)"
| "inscribed pr = None"

text \<open>The incarnation a process has drawn.\<close>

fun drawn :: "worker \<Rightarrow> string option" where
  "drawn (TakingLead g path create (LeadWrite fd inc prior)) = Some inc"
| "drawn (TakingLead g path create (LeadSync fd inc prior)) = Some inc"
| "drawn (Leading g) = Some (lg_incarnation g)"
| "drawn (Downgrading g) = Some (lg_incarnation g)"
| "drawn (Stranded g) = Some (lg_incarnation g)"
| "drawn pr = None"

definition contents_ok :: "lock_env \<Rightarrow> topology \<Rightarrow> bool" where
  "contents_ok env t \<longleftrightarrow> topology_ok t \<and> inodes_ok (tp_fs t)
     \<and> (\<forall>p fd str i. inscribed (tp_worker t p) = Some (fd, str) \<longrightarrow> fs_files (tp_fs t) fd = Some i \<longrightarrow> content_of (tp_fs t) i = str)
     \<and> (\<forall>p inc. drawn (tp_worker t p) = Some inc \<longrightarrow> (\<exists>n < tp_uuids t. inc = le_uuid env n))"

lemma inscribed_held:
  "worker_ok pr s \<Longrightarrow> inscribed pr = Some (fd, str) \<Longrightarrow>
     fs_locks s fd = Some True \<and> fd \<in> set (worker_files pr) \<and> fs_files s fd \<noteq> None"
  by (cases pr rule: inscribed.cases) (auto simp: worker_ok_def)

lemma written_held:
  "worker_ok pr s \<Longrightarrow> written_by fresh pr s i = Some str \<Longrightarrow>
     \<exists>fd. fs_files s fd = Some i \<and> fs_locks s fd = Some True \<and> fd \<in> set (worker_files pr)"
  by (auto simp: written_by_def worker_ok_def split: worker.splits leader_pc.splits if_splits)

text \<open>What a step leaves inscribed was so before, or was written by the step.\<close>

lemma leader_step_inscribed:
  assumes "leader_step env g path create fresh pc s = (r, s')" and "fs_files s' fd = Some i"
    and "(case r of LeadNext pc' \<Rightarrow> inscribed (TakingLead g path create pc') | LeadReady l \<Rightarrow> inscribed (Leading l)
       | LeadError e \<Rightarrow> None) = Some (fd, str)"
  shows "written_by fresh (TakingLead g path create pc) s i = Some str
     \<or> inscribed (TakingLead g path create pc) = Some (fd, str) \<and> written_by fresh (TakingLead g path create pc) s i = None"
  using assms by (cases pc) (auto split: if_splits prod.splits sum.splits)

lemma next_call_inscribed:
  assumes "next_call env fresh identity pr s = (pr', s')" and "inscribed pr' = Some (fd, str)" and "fs_files s' fd = Some i"
  shows "written_by fresh pr s i = Some str \<or> inscribed pr = Some (fd, str) \<and> written_by fresh pr s i = None"
proof (cases pr)
  case (TakingLead g path create pc)
  obtain r t where lead: "leader_step env g path create fresh pc s = (r, t)" by (cases "leader_step env g path create fresh pc s")
  show ?thesis
    using leader_step_inscribed [OF lead, of fd i "str"] lead assms TakingLead by (cases r) auto
qed (use assms in \<open>auto split: if_splits prod.splits sum.splits use_outcome.splits follower_outcome.splits verify_outcome.splits\<close>)

lemma next_call_drawn:
  assumes "next_call env fresh identity pr s = (pr', s')" and "drawn pr' = Some inc"
  shows "drawn pr = Some inc \<or> inc = fresh"
proof (cases pr)
  case (TakingLead g path create pc)
  then show ?thesis using assms by (cases pc) (auto split: if_splits prod.splits sum.splits)
qed (use assms in \<open>auto split: if_splits prod.splits sum.splits use_outcome.splits follower_outcome.splits verify_outcome.splits\<close>)

lemma begin_inscribed:
  assumes "begin_operation env identity op pr s = (pr', s')"
  shows "(inscribed pr' = Some (fd, str) \<longrightarrow> inscribed pr = Some (fd, str)) \<and> (drawn pr' = Some inc \<longrightarrow> drawn pr = Some inc)"
  using assms by (cases op; cases pr) (auto simp: begin_operation_def split: if_splits sum.splits prod.splits)

lemma fail_inscribed:
  assumes "fail_call e pr s = (pr', s')"
  shows "(inscribed pr' = Some (fd, str) \<longrightarrow> inscribed pr = Some (fd, str)) \<and> (drawn pr' = Some inc \<longrightarrow> drawn pr = Some inc)"
  using assms by (cases pr) (auto split: if_splits)

text \<open>A step of process \<open>p\<close> that writes only what it may keeps every other inscription.\<close>

lemma contents_step:
  assumes ok: "contents_ok env t" and ok': "topology_ok t'"
    and t': "tp_fs t' = s" "tp_worker t' = (tp_worker t)(p := pr)" "tp_uuids t \<le> tp_uuids t'"
    and grown: "fs_grows w (tp_fs t) s"
    and allowed: "\<And>i str. w i = Some str \<Longrightarrow> written_by fresh (tp_worker t p) (tp_fs t) i = Some str"
    and ins: "\<And>fd str i. inscribed pr = Some (fd, str) \<Longrightarrow> fs_files s fd = Some i \<Longrightarrow>
       w i = Some str \<or> inscribed (tp_worker t p) = Some (fd, str) \<and> w i = None"
    and new: "\<And>inc. drawn pr = Some inc \<Longrightarrow> drawn (tp_worker t p) = Some inc \<or> (\<exists>n < tp_uuids t'. inc = le_uuid env n)"
  shows "contents_ok env t'"
proof -
  have top: "topology_ok t" and inodes: "inodes_ok (tp_fs t)" using ok by (auto simp: contents_ok_def)
  have workers: "worker_ok (tp_worker t q) (tp_fs t)" for q using top by (simp add: topology_ok_def)
  have kernel: "kernel_ok (tp_fs t)" using top by (simp add: topology_ok_def)
  have content: "content_of s i = (case w i of None \<Rightarrow> content_of (tp_fs t) i | Some x \<Rightarrow> x)" if "i < fs_inodes (tp_fs t)" for i
    using grown that by (simp add: fs_grows_def)
  have before: "fs_files (tp_fs t) fd = Some i \<and> i < fs_inodes (tp_fs t)"
    if "fs_files (tp_fs t) fd \<noteq> None" "fs_files s fd = Some i" for fd i
  proof -
    have "fd < fs_descriptors (tp_fs t)" using kernel_above [OF kernel, of fd] that(1) by fastforce
    then show ?thesis using grown that inodes unfolding fs_grows_def inodes_ok_def by fastforce
  qed
  have inscription: "content_of s i = str"
    if "inscribed (tp_worker t' q) = Some (fd, str)" "fs_files s fd = Some i" for q fd str i
  proof (cases "q = p")
    case True
    then have pr: "inscribed pr = Some (fd, str)" using that t' by simp
    show ?thesis
    proof (cases "w i")
      case None
      then have old: "inscribed (tp_worker t p) = Some (fd, str)" using ins [OF pr that(2)] by auto
      have "fs_files (tp_fs t) fd = Some i \<and> i < fs_inodes (tp_fs t)"
        using inscribed_held [OF workers old] before that(2) by blast
      then show ?thesis using ok old content None unfolding contents_ok_def by fastforce
    next
      case (Some x)
      then have "x = str" using ins [OF pr that(2)] by auto
      moreover have "i < fs_inodes (tp_fs t)" using written_held [OF workers allowed [OF Some]] inodes unfolding inodes_ok_def by blast
      ultimately show ?thesis using content Some by simp
    qed
  next
    case False
    then have old: "inscribed (tp_worker t q) = Some (fd, str)" using that t' by simp
    note held = inscribed_held [OF workers old]
    then have i: "fs_files (tp_fs t) fd = Some i" "i < fs_inodes (tp_fs t)" using before that(2) by blast+
    have "w i = None"
    proof (rule ccontr)
      assume "w i \<noteq> None"
      then obtain x where "w i = Some x" by blast
      from written_held [OF workers allowed [OF this]] obtain fd' where "fs_files (tp_fs t) fd' = Some i"
        "fs_locks (tp_fs t) fd' = Some True" "fd' \<in> set (worker_files (tp_worker t p))" by blast
      then have "fd' = fd" using kernel_exclusive [OF kernel, of fd fd' True] held i by simp
      then show False using \<open>fd' \<in> _\<close> held False top by (auto simp: topology_ok_def)
    qed
    then show ?thesis using ok old i content unfolding contents_ok_def by fastforce
  qed
  have "\<exists>n < tp_uuids t'. inc = le_uuid env n" if "drawn (tp_worker t' q) = Some inc" for q inc
  proof -
    have old: "\<exists>n < tp_uuids t'. inc = le_uuid env n" if "drawn (tp_worker t r) = Some inc" for r
      using ok that t'(3) unfolding contents_ok_def by (meson order_less_le_trans)
    show ?thesis using that new [of inc] t'(2) old [of q] old [of p] by (cases "q = p") auto
  qed
  moreover have "inodes_ok s" using grown inodes by (simp add: fs_grows_def)
  ultimately show ?thesis using ok' inscription t' unfolding contents_ok_def by simp
qed

lemma contents_foreign:
  assumes ok: "contents_ok env t" and ok': "topology_ok (t\<lparr>tp_fs := s\<rparr>)" and grown: "fs_grows quiet (tp_fs t) s"
    and same: "fs_files s = fs_files (tp_fs t)"
  shows "contents_ok env (t\<lparr>tp_fs := s\<rparr>)"
proof -
  have "content_of s i = content_of (tp_fs t) i" if "fs_files (tp_fs t) fd = Some i" for fd i
    using grown ok that unfolding fs_grows_def contents_ok_def inodes_ok_def by fastforce
  then show ?thesis using ok ok' grown same unfolding contents_ok_def by (auto simp: fs_grows_def)
qed

lemma fs_grows_foreign [simp]:
  "inodes_ok s \<Longrightarrow> fs_grows quiet s (foreign_create path m s)" "fs_grows quiet s (foreign_change i m s)"
proof -
  show "fs_grows quiet s (foreign_create path m s)" if "inodes_ok s"
  proof -
    have inodes: "inodes_ok (unlink_name path s)" using fs_grows_unlink [of s path] that by (simp add: fs_grows_def)
    then have "fs_grows quiet (unlink_name path s) (foreign_create path m s)"
      by (auto simp: fs_grows_def foreign_create_def inodes_ok_def content_of_def Let_def less_SucI)
    then show ?thesis using fs_grows_trans [OF fs_grows_unlink] by blast
  qed
  show "fs_grows quiet s (foreign_change i m s)"
    by (auto simp: fs_grows_def foreign_change_def inodes_ok_def content_of_def)
qed

text \<open>Every event: the contents it changes are those its process may write.\<close>

definition event_writes :: "lock_env \<Rightarrow> topology \<Rightarrow> lock_event \<Rightarrow> nat \<Rightarrow> string option" where
  "event_writes env t e = (case e of Advance p identity \<Rightarrow> written_by (le_uuid env (tp_uuids t)) (tp_worker t p) (tp_fs t)
     | _ \<Rightarrow> quiet)"

lemma contents_happen:
  assumes ok: "contents_ok env t"
  shows "contents_ok env (happen env e t) \<and> fs_grows (event_writes env t e) (tp_fs t) (tp_fs (happen env e t))"
proof -
  have top: "topology_ok t" and inodes: "inodes_ok (tp_fs t)" using ok by (auto simp: contents_ok_def)
  have workers: "worker_ok (tp_worker t q) (tp_fs t)" for q using top by (simp add: topology_ok_def)
  have top': "topology_ok (happen env e t)" by (rule topology_happen [OF top])
  have silent: "contents_ok env t'"
    if "topology_ok t'" "tp_fs t' = s" "tp_worker t' = (tp_worker t)(p := pr)" "tp_uuids t' = tp_uuids t" "fs_grows quiet (tp_fs t) s"
      "\<And>fd str inc. (inscribed pr = Some (fd, str) \<longrightarrow> inscribed (tp_worker t p) = Some (fd, str))
        \<and> (drawn pr = Some inc \<longrightarrow> drawn (tp_worker t p) = Some inc)" for t' s p pr
    using that by (intro contents_step [OF ok, of t' s p pr quiet "[]"]) auto
  show ?thesis
  proof (cases e)
    case (Advance p identity)
    obtain pr s where run: "next_call env (le_uuid env (tp_uuids t)) identity (tp_worker t p) (tp_fs t) = (pr, s)"
      by (cases "next_call env (le_uuid env (tp_uuids t)) identity (tp_worker t p) (tp_fs t)")
    note grown = next_call_fs_grows [OF inodes workers run]
    have "contents_ok env (happen env e t)"
      by (rule contents_step [OF ok top', where p = p and fresh = "le_uuid env (tp_uuids t)" and pr = pr and s = s, OF _ _ _ grown])
        (use run Advance next_call_inscribed [OF run] next_call_drawn [OF run] in auto)
    then show ?thesis using grown run Advance by (simp add: event_writes_def)
  next
    case (Begin p op identity)
    obtain pr s where run: "begin_operation env identity op (tp_worker t p) (tp_fs t) = (pr, s)"
      by (cases "begin_operation env identity op (tp_worker t p) (tp_fs t)")
    note grown = begin_operation_fs_grows [OF run]
    have "contents_ok env (happen env e t)"
      by (rule silent [OF top', where p = p and pr = pr and s = s]) (use run Begin grown begin_inscribed [OF run] in auto)
    then show ?thesis using grown run Begin by (simp add: event_writes_def)
  next
    case (Fault p f)
    obtain pr s where run: "fail_call f (tp_worker t p) (tp_fs t) = (pr, s)" by (cases "fail_call f (tp_worker t p) (tp_fs t)")
    note grown = fail_call_fs_grows [OF run]
    have "contents_ok env (happen env e t)"
      by (rule silent [OF top', where p = p and pr = pr and s = s]) (use run Fault grown fail_inscribed [OF run] in auto)
    then show ?thesis using grown run Fault by (simp add: event_writes_def)
  next
    case (Exit p)
    have "contents_ok env (happen env e t)"
      by (rule silent [OF top', where p = p and pr = "Stopped None"]) (use Exit in auto)
    then show ?thesis using Exit by (simp add: event_writes_def)
  next
    case (ForeignUnlink path)
    then show ?thesis using ok top' by (auto simp: event_writes_def intro!: contents_foreign)
  next
    case (ForeignCreate path m)
    have "fs_files (foreign_create path m (tp_fs t)) = fs_files (tp_fs t)" by (simp add: foreign_create_def Let_def)
    then show ?thesis using ok top' inodes ForeignCreate by (auto simp: event_writes_def intro!: contents_foreign)
  next
    case (ForeignChange i m)
    have "fs_files (foreign_change i m (tp_fs t)) = fs_files (tp_fs t)" by (simp add: foreign_change_def)
    then show ?thesis using ok top' ForeignChange by (auto simp: event_writes_def intro!: contents_foreign)
  qed
qed

lemma contents_after: "contents_ok env t \<Longrightarrow> contents_ok env (after env es t)"
  by (induction es arbitrary: t) (simp_all add: after_def contents_happen)

lemma contents_empty: "contents_ok env empty_topology"
  using topology_empty by (simp add: contents_ok_def) (simp add: empty_topology_def inodes_ok_def)

section \<open>What two looks at the same incarnation prove\<close>

text \<open>
  What the code relies on of version 4 identifiers: they are printed as they are parsed, within 64
  bytes, and the empty text is none.
\<close>

definition uuid_ok :: "lock_env \<Rightarrow> bool" where
  "uuid_ok env \<longleftrightarrow> le_parse env [] = None \<and> (\<forall>n. le_parse env (take 64 (le_uuid env n)) = Some (le_uuid env n))"

text \<open>The incarnation of a live leader is never overwritten, so its verification is exactly that its two lock
  files still are the private files of that name.
\<close>

theorem leader_keeps_incarnation:
  assumes "t = after env es empty_topology" and "uuid_ok env" and "tp_worker t p = Leading l"
  shows "leader_verify env l (tp_fs t) = Inr () \<longleftrightarrow>
     use_verify (lg_use l) (tp_fs t) = Inr () \<and> private_file (lg_path l) (lg_file l) (tp_fs t) = Inr ()"
proof -
  have ok: "contents_ok env t" using contents_after [OF contents_empty] assms(1) by blast
  then obtain n where inc: "lg_incarnation l = le_uuid env n"
    using assms(3) unfolding contents_ok_def by (metis drawn.simps(3))
  have "worker_ok (Leading l) (tp_fs t)" using ok assms(3) unfolding contents_ok_def topology_ok_def by metis
  then obtain i where i: "fs_files (tp_fs t) (lg_file l) = Some i" by (auto simp: worker_ok_def)
  then have "content_of (tp_fs t) i = lg_incarnation l" using ok assms(3) unfolding contents_ok_def by (metis inscribed.simps(3))
  then have "read_incarnation env (lg_file l) (tp_fs t) = Inr (lg_incarnation l)"
    using i inc assms(2) by (simp add: read_incarnation_def content_of_def uuid_ok_def)
  then show ?thesis by (simp add: leader_verify_def)
qed

text \<open>A process that has truncated the file and will write its incarnation next.\<close>

fun pending :: "worker \<Rightarrow> (nat \<times> string) option" where
  "pending (TakingLead g path create (LeadWrite fd inc prior)) = Some (fd, inc)"
| "pending pr = None"

lemma next_call_pending:
  assumes "next_call env fresh identity pr s = (pr', s')" and "pending pr' = Some (fd, inc)"
  shows "inc = fresh"
proof (cases pr)
  case (TakingLead g path create pc)
  then show ?thesis using assms by (cases pc) (auto split: if_splits prod.splits sum.splits)
qed (use assms in \<open>auto split: if_splits prod.splits sum.splits use_outcome.splits follower_outcome.splits verify_outcome.splits\<close>)

lemma begin_pending: "begin_operation env identity op pr s = (pr', s') \<Longrightarrow> pending pr' = Some x \<Longrightarrow> pending pr = Some x"
  by (cases op; cases pr) (auto simp: begin_operation_def split: if_splits sum.splits prod.splits)

lemma fail_pending: "fail_call e pr s = (pr', s') \<Longrightarrow> pending pr' = Some x \<Longrightarrow> pending pr = Some x"
  by (cases pr) (auto split: if_splits)

lemma happen_pending:
  assumes "pending (tp_worker (happen env e t) q) = Some (fd, inc)"
  shows "pending (tp_worker t q) = Some (fd, inc) \<or> inc = le_uuid env (tp_uuids t)"
  using assms
  by (cases e) (auto split: prod.splits if_splits dest: next_call_pending begin_pending fail_pending)

definition event_reigns :: "lock_env \<Rightarrow> topology \<Rightarrow> lock_event \<Rightarrow> (nat \<times> string) list" where
  "event_reigns env t e = (case e of Advance p identity \<Rightarrow> reign_of (le_uuid env (tp_uuids t)) (tp_worker t p) (tp_fs t) | _ \<Rightarrow> [])"

lemma happen_reigns:
  "tp_reigns (happen env e t) = tp_reigns t @ event_reigns env t e \<and> tp_uuids t \<le> tp_uuids (happen env e t)"
  by (cases e) (auto simp: event_reigns_def split: prod.splits)

lemma event_writes_cases:
  "event_writes env t e i = None \<and> i \<notin> fst ` set (event_reigns env t e)
   \<or> event_writes env t e i = Some [] \<and> event_reigns env t e = [(i, le_uuid env (tp_uuids t))]
   \<or> (\<exists>p fd str. event_writes env t e i = Some str \<and> pending (tp_worker t p) = Some (fd, str)
        \<and> fs_files (tp_fs t) fd = Some i \<and> event_reigns env t e = [])"
proof (cases e)
  case (Advance p identity)
  then show ?thesis
  proof (cases "tp_worker t p")
    case (TakingLead g path create pc)
    show ?thesis
    proof (cases pc)
      case (LeadWrite fd inc prior)
      then have writer: "pending (tp_worker t p) = Some (fd, inc)" using TakingLead by simp
      have "event_writes env t e i = (if fs_files (tp_fs t) fd = Some i then Some inc else None)" "event_reigns env t e = []"
        using LeadWrite TakingLead Advance by (simp_all add: event_writes_def event_reigns_def reign_of_def)
      then show ?thesis using writer by (cases "fs_files (tp_fs t) fd = Some i") auto
    qed (use TakingLead Advance in \<open>auto simp: event_writes_def event_reigns_def reign_of_def split: option.splits\<close>)
  qed (auto simp: event_writes_def event_reigns_def reign_of_def)
qed (auto simp: event_writes_def event_reigns_def)

text \<open>From a moment on: as long as no reign began on the inode its content stays, afterwards it is a new incarnation or empty.\<close>

definition since :: "lock_env \<Rightarrow> topology \<Rightarrow> nat \<Rightarrow> topology \<Rightarrow> bool" where
  "since env t0 i t \<longleftrightarrow> contents_ok env t \<and> i < fs_inodes (tp_fs t) \<and> tp_uuids t0 \<le> tp_uuids t
     \<and> (\<forall>fd < fs_descriptors (tp_fs t0). fs_files (tp_fs t) fd = fs_files (tp_fs t0) fd \<or> fs_files (tp_fs t) fd = None)
     \<and> fs_descriptors (tp_fs t0) \<le> fs_descriptors (tp_fs t)
     \<and> (\<exists>new. tp_reigns t = tp_reigns t0 @ new
        \<and> (if i \<in> fst ` set new
           then content_of (tp_fs t) i \<in> insert [] (le_uuid env ` {tp_uuids t0..})
             \<and> (\<forall>p fd inc. pending (tp_worker t p) = Some (fd, inc) \<longrightarrow> fs_files (tp_fs t) fd = Some i \<longrightarrow> inc \<in> le_uuid env ` {tp_uuids t0..})
           else content_of (tp_fs t) i = content_of (tp_fs t0) i))"

lemma pending_inscribed: "pending pr = Some (fd, inc) \<Longrightarrow> inscribed pr = Some (fd, [])"
  by (cases pr rule: pending.cases) auto

lemma since_step:
  assumes inv: "since env t0 i t" and start: "content_of (tp_fs t0) i \<noteq> []"
  shows "since env t0 i (happen env e t)"
proof -
  let ?t = "happen env e t" and ?U = "le_uuid env ` {tp_uuids t0..}"
  obtain new where new: "tp_reigns t = tp_reigns t0 @ new" and state:
    "if i \<in> fst ` set new then content_of (tp_fs t) i \<in> insert [] ?U
       \<and> (\<forall>p fd inc. pending (tp_worker t p) = Some (fd, inc) \<longrightarrow> fs_files (tp_fs t) fd = Some i \<longrightarrow> inc \<in> ?U)
     else content_of (tp_fs t) i = content_of (tp_fs t0) i"
    using inv unfolding since_def by blast
  have ok: "contents_ok env t" and i: "i < fs_inodes (tp_fs t)" and uuids: "tp_uuids t0 \<le> tp_uuids t"
    using inv by (auto simp: since_def)
  have fresh: "le_uuid env (tp_uuids t) \<in> ?U" using uuids by simp
  have ok': "contents_ok env ?t" and grown: "fs_grows (event_writes env t e) (tp_fs t) (tp_fs ?t)"
    using contents_happen [OF ok] by auto
  have content: "content_of (tp_fs ?t) i = (case event_writes env t e i of None \<Rightarrow> content_of (tp_fs t) i | Some x \<Rightarrow> x)"
    using grown i by (simp add: fs_grows_def)
  have pend: "inc \<in> ?U \<or> pending (tp_worker t q) = Some (fd, inc) \<and> fs_files (tp_fs t) fd = Some i"
    if "pending (tp_worker ?t q) = Some (fd, inc)" "fs_files (tp_fs ?t) fd = Some i" for q fd inc
  proof (cases "pending (tp_worker t q) = Some (fd, inc)")
    case True
    have top: "topology_ok t" using ok by (simp add: contents_ok_def)
    then have "fs_files (tp_fs t) fd \<noteq> None" using inscribed_held [OF _ pending_inscribed [OF True]] by (simp add: topology_ok_def)
    moreover have "fd < fs_descriptors (tp_fs t)"
      using calculation top kernel_above [of "tp_fs t" fd] by (fastforce simp: topology_ok_def)
    ultimately have "fs_files (tp_fs t) fd = Some i" using grown that(2) unfolding fs_grows_def by fastforce
    then show ?thesis using True by simp
  next
    case False
    then show ?thesis using happen_pending [OF that(1)] fresh by auto
  qed
  have never: "\<not> (pending (tp_worker t q) = Some (fd, inc) \<and> fs_files (tp_fs t) fd = Some i)" if "i \<notin> fst ` set new" for q fd inc
    using ok pending_inscribed [of "tp_worker t q" fd inc] state that start unfolding contents_ok_def by fastforce
  have "if i \<in> fst ` set (new @ event_reigns env t e)
    then content_of (tp_fs ?t) i \<in> insert [] ?U
      \<and> (\<forall>p fd inc. pending (tp_worker ?t p) = Some (fd, inc) \<longrightarrow> fs_files (tp_fs ?t) fd = Some i \<longrightarrow> inc \<in> ?U)
    else content_of (tp_fs ?t) i = content_of (tp_fs t0) i"
  proof (cases "i \<in> fst ` set new")
    case True
    then have "content_of (tp_fs ?t) i \<in> insert [] ?U" using event_writes_cases [of env t e i] content state by auto
    moreover have "\<forall>p fd inc. pending (tp_worker ?t p) = Some (fd, inc) \<longrightarrow> fs_files (tp_fs ?t) fd = Some i \<longrightarrow> inc \<in> ?U"
      using pend state True by (metis (full_types))
    ultimately show ?thesis using True by (simp add: image_Un)
  next
    case False
    have "\<forall>p fd inc. pending (tp_worker ?t p) = Some (fd, inc) \<longrightarrow> fs_files (tp_fs ?t) fd = Some i \<longrightarrow> inc \<in> ?U"
      using pend never [OF False] by blast
    then show ?thesis using event_writes_cases [of env t e i] content state False never [OF False] by auto
  qed
  moreover have "tp_reigns ?t = tp_reigns t0 @ (new @ event_reigns env t e)" using happen_reigns [of env e t] new by simp
  moreover have "fs_files (tp_fs ?t) fd = fs_files (tp_fs t0) fd \<or> fs_files (tp_fs ?t) fd = None" if "fd < fs_descriptors (tp_fs t0)" for fd
    using inv grown that unfolding since_def fs_grows_def by (metis order_less_le_trans)
  moreover have "i < fs_inodes (tp_fs ?t)" "fs_descriptors (tp_fs t0) \<le> fs_descriptors (tp_fs ?t)"
    using inv grown unfolding since_def fs_grows_def by linarith+
  moreover have "tp_uuids t0 \<le> tp_uuids ?t" using happen_reigns [of env e t] uuids by linarith
  ultimately show ?thesis unfolding since_def using ok' by blast
qed

lemma since_after: "since env t0 i t \<Longrightarrow> content_of (tp_fs t0) i \<noteq> [] \<Longrightarrow> since env t0 i (after env es t)"
  by (induction es arbitrary: t) (simp_all add: after_def since_step)

text \<open>C21: When a follower guard finds the same incarnation twice, no leader has begun to write its own into
  the lock file between the two looks: everything the follower read in between belongs to one reign, whatever other
  processes did. (New identifiers are taken not to repeat the expected one.)
\<close>

theorem one_reign_between_looks:
  assumes "t = after env es empty_topology" and "t' = after env es' t" and "uuid_ok env"
    and "same_incarnation env g expected (tp_fs t) = Inr ()" and "same_incarnation env g expected (tp_fs t') = Inr ()"
    and "\<forall>n \<ge> tp_uuids t. le_uuid env n \<noteq> expected"
  shows "\<exists>i. fs_names (tp_fs t) (fg_path g) = Some i \<and> fs_names (tp_fs t') (fg_path g) = Some i
     \<and> filter (\<lambda>r. fst r = i) (tp_reigns t') = filter (\<lambda>r. fst r = i) (tp_reigns t)"
proof -
  have ok: "contents_ok env t" using contents_after [OF contents_empty] assms(1) by blast
  obtain i where i: "fs_files (tp_fs t) (fg_file g) = Some i" "fs_names (tp_fs t) (fg_path g) = Some i"
    and parsed: "le_parse env (take 64 (content_of (tp_fs t) i)) = Some expected"
    using assms(4) private_file_named [of "fg_path g" "fg_file g" "tp_fs t"]
    by (auto simp: same_incarnation_def read_incarnation_def content_of_def)
  obtain j where j: "fs_files (tp_fs t') (fg_file g) = Some j" "fs_names (tp_fs t') (fg_path g) = Some j"
    and parsed': "le_parse env (take 64 (content_of (tp_fs t') j)) = Some expected"
    using assms(5) private_file_named [of "fg_path g" "fg_file g" "tp_fs t'"]
    by (auto simp: same_incarnation_def read_incarnation_def content_of_def)
  have filled: "content_of (tp_fs t) i \<noteq> []" using parsed assms(3) by (auto simp: uuid_ok_def)
  have "since env t i t"
    unfolding since_def using ok i by (auto simp: contents_ok_def inodes_ok_def)
  then have end_state: "since env t i t'" using since_after [OF _ filled] assms(2) by blast
  have "fg_file g < fs_descriptors (tp_fs t)"
    using i ok kernel_above [of "tp_fs t" "fg_file g"] by (fastforce simp: contents_ok_def topology_ok_def)
  then have same: "j = i" using end_state i j unfolding since_def by fastforce
  obtain new where new: "tp_reigns t' = tp_reigns t @ new" and
    "i \<in> fst ` set new \<longrightarrow> content_of (tp_fs t') i \<in> insert [] (le_uuid env ` {tp_uuids t..})"
    using end_state unfolding since_def by (auto split: if_splits)
  then have "i \<notin> fst ` set new" using parsed' same assms(3,6) by (auto simp: uuid_ok_def)
  then have "filter (\<lambda>r. fst r = i) new = []" by (auto simp: filter_empty_conv image_iff)
  then show ?thesis using i(2) j(2) same new by auto
qed

section \<open>Concrete processes\<close>

definition sample_lock_env :: lock_env where
  "sample_lock_env = \<lparr>le_uuid = (\<lambda>n. if n < 20 then ''a'' else ''b''), le_parse = (\<lambda>s. if s = [] then None else Some s)\<rparr>"

definition shared_use :: use_request where
  "shared_use = \<lparr>ur_path = ''use.lock'', ur_exclusive = False, ur_nonblocking = False, ur_create = True\<rparr>"

definition advances :: "nat \<Rightarrow> nat \<Rightarrow> lock_event list" where
  "advances p n = replicate n (Advance p (Inr ()))"

text \<open>Process 0 takes the lead, then process 1 follows it.\<close>

definition sample_takeover :: "lock_event list" where
  "sample_takeover = Begin 0 (OpUse shared_use) (Inr ()) # advances 0 3
     @ Begin 0 (OpLead ''use.lock'' ''leader.lock'' True) (Inr ()) # advances 0 7"

definition sample_follow :: "lock_event list" where
  "sample_follow = Begin 1 (OpUse shared_use) (Inr ()) # advances 1 3
     @ Begin 1 (OpFollow ''leader.lock'') (Inr ()) # advances 1 6"

definition sample_leader :: leader_guard where
  "sample_leader = \<lparr>lg_use = \<lparr>ug_file = 0, ug_path = ''use.lock'', ug_exclusive = False\<rparr>, lg_file = 1,
     lg_path = ''leader.lock'', lg_incarnation = ''a'', lg_predecessor = None\<rparr>"

definition sample_follower :: follower_guard where
  "sample_follower = \<lparr>fg_use = \<lparr>ug_file = 2, ug_path = ''use.lock'', ug_exclusive = False\<rparr>, fg_file = 3,
     fg_path = ''leader.lock'', fg_incarnation = ''a''\<rparr>"

definition sample_led :: topology where
  "sample_led = after sample_lock_env sample_takeover empty_topology"

definition sample_followed :: topology where
  "sample_followed = after sample_lock_env sample_follow sample_led"

lemma sample_leading: "tp_worker sample_led 0 = Leading sample_leader"
  by code_simp

lemma sample_following: "tp_worker sample_followed 1 = Following sample_follower (Some (Inr ()))"
  by code_simp

lemma sample_led_after: "sample_followed = after sample_lock_env (sample_takeover @ sample_follow) empty_topology"
  by (simp add: sample_followed_def sample_led_def after_def)

lemma sample_uuids: "uuid_ok sample_lock_env"
  by (simp add: uuid_ok_def sample_lock_env_def)

lemma sample_leader_named:
  "private_file ''leader.lock'' 1 (tp_fs sample_followed) = Inr () \<and> tp_worker sample_followed 0 = Leading sample_leader"
  by code_simp

theorem verified_exclusive_alone_witness:
  "(1, ''leader.lock'', True) \<in> set (relied_locks (tp_worker sample_followed 0))
     \<and> \<not> (\<exists>fd e. (fd, ''leader.lock'', e) \<in> set (relied_locks (tp_worker sample_followed 1))
          \<and> private_file ''leader.lock'' fd (tp_fs sample_followed) = Inr ())"
proof -
  have lead: "(1, ''leader.lock'', True) \<in> set (relied_locks (tp_worker sample_followed 0))"
    using sample_leader_named by (simp add: sample_leader_def)
  then show ?thesis
    using verified_exclusive_alone [OF sample_led_after lead] sample_leader_named by (metis zero_neq_one)
qed

theorem leader_keeps_incarnation_witness:
  "tp_worker sample_followed 0 = Leading sample_leader \<and> leader_verify sample_lock_env sample_leader (tp_fs sample_followed) = Inr ()"
proof -
  have "use_verify (lg_use sample_leader) (tp_fs sample_followed) = Inr ()"
    "private_file (lg_path sample_leader) (lg_file sample_leader) (tp_fs sample_followed) = Inr ()"
    by code_simp+
  then show ?thesis
    using leader_keeps_incarnation [OF sample_led_after sample_uuids conjunct2 [OF sample_leader_named]] sample_leader_named
    by simp
qed

text \<open>Two looks of process 1, around a third process that takes a use guard.\<close>

definition sample_third :: "lock_event list" where
  "sample_third = Begin 2 (OpUse shared_use) (Inr ()) # advances 2 3"

lemma sample_uuid_count: "20 \<le> tp_uuids (after sample_lock_env (advances 3 5) sample_followed)"
  by code_simp

theorem one_reign_between_looks_witness:
  "\<exists>i. fs_names (tp_fs (after sample_lock_env (advances 3 5) sample_followed)) ''leader.lock'' = Some i
     \<and> filter (\<lambda>r. fst r = i) (tp_reigns (after sample_lock_env sample_third (after sample_lock_env (advances 3 5) sample_followed)))
       = filter (\<lambda>r. fst r = i) (tp_reigns (after sample_lock_env (advances 3 5) sample_followed))"
proof -
  let ?t = "after sample_lock_env (advances 3 5) sample_followed"
  have t: "?t = after sample_lock_env (sample_takeover @ sample_follow @ advances 3 5) empty_topology"
    by (simp add: sample_followed_def sample_led_def after_def)
  have "same_incarnation sample_lock_env sample_follower ''a'' (tp_fs ?t) = Inr ()"
    "same_incarnation sample_lock_env sample_follower ''a'' (tp_fs (after sample_lock_env sample_third ?t)) = Inr ()"
    by code_simp+
  moreover have "\<forall>n \<ge> tp_uuids ?t. le_uuid sample_lock_env n \<noteq> ''a''"
    using sample_uuid_count by (simp add: sample_lock_env_def)
  ultimately show ?thesis
    using one_reign_between_looks [OF t refl sample_uuids] by (fastforce simp: sample_follower_def)
qed

section \<open>A probe may be taken for a leader\<close>

text \<open>
  After the leader is gone, the probe of one follower holds the lock for a moment. Another follower
  whose own probe falls into that moment finds the lock taken and its verification succeeds, although
  nobody leads.
\<close>

definition sample_orphans :: "lock_event list" where
  "sample_orphans = Begin 2 (OpUse shared_use) (Inr ()) # advances 2 3
     @ Begin 2 (OpFollow ''leader.lock'') (Inr ()) # advances 2 6
     @ Exit 0 # Begin 1 (OpVerify ''a'') (Inr ()) # advances 1 2
     @ Begin 2 (OpVerify ''a'') (Inr ()) # advances 2 3"

theorem follower_probe_mistaken:
  "tp_worker (after sample_lock_env sample_orphans sample_followed) 0 = Stopped None
   \<and> tp_worker (after sample_lock_env sample_orphans sample_followed) 1 = Checking sample_follower ''a'' VerifyRelease False
   \<and> tp_worker (after sample_lock_env sample_orphans sample_followed) 2
       = Following (sample_follower\<lparr>fg_use := (fg_use sample_follower)\<lparr>ug_file := 4\<rparr>, fg_file := 5\<rparr>) (Some (Inr ()))"
  by code_simp

end
