(* ===== verification/Records.thy ===== *)
theory Records
  imports Model Ledger
begin

section \<open>Durable records (\<open>DurableRecords\<close> in \<open>store/topology.rs\<close>)\<close>

text \<open>
  Saved views and annotations live outside the index, in one small database per workspace that is
  created with the first save. A row keeps the JSON text of its record, of type \<open>'j\<close>; the text and its parser are
  the record \<open>record_env\<close>, which also says whose store it is. What the file system, the locks and
  the identity checks answer during one operation is a \<open>record_disk\<close>.
\<close>

record 'j record_db =
  rb_version :: nat
  rb_meta :: "(nat \<times> string \<times> nat) option"
  rb_roots :: "(string \<times> string \<times> string) list"
  rb_views :: "(string \<times> 'j) list"
  rb_annotations :: "(string \<times> string \<times> 'j) list"

text \<open>The directory of the record and its database file.\<close>

record 'j record_store =
  rs_dir :: bool
  rs_db :: "'j record_db option"

record 'j record_env =
  rc_record_id :: string
  rc_root :: "string \<times> string \<times> string"
  rc_view_text :: "saved_view_record \<Rightarrow> 'j"
  rc_view :: "'j \<Rightarrow> saved_view_record result"
  rc_annotation_text :: "annotation_record \<Rightarrow> 'j"
  rc_annotation :: "'j \<Rightarrow> annotation_record result"
  rc_anchor :: "string \<Rightarrow> durable_anchor result"

record 'j record_disk =
  rk_existing :: "unit result"
  rk_prepare :: "unit result"
  rk_rival :: "'j record_db option"
  rk_make_dir :: effect
  rk_create :: effect
  rk_guard :: "unit result"
  rk_open :: "unit result"
  rk_verify :: "unit result"
  rk_commit :: effect
  rk_sync :: bool

subsection \<open>The transaction of a save\<close>

fun upsert :: "'k \<Rightarrow> 'v \<Rightarrow> ('k \<times> 'v) list \<Rightarrow> ('k \<times> 'v) list" where
  "upsert k v [] = [(k, v)]"
| "upsert k v ((k', v') # rows) = (if k' = k then (k, v) # rows else (k', v') # upsert k v rows)"

datatype record_table = Views | Annotations

record record_item =
  ri_table :: record_table
  ri_id :: string
  ri_node :: "string option"

text \<open>
  An existing record keeps its anchor, and its target may not be replaced; only a new record without
  an anchor has one captured.
\<close>

definition merge_view :: "'j record_env \<Rightarrow> 'j record_db \<Rightarrow> 'j \<Rightarrow> string option result \<Rightarrow> 'j result" where
  "merge_view env db payload capture =
     bind_result (rc_view env payload) (\<lambda>incoming.
     bind_result (validate_view_record (rc_anchor env) incoming) (\<lambda>_.
     bind_result (case map_of (rb_views db) (sv_id (svr_base incoming)) of
         Some prior \<Rightarrow>
           bind_result (rc_view env prior) (\<lambda>old.
           bind_result (validate_view_record (rc_anchor env) old) (\<lambda>_.
           ensure (vq_seed (sv_query (svr_base old)) = vq_seed (sv_query (svr_base incoming)))
             ''saved view target replacement is not allowed'' (Inr (incoming\<lparr>svr_anchor := svr_anchor old\<rparr>))))
       | None \<Rightarrow>
           if svr_anchor incoming = None
           then bind_result capture (\<lambda>anchor. Inr (incoming\<lparr>svr_anchor := anchor\<rparr>)) else Inr incoming) (\<lambda>merged.
     bind_result (validate_view_record (rc_anchor env) merged) (\<lambda>_. Inr (rc_view_text env merged)))))"

definition merge_annotation :: "'j record_env \<Rightarrow> 'j record_db \<Rightarrow> 'j \<Rightarrow> bool \<Rightarrow> string option result \<Rightarrow> 'j result" where
  "merge_annotation env db payload preserve_title capture =
     bind_result (rc_annotation env payload) (\<lambda>incoming.
     bind_result (validate_annotation_record (rc_anchor env) incoming) (\<lambda>_.
     bind_result (case map_of (rb_annotations db) (an_id (anr_base incoming)) of
         Some (_, prior) \<Rightarrow>
           bind_result (rc_annotation env prior) (\<lambda>old.
           bind_result (validate_annotation_record (rc_anchor env) old) (\<lambda>_.
           ensure (an_node_id (anr_base old) = an_node_id (anr_base incoming))
             ''saved annotation target replacement is not allowed''
             (Inr (incoming\<lparr>anr_anchor := anr_anchor old,
                 anr_title := (if preserve_title \<and> anr_title incoming = None then anr_title old else anr_title incoming)\<rparr>))))
       | None \<Rightarrow>
           if anr_anchor incoming = None
           then bind_result capture (\<lambda>anchor. Inr (incoming\<lparr>anr_anchor := anchor\<rparr>)) else Inr incoming) (\<lambda>merged.
     bind_result (validate_annotation_record (rc_anchor env) merged) (\<lambda>_. Inr (rc_annotation_text env merged)))))"

definition merge_item :: "'j record_env \<Rightarrow> 'j record_db \<Rightarrow> record_table \<Rightarrow> 'j \<Rightarrow> bool \<Rightarrow> string option result \<Rightarrow> 'j result" where
  "merge_item env db table payload preserve_title capture = (case table of
     Views \<Rightarrow> merge_view env db payload capture
   | Annotations \<Rightarrow> merge_annotation env db payload preserve_title capture)"

text \<open>The node column is \<open>NOT NULL\<close>; every caller that saves an annotation gives its node.\<close>

definition write_item :: "record_item \<Rightarrow> 'j \<Rightarrow> 'j record_db \<Rightarrow> 'j record_db" where
  "write_item item payload db = (case ri_table item of
     Views \<Rightarrow> db\<lparr>rb_views := upsert (ri_id item) payload (rb_views db)\<rparr>
   | Annotations \<Rightarrow> db\<lparr>rb_annotations := upsert (ri_id item)
       (case ri_node item of None \<Rightarrow> [] | Some n \<Rightarrow> n, payload) (rb_annotations db)\<rparr>)"

definition write_root :: "'j record_env \<Rightarrow> 'j record_db \<Rightarrow> 'j record_db" where
  "write_root env db = db\<lparr>rb_roots := upsert (fst (rc_root env)) (snd (rc_root env)) (rb_roots db)\<rparr>"

subsection \<open>Saving\<close>

text \<open>The checks of \<open>db()\<close> on an opened database.\<close>

definition open_record_db :: "'j record_env \<Rightarrow> 'j record_disk \<Rightarrow> 'j record_db option \<Rightarrow> 'j record_db result" where
  "open_record_db env k found =
     bind_result (ok_or found ''incomplete_record: missing database'') (\<lambda>db.
     bind_result (rk_open k) (\<lambda>_.
     ensure (rb_version db \<noteq> 0) ''incomplete_record: schema not committed'' (
     ensure (rb_version db = 1) ''incompatible_record: schema version'' (
     bind_result (ok_or (rb_meta db) ''incomplete_record: metadata'') (\<lambda>row.
     ensure (row = (1, rc_record_id env, 1)) ''incomplete_record: metadata mismatch'' (Inr db))))))"

definition save_existing :: "'j record_env \<Rightarrow> 'j record_disk \<Rightarrow> record_item \<Rightarrow> 'j \<Rightarrow> bool \<Rightarrow> string option result
    \<Rightarrow> 'j record_store \<Rightarrow> 'j result \<times> 'j record_store" where
  "save_existing env k item payload preserve_title capture s =
     (case bind_result (rk_guard k) (\<lambda>_. bind_result (open_record_db env k (rs_db s)) (\<lambda>db.
         bind_result (merge_item env db (ri_table item) payload preserve_title capture) (\<lambda>merged.
         bind_result (rk_verify k) (\<lambda>_. Inr (merged, write_root env (write_item item merged db)))))) of
       Inl e \<Rightarrow> (Inl e, s)
     | Inr (merged, db) \<Rightarrow> perform (rk_commit k) ''commit'' s (s\<lparr>rs_db := Some db\<rparr>) (\<lambda>s'. (Inr merged, s')))"

definition blank_record_db :: "'j record_db" where
  "blank_record_db = \<lparr>rb_version = 0, rb_meta = None, rb_roots = [], rb_views = [], rb_annotations = []\<rparr>"

text \<open>\<open>RECORD_SCHEMA\<close>, the schema version and the metadata row, written in the transaction of the first save.\<close>

definition record_schema :: "'j record_env \<Rightarrow> 'j record_db" where
  "record_schema env = blank_record_db\<lparr>rb_version := 1, rb_meta := Some (1, rc_record_id env, 1)\<rparr>"

definition save_first :: "'j record_env \<Rightarrow> 'j record_disk \<Rightarrow> record_item \<Rightarrow> 'j \<Rightarrow> bool \<Rightarrow> string option result
    \<Rightarrow> 'j record_store \<Rightarrow> 'j result \<times> 'j record_store" where
  "save_first env k item payload preserve_title capture s =
     perform (rk_make_dir k) ''create directory'' s (s\<lparr>rs_dir := True\<rparr>) (\<lambda>s1.
     perform (rk_create k) ''create file'' s1 (s1\<lparr>rs_db := Some blank_record_db\<rparr>) (\<lambda>s2.
     case bind_result (rk_open k) (\<lambda>_.
         bind_result (merge_item env (record_schema env) (ri_table item) payload preserve_title capture) (\<lambda>merged.
         bind_result (rk_verify k) (\<lambda>_. Inr (merged, write_root env (write_item item merged (record_schema env)))))) of
       Inl e \<Rightarrow> (Inl e, s2)
     | Inr (merged, db) \<Rightarrow> perform (rk_commit k) ''commit'' s2 (s2\<lparr>rs_db := Some db\<rparr>) (\<lambda>s3.
         (if rk_sync k then Inr merged else Inl ''sync'', s3))))"

text \<open>Between the first look and the lock another process may have created the record: its database is \<open>rk_rival\<close>.\<close>

definition save_record :: "'j record_env \<Rightarrow> 'j record_disk \<Rightarrow> record_item \<Rightarrow> 'j \<Rightarrow> bool \<Rightarrow> string option result
    \<Rightarrow> 'j record_store \<Rightarrow> 'j result \<times> 'j record_store" where
  "save_record env k item payload preserve_title capture s =
     (case rk_existing k of Inl e \<Rightarrow> (Inl e, s)
      | Inr _ \<Rightarrow>
        if rs_dir s then save_existing env k item payload preserve_title capture s
        else (case rk_prepare k of Inl e \<Rightarrow> (Inl e, s)
          | Inr _ \<Rightarrow> (let s1 = (case rk_rival k of None \<Rightarrow> s | Some db \<Rightarrow> \<lparr>rs_dir = True, rs_db = Some db\<rparr>) in
              if rs_dir s1 then save_existing env k item payload preserve_title capture s1
              else save_first env k item payload preserve_title capture s1)))"

subsection \<open>Views\<close>

definition view_item :: "saved_view_record \<Rightarrow> record_item" where
  "view_item r = \<lparr>ri_table = Views, ri_id = sv_id (svr_base r), ri_node = None\<rparr>"

definition put_view_record :: "'j record_env \<Rightarrow> 'j record_disk \<Rightarrow> saved_view_record \<Rightarrow> 'j record_store \<Rightarrow> unit result \<times> 'j record_store" where
  "put_view_record env k r s = (case validate_view_record (rc_anchor env) r of Inl e \<Rightarrow> (Inl e, s)
     | Inr _ \<Rightarrow> (case save_record env k (view_item r) (rc_view_text env r) False (Inr None) s of
         (Inl e, s') \<Rightarrow> (Inl e, s') | (Inr _, s') \<Rightarrow> (Inr (), s')))"

definition put_view :: "'j record_env \<Rightarrow> 'j record_disk \<Rightarrow> saved_view \<Rightarrow> 'j record_store \<Rightarrow> unit result \<times> 'j record_store" where
  "put_view env k v s = (case validate_view v of Inl e \<Rightarrow> (Inl e, s)
     | Inr _ \<Rightarrow> put_view_record env k (view_from_base v None) s)"

text \<open>\<open>capture\<close> is the result of the callback that measures the target in the selected revision.\<close>

definition update_view_record :: "'j record_env \<Rightarrow> 'j record_disk \<Rightarrow> saved_view_record \<Rightarrow> string result \<Rightarrow> 'j record_store
    \<Rightarrow> saved_view_record result \<times> 'j record_store" where
  "update_view_record env k r capture s = (case validate_view_record (rc_anchor env) r of Inl e \<Rightarrow> (Inl e, s)
     | Inr _ \<Rightarrow> (case save_record env k (view_item r) (rc_view_text env (r\<lparr>svr_anchor := None\<rparr>)) False
           (bind_result capture (\<lambda>raw. Inr (Some raw))) s of
         (Inl e, s') \<Rightarrow> (Inl e, s') | (Inr payload, s') \<Rightarrow> (rc_view env payload, s')))"

subsection \<open>Annotations\<close>

definition annotation_item :: "annotation_record \<Rightarrow> record_item" where
  "annotation_item r = \<lparr>ri_table = Annotations, ri_id = an_id (anr_base r), ri_node = Some (an_node_id (anr_base r))\<rparr>"

definition put_annotation_record :: "'j record_env \<Rightarrow> 'j record_disk \<Rightarrow> annotation_record \<Rightarrow> bool \<Rightarrow> 'j record_store
    \<Rightarrow> unit result \<times> 'j record_store" where
  "put_annotation_record env k r preserve_title s = (case validate_annotation_record (rc_anchor env) r of Inl e \<Rightarrow> (Inl e, s)
     | Inr _ \<Rightarrow> (case save_record env k (annotation_item r) (rc_annotation_text env r) preserve_title (Inr None) s of
         (Inl e, s') \<Rightarrow> (Inl e, s') | (Inr _, s') \<Rightarrow> (Inr (), s')))"

definition update_annotation_record :: "'j record_env \<Rightarrow> 'j record_disk \<Rightarrow> annotation_record \<Rightarrow> bool \<Rightarrow> string result \<Rightarrow> 'j record_store
    \<Rightarrow> annotation_record result \<times> 'j record_store" where
  "update_annotation_record env k r preserve_title capture s = (case validate_annotation_record (rc_anchor env) r of Inl e \<Rightarrow> (Inl e, s)
     | Inr _ \<Rightarrow> (case save_record env k (annotation_item r) (rc_annotation_text env (r\<lparr>anr_anchor := None\<rparr>)) preserve_title
           (bind_result capture (\<lambda>raw. Inr (Some raw))) s of
         (Inl e, s') \<Rightarrow> (Inl e, s') | (Inr payload, s') \<Rightarrow> (rc_annotation env payload, s')))"

definition put_annotation :: "'j record_env \<Rightarrow> 'j record_disk \<Rightarrow> annotation \<Rightarrow> 'j record_store \<Rightarrow> unit result \<times> 'j record_store" where
  "put_annotation env k a s = (case validate_annotation a of Inl e \<Rightarrow> (Inl e, s)
     | Inr _ \<Rightarrow> (let r = annotation_from_base a None None in
         case save_record env k (annotation_item r) (rc_annotation_text env r) True (Inr None) s of
           (Inl e, s') \<Rightarrow> (Inl e, s') | (Inr _, s') \<Rightarrow> (Inr (), s')))"

subsection \<open>Reading and deleting\<close>

fun each_result :: "('a \<Rightarrow> 'b result) \<Rightarrow> 'a list \<Rightarrow> 'b list result" where
  "each_result f [] = Inr []"
| "each_result f (x # xs) = bind_result (f x) (\<lambda>y. bind_result (each_result f xs) (\<lambda>ys. Inr (y # ys)))"

text \<open>A list of payloads in the order of their identifiers; without a record directory it is empty.\<close>

definition list_payloads :: "'j record_env \<Rightarrow> 'j record_disk \<Rightarrow> ('j record_db \<Rightarrow> (string \<times> 'j) list) \<Rightarrow> ('j \<Rightarrow> 'a result)
    \<Rightarrow> 'j record_store \<Rightarrow> 'a list result" where
  "list_payloads env k rows parse s =
     bind_result (rk_existing k) (\<lambda>_.
     if \<not> rs_dir s then Inr []
     else bind_result (rk_guard k) (\<lambda>_.
       bind_result (open_record_db env k (rs_db s)) (\<lambda>db.
       bind_result (rk_verify k) (\<lambda>_.
       each_result parse (map snd (sort_key fst (rows db)))))))"

definition view_records :: "'j record_env \<Rightarrow> 'j record_disk \<Rightarrow> 'j record_store \<Rightarrow> saved_view_record list result" where
  "view_records env k s = bind_result (list_payloads env k rb_views (rc_view env) s) (\<lambda>rs.
     bind_result (for_each (validate_view_record (rc_anchor env)) rs) (\<lambda>_. Inr rs))"

definition annotation_records :: "'j record_env \<Rightarrow> 'j record_disk \<Rightarrow> 'j record_store \<Rightarrow> annotation_record list result" where
  "annotation_records env k s = bind_result (list_payloads env k
       (\<lambda>db. map (\<lambda>(i, n, p). (i, p)) (rb_annotations db)) (rc_annotation env) s) (\<lambda>rs.
     bind_result (for_each (validate_annotation_record (rc_anchor env)) rs) (\<lambda>_. Inr rs))"

definition view_record :: "'j record_env \<Rightarrow> 'j record_disk \<Rightarrow> string \<Rightarrow> 'j record_store \<Rightarrow> saved_view_record option result" where
  "view_record env k i s = bind_result (view_records env k s) (\<lambda>rs. Inr (find (\<lambda>r. sv_id (svr_base r) = i) rs))"

definition annotation_record_of :: "'j record_env \<Rightarrow> 'j record_disk \<Rightarrow> string \<Rightarrow> 'j record_store \<Rightarrow> annotation_record option result" where
  "annotation_record_of env k i s = bind_result (annotation_records env k s) (\<lambda>rs. Inr (find (\<lambda>r. an_id (anr_base r) = i) rs))"

definition delete_record :: "'j record_env \<Rightarrow> 'j record_disk \<Rightarrow> record_table \<Rightarrow> string \<Rightarrow> 'j record_store \<Rightarrow> bool result \<times> 'j record_store" where
  "delete_record env k table i s =
     (case rk_existing k of Inl e \<Rightarrow> (Inl e, s)
      | Inr _ \<Rightarrow>
        if \<not> rs_dir s then (Inr False, s)
        else (case bind_result (rk_guard k) (\<lambda>_. bind_result (open_record_db env k (rs_db s)) (\<lambda>db.
            bind_result (rk_verify k) (\<lambda>_. Inr db))) of
          Inl e \<Rightarrow> (Inl e, s)
        | Inr db \<Rightarrow>
            (let changed = (case table of Views \<Rightarrow> i \<in> fst ` set (rb_views db) | Annotations \<Rightarrow> i \<in> fst ` set (rb_annotations db));
                 db' = (case table of Views \<Rightarrow> db\<lparr>rb_views := filter (\<lambda>r. fst r \<noteq> i) (rb_views db)\<rparr>
                   | Annotations \<Rightarrow> db\<lparr>rb_annotations := filter (\<lambda>r. fst r \<noteq> i) (rb_annotations db)\<rparr>) in
             perform (rk_commit k) ''commit'' s (s\<lparr>rs_db := Some db'\<rparr>) (\<lambda>s'. (Inr changed, s')))))"

section \<open>What is stored stays well formed\<close>

text \<open>What the code relies on of its derived JSON: a valid record is read back as it was written.\<close>

definition codec_ok :: "'j record_env \<Rightarrow> bool" where
  "codec_ok env \<longleftrightarrow>
     (\<forall>r. validate_view_record (rc_anchor env) r = Inr () \<longrightarrow> rc_view env (rc_view_text env r) = Inr r)
     \<and> (\<forall>r. validate_annotation_record (rc_anchor env) r = Inr () \<longrightarrow> rc_annotation env (rc_annotation_text env r) = Inr r)"

definition view_row :: "'j record_env \<Rightarrow> string \<Rightarrow> 'j \<Rightarrow> saved_view_record \<Rightarrow> bool" where
  "view_row env i p r \<longleftrightarrow> rc_view env p = Inr r \<and> validate_view_record (rc_anchor env) r = Inr () \<and> sv_id (svr_base r) = i"

definition annotation_row :: "'j record_env \<Rightarrow> string \<Rightarrow> string \<times> 'j \<Rightarrow> annotation_record \<Rightarrow> bool" where
  "annotation_row env i np r \<longleftrightarrow> rc_annotation env (snd np) = Inr r \<and> validate_annotation_record (rc_anchor env) r = Inr ()
     \<and> an_id (anr_base r) = i \<and> an_node_id (anr_base r) = fst np"

definition records_ok :: "'j record_env \<Rightarrow> 'j record_db \<Rightarrow> bool" where
  "records_ok env db \<longleftrightarrow> rb_version db = 1 \<and> rb_meta db = Some (1, rc_record_id env, 1)
     \<and> distinct (map fst (rb_views db)) \<and> (\<forall>(i, p) \<in> set (rb_views db). \<exists>r. view_row env i p r)
     \<and> distinct (map fst (rb_annotations db)) \<and> (\<forall>(i, np) \<in> set (rb_annotations db). \<exists>r. annotation_row env i np r)"

definition store_ok :: "'j record_env \<Rightarrow> 'j record_store \<Rightarrow> bool" where
  "store_ok env s \<longleftrightarrow> (rs_db s \<noteq> None \<longrightarrow> rs_dir s)
     \<and> (\<forall>db. rs_db s = Some db \<longrightarrow> db = blank_record_db \<or> records_ok env db)"

lemma upsert_lookup: "map_of (upsert k v rows) = (map_of rows)(k \<mapsto> v)"
  by (induction k v rows rule: upsert.induct) (auto simp: fun_eq_iff)

lemma upsert_keys: "fst ` set (upsert k v rows) = insert k (fst ` set rows)"
  by (induction k v rows rule: upsert.induct) auto

lemma upsert_distinct: "distinct (map fst rows) \<Longrightarrow> distinct (map fst (upsert k v rows))"
proof (induction k v rows rule: upsert.induct)
  case (2 k v k' v' rows)
  then show ?case using upsert_keys [of k v rows] by (auto simp: image_iff)
qed simp

lemma upsert_rows: "x \<in> set (upsert k v rows) \<Longrightarrow> x = (k, v) \<or> x \<in> set rows"
  by (induction k v rows rule: upsert.induct) (auto split: if_splits)

lemma records_lookup:
  assumes "records_ok env db"
  shows "map_of (rb_views db) i = Some p \<Longrightarrow> \<exists>r. view_row env i p r"
    and "map_of (rb_annotations db) i = Some np \<Longrightarrow> \<exists>r. annotation_row env i np r"
proof -
  show "\<exists>r. view_row env i p r" if "map_of (rb_views db) i = Some p"
    using assms map_of_SomeD [OF that] unfolding records_ok_def by fastforce
  show "\<exists>r. annotation_row env i np r" if "map_of (rb_annotations db) i = Some np"
    using assms map_of_SomeD [OF that] unfolding records_ok_def by fastforce
qed

text \<open>What a merge returns: the incoming record with the old anchor of the same target, or with the captured one.\<close>

lemma merge_view_spec:
  assumes codec: "codec_ok env" and ok: "records_ok env db" and merged: "merge_view env db (rc_view_text env r) capture = Inr q"
    and valid: "validate_view_record (rc_anchor env) r = Inr ()"
  shows "\<exists>m. q = rc_view_text env m \<and> view_row env (sv_id (svr_base r)) q m \<and> svr_base m = svr_base r
     \<and> (case map_of (rb_views db) (sv_id (svr_base r)) of
          Some p \<Rightarrow> \<exists>old. view_row env (sv_id (svr_base r)) p old \<and> svr_anchor m = svr_anchor old
            \<and> vq_seed (sv_query (svr_base m)) = vq_seed (sv_query (svr_base old))
        | None \<Rightarrow> if svr_anchor r = None then capture = Inr (svr_anchor m) else svr_anchor m = svr_anchor r)"
proof -
  have read: "rc_view env (rc_view_text env r) = Inr r" using codec valid by (simp add: codec_ok_def)
  show ?thesis
  proof (cases "map_of (rb_views db) (sv_id (svr_base r))")
    case None
    show ?thesis
    proof (cases "svr_anchor r = None")
      case True
      then obtain x where x: "capture = Inr x" "q = rc_view_text env (r\<lparr>svr_anchor := x\<rparr>)"
        "validate_view_record (rc_anchor env) (r\<lparr>svr_anchor := x\<rparr>) = Inr ()"
        using merged valid None by (auto simp: merge_view_def read)
      then show ?thesis using None True codec
        by (intro exI [of _ "r\<lparr>svr_anchor := x\<rparr>"]) (simp add: view_row_def codec_ok_def)
    next
      case False
      then have "q = rc_view_text env r" using merged valid None by (auto simp: merge_view_def read)
      then show ?thesis using None False valid read by (intro exI [of _ r]) (auto simp: view_row_def)
    qed
  next
    case (Some p)
    obtain old where old: "view_row env (sv_id (svr_base r)) p old" using records_lookup(1) [OF ok Some] by blast
    then obtain m where "q = rc_view_text env m" "validate_view_record (rc_anchor env) m = Inr ()" "m = r\<lparr>svr_anchor := svr_anchor old\<rparr>"
      "vq_seed (sv_query (svr_base old)) = vq_seed (sv_query (svr_base r))"
      using merged valid Some by (auto simp: merge_view_def read view_row_def)
    then show ?thesis using Some old codec by (auto simp: view_row_def codec_ok_def)
  qed
qed

lemma merge_annotation_spec:
  assumes codec: "codec_ok env" and ok: "records_ok env db"
    and merged: "merge_annotation env db (rc_annotation_text env r) preserve capture = Inr q"
    and valid: "validate_annotation_record (rc_anchor env) r = Inr ()"
  shows "\<exists>m. q = rc_annotation_text env m \<and> annotation_row env (an_id (anr_base r)) (an_node_id (anr_base r), q) m \<and> anr_base m = anr_base r
     \<and> (case map_of (rb_annotations db) (an_id (anr_base r)) of
          Some p \<Rightarrow> \<exists>old. annotation_row env (an_id (anr_base r)) p old \<and> anr_anchor m = anr_anchor old
            \<and> an_node_id (anr_base m) = an_node_id (anr_base old)
            \<and> anr_title m = (if preserve \<and> anr_title r = None then anr_title old else anr_title r)
        | None \<Rightarrow> anr_title m = anr_title r \<and> (if anr_anchor r = None then capture = Inr (anr_anchor m) else anr_anchor m = anr_anchor r))"
proof -
  have read: "rc_annotation env (rc_annotation_text env r) = Inr r" using codec valid by (simp add: codec_ok_def)
  show ?thesis
  proof (cases "map_of (rb_annotations db) (an_id (anr_base r))")
    case None
    show ?thesis
    proof (cases "anr_anchor r = None")
      case True
      then obtain x where x: "capture = Inr x" "q = rc_annotation_text env (r\<lparr>anr_anchor := x\<rparr>)"
        "validate_annotation_record (rc_anchor env) (r\<lparr>anr_anchor := x\<rparr>) = Inr ()"
        using merged valid None by (auto simp: merge_annotation_def read)
      then show ?thesis using None True codec
        by (intro exI [of _ "r\<lparr>anr_anchor := x\<rparr>"]) (simp add: annotation_row_def codec_ok_def)
    next
      case False
      then have "q = rc_annotation_text env r" using merged valid None by (auto simp: merge_annotation_def read)
      then show ?thesis using None False valid read by (intro exI [of _ r]) (auto simp: annotation_row_def)
    qed
  next
    case (Some np)
    obtain n p where np: "np = (n, p)" by (cases np)
    obtain old where old: "annotation_row env (an_id (anr_base r)) np old" using records_lookup(2) [OF ok Some] by blast
    then obtain m where "q = rc_annotation_text env m" "validate_annotation_record (rc_anchor env) m = Inr ()"
      "m = r\<lparr>anr_anchor := anr_anchor old, anr_title := (if preserve \<and> anr_title r = None then anr_title old else anr_title r)\<rparr>"
      "an_node_id (anr_base old) = an_node_id (anr_base r)"
      using merged valid Some np by (auto simp: merge_annotation_def read annotation_row_def)
    then show ?thesis using Some old codec by (auto simp: annotation_row_def codec_ok_def)
  qed
qed

text \<open>What a save may leave: the commit of one merge into the database it found, or that database untouched.\<close>

definition honest :: "'j record_env \<Rightarrow> 'j record_disk \<Rightarrow> bool" where
  "honest env k \<longleftrightarrow> (\<forall>db. rk_rival k = Some db \<longrightarrow> records_ok env db)"

definition committed :: "'j record_env \<Rightarrow> record_item \<Rightarrow> 'j \<Rightarrow> bool \<Rightarrow> string option result \<Rightarrow> 'j record_db \<Rightarrow> 'j \<Rightarrow> 'j record_store \<Rightarrow> bool" where
  "committed env item payload preserve capture db merged s' \<longleftrightarrow>
     merge_item env db (ri_table item) payload preserve capture = Inr merged
     \<and> rs_dir s' \<and> rs_db s' = Some (write_root env (write_item item merged db))"

definition save_outcome :: "'j record_env \<Rightarrow> 'j record_db option \<Rightarrow> record_item \<Rightarrow> 'j \<Rightarrow> bool \<Rightarrow> string option result \<Rightarrow> 'j record_store \<Rightarrow> 'j result \<Rightarrow> 'j record_store \<Rightarrow> bool" where
  "save_outcome env rival item payload preserve capture s res s' \<longleftrightarrow>
     (\<exists>db merged. records_ok env db \<and> (rs_db s \<noteq> None \<longrightarrow> rs_db s = Some db)
        \<and> (rs_db s = None \<longrightarrow> rival = Some db \<or> db = record_schema env)
        \<and> committed env item payload preserve capture db merged s' \<and> (\<forall>q. res = Inr q \<longrightarrow> q = merged))
     \<or> (\<exists>e. res = Inl e) \<and> store_ok env s' \<and> (rs_db s \<noteq> None \<longrightarrow> rs_db s' = rs_db s)"

lemma schema_ok: "records_ok env (record_schema env)"
  by (simp add: records_ok_def record_schema_def blank_record_db_def)

lemma open_record_db_ok:
  "store_ok env s \<Longrightarrow> open_record_db env k (rs_db s) = Inr db \<Longrightarrow> rs_db s = Some db \<and> records_ok env db"
  by (auto simp: open_record_db_def store_ok_def blank_record_db_def)

lemma save_existing_outcome:
  assumes "store_ok env s" and "save_existing env k item payload preserve capture s = (res, s')"
  shows "save_outcome env (rk_rival k) item payload preserve capture s res s'"
proof (cases "bind_result (rk_guard k) (\<lambda>_. bind_result (open_record_db env k (rs_db s)) (\<lambda>db.
         bind_result (merge_item env db (ri_table item) payload preserve capture) (\<lambda>merged.
         bind_result (rk_verify k) (\<lambda>_. Inr (merged, write_root env (write_item item merged db))))))")
  case (Inl e)
  then show ?thesis using assms by (auto simp: save_existing_def save_outcome_def)
next
  case (Inr r)
  then obtain db merged where db: "open_record_db env k (rs_db s) = Inr db"
    and merged: "merge_item env db (ri_table item) payload preserve capture = Inr merged"
    and r: "r = (merged, write_root env (write_item item merged db))" by auto
  note found = open_record_db_ok [OF assms(1) db]
  have dir: "rs_dir s" using found assms(1) by (simp add: store_ok_def)
  let ?s = "s\<lparr>rs_db := Some (write_root env (write_item item merged db))\<rparr>"
  have step: "(res, s') = perform (rk_commit k) ''commit'' s ?s (\<lambda>s'. (Inr merged, s'))"
    using assms(2) Inr r unfolding save_existing_def by simp
  have new: "committed env item payload preserve capture db merged ?s" using merged dir by (simp add: committed_def)
  show ?thesis
  proof (cases "rk_commit k")
    case Refused
    then show ?thesis using step assms(1) by (auto simp: save_outcome_def)
  qed (use step found new in \<open>auto simp: save_outcome_def\<close>)
qed

lemma save_first_outcome:
  assumes "store_ok env s" and "\<not> rs_dir s" and "save_first env k item payload preserve capture s = (res, s')"
  shows "save_outcome env (rk_rival k) item payload preserve capture s res s'"
proof -
  have none: "rs_db s = None" using assms(1,2) by (auto simp: store_ok_def)
  have s1: "store_ok env (s\<lparr>rs_dir := True\<rparr>)" and s2: "store_ok env (s\<lparr>rs_dir := True, rs_db := Some blank_record_db\<rparr>)"
    using none by (auto simp: store_ok_def)
  show ?thesis
  proof (cases "bind_result (rk_open k) (\<lambda>_.
         bind_result (merge_item env (record_schema env) (ri_table item) payload preserve capture) (\<lambda>merged.
         bind_result (rk_verify k) (\<lambda>_. Inr (merged, write_root env (write_item item merged (record_schema env))))))")
    case (Inl e)
    then have "\<exists>e. res = Inl e \<and> store_ok env s'"
      using assms none s1 s2 unfolding save_first_def by (cases "rk_make_dir k"; cases "rk_create k") auto
    then show ?thesis using none by (auto simp: save_outcome_def)
  next
    case (Inr r)
    then obtain merged where merged: "merge_item env (record_schema env) (ri_table item) payload preserve capture = Inr merged"
      and r: "r = (merged, write_root env (write_item item merged (record_schema env)))" by auto
    let ?s = "\<lparr>rs_dir = True, rs_db = Some (write_root env (write_item item merged (record_schema env)))\<rparr>"
    have new: "committed env item payload preserve capture (record_schema env) merged ?s" using merged by (simp add: committed_def)
    have "(s' = ?s \<and> (\<forall>q. res = Inr q \<longrightarrow> q = merged)) \<or> (\<exists>e. res = Inl e) \<and> store_ok env s'"
      using assms none s1 s2 Inr r unfolding save_first_def
      by (cases "rk_make_dir k"; cases "rk_create k"; cases "rk_commit k") (auto split: if_splits)
    then show ?thesis
    proof (elim disjE conjE)
      assume "s' = ?s" "\<forall>q. res = Inr q \<longrightarrow> q = merged"
      then have "records_ok env (record_schema env) \<and> (rs_db s \<noteq> None \<longrightarrow> rs_db s = Some (record_schema env))
        \<and> (rs_db s = None \<longrightarrow> rk_rival k = Some (record_schema env) \<or> record_schema env = record_schema env)
        \<and> committed env item payload preserve capture (record_schema env) merged s' \<and> (\<forall>q. res = Inr q \<longrightarrow> q = merged)"
        using none new schema_ok by simp
      then show ?thesis unfolding save_outcome_def by blast
    qed (simp add: save_outcome_def none)
  qed
qed

lemma save_record_outcome:
  assumes "store_ok env s" and "honest env k" and "save_record env k item payload preserve capture s = (res, s')"
  shows "save_outcome env (rk_rival k) item payload preserve capture s res s'"
proof -
  have failed: "save_outcome env (rk_rival k) item payload preserve capture s (Inl e) s" for e
    using assms(1) by (simp add: save_outcome_def)
  show ?thesis
  proof (cases "is_ok (rk_existing k) \<and> (rs_dir s \<or> is_ok (rk_prepare k))")
    case False
    then show ?thesis using assms(3) failed by (auto simp: save_record_def is_ok_iff split: sum.splits)
  next
    case True
    define s1 where "s1 = (if rs_dir s then s else case rk_rival k of None \<Rightarrow> s | Some db \<Rightarrow> \<lparr>rs_dir = True, rs_db = Some db\<rparr>)"
    have ok1: "store_ok env s1" using assms(1,2) by (auto simp: s1_def store_ok_def honest_def split: option.splits)
    have same: "rs_db s \<noteq> None \<Longrightarrow> s1 = s" using assms(1) by (auto simp: s1_def store_ok_def)
    have "save_outcome env (rk_rival k) item payload preserve capture s1 res s'"
    proof (cases "rs_dir s1")
      case True
      then have "save_existing env k item payload preserve capture s1 = (res, s')"
        using assms(3) \<open>is_ok (rk_existing k) \<and> _\<close>
        by (auto simp: save_record_def s1_def is_ok_iff split: if_splits option.splits)
      then show ?thesis by (rule save_existing_outcome [OF ok1])
    next
      case False
      then have "save_first env k item payload preserve capture s1 = (res, s')"
        using assms(3) \<open>is_ok (rk_existing k) \<and> _\<close>
        by (auto simp: save_record_def s1_def is_ok_iff split: if_splits option.splits)
      then show ?thesis by (rule save_first_outcome [OF ok1 False])
    qed
    moreover have "rs_db s = None \<Longrightarrow> rs_db s1 = None \<or> rs_db s1 = rk_rival k" by (auto simp: s1_def split: option.split)
    ultimately show ?thesis using same unfolding save_outcome_def by (cases "rs_db s") auto
  qed
qed

section \<open>A saved record keeps its target and its anchor\<close>

definition stored_view :: "'j record_env \<Rightarrow> 'j record_store \<Rightarrow> string \<Rightarrow> saved_view_record \<Rightarrow> bool" where
  "stored_view env s i r \<longleftrightarrow> (\<exists>db p. rs_db s = Some db \<and> map_of (rb_views db) i = Some p \<and> view_row env i p r)"

definition stored_annotation :: "'j record_env \<Rightarrow> 'j record_store \<Rightarrow> string \<Rightarrow> annotation_record \<Rightarrow> bool" where
  "stored_annotation env s i r \<longleftrightarrow> (\<exists>db np. rs_db s = Some db \<and> map_of (rb_annotations db) i = Some np \<and> annotation_row env i np r)"

definition view_kept :: "'j record_env \<Rightarrow> string \<Rightarrow> 'j record_store \<Rightarrow> 'j record_store \<Rightarrow> bool" where
  "view_kept env i s s' \<longleftrightarrow> (\<forall>r. stored_view env s i r \<longrightarrow> (\<exists>r'. stored_view env s' i r'
     \<and> svr_anchor r' = svr_anchor r \<and> vq_seed (sv_query (svr_base r')) = vq_seed (sv_query (svr_base r))))"

definition annotation_kept :: "'j record_env \<Rightarrow> string \<Rightarrow> 'j record_store \<Rightarrow> 'j record_store \<Rightarrow> bool" where
  "annotation_kept env i s s' \<longleftrightarrow> (\<forall>r. stored_annotation env s i r \<longrightarrow> (\<exists>r'. stored_annotation env s' i r'
     \<and> anr_anchor r' = anr_anchor r \<and> an_node_id (anr_base r') = an_node_id (anr_base r)))"

definition all_kept :: "'j record_env \<Rightarrow> 'j record_store \<Rightarrow> 'j record_store \<Rightarrow> bool" where
  "all_kept env s s' \<longleftrightarrow> store_ok env s' \<and> (\<forall>i. view_kept env i s s' \<and> annotation_kept env i s s')"

lemma kept_same_db: "rs_db s' = rs_db s \<Longrightarrow> view_kept env i s s' \<and> annotation_kept env i s s'"
  by (auto simp: view_kept_def annotation_kept_def stored_view_def stored_annotation_def)

lemma kept_none: "rs_db s = None \<Longrightarrow> view_kept env i s s' \<and> annotation_kept env i s s'"
  by (simp add: view_kept_def annotation_kept_def stored_view_def stored_annotation_def)

lemma view_row_unique: "view_row env i p r \<Longrightarrow> view_row env i p r' \<Longrightarrow> r' = r"
  by (simp add: view_row_def)

lemma annotation_row_unique: "annotation_row env i p r \<Longrightarrow> annotation_row env i p r' \<Longrightarrow> r' = r"
  by (simp add: annotation_row_def)

text \<open>The commit of a view, and the commit of an annotation.\<close>

lemma view_commit:
  assumes codec: "codec_ok env" and valid: "validate_view_record (rc_anchor env) r = Inr ()"
    and ok: "records_ok env db" and found: "rs_db s \<noteq> None \<longrightarrow> rs_db s = Some db"
    and landed: "committed env (view_item r) (rc_view_text env r) preserve capture db q s'"
  shows "all_kept env s s' \<and> (\<exists>m. stored_view env s' (sv_id (svr_base r)) m \<and> rc_view env q = Inr m \<and> svr_base m = svr_base r
     \<and> (if map_of (rb_views db) (sv_id (svr_base r)) = None \<and> svr_anchor r = None then capture = Inr (svr_anchor m) else True))"
proof -
  let ?i = "sv_id (svr_base r)"
  have "merge_view env db (rc_view_text env r) capture = Inr q"
    using landed by (simp add: committed_def merge_item_def view_item_def)
  from merge_view_spec [OF codec ok this valid] obtain m where m: "view_row env ?i q m" "svr_base m = svr_base r"
    and prior: "case map_of (rb_views db) ?i of
        Some p \<Rightarrow> \<exists>old. view_row env ?i p old \<and> svr_anchor m = svr_anchor old
          \<and> vq_seed (sv_query (svr_base m)) = vq_seed (sv_query (svr_base old))
      | None \<Rightarrow> if svr_anchor r = None then capture = Inr (svr_anchor m) else svr_anchor m = svr_anchor r" by blast
  have db': "rs_db s' = Some (write_root env (db\<lparr>rb_views := upsert ?i q (rb_views db)\<rparr>))" and dir: "rs_dir s'"
    using landed by (simp_all add: committed_def write_item_def view_item_def)
  have "records_ok env (write_root env (db\<lparr>rb_views := upsert ?i q (rb_views db)\<rparr>))"
    using ok m(1) upsert_distinct [of "rb_views db" ?i q] by (auto simp: records_ok_def write_root_def dest!: upsert_rows)
  then have store: "store_ok env s'" using db' dir by (simp add: store_ok_def)
  have stored: "stored_view env s' ?i m" using db' m(1) by (simp add: stored_view_def upsert_lookup write_root_def)
  have "view_kept env i s s'" for i
    unfolding view_kept_def
  proof (intro allI impI)
    fix x assume "stored_view env s i x"
    then obtain p where p: "map_of (rb_views db) i = Some p" "view_row env i p x" using found by (auto simp: stored_view_def)
    show "\<exists>r'. stored_view env s' i r' \<and> svr_anchor r' = svr_anchor x
      \<and> vq_seed (sv_query (svr_base r')) = vq_seed (sv_query (svr_base x))"
    proof (cases "i = ?i")
      case True
      then show ?thesis using prior p stored view_row_unique by fastforce
    next
      case False
      then show ?thesis using p db' by (intro exI [of _ x]) (simp add: stored_view_def upsert_lookup write_root_def)
    qed
  qed
  moreover have "annotation_kept env i s s'" for i
    using found db' by (auto simp: annotation_kept_def stored_annotation_def write_root_def)
  ultimately show ?thesis
    using store stored m prior by (auto simp: all_kept_def view_row_def split: option.splits)
qed

lemma annotation_commit:
  assumes codec: "codec_ok env" and valid: "validate_annotation_record (rc_anchor env) r = Inr ()"
    and ok: "records_ok env db" and found: "rs_db s \<noteq> None \<longrightarrow> rs_db s = Some db"
    and landed: "committed env (annotation_item r) (rc_annotation_text env r) preserve capture db q s'"
  shows "all_kept env s s' \<and> (\<exists>m. stored_annotation env s' (an_id (anr_base r)) m \<and> rc_annotation env q = Inr m \<and> anr_base m = anr_base r
     \<and> (case map_of (rb_annotations db) (an_id (anr_base r)) of
          Some np \<Rightarrow> \<exists>old. annotation_row env (an_id (anr_base r)) np old
            \<and> anr_title m = (if preserve \<and> anr_title r = None then anr_title old else anr_title r)
        | None \<Rightarrow> anr_title m = anr_title r \<and> (anr_anchor r = None \<longrightarrow> capture = Inr (anr_anchor m))))"
proof -
  let ?i = "an_id (anr_base r)" and ?n = "an_node_id (anr_base r)"
  have "merge_annotation env db (rc_annotation_text env r) preserve capture = Inr q"
    using landed by (simp add: committed_def merge_item_def annotation_item_def)
  from merge_annotation_spec [OF codec ok this valid] obtain m where m: "annotation_row env ?i (?n, q) m" "anr_base m = anr_base r"
    and prior: "case map_of (rb_annotations db) ?i of
        Some p \<Rightarrow> \<exists>old. annotation_row env ?i p old \<and> anr_anchor m = anr_anchor old
          \<and> an_node_id (anr_base m) = an_node_id (anr_base old)
          \<and> anr_title m = (if preserve \<and> anr_title r = None then anr_title old else anr_title r)
      | None \<Rightarrow> anr_title m = anr_title r \<and> (if anr_anchor r = None then capture = Inr (anr_anchor m) else anr_anchor m = anr_anchor r)" by blast
  have db': "rs_db s' = Some (write_root env (db\<lparr>rb_annotations := upsert ?i (?n, q) (rb_annotations db)\<rparr>))" and dir: "rs_dir s'"
    using landed by (simp_all add: committed_def write_item_def annotation_item_def)
  have "records_ok env (write_root env (db\<lparr>rb_annotations := upsert ?i (?n, q) (rb_annotations db)\<rparr>))"
    using ok m(1) upsert_distinct [of "rb_annotations db" ?i "(?n, q)"]
    by (auto simp: records_ok_def write_root_def dest!: upsert_rows)
  then have store: "store_ok env s'" using db' dir by (simp add: store_ok_def)
  have stored: "stored_annotation env s' ?i m" using db' m(1) by (simp add: stored_annotation_def upsert_lookup write_root_def)
  have "annotation_kept env i s s'" for i
    unfolding annotation_kept_def
  proof (intro allI impI)
    fix x assume "stored_annotation env s i x"
    then obtain p where p: "map_of (rb_annotations db) i = Some p" "annotation_row env i p x" using found by (auto simp: stored_annotation_def)
    show "\<exists>r'. stored_annotation env s' i r' \<and> anr_anchor r' = anr_anchor x
      \<and> an_node_id (anr_base r') = an_node_id (anr_base x)"
    proof (cases "i = ?i")
      case True
      then show ?thesis using prior p stored annotation_row_unique by fastforce
    next
      case False
      then show ?thesis using p db' by (cases p) (auto simp: stored_annotation_def upsert_lookup write_root_def)
    qed
  qed
  moreover have "view_kept env i s s'" for i
    using found db' by (auto simp: view_kept_def stored_view_def write_root_def)
  ultimately show ?thesis
    using store stored m prior by (auto simp: all_kept_def annotation_row_def split: option.splits if_splits)
qed

lemma save_view_kept:
  assumes "codec_ok env" "store_ok env s" "honest env k" "validate_view_record (rc_anchor env) r = Inr ()"
    and "save_record env k (view_item r) (rc_view_text env r) preserve capture s = (res, s')"
  shows "all_kept env s s'"
  using save_record_outcome [OF assms(2,3,5)] view_commit [OF assms(1,4)] kept_same_db [of s' s] kept_none [of s]
  unfolding save_outcome_def all_kept_def by (metis option.distinct(1))

lemma save_annotation_kept:
  assumes "codec_ok env" "store_ok env s" "honest env k" "validate_annotation_record (rc_anchor env) r = Inr ()"
    and "save_record env k (annotation_item r) (rc_annotation_text env r) preserve capture s = (res, s')"
  shows "all_kept env s s'"
  using save_record_outcome [OF assms(2,3,5)] annotation_commit [OF assms(1,4)] kept_same_db [of s' s] kept_none [of s]
  unfolding save_outcome_def all_kept_def by (metis option.distinct(1))

lemma unanchored_valid:
  "validate_view_record f r = Inr () \<Longrightarrow> validate_view_record f (r\<lparr>svr_anchor := None\<rparr>) = Inr ()"
  "validate_annotation_record f a = Inr () \<Longrightarrow> validate_annotation_record f (a\<lparr>anr_anchor := None\<rparr>) = Inr ()"
  "validate_annotation b = Inr () \<Longrightarrow> validate_annotation_record f (annotation_from_base b None None) = Inr ()"
  by (auto simp: validate_view_record_def validate_annotation_record_def typed_anchor_def annotation_from_base_def title_ok_def)

lemma items [simp]:
  "view_item (r\<lparr>svr_anchor := x\<rparr>) = view_item r" "annotation_item (a\<lparr>anr_anchor := x\<rparr>) = annotation_item a"
  by (simp_all add: view_item_def annotation_item_def)

text \<open>One operation of some process on the record.\<close>

datatype 'j durable_event =
    PutView "'j record_disk" saved_view_record
  | PutBaseView "'j record_disk" saved_view
  | UpdateView "'j record_disk" saved_view_record "string result"
  | PutAnnotation "'j record_disk" annotation_record bool
  | PutBaseAnnotation "'j record_disk" annotation
  | UpdateAnnotation "'j record_disk" annotation_record bool "string result"
  | Delete "'j record_disk" record_table string

fun event_disk :: "'j durable_event \<Rightarrow> 'j record_disk" where
  "event_disk (PutView k r) = k"
| "event_disk (PutBaseView k v) = k"
| "event_disk (UpdateView k r c) = k"
| "event_disk (PutAnnotation k r b) = k"
| "event_disk (PutBaseAnnotation k a) = k"
| "event_disk (UpdateAnnotation k r b c) = k"
| "event_disk (Delete k t i) = k"

fun record_step :: "'j record_env \<Rightarrow> 'j durable_event \<Rightarrow> 'j record_store \<Rightarrow> 'j record_store" where
  "record_step env (PutView k r) s = snd (put_view_record env k r s)"
| "record_step env (PutBaseView k v) s = snd (put_view env k v s)"
| "record_step env (UpdateView k r capture) s = snd (update_view_record env k r capture s)"
| "record_step env (PutAnnotation k r b) s = snd (put_annotation_record env k r b s)"
| "record_step env (PutBaseAnnotation k a) s = snd (put_annotation env k a s)"
| "record_step env (UpdateAnnotation k r b capture) s = snd (update_annotation_record env k r b capture s)"
| "record_step env (Delete k table i) s = snd (delete_record env k table i s)"

definition deletes :: "record_table \<Rightarrow> string \<Rightarrow> 'j durable_event \<Rightarrow> bool" where
  "deletes table i e \<longleftrightarrow> (case e of Delete k t j \<Rightarrow> t = table \<and> j = i | _ \<Rightarrow> False)"

lemma all_kept_refl: "store_ok env s \<Longrightarrow> all_kept env s s"
  by (simp add: all_kept_def kept_same_db)

lemma put_view_record_kept:
  assumes "codec_ok env" "store_ok env s" "honest env k"
  shows "all_kept env s (snd (put_view_record env k r s))"
proof (cases "validate_view_record (rc_anchor env) r")
  case (Inr u)
  obtain res s' where saved: "save_record env k (view_item r) (rc_view_text env r) False (Inr None) s = (res, s')"
    by (cases "save_record env k (view_item r) (rc_view_text env r) False (Inr None) s")
  then show ?thesis using save_view_kept [OF assms _ saved] Inr by (auto simp: put_view_record_def split: sum.splits)
qed (use assms in \<open>simp add: put_view_record_def all_kept_refl\<close>)

lemma update_view_kept:
  assumes "codec_ok env" "store_ok env s" "honest env k"
  shows "all_kept env s (snd (update_view_record env k r capture s))"
proof (cases "validate_view_record (rc_anchor env) r")
  case (Inr u)
  let ?r = "r\<lparr>svr_anchor := None\<rparr>" and ?c = "bind_result capture (\<lambda>raw. Inr (Some raw))"
  obtain res s' where saved: "save_record env k (view_item ?r) (rc_view_text env ?r) False ?c s = (res, s')"
    by (cases "save_record env k (view_item ?r) (rc_view_text env ?r) False ?c s")
  then show ?thesis using save_view_kept [OF assms unanchored_valid(1) saved] Inr
    by (auto simp: update_view_record_def split: sum.splits)
qed (use assms in \<open>simp add: update_view_record_def all_kept_refl\<close>)

lemma put_annotation_record_kept:
  assumes "codec_ok env" "store_ok env s" "honest env k"
  shows "all_kept env s (snd (put_annotation_record env k r b s))"
proof (cases "validate_annotation_record (rc_anchor env) r")
  case (Inr u)
  obtain res s' where saved: "save_record env k (annotation_item r) (rc_annotation_text env r) b (Inr None) s = (res, s')"
    by (cases "save_record env k (annotation_item r) (rc_annotation_text env r) b (Inr None) s")
  then show ?thesis using save_annotation_kept [OF assms _ saved] Inr by (auto simp: put_annotation_record_def split: sum.splits)
qed (use assms in \<open>simp add: put_annotation_record_def all_kept_refl\<close>)

lemma put_annotation_kept:
  assumes "codec_ok env" "store_ok env s" "honest env k"
  shows "all_kept env s (snd (put_annotation env k a s))"
proof (cases "validate_annotation a")
  case (Inr u)
  let ?r = "annotation_from_base a None None"
  obtain res s' where saved: "save_record env k (annotation_item ?r) (rc_annotation_text env ?r) True (Inr None) s = (res, s')"
    by (cases "save_record env k (annotation_item ?r) (rc_annotation_text env ?r) True (Inr None) s")
  then show ?thesis using save_annotation_kept [OF assms unanchored_valid(3) saved] Inr
    by (auto simp: put_annotation_def Let_def split: sum.splits)
qed (use assms in \<open>simp add: put_annotation_def all_kept_refl\<close>)

lemma update_annotation_kept:
  assumes "codec_ok env" "store_ok env s" "honest env k"
  shows "all_kept env s (snd (update_annotation_record env k r b capture s))"
proof (cases "validate_annotation_record (rc_anchor env) r")
  case (Inr u)
  let ?r = "r\<lparr>anr_anchor := None\<rparr>" and ?c = "bind_result capture (\<lambda>raw. Inr (Some raw))"
  obtain res s' where saved: "save_record env k (annotation_item ?r) (rc_annotation_text env ?r) b ?c s = (res, s')"
    by (cases "save_record env k (annotation_item ?r) (rc_annotation_text env ?r) b ?c s")
  then show ?thesis using save_annotation_kept [OF assms unanchored_valid(2) saved] Inr
    by (auto simp: update_annotation_record_def split: sum.splits)
qed (use assms in \<open>simp add: update_annotation_record_def all_kept_refl\<close>)

lemma map_of_filter_other: "i \<noteq> j \<Longrightarrow> map_of (filter (\<lambda>r. fst r \<noteq> j) rows) i = map_of rows i"
  by (induction rows) auto

lemma delete_record_kept:
  assumes ok: "store_ok env s"
  shows "store_ok env (snd (delete_record env k table i s))
     \<and> (\<not> (table = Views \<and> j = i) \<longrightarrow> view_kept env j s (snd (delete_record env k table i s)))
     \<and> (\<not> (table = Annotations \<and> j = i) \<longrightarrow> annotation_kept env j s (snd (delete_record env k table i s)))"
proof (cases "\<exists>db. bind_result (rk_guard k) (\<lambda>_. bind_result (open_record_db env k (rs_db s)) (\<lambda>db.
            bind_result (rk_verify k) (\<lambda>_. Inr db))) = Inr db")
  case False
  then have "snd (delete_record env k table i s) = s"
    by (auto simp: delete_record_def split: sum.splits)
  then show ?thesis using ok by (simp add: kept_same_db)
next
  case True
  then obtain db where opened: "bind_result (rk_guard k) (\<lambda>_. bind_result (open_record_db env k (rs_db s)) (\<lambda>db.
      bind_result (rk_verify k) (\<lambda>_. Inr db))) = Inr db" by blast
  then have db: "rs_db s = Some db" "records_ok env db" using open_record_db_ok [OF ok, of k] by auto
  define db' where "db' = (case table of Views \<Rightarrow> db\<lparr>rb_views := filter (\<lambda>r. fst r \<noteq> i) (rb_views db)\<rparr>
      | Annotations \<Rightarrow> db\<lparr>rb_annotations := filter (\<lambda>r. fst r \<noteq> i) (rb_annotations db)\<rparr>)"
  have "records_ok env db'"
    using db(2) by (auto simp: db'_def records_ok_def distinct_map_filter split: record_table.split)
  moreover have "snd (delete_record env k table i s) = s \<or> snd (delete_record env k table i s) = s\<lparr>rs_db := Some db'\<rparr>"
    using opened by (cases "rk_existing k"; cases "rk_commit k") (simp_all add: delete_record_def db'_def Let_def)
  moreover have "j \<noteq> i \<or> table \<noteq> Views \<Longrightarrow> map_of (rb_views db') j = map_of (rb_views db) j"
    "j \<noteq> i \<or> table \<noteq> Annotations \<Longrightarrow> map_of (rb_annotations db') j = map_of (rb_annotations db) j"
    by (cases table; auto simp: db'_def map_of_filter_other)+
  moreover have "rs_dir s" using ok db by (simp add: store_ok_def)
  ultimately show ?thesis using ok db kept_same_db [of s s env j]
    by (auto simp: store_ok_def view_kept_def annotation_kept_def stored_view_def stored_annotation_def)
qed

lemma record_step_kept:
  assumes "codec_ok env" "store_ok env s" "honest env (event_disk e)"
  shows "store_ok env (record_step env e s)
     \<and> (\<not> deletes Views i e \<longrightarrow> view_kept env i s (record_step env e s))
     \<and> (\<not> deletes Annotations i e \<longrightarrow> annotation_kept env i s (record_step env e s))"
proof (cases e)
  case (PutBaseView k v)
  then show ?thesis using put_view_record_kept [OF assms(1,2), of k] all_kept_refl [OF assms(2)] assms(3)
    by (auto simp: put_view_def all_kept_def split: sum.split)
next
  case (Delete k table j)
  then show ?thesis using delete_record_kept [OF assms(2), of k table j i] by (auto simp: deletes_def)
qed (use assms(3) put_view_record_kept [OF assms(1,2)] update_view_kept [OF assms(1,2)] put_annotation_record_kept [OF assms(1,2)]
    put_annotation_kept [OF assms(1,2)] update_annotation_kept [OF assms(1,2)] in \<open>auto simp: all_kept_def\<close>)

definition record_run :: "'j record_env \<Rightarrow> 'j durable_event list \<Rightarrow> 'j record_store \<Rightarrow> 'j record_store" where
  "record_run env es s = fold (record_step env) es s"


section \<open>An update is read back\<close>

definition readable :: "'j record_disk \<Rightarrow> bool" where
  "readable k \<longleftrightarrow> rk_existing k = Inr () \<and> rk_guard k = Inr () \<and> rk_open k = Inr () \<and> rk_verify k = Inr ()"

lemma each_result_map: "\<forall>x \<in> set xs. g x = Inr (h x) \<Longrightarrow> each_result g xs = Inr (map h xs)"
  by (induction xs) auto

lemma find_row:
  assumes "\<forall>(j, p) \<in> set rows. key (h p) = j"
  shows "find (\<lambda>r. key r = i) (map h (map snd rows)) = map_option h (map_of rows i)"
  using assms by (induction rows) auto

lemma sorted_lookup: "distinct (map fst rows) \<Longrightarrow> map_of (sort_key fst rows) = map_of rows"
proof -
  assume keys: "distinct (map fst rows)"
  have "mset (map fst (sort_key fst rows)) = mset (map fst rows)" by simp
  then have "distinct (map fst (sort_key fst rows))" using keys by (metis mset_eq_imp_distinct_iff)
  then show ?thesis using keys by (simp add: map_of_inject_set)
qed

text \<open>The rows of a table read one by one: the record with an identifier is the one stored under it.\<close>

lemma list_payloads_find:
  assumes "readable k" and "rs_dir s" and "rs_db s = Some db" and ok: "records_ok env db"
    and keys: "distinct (map fst (rows db))"
    and parsed: "\<forall>(j, p) \<in> set (rows db). parse p = Inr (h p) \<and> key (h p) = j"
  shows "\<exists>rs. list_payloads env k rows parse s = Inr rs \<and> set rs = h ` snd ` set (rows db)
     \<and> find (\<lambda>r. key r = i) rs = map_option h (map_of (rows db) i)"
proof -
  let ?sorted = "sort_key fst (rows db)"
  have "open_record_db env k (rs_db s) = Inr db"
    using assms(1,3) ok by (simp add: open_record_db_def readable_def records_ok_def)
  moreover have "each_result parse (map snd ?sorted) = Inr (map h (map snd ?sorted))"
    using parsed by (intro each_result_map) auto
  ultimately have "list_payloads env k rows parse s = Inr (map h (map snd ?sorted))"
    using assms(1,2) by (simp add: list_payloads_def readable_def)
  moreover have "find (\<lambda>r. key r = i) (map h (map snd ?sorted)) = map_option h (map_of (rows db) i)"
    using find_row [of ?sorted key h i] parsed sorted_lookup [OF keys] by auto
  ultimately show ?thesis by (auto simp: image_comp)
qed

lemma stored_view_read:
  assumes "readable k" and "store_ok env s" and "stored_view env s i r"
  shows "view_record env k i s = Inr (Some r)"
proof -
  obtain db p where db: "rs_db s = Some db" "map_of (rb_views db) i = Some p" "view_row env i p r"
    using assms(3) by (auto simp: stored_view_def)
  then have ok: "records_ok env db" "rs_dir s" using assms(2) by (auto simp: store_ok_def blank_record_db_def)
  let ?h = "\<lambda>p. projr (rc_view env p)"
  have parsed: "\<forall>(j, p) \<in> set (rb_views db). rc_view env p = Inr (?h p) \<and> sv_id (svr_base (?h p)) = j"
    and valid: "\<forall>p \<in> snd ` set (rb_views db). validate_view_record (rc_anchor env) (?h p) = Inr ()"
    using ok(1) by (fastforce simp: records_ok_def view_row_def)+
  obtain rs where "list_payloads env k rb_views (rc_view env) s = Inr rs" "set rs = ?h ` snd ` set (rb_views db)"
    "find (\<lambda>r. sv_id (svr_base r) = i) rs = map_option ?h (map_of (rb_views db) i)"
    using list_payloads_find [where rows = rb_views, OF assms(1) ok(2) db(1) ok(1) _ parsed, of i] ok(1)
    unfolding records_ok_def by blast
  then show ?thesis
    using valid db by (auto simp: view_record_def view_records_def view_row_def)
qed

lemma stored_annotation_read:
  assumes "readable k" and "store_ok env s" and "stored_annotation env s i r"
  shows "annotation_record_of env k i s = Inr (Some r)"
proof -
  obtain db np where db: "rs_db s = Some db" "map_of (rb_annotations db) i = Some np" "annotation_row env i np r"
    using assms(3) by (auto simp: stored_annotation_def)
  then have ok: "records_ok env db" "rs_dir s" using assms(2) by (auto simp: store_ok_def blank_record_db_def)
  let ?h = "\<lambda>p. projr (rc_annotation env p)" and ?rows = "\<lambda>db. map (\<lambda>(i, n, p). (i, p)) (rb_annotations db)"
  have parsed: "\<forall>(j, p) \<in> set (?rows db). rc_annotation env p = Inr (?h p) \<and> an_id (anr_base (?h p)) = j"
    and valid: "\<forall>p \<in> snd ` set (?rows db). validate_annotation_record (rc_anchor env) (?h p) = Inr ()"
    using ok(1) by (fastforce simp: records_ok_def annotation_row_def)+
  have "map fst (?rows db) = map fst (rb_annotations db)" by auto
  then have keys: "distinct (map fst (?rows db))" using ok(1) unfolding records_ok_def by metis
  have look: "map_of (map (\<lambda>(i, n, p). (i, p)) xs) i = map_option snd (map_of xs i)" for i and xs :: "(string \<times> string \<times> 'j) list"
    by (induction xs) auto
  obtain rs where "list_payloads env k ?rows (rc_annotation env) s = Inr rs" "set rs = ?h ` snd ` set (?rows db)"
    "find (\<lambda>r. an_id (anr_base r) = i) rs = map_option ?h (map_of (?rows db) i)"
    using list_payloads_find [where rows = ?rows, OF assms(1) ok(2) db(1) ok(1) keys parsed, of i] by blast
  then show ?thesis
    using valid db look [of "rb_annotations db" i] by (auto simp: annotation_record_of_def annotation_records_def annotation_row_def)
qed

lemma stored_view_unique: "stored_view env s i a \<Longrightarrow> stored_view env s i b \<Longrightarrow> b = a"
  by (metis (no_types) view_row_unique option.inject stored_view_def)

lemma stored_annotation_unique: "stored_annotation env s i a \<Longrightarrow> stored_annotation env s i b \<Longrightarrow> b = a"
  by (metis (no_types) annotation_row_unique option.inject stored_annotation_def)

lemma view_update_outcome:
  assumes "codec_ok env" and "store_ok env s" and "rk_rival k = None"
    and "update_view_record env k r capture s = (Inr saved, s')"
  shows "stored_view env s' (sv_id (svr_base r)) saved \<and> store_ok env s' \<and> svr_base saved = svr_base r
     \<and> (\<forall>old. stored_view env s (sv_id (svr_base r)) old \<longrightarrow> svr_anchor saved = svr_anchor old)
     \<and> ((\<nexists>old. stored_view env s (sv_id (svr_base r)) old) \<longrightarrow> (\<exists>raw. capture = Inr raw \<and> svr_anchor saved = Some raw))"
proof -
  let ?i = "sv_id (svr_base r)" and ?r = "r\<lparr>svr_anchor := None\<rparr>" and ?c = "bind_result capture (\<lambda>raw. Inr (Some raw))"
  have honest: "honest env k" using assms(3) by (simp add: honest_def)
  have valid: "validate_view_record (rc_anchor env) r = Inr ()"
    using assms(4) by (cases "validate_view_record (rc_anchor env) r") (auto simp: update_view_record_def)
  then obtain q where saved: "save_record env k (view_item ?r) (rc_view_text env ?r) False ?c s = (Inr q, s')" "rc_view env q = Inr saved"
    using assms(4) by (auto simp: update_view_record_def split: prod.splits sum.splits)
  obtain db where db: "records_ok env db" "rs_db s \<noteq> None \<longrightarrow> rs_db s = Some db"
    "committed env (view_item ?r) (rc_view_text env ?r) False ?c db q s'"
    and basis: "rs_db s = None \<longrightarrow> db = record_schema env"
    using save_record_outcome [OF assms(2) honest saved(1)] assms(3) unfolding save_outcome_def by auto
  note landed = view_commit [OF assms(1) unanchored_valid(1) [OF valid] db]
  then obtain m where m: "stored_view env s' ?i m" "rc_view env q = Inr m" "svr_base m = svr_base r"
    and captured: "if map_of (rb_views db) ?i = None then ?c = Inr (svr_anchor m) else True" by auto
  have kept: "all_kept env s s'" using landed by blast
  have stored: "saved = m" "store_ok env s'" using m saved(2) kept by (auto simp: all_kept_def)
  have old: "svr_anchor m = svr_anchor old" if prior: "stored_view env s ?i old" for old
  proof -
    obtain r' where "stored_view env s' ?i r'" "svr_anchor r' = svr_anchor old"
      using kept prior unfolding all_kept_def view_kept_def by blast
    then show ?thesis using stored_view_unique [OF m(1)] by metis
  qed
  have new: "\<exists>raw. capture = Inr raw \<and> svr_anchor m = Some raw" if "\<nexists>old. stored_view env s ?i old"
  proof -
    have "map_of (rb_views db) ?i = None"
    proof (cases "rs_db s")
      case None
      then show ?thesis using basis by (simp add: record_schema_def blank_record_db_def)
    next
      case (Some db0)
      then show ?thesis using db(2) that records_lookup(1) [OF db(1), of ?i]
        unfolding stored_view_def by (metis option.distinct(1) option.exhaust)
    qed
    then show ?thesis using captured by auto
  qed
  show ?thesis using stored m(1,3) old new by blast
qed


text \<open>A successful update of an annotation is read back as it was returned, with the new body and target; its title
  is the new one, or the stored one where the request has none and asks to keep it.
\<close>

theorem annotation_update_read_back:
  assumes "codec_ok env" and "store_ok env s" and "rk_rival k = None" and "readable k'"
    and "update_annotation_record env k r preserve capture s = (Inr saved, s')"
  shows "annotation_record_of env k' (an_id (anr_base r)) s' = Inr (Some saved) \<and> anr_base saved = anr_base r
     \<and> (\<forall>old. stored_annotation env s (an_id (anr_base r)) old \<longrightarrow> anr_anchor saved = anr_anchor old
          \<and> anr_title saved = (if preserve \<and> anr_title r = None then anr_title old else anr_title r))
     \<and> ((\<nexists>old. stored_annotation env s (an_id (anr_base r)) old) \<longrightarrow> anr_title saved = anr_title r
          \<and> (\<exists>raw. capture = Inr raw \<and> anr_anchor saved = Some raw))"
proof -
  let ?i = "an_id (anr_base r)" and ?r = "r\<lparr>anr_anchor := None\<rparr>" and ?c = "bind_result capture (\<lambda>raw. Inr (Some raw))"
  have honest: "honest env k" using assms(3) by (simp add: honest_def)
  have valid: "validate_annotation_record (rc_anchor env) r = Inr ()"
    using assms(5) by (cases "validate_annotation_record (rc_anchor env) r") (auto simp: update_annotation_record_def)
  then obtain q where saved: "save_record env k (annotation_item ?r) (rc_annotation_text env ?r) preserve ?c s = (Inr q, s')"
    "rc_annotation env q = Inr saved"
    using assms(5) by (auto simp: update_annotation_record_def split: prod.splits sum.splits)
  obtain db where db: "records_ok env db" "rs_db s \<noteq> None \<longrightarrow> rs_db s = Some db"
    "committed env (annotation_item ?r) (rc_annotation_text env ?r) preserve ?c db q s'"
    and basis: "rs_db s = None \<longrightarrow> db = record_schema env"
    using save_record_outcome [OF assms(2) honest saved(1)] assms(3) unfolding save_outcome_def by auto
  note landed = annotation_commit [OF assms(1) unanchored_valid(2) [OF valid] db]
  then obtain m where m: "stored_annotation env s' (an_id (anr_base ?r)) m" "rc_annotation env q = Inr m" "anr_base m = anr_base ?r"
    and prior: "case map_of (rb_annotations db) (an_id (anr_base ?r)) of
        Some np \<Rightarrow> \<exists>old. annotation_row env (an_id (anr_base ?r)) np old
          \<and> anr_title m = (if preserve \<and> anr_title ?r = None then anr_title old else anr_title ?r)
      | None \<Rightarrow> anr_title m = anr_title ?r \<and> (anr_anchor ?r = None \<longrightarrow> ?c = Inr (anr_anchor m))" by blast
  then have m: "stored_annotation env s' ?i m" "rc_annotation env q = Inr m" "anr_base m = anr_base r" by simp_all
  have kept: "all_kept env s s'" using landed by blast
  have stored: "saved = m" "annotation_record_of env k' ?i s' = Inr (Some m)"
    using m saved(2) stored_annotation_read [OF assms(4) _ m(1)] kept by (auto simp: all_kept_def)
  have old: "anr_anchor m = anr_anchor old \<and> anr_title m = (if preserve \<and> anr_title r = None then anr_title old else anr_title r)"
    if before: "stored_annotation env s ?i old" for old
  proof -
    obtain r' where "stored_annotation env s' ?i r'" "anr_anchor r' = anr_anchor old"
      using kept before unfolding all_kept_def annotation_kept_def by blast
    then have anchor: "anr_anchor m = anr_anchor old" using stored_annotation_unique [OF m(1)] by metis
    obtain np where np: "map_of (rb_annotations db) ?i = Some np" "annotation_row env ?i np old"
      using before db(2) by (auto simp: stored_annotation_def)
    then obtain old' where "annotation_row env ?i np old'"
      "anr_title m = (if preserve \<and> anr_title r = None then anr_title old' else anr_title r)"
      using prior by auto
    then show ?thesis using anchor annotation_row_unique [OF np(2)] by metis
  qed
  have new: "anr_title m = anr_title r \<and> (\<exists>raw. capture = Inr raw \<and> anr_anchor m = Some raw)"
    if fresh: "\<nexists>old. stored_annotation env s ?i old"
  proof -
    have "map_of (rb_annotations db) ?i = None"
    proof (cases "rs_db s")
      case None
      then show ?thesis using basis by (simp add: record_schema_def blank_record_db_def)
    next
      case (Some db0)
      then show ?thesis using db(2) fresh records_lookup(2) [OF db(1), of ?i]
        unfolding stored_annotation_def by (metis option.distinct(1) option.exhaust)
    qed
    then show ?thesis using prior by auto
  qed
  show ?thesis using stored m(3) old new by blast
qed

section \<open>Concrete records\<close>

text \<open>Here the text of a record is the record itself.\<close>

type_synonym sample_json = "saved_view_record + annotation_record"

definition sample_durable_anchor :: durable_anchor where
  "sample_durable_anchor = \<lparr>da_syntax_id = ''sid:v1:'' @ replicate 32 CHR ''0'',
     da_document = \<lparr>dk_source_set_id = ''s'', dk_language = ''rust'', dk_path = ''a.rs''\<rparr>, da_captured_revision_id = ''r'',
     da_header_hash = replicate 64 CHR ''0'', da_sibling_group_hash = replicate 64 CHR ''0'',
     da_sibling_count = 1, da_identical_header_count = 1\<rparr>"

definition sample_record_env :: "sample_json record_env" where
  "sample_record_env = \<lparr>rc_record_id = ''w'', rc_root = (''/w'', ''1'', ''2''),
     rc_view_text = Inl, rc_view = (\<lambda>j. case j of Inl r \<Rightarrow> Inr r | Inr _ \<Rightarrow> Inl ''not a view''),
     rc_annotation_text = Inr, rc_annotation = (\<lambda>j. case j of Inl _ \<Rightarrow> Inl ''not an annotation'' | Inr r \<Rightarrow> Inr r),
     rc_anchor = (\<lambda>raw. Inr sample_durable_anchor)\<rparr>"

definition sample_record_disk :: "sample_json record_disk" where
  "sample_record_disk = \<lparr>rk_existing = Inr (), rk_prepare = Inr (), rk_rival = None, rk_make_dir = Done, rk_create = Done,
     rk_guard = Inr (), rk_open = Inr (), rk_verify = Inr (), rk_commit = Done, rk_sync = True\<rparr>"

definition no_records :: "sample_json record_store" where
  "no_records = \<lparr>rs_dir = False, rs_db = None\<rparr>"

definition sample_note :: annotation_record where
  "sample_note = \<lparr>anr_base = \<lparr>an_id = ''n1'', an_node_id = ''main'', an_body = ''entry''\<rparr>, anr_title = Some ''Start'', anr_anchor = None\<rparr>"

definition with_view :: "sample_json record_store" where
  "with_view = snd (update_view_record sample_record_env sample_record_disk sample_view_record (Inr ''a'') no_records)"

definition with_note :: "sample_json record_store" where
  "with_note = snd (update_annotation_record sample_record_env sample_record_disk sample_note False (Inr ''a'') no_records)"

lemma sample_codec: "codec_ok sample_record_env"
  by (simp add: codec_ok_def sample_record_env_def)

lemma sample_no_records: "store_ok sample_record_env no_records"
  by (simp add: store_ok_def no_records_def)

lemma sample_honest: "rk_rival sample_record_disk = None" "honest sample_record_env sample_record_disk" "readable sample_record_disk"
  by (simp_all add: sample_record_disk_def honest_def readable_def)

lemma sample_view_saved:
  "update_view_record sample_record_env sample_record_disk sample_view_record (Inr ''a'') no_records
     = (Inr (sample_view_record\<lparr>svr_anchor := Some ''a''\<rparr>), with_view)"
  by code_simp

lemma sample_anchor_valid: "validate_anchor sample_durable_anchor = Inr ()"
  by code_simp

lemma sample_note_valid:
  "validate_annotation_record (rc_anchor sample_record_env) (sample_note\<lparr>anr_anchor := anchor\<rparr>) = Inr ()"
  by (cases anchor)
    (simp_all add: validate_annotation_record_def validate_annotation_def sample_note_def title_ok_def typed_anchor_def
      sample_record_env_def sample_anchor_valid validate_record_id_def ascii_alnum_def is_digit_def byte_def blank_def blank_bytes.simps)

lemma sample_note_saved:
  "update_annotation_record sample_record_env sample_record_disk sample_note False (Inr ''a'') no_records
     = (Inr (sample_note\<lparr>anr_anchor := Some ''a''\<rparr>), with_note)"
proof -
  have same: "sample_note\<lparr>anr_anchor := None\<rparr> = sample_note" and none: "anr_anchor sample_note = None"
    by (simp_all add: sample_note_def)
  have valid: "validate_annotation_record (rc_anchor sample_record_env) sample_note = Inr ()"
    using sample_note_valid [of None] by (simp only: same)
  have "fst (update_annotation_record sample_record_env sample_record_disk sample_note False (Inr ''a'') no_records)
      = Inr (sample_note\<lparr>anr_anchor := Some ''a''\<rparr>)"
    unfolding update_annotation_record_def valid same
    using valid none sample_note_valid [of "Some ''a''"]
    by (simp add: save_record_def save_first_def merge_item_def merge_annotation_def
        annotation_item_def record_schema_def blank_record_db_def sample_record_disk_def no_records_def Let_def)
      (simp_all add: sample_record_env_def)
  then show ?thesis by (simp add: with_note_def prod_eq_iff)
qed

lemma sample_with_view: "store_ok sample_record_env with_view"
  using update_view_kept [OF sample_codec sample_no_records sample_honest(2)] by (simp add: with_view_def all_kept_def)

lemma sample_view_stored:
  "stored_view sample_record_env with_view ''v.1'' (sample_view_record\<lparr>svr_anchor := Some ''a''\<rparr>)"
proof -
  have "map_option rb_views (rs_db with_view) = Some [(''v.1'', Inl (sample_view_record\<lparr>svr_anchor := Some ''a''\<rparr>))]"
    by code_simp
  moreover have "is_ok (validate_view_record (rc_anchor sample_record_env) (sample_view_record\<lparr>svr_anchor := Some ''a''\<rparr>))"
    by code_simp
  ultimately show ?thesis
    by (auto simp: stored_view_def view_row_def sample_record_env_def sample_view_record_def unit_result)
qed

text \<open>A retitling whose commit fails after it took effect, a new body, and the removal of the annotation.\<close>

definition sample_history :: "sample_json durable_event list" where
  "sample_history =
     [UpdateView (sample_record_disk\<lparr>rk_commit := DoneThenFailed\<rparr>)
        (sample_view_record\<lparr>svr_base := (svr_base sample_view_record)\<lparr>sv_title := ''Entry''\<rparr>\<rparr>) (Inr ''b''),
      UpdateAnnotation sample_record_disk (sample_note\<lparr>anr_title := None\<rparr>) True (Inr ''b''),
      Delete sample_record_disk Annotations ''n1'']"



theorem annotation_update_read_back_witness:
  "annotation_record_of sample_record_env sample_record_disk ''n1'' with_note = Inr (Some (sample_note\<lparr>anr_anchor := Some ''a''\<rparr>))"
  using annotation_update_read_back [OF sample_codec sample_no_records sample_honest(1,3) sample_note_saved]
  by (simp add: sample_note_def)

end
