(* ===== verification/Declarations.thy ===== *)
theory Declarations
  imports Graph Anchors
begin

section \<open>Native declarations in the index (\<open>store.rs\<close>)\<close>

text \<open>
  The declarations of a document version are stored in seven normalised tables, whose rows carry
  the version and, for lists, the position in the list; reading assembles them again and refuses
  any gap, orphan or duplicate. A table is the list of its rows, version first. An \<open>i64\<close> column is an
  integer; \<open>as i64\<close> is exact, since positions and offsets stay far below \<open>2^63\<close>. \<open>json\<close> is injective on keys,
  so a map by the text of a key is a map by the key. A \<open>CHECK\<close> or a deferred foreign key of the schema
  can only abort the writing transaction.
\<close>

subsection \<open>Tables\<close>

record declaration_cols =
  nd_owner :: "string option"
  nd_kind :: string
  nd_name :: "string option"
  nd_lookup_key :: "string option"
  nd_present :: bool
  nd_count :: "int option"
  nd_variadic :: "bool option"
  nd_ordinal :: int
  nd_start :: int
  nd_end :: int
  nd_name_start :: "int option"
  nd_name_end :: "int option"

record ancestor_cols =
  na_kind :: string
  na_name :: "string option"
  na_sibling :: int
  na_present :: bool
  na_count :: "int option"
  na_variadic :: "bool option"

record header_cols =
  nh_kind :: string
  nh_name :: "string option"
  nh_result :: "string option"

text \<open>Version, key, position and value; the first three are the primary key.\<close>

type_synonym ('k, 'x) list_table = "(string \<times> 'k \<times> int \<times> 'x) list"

record native_tables =
  nt_declarations :: "(string \<times> string \<times> declaration_cols) list"
  nt_own_types :: "(string, string) list_table"
  nt_ancestors :: "(string, ancestor_cols) list_table"
  nt_ancestor_types :: "(string \<times> int, string) list_table"
  nt_headers :: "(string \<times> string \<times> header_cols) list"
  nt_items :: "(string \<times> string, string) list_table"
  nt_parameters :: "(string, parameter) list_table"

subsection \<open>Writing\<close>

text \<open>
  \<open>ImmutableWriter::insert\<close>: a row whose primary key exists must be that row exactly.
\<close>

definition insert_row :: "('r \<Rightarrow> 'k) \<Rightarrow> 'r \<Rightarrow> 'r list \<Rightarrow> 'r list result" where
  "insert_row key r rows =
     (if list_ex (\<lambda>x. key x = key r) rows
      then ensure (r \<in> set rows) ''incompatible_index: immutable row differs from captured evidence'' (Inr rows)
      else Inr (rows @ [r]))"

fun insert_rows :: "('r \<Rightarrow> 'k) \<Rightarrow> 'r list \<Rightarrow> 'r list \<Rightarrow> 'r list result" where
  "insert_rows key [] rows = Inr rows"
| "insert_rows key (r # rs) rows = bind_result (insert_row key r rows) (insert_rows key rs)"

definition row_key :: "string \<times> 'k \<times> 'x \<Rightarrow> string \<times> 'k" where
  "row_key r = (case r of (v, k, _) \<Rightarrow> (v, k))"

definition place_key :: "string \<times> 'k \<times> int \<times> 'x \<Rightarrow> string \<times> 'k \<times> int" where
  "place_key r = (case r of (v, k, n, _) \<Rightarrow> (v, k, n))"

definition numbered :: "string \<Rightarrow> 'k \<Rightarrow> 'x list \<Rightarrow> ('k, 'x) list_table" where
  "numbered v k xs = map (\<lambda>(n, x). (v, k, int n, x)) (zip [0..<length xs] xs)"

definition signature_types :: "stable_key \<Rightarrow> string list" where
  "signature_types k = (case sk_signature k of None \<Rightarrow> [] | Some s \<Rightarrow> sg_parameter_types s)"

definition declaration_cols_of :: "string option \<Rightarrow> decl_row \<Rightarrow> declaration_cols" where
  "declaration_cols_of owner d = (let sig = sk_signature (dc_key d) in
     \<lparr>nd_owner = owner, nd_kind = dc_kind d, nd_name = dc_name d, nd_lookup_key = dc_lookup_key d,
      nd_present = (sig \<noteq> None), nd_count = map_option (\<lambda>s. int (sg_type_parameter_count s)) sig,
      nd_variadic = map_option sg_variadic sig, nd_ordinal = int (sk_ordinal (dc_key d)),
      nd_start = int (er_start (dc_range d)), nd_end = int (er_end (dc_range d)),
      nd_name_start = map_option (\<lambda>r. int (er_start r)) (dc_name_range d),
      nd_name_end = map_option (\<lambda>r. int (er_end r)) (dc_name_range d)\<rparr>)"

definition ancestor_cols_of :: "stable_key \<Rightarrow> ancestor_cols" where
  "ancestor_cols_of k = (let sig = sk_signature k in
     \<lparr>na_kind = sk_kind k, na_name = sk_name k, na_sibling = int (sk_ordinal k), na_present = (sig \<noteq> None),
      na_count = map_option (\<lambda>s. int (sg_type_parameter_count s)) sig, na_variadic = map_option sg_variadic sig\<rparr>)"

text \<open>The ancestors of one declaration from position \<open>n\<close> on, each followed by the types of its signature.\<close>

fun write_ancestors :: "string \<Rightarrow> string \<Rightarrow> nat \<Rightarrow> stable_key list \<Rightarrow> native_tables \<Rightarrow> native_tables result" where
  "write_ancestors v i n [] t = Inr t"
| "write_ancestors v i n (k # ks) t =
     bind_result (insert_row place_key (v, i, int n, ancestor_cols_of k) (nt_ancestors t)) (\<lambda>ancestors.
     bind_result (insert_rows place_key (numbered v (i, int n) (signature_types k)) (nt_ancestor_types t)) (\<lambda>types.
     write_ancestors v i (Suc n) ks (t\<lparr>nt_ancestors := ancestors, nt_ancestor_types := types\<rparr>)))"

definition write_declaration :: "string \<Rightarrow> string option \<Rightarrow> decl_row \<Rightarrow> native_tables \<Rightarrow> native_tables result" where
  "write_declaration v owner d t0 = (let i = dc_syntax_id d; h = dc_header d in
     bind_result (insert_row row_key (v, i, declaration_cols_of owner d) (nt_declarations t0)) (\<lambda>declarations.
     bind_result (insert_rows place_key (numbered v i (signature_types (dc_key d))) (nt_own_types t0)) (\<lambda>own.
     bind_result (write_ancestors v i 0 (dc_ancestors d) (t0\<lparr>nt_declarations := declarations, nt_own_types := own\<rparr>)) (\<lambda>t1.
     bind_result (insert_row row_key (v, i, \<lparr>nh_kind = hd_kind h, nh_name = hd_name h, nh_result = hd_result_type h\<rparr>)
       (nt_headers t1)) (\<lambda>headers.
     bind_result (insert_rows place_key (numbered v (i, ''modifier'') (hd_modifiers h)
         @ numbered v (i, ''typeParameter'') (hd_type_parameters h) @ numbered v (i, ''base'') (hd_bases h)) (nt_items t1)) (\<lambda>items.
     bind_result (insert_rows place_key (numbered v i (hd_parameters h)) (nt_parameters t1)) (\<lambda>parameters.
     Inr (t1\<lparr>nt_headers := headers, nt_items := items, nt_parameters := parameters\<rparr>))))))))"

text \<open>The owner of a declaration is the declaration of its last ancestor in the same document.\<close>

type_synonym owner_key = "string \<times> stable_key list \<times> stable_key"

definition owner_key_of :: "decl_row \<Rightarrow> owner_key" where
  "owner_key_of d = (dk_path (dc_document d), dc_ancestors d, dc_key d)"

fun native_owners :: "decl_row list \<Rightarrow> (owner_key \<times> string) list \<Rightarrow> (owner_key \<times> string) list result" where
  "native_owners [] m = Inr m"
| "native_owners (d # ds) m = ensure (\<not> has_key m (owner_key_of d)) ''duplicate native owner key''
     (native_owners ds ((owner_key_of d, dc_syntax_id d) # m))"

definition native_owner :: "(owner_key \<times> string) list \<Rightarrow> decl_row \<Rightarrow> string option result" where
  "native_owner owners d = (if dc_ancestors d = [] then Inr None
     else bind_result (ok_or (map_of owners (dk_path (dc_document d), butlast (dc_ancestors d), last (dc_ancestors d)))
       ''native declaration parent missing'') (\<lambda>i. Inr (Some i)))"

text \<open>
  \<open>version_of\<close> are the versions of the published documents by their path, \<open>reused\<close> says which of them
  are already stored; the cancellation flag is read once for each declaration.
\<close>

fun write_declarations :: "(nat \<Rightarrow> bool) \<Rightarrow> nat \<Rightarrow> (string \<Rightarrow> string option) \<Rightarrow> (string \<Rightarrow> bool) \<Rightarrow> (owner_key \<times> string) list
    \<Rightarrow> decl_row list \<Rightarrow> native_tables \<Rightarrow> native_tables result" where
  "write_declarations cancel n version_of reused owners [] t = Inr t"
| "write_declarations cancel n version_of reused owners (d # ds) t =
     bind_result (check_cancel_flag (cancel n)) (\<lambda>_.
     bind_result (ok_or (version_of (dk_path (dc_document d))) ''native declaration missing document'') (\<lambda>v.
     bind_result (if reused (dk_path (dc_document d)) then Inr t
       else bind_result (native_owner owners d) (\<lambda>owner. write_declaration v owner d t)) (\<lambda>t'.
     write_declarations cancel (Suc n) version_of reused owners ds t')))"

definition write_native_declarations :: "(nat \<Rightarrow> bool) \<Rightarrow> (string \<Rightarrow> string option) \<Rightarrow> (string \<Rightarrow> bool)
    \<Rightarrow> decl_row list \<Rightarrow> native_tables \<Rightarrow> native_tables result" where
  "write_native_declarations cancel version_of reused ds t =
     bind_result (native_owners ds []) (\<lambda>owners. write_declarations cancel 0 version_of reused owners ds t)"

subsection \<open>Reading\<close>

text \<open>\<open>ORDER BY\<close> the rest of the primary key.\<close>

definition rows_of :: "string \<Rightarrow> (string \<times> 'k::linorder \<times> 'x) list \<Rightarrow> ('k \<times> 'x) list" where
  "rows_of v rows = sort_key fst (map snd (filter (\<lambda>r. fst r = v) rows))"

definition places_of :: "string \<Rightarrow> ('k::linorder, 'x) list_table \<Rightarrow> ('k \<times> int \<times> 'x) list" where
  "places_of v rows = sort_key (\<lambda>(k, n, _). (k, n)) (map snd (filter (\<lambda>r. fst r = v) rows))"

definition or_default :: "('k \<times> 'x list) list \<Rightarrow> 'k \<Rightarrow> 'x list" where
  "or_default m k = (case map_of m k of None \<Rightarrow> [] | Some xs \<Rightarrow> xs)"

definition contiguous :: "int \<Rightarrow> nat \<Rightarrow> unit result" where
  "contiguous ordinal expected = ensure (ordinal = int expected) ''incompatible_index: ordinal gap'' (Inr ())"

text \<open>The loops that gather the lists of one table by their key.\<close>

fun gather_lists :: "('k \<times> int \<times> 'x) list \<Rightarrow> ('k \<times> 'x list) list \<Rightarrow> ('k \<times> 'x list) list result" where
  "gather_lists [] m = Inr m"
| "gather_lists ((k, n, x) # rows) m =
     bind_result (contiguous n (length (or_default m k))) (\<lambda>_. gather_lists rows (set_key k (or_default m k @ [x]) m))"

fun gather_headers :: "(string \<times> header_cols) list \<Rightarrow> (string \<times> decl_header) list \<Rightarrow> (string \<times> decl_header) list result" where
  "gather_headers [] m = Inr m"
| "gather_headers ((i, h) # rows) m = ensure (\<not> has_key m i) ''duplicate native header''
     (gather_headers rows ((i, \<lparr>hd_kind = nh_kind h, hd_name = nh_name h, hd_modifiers = [], hd_type_parameters = [],
        hd_parameters = [], hd_result_type = nh_result h, hd_bases = []\<rparr>) # m))"

definition add_item :: "string \<Rightarrow> string \<Rightarrow> decl_header \<Rightarrow> decl_header result" where
  "add_item kind x h =
     (if kind = ''modifier'' then Inr (h\<lparr>hd_modifiers := hd_modifiers h @ [x]\<rparr>)
      else if kind = ''typeParameter'' then Inr (h\<lparr>hd_type_parameters := hd_type_parameters h @ [x]\<rparr>)
      else if kind = ''base'' then Inr (h\<lparr>hd_bases := hd_bases h @ [x]\<rparr>)
      else Inl ''unknown header item'')"

text \<open>Items and parameters go into their header; the positions are counted apart for each list.\<close>

fun gather_items :: "((string \<times> string) \<times> int \<times> string) list \<Rightarrow> ((string \<times> string) \<Rightarrow> nat) \<Rightarrow> (string \<times> decl_header) list
    \<Rightarrow> (string \<times> decl_header) list result" where
  "gather_items [] counts m = Inr m"
| "gather_items (((i, kind), n, x) # rows) counts m =
     bind_result (contiguous n (counts (i, kind))) (\<lambda>_.
     bind_result (ok_or (map_of m i) ''orphan native header item'') (\<lambda>h.
     bind_result (add_item kind x h) (\<lambda>h'.
     gather_items rows (counts((i, kind) := Suc (counts (i, kind)))) (set_key i h' m))))"

fun gather_parameters :: "(string \<times> int \<times> parameter) list \<Rightarrow> (string \<Rightarrow> nat) \<Rightarrow> (string \<times> decl_header) list
    \<Rightarrow> (string \<times> decl_header) list result" where
  "gather_parameters [] counts m = Inr m"
| "gather_parameters ((i, n, p) # rows) counts m =
     bind_result (contiguous n (counts i)) (\<lambda>_.
     bind_result (ok_or (map_of m i) ''orphan native header parameter'') (\<lambda>h.
     gather_parameters rows (counts(i := Suc (counts i))) (set_key i (h\<lparr>hd_parameters := hd_parameters h @ [p]\<rparr>) m)))"

definition usize_from :: "int \<Rightarrow> nat result" where
  "usize_from n = ensure (0 \<le> n) ''out of range integral type conversion attempted'' (Inr (nat n))"

definition decode_signature :: "string list \<Rightarrow> bool \<Rightarrow> int option \<Rightarrow> bool option \<Rightarrow> stable_signature option result" where
  "decode_signature types present cnt variadic =
     (if \<not> present then ensure (types = []) ''incompatible_index: orphan native signature types'' (Inr None)
      else bind_result (ok_or cnt ''missing native signature count'') (\<lambda>c.
        bind_result (usize_from c) (\<lambda>c'.
        bind_result (ok_or variadic ''missing native signature variadic'') (\<lambda>w.
        Inr (Some \<lparr>sg_parameter_types = types, sg_type_parameter_count = c', sg_variadic = w\<rparr>)))))"

text \<open>What the loop over the declarations has left of the gathered lists, and the owners it recorded.\<close>

record native_parts =
  np_own :: "(string \<times> string list) list"
  np_ancestor_types :: "((string \<times> int) \<times> string list) list"
  np_ancestors :: "(string \<times> (int \<times> ancestor_cols) list) list"
  np_headers :: "(string \<times> decl_header) list"
  np_owners :: "(string \<times> string option) list"

fun decode_ancestors :: "string \<Rightarrow> (int \<times> ancestor_cols) list \<Rightarrow> stable_key list \<Rightarrow> ((string \<times> int) \<times> string list) list
    \<Rightarrow> (stable_key list \<times> ((string \<times> int) \<times> string list) list) result" where
  "decode_ancestors i [] done_keys types = Inr (done_keys, types)"
| "decode_ancestors i ((n, c) # rows) done_keys types =
     bind_result (contiguous n (length done_keys)) (\<lambda>_.
     bind_result (decode_signature (or_default types (i, n)) (na_present c) (na_count c) (na_variadic c)) (\<lambda>sig.
     bind_result (usize_from (na_sibling c)) (\<lambda>ordinal.
     decode_ancestors i rows (done_keys @ [\<lparr>sk_kind = na_kind c, sk_name = na_name c, sk_signature = sig, sk_ordinal = ordinal\<rparr>])
       (drop_key (i, n) types))))"

record native_scope =
  ns_version :: string
  ns_key :: document_key
  ns_revision :: string
  ns_producer :: string

definition document_value :: "document_key \<Rightarrow> json" where
  "document_value k = JObj [(''sourceSetId'', JStr (dk_source_set_id k)), (''language'', JStr (dk_language k)),
     (''path'', JStr (dk_path k))]"

definition proof_id :: "(string \<Rightarrow> string) \<Rightarrow> native_scope \<Rightarrow> string" where
  "proof_id sha256_hex s = ''native-proof:v1:'' @ sha256_hex (''trellis.native-proof.v1'' @ [CHR 0x00] @ canonical (JObj
     [(''producerId'', JStr (ns_producer s)), (''document'', document_value (ns_key s)), (''revisionId'', JStr (ns_revision s))]))"

definition decode_range :: "int \<Rightarrow> int \<Rightarrow> evidence_range result" where
  "decode_range a b = bind_result (usize_from a) (\<lambda>a'. bind_result (usize_from b) (\<lambda>b'. Inr \<lparr>er_start = a', er_end = b'\<rparr>))"

definition decode_declaration :: "string \<Rightarrow> native_scope \<Rightarrow> string \<Rightarrow> declaration_cols \<Rightarrow> native_parts
    \<Rightarrow> (decl_row \<times> native_parts) result" where
  "decode_declaration proof s i c p =
     ensure (\<not> has_key (np_owners p) i) ''duplicate native declaration'' (
     bind_result (decode_signature (or_default (np_own p) i) (nd_present c) (nd_count c) (nd_variadic c)) (\<lambda>sig.
     bind_result (usize_from (nd_ordinal c)) (\<lambda>ordinal.
     bind_result (decode_ancestors i (or_default (np_ancestors p) i) [] (np_ancestor_types p)) (\<lambda>(ancestors, types).
     bind_result (case (nd_name_start c, nd_name_end c) of (Some a, Some b) \<Rightarrow> bind_result (decode_range a b) (\<lambda>r. Inr (Some r))
        | _ \<Rightarrow> Inr None) (\<lambda>name_range.
     ensure ((nd_name_start c = None) = (nd_name_end c = None)) ''half native name range'' (
     bind_result (decode_range (nd_start c) (nd_end c)) (\<lambda>range.
     bind_result (ok_or (map_of (np_headers p) i) ''missing native header'') (\<lambda>header.
     Inr (\<lparr>dc_syntax_id = i, dc_document = ns_key s, dc_revision_id = ns_revision s, dc_kind = nd_kind c, dc_name = nd_name c,
         dc_lookup_key = nd_lookup_key c, dc_ancestors = ancestors,
         dc_key = \<lparr>sk_kind = nd_kind c, sk_name = nd_name c, sk_signature = sig, sk_ordinal = ordinal\<rparr>,
         dc_range = range, dc_name_range = name_range, dc_header = header, dc_provenance_id = proof\<rparr>,
       \<lparr>np_own = drop_key i (np_own p), np_ancestor_types = types, np_ancestors = drop_key i (np_ancestors p),
         np_headers = drop_key i (np_headers p), np_owners = (i, nd_owner c) # np_owners p\<rparr>)))))))))"

fun decode_declarations :: "string \<Rightarrow> native_scope \<Rightarrow> (string \<times> declaration_cols) list \<Rightarrow> native_parts
    \<Rightarrow> (decl_row list \<times> native_parts) result" where
  "decode_declarations proof s [] p = Inr ([], p)"
| "decode_declarations proof s ((i, c) # rows) p =
     bind_result (decode_declaration proof s i c p) (\<lambda>(d, p1).
     bind_result (decode_declarations proof s rows p1) (\<lambda>(ds, p2). Inr (d # ds, p2)))"

text \<open>The stored owners must be those of the decoded tree.\<close>

fun native_keys :: "decl_row list \<Rightarrow> ((stable_key list \<times> stable_key) \<times> string) list
    \<Rightarrow> ((stable_key list \<times> stable_key) \<times> string) list result" where
  "native_keys [] m = Inr m"
| "native_keys (d # ds) m = ensure (\<not> has_key m (dc_ancestors d, dc_key d)) ''duplicate native owner key''
     (native_keys ds (((dc_ancestors d, dc_key d), dc_syntax_id d) # m))"

definition check_owner :: "((stable_key list \<times> stable_key) \<times> string) list \<Rightarrow> (string \<times> string option) list \<Rightarrow> decl_row \<Rightarrow> unit result" where
  "check_owner by_key owners d =
     bind_result (if dc_ancestors d = [] then Inr None
       else bind_result (ok_or (map_of by_key (butlast (dc_ancestors d), last (dc_ancestors d))) ''missing native parent'')
         (\<lambda>i. Inr (Some i))) (\<lambda>expected.
     ensure (map_of owners (dc_syntax_id d) = Some expected) ''native parent differs from ancestor key'' (Inr ()))"

definition read_native_declarations :: "(string \<Rightarrow> string) \<Rightarrow> native_scope \<Rightarrow> string option \<Rightarrow> bool \<Rightarrow> native_tables
    \<Rightarrow> decl_row list result" where
  "read_native_declarations sha256_hex s lookup_key all_lookup_keys t = (let v = ns_version s in
     bind_result (gather_lists (places_of v (nt_own_types t)) []) (\<lambda>own.
     bind_result (gather_lists (places_of v (nt_ancestor_types t)) []) (\<lambda>types.
     bind_result (gather_lists (map (\<lambda>(i, n, c). (i, n, n, c)) (places_of v (nt_ancestors t))) []) (\<lambda>ancestors.
     bind_result (gather_headers (rows_of v (nt_headers t)) []) (\<lambda>h1.
     bind_result (gather_items (places_of v (nt_items t)) (\<lambda>_. 0) h1) (\<lambda>h2.
     bind_result (gather_parameters (places_of v (nt_parameters t)) (\<lambda>_. 0) h2) (\<lambda>headers.
     bind_result (decode_declarations (proof_id sha256_hex s) s (rows_of v (nt_declarations t))
       \<lparr>np_own = own, np_ancestor_types = types, np_ancestors = ancestors, np_headers = headers, np_owners = []\<rparr>) (\<lambda>(ds, p).
     ensure (np_own p = [] \<and> np_ancestor_types p = [] \<and> np_ancestors p = [] \<and> np_headers p = [])
       ''orphan native declaration children'' (
     bind_result (native_keys ds []) (\<lambda>by_key.
     bind_result (for_each (check_owner by_key (np_owners p)) ds) (\<lambda>_.
     Inr (if all_lookup_keys then ds else filter (\<lambda>d. dc_lookup_key d = lookup_key) ds))))))))))))"

section \<open>What is written\<close>

definition tables_ok :: "native_tables \<Rightarrow> bool" where
  "tables_ok t \<longleftrightarrow> distinct (map row_key (nt_declarations t)) \<and> distinct (map place_key (nt_own_types t))
     \<and> distinct (map place_key (nt_ancestors t)) \<and> distinct (map place_key (nt_ancestor_types t))
     \<and> distinct (map row_key (nt_headers t)) \<and> distinct (map place_key (nt_items t))
     \<and> distinct (map place_key (nt_parameters t))"

text \<open>The rows of one declaration.\<close>

definition header_cols_of :: "decl_header \<Rightarrow> header_cols" where
  "header_cols_of h = \<lparr>nh_kind = hd_kind h, nh_name = hd_name h, nh_result = hd_result_type h\<rparr>"

fun ancestor_type_rows :: "string \<Rightarrow> string \<Rightarrow> nat \<Rightarrow> stable_key list \<Rightarrow> (string \<times> int, string) list_table" where
  "ancestor_type_rows v i n [] = []"
| "ancestor_type_rows v i n (k # ks) = numbered v (i, int n) (signature_types k) @ ancestor_type_rows v i (Suc n) ks"

definition numbered_from :: "string \<Rightarrow> 'k \<Rightarrow> nat \<Rightarrow> 'x list \<Rightarrow> ('k, 'x) list_table" where
  "numbered_from v k n xs = map (\<lambda>(m, x). (v, k, int m, x)) (zip [n..<n + length xs] xs)"

lemma numbered_0: "numbered v k xs = numbered_from v k 0 xs"
  by (simp add: numbered_def numbered_from_def)

lemma numbered_from_simps [simp]:
  "numbered_from v k n [] = []"
  "numbered_from v k n (x # xs) = (v, k, int n, x) # numbered_from v k (Suc n) xs"
  by (simp_all add: numbered_from_def upt_conv_Cons del: upt_Suc)

lemma numbered_from_iff: "(v', k', m, y) \<in> set (numbered_from v k n xs) \<longleftrightarrow>
    v' = v \<and> k' = k \<and> (\<exists>j < length xs. m = int (n + j) \<and> y = xs ! j)"
  by (induction xs arbitrary: n) (auto simp: less_Suc_eq_0_disj)

definition declaration_rows :: "string \<Rightarrow> string option \<Rightarrow> decl_row \<Rightarrow> native_tables" where
  "declaration_rows v owner d = (let i = dc_syntax_id d; h = dc_header d in
     \<lparr>nt_declarations = [(v, i, declaration_cols_of owner d)], nt_own_types = numbered v i (signature_types (dc_key d)),
      nt_ancestors = numbered v i (map ancestor_cols_of (dc_ancestors d)),
      nt_ancestor_types = ancestor_type_rows v i 0 (dc_ancestors d), nt_headers = [(v, i, header_cols_of h)],
      nt_items = numbered v (i, ''modifier'') (hd_modifiers h) @ numbered v (i, ''typeParameter'') (hd_type_parameters h)
        @ numbered v (i, ''base'') (hd_bases h),
      nt_parameters = numbered v i (hd_parameters h)\<rparr>)"

definition tables_add :: "native_tables \<Rightarrow> native_tables \<Rightarrow> native_tables \<Rightarrow> bool" where
  "tables_add t r t' \<longleftrightarrow> (tables_ok t \<longrightarrow> tables_ok t')
     \<and> set (nt_declarations t') = set (nt_declarations r) \<union> set (nt_declarations t)
     \<and> set (nt_own_types t') = set (nt_own_types r) \<union> set (nt_own_types t)
     \<and> set (nt_ancestors t') = set (nt_ancestors r) \<union> set (nt_ancestors t)
     \<and> set (nt_ancestor_types t') = set (nt_ancestor_types r) \<union> set (nt_ancestor_types t)
     \<and> set (nt_headers t') = set (nt_headers r) \<union> set (nt_headers t)
     \<and> set (nt_items t') = set (nt_items r) \<union> set (nt_items t)
     \<and> set (nt_parameters t') = set (nt_parameters r) \<union> set (nt_parameters t)"

lemma insert_row_Inr:
  "insert_row key r rows = Inr rows' \<Longrightarrow> set rows' = insert r (set rows) \<and> (distinct (map key rows) \<longrightarrow> distinct (map key rows'))"
  by (auto simp: insert_row_def list_ex_iff split: if_splits) metis

lemma insert_rows_Inr:
  "insert_rows key rs rows = Inr rows' \<Longrightarrow> set rows' = set rs \<union> set rows \<and> (distinct (map key rows) \<longrightarrow> distinct (map key rows'))"
proof (induction rs arbitrary: rows)
  case (Cons r rs)
  then obtain rows1 where "insert_row key r rows = Inr rows1" "insert_rows key rs rows1 = Inr rows'" by auto
  then show ?case using Cons.IH [of rows1] insert_row_Inr [of key r rows rows1] by auto
qed simp

lemma write_ancestors_add:
  "write_ancestors v i n ks t = Inr t' \<Longrightarrow>
     \<exists>as ts. t' = t\<lparr>nt_ancestors := as, nt_ancestor_types := ts\<rparr>
       \<and> set as = set (numbered_from v i n (map ancestor_cols_of ks)) \<union> set (nt_ancestors t)
       \<and> set ts = set (ancestor_type_rows v i n ks) \<union> set (nt_ancestor_types t)
       \<and> (distinct (map place_key (nt_ancestors t)) \<longrightarrow> distinct (map place_key as))
       \<and> (distinct (map place_key (nt_ancestor_types t)) \<longrightarrow> distinct (map place_key ts))"
proof (induction v i n ks t rule: write_ancestors.induct)
  case (1 v i n t)
  then show ?case by (intro exI [of _ "nt_ancestors t"] exI [of _ "nt_ancestor_types t"]) simp
next
  case (2 v i n k ks t)
  then obtain as ts where row: "insert_row place_key (v, i, int n, ancestor_cols_of k) (nt_ancestors t) = Inr as"
    and types: "insert_rows place_key (numbered v (i, int n) (signature_types k)) (nt_ancestor_types t) = Inr ts"
    and rest: "write_ancestors v i (Suc n) ks (t\<lparr>nt_ancestors := as, nt_ancestor_types := ts\<rparr>) = Inr t'" by auto
  from "2.IH" [OF rest] obtain as' ts' where
    "t' = t\<lparr>nt_ancestors := as', nt_ancestor_types := ts'\<rparr>"
    "set as' = set (numbered_from v i (Suc n) (map ancestor_cols_of ks)) \<union> set as"
    "set ts' = set (ancestor_type_rows v i (Suc n) ks) \<union> set ts"
    "distinct (map place_key as) \<longrightarrow> distinct (map place_key as')" "distinct (map place_key ts) \<longrightarrow> distinct (map place_key ts')"
    by auto
  then show ?case using insert_row_Inr [OF row] insert_rows_Inr [OF types] by (intro exI [of _ as'] exI [of _ ts']) auto
qed

lemma write_declaration_add:
  assumes "write_declaration v owner d t = Inr t'"
  shows "tables_add t (declaration_rows v owner d) t'"
proof -
  let ?i = "dc_syntax_id d" and ?h = "dc_header d"
  obtain ds own t1 hs items ps where
    ds: "insert_row row_key (v, ?i, declaration_cols_of owner d) (nt_declarations t) = Inr ds"
    and own: "insert_rows place_key (numbered v ?i (signature_types (dc_key d))) (nt_own_types t) = Inr own"
    and t1: "write_ancestors v ?i 0 (dc_ancestors d) (t\<lparr>nt_declarations := ds, nt_own_types := own\<rparr>) = Inr t1"
    and hs: "insert_row row_key (v, ?i, header_cols_of ?h) (nt_headers t1) = Inr hs"
    and items: "insert_rows place_key (nt_items (declaration_rows v owner d)) (nt_items t1) = Inr items"
    and ps: "insert_rows place_key (numbered v ?i (hd_parameters ?h)) (nt_parameters t1) = Inr ps"
    and t': "t' = t1\<lparr>nt_headers := hs, nt_items := items, nt_parameters := ps\<rparr>"
    using assms by (auto simp: write_declaration_def header_cols_of_def declaration_rows_def Let_def)
  obtain as ts where t1': "t1 = t\<lparr>nt_declarations := ds, nt_own_types := own, nt_ancestors := as, nt_ancestor_types := ts\<rparr>"
    and anc: "set as = set (numbered v ?i (map ancestor_cols_of (dc_ancestors d))) \<union> set (nt_ancestors t)"
      "set ts = set (ancestor_type_rows v ?i 0 (dc_ancestors d)) \<union> set (nt_ancestor_types t)"
      "distinct (map place_key (nt_ancestors t)) \<longrightarrow> distinct (map place_key as)"
      "distinct (map place_key (nt_ancestor_types t)) \<longrightarrow> distinct (map place_key ts)"
    using write_ancestors_add [OF t1] by (auto simp: numbered_0)
  show ?thesis
    using insert_row_Inr [OF ds] insert_rows_Inr [OF own] insert_row_Inr [OF hs] insert_rows_Inr [OF items]
      insert_rows_Inr [OF ps] anc t' t1'
    by (simp add: tables_add_def tables_ok_def declaration_rows_def Let_def)
qed

definition joined :: "native_tables list \<Rightarrow> native_tables" where
  "joined ts = \<lparr>nt_declarations = concat (map nt_declarations ts), nt_own_types = concat (map nt_own_types ts),
     nt_ancestors = concat (map nt_ancestors ts), nt_ancestor_types = concat (map nt_ancestor_types ts),
     nt_headers = concat (map nt_headers ts), nt_items = concat (map nt_items ts),
     nt_parameters = concat (map nt_parameters ts)\<rparr>"

definition owner_of :: "(owner_key \<times> string) list \<Rightarrow> decl_row \<Rightarrow> string option" where
  "owner_of owners d = (case native_owner owners d of Inl _ \<Rightarrow> None | Inr w \<Rightarrow> w)"

definition written_rows :: "(string \<Rightarrow> string option) \<Rightarrow> (string \<Rightarrow> bool) \<Rightarrow> (owner_key \<times> string) list \<Rightarrow> decl_row list \<Rightarrow> native_tables list" where
  "written_rows version_of reused owners ds =
     map (\<lambda>d. declaration_rows (the (version_of (dk_path (dc_document d)))) (owner_of owners d) d)
       (filter (\<lambda>d. \<not> reused (dk_path (dc_document d))) ds)"

lemma tables_add_trans:
  "tables_add t r t1 \<Longrightarrow> tables_add t1 (joined rs) t' \<Longrightarrow> tables_add t (joined (r # rs)) t'"
  by (auto simp: tables_add_def joined_def)

lemma tables_add_none: "tables_add t (joined []) t"
  by (simp add: tables_add_def joined_def)

lemma write_declarations_add:
  "write_declarations cancel n version_of reused owners ds t = Inr t' \<Longrightarrow>
     tables_add t (joined (written_rows version_of reused owners ds)) t'
     \<and> (\<forall>d \<in> set ds. version_of (dk_path (dc_document d)) \<noteq> None
          \<and> (\<not> reused (dk_path (dc_document d)) \<longrightarrow> (\<exists>w. native_owner owners d = Inr w)))"
proof (induction ds arbitrary: n t)
  case Nil
  then show ?case by (simp add: written_rows_def tables_add_none)
next
  case (Cons d ds)
  let ?p = "dk_path (dc_document d)"
  obtain v t1 where v: "version_of ?p = Some v"
    and t1: "(if reused ?p then Inr t else bind_result (native_owner owners d) (\<lambda>owner. write_declaration v owner d t)) = Inr t1"
    and rest: "write_declarations cancel (Suc n) version_of reused owners ds t1 = Inr t'"
    using Cons.prems by auto
  show ?case
  proof (cases "reused ?p")
    case True
    then show ?thesis using Cons.IH [OF rest] t1 v by (simp add: written_rows_def)
  next
    case False
    then obtain w where w: "native_owner owners d = Inr w" "write_declaration v w d t = Inr t1" using t1 by auto
    then show ?thesis
      using Cons.IH [OF rest] v False tables_add_trans [OF write_declaration_add [OF w(2)]]
      by (auto simp: written_rows_def owner_of_def)
  qed
qed

text \<open>A version holds the rows of the declarations \<open>ds\<close>, and only those.\<close>

definition version_holds :: "string \<Rightarrow> (decl_row \<Rightarrow> string option) \<Rightarrow> decl_row list \<Rightarrow> native_tables \<Rightarrow> bool" where
  "version_holds v owner ds t \<longleftrightarrow> tables_ok t
     \<and> (\<forall>r. (v, r) \<in> set (nt_declarations t) \<longleftrightarrow> (\<exists>d \<in> set ds. (v, r) \<in> set (nt_declarations (declaration_rows v (owner d) d))))
     \<and> (\<forall>r. (v, r) \<in> set (nt_own_types t) \<longleftrightarrow> (\<exists>d \<in> set ds. (v, r) \<in> set (nt_own_types (declaration_rows v (owner d) d))))
     \<and> (\<forall>r. (v, r) \<in> set (nt_ancestors t) \<longleftrightarrow> (\<exists>d \<in> set ds. (v, r) \<in> set (nt_ancestors (declaration_rows v (owner d) d))))
     \<and> (\<forall>r. (v, r) \<in> set (nt_ancestor_types t) \<longleftrightarrow> (\<exists>d \<in> set ds. (v, r) \<in> set (nt_ancestor_types (declaration_rows v (owner d) d))))
     \<and> (\<forall>r. (v, r) \<in> set (nt_headers t) \<longleftrightarrow> (\<exists>d \<in> set ds. (v, r) \<in> set (nt_headers (declaration_rows v (owner d) d))))
     \<and> (\<forall>r. (v, r) \<in> set (nt_items t) \<longleftrightarrow> (\<exists>d \<in> set ds. (v, r) \<in> set (nt_items (declaration_rows v (owner d) d))))
     \<and> (\<forall>r. (v, r) \<in> set (nt_parameters t) \<longleftrightarrow> (\<exists>d \<in> set ds. (v, r) \<in> set (nt_parameters (declaration_rows v (owner d) d))))"

definition version_empty :: "string \<Rightarrow> native_tables \<Rightarrow> bool" where
  "version_empty v t \<longleftrightarrow> v \<notin> fst ` set (nt_declarations t) \<and> v \<notin> fst ` set (nt_own_types t)
     \<and> v \<notin> fst ` set (nt_ancestors t) \<and> v \<notin> fst ` set (nt_ancestor_types t) \<and> v \<notin> fst ` set (nt_headers t)
     \<and> v \<notin> fst ` set (nt_items t) \<and> v \<notin> fst ` set (nt_parameters t)"

lemma ancestor_type_rows_iff: "(v', (i', m'), n, x) \<in> set (ancestor_type_rows v i m ks) \<longleftrightarrow> v' = v \<and> i' = i
    \<and> (\<exists>j < length ks. m' = int (m + j) \<and> (\<exists>l < length (signature_types (ks ! j)). n = int l \<and> x = signature_types (ks ! j) ! l))"
  by (induction ks arbitrary: m) (auto simp: numbered_0 numbered_from_iff less_Suc_eq_0_disj)

lemma numbered_version: "r \<in> set (numbered_from v k n xs) \<Longrightarrow> fst r = v"
  by (auto simp: numbered_from_def)

lemma ancestor_types_version: "r \<in> set (ancestor_type_rows v i m ks) \<Longrightarrow> fst r = v"
  by (induction ks arbitrary: m) (auto simp: numbered_0 dest: numbered_version)

lemma rows_version:
  "r \<in> set (nt_declarations (declaration_rows v w d)) \<Longrightarrow> fst r = v"
  "q \<in> set (nt_own_types (declaration_rows v w d)) \<Longrightarrow> fst q = v"
  "a \<in> set (nt_ancestors (declaration_rows v w d)) \<Longrightarrow> fst a = v"
  "b \<in> set (nt_ancestor_types (declaration_rows v w d)) \<Longrightarrow> fst b = v"
  "h \<in> set (nt_headers (declaration_rows v w d)) \<Longrightarrow> fst h = v"
  "x \<in> set (nt_items (declaration_rows v w d)) \<Longrightarrow> fst x = v"
  "y \<in> set (nt_parameters (declaration_rows v w d)) \<Longrightarrow> fst y = v"
  by (auto simp: declaration_rows_def Let_def numbered_0 dest: numbered_version ancestor_types_version)

lemma joined_version:
  assumes column: "\<And>w d u r. r \<in> set (column (declaration_rows u w d)) \<Longrightarrow> fst r = u"
    and path: "version_of path = Some v" "\<not> reused path" "\<forall>p. version_of p = Some v \<longrightarrow> p = path"
    and known: "\<forall>d \<in> set ds. version_of (dk_path (dc_document d)) \<noteq> None"
  shows "(v, r) \<in> set (concat (map column (written_rows version_of reused owners ds)))
     \<longleftrightarrow> (\<exists>d \<in> set (filter (\<lambda>d. dk_path (dc_document d) = path) ds). (v, r) \<in> set (column (declaration_rows v (owner_of owners d) d)))"
    (is "?l \<longleftrightarrow> ?r")
proof
  assume ?l
  then obtain d where d: "d \<in> set ds"
    "(v, r) \<in> set (column (declaration_rows (the (version_of (dk_path (dc_document d)))) (owner_of owners d) d))"
    by (auto simp: written_rows_def)
  then have v: "the (version_of (dk_path (dc_document d))) = v" using column [OF d(2)] by simp
  moreover have "version_of (dk_path (dc_document d)) = Some v" using v known d(1) by force
  ultimately show ?r using path(3) d by auto
next
  assume ?r
  then show ?l using path(1,2) by (auto simp: written_rows_def intro!: bexI)
qed

lemma absent_row: "v \<notin> fst ` B \<Longrightarrow> (v, r) \<notin> B"
  by force

lemma written_holds:
  assumes run: "write_declarations cancel n version_of reused owners ds t = Inr t'"
    and "tables_ok t" "version_empty v t"
    and path: "version_of path = Some v" "\<not> reused path" "\<forall>p. version_of p = Some v \<longrightarrow> p = path"
  shows "version_holds v (owner_of owners) (filter (\<lambda>d. dk_path (dc_document d) = path) ds) t'"
proof -
  have add: "tables_add t (joined (written_rows version_of reused owners ds)) t'"
    and known: "\<forall>d \<in> set ds. version_of (dk_path (dc_document d)) \<noteq> None"
    using write_declarations_add [OF run] by blast+
  have columns: "set (nt_declarations t') = set (concat (map nt_declarations (written_rows version_of reused owners ds))) \<union> set (nt_declarations t)"
    "set (nt_own_types t') = set (concat (map nt_own_types (written_rows version_of reused owners ds))) \<union> set (nt_own_types t)"
    "set (nt_ancestors t') = set (concat (map nt_ancestors (written_rows version_of reused owners ds))) \<union> set (nt_ancestors t)"
    "set (nt_ancestor_types t') = set (concat (map nt_ancestor_types (written_rows version_of reused owners ds))) \<union> set (nt_ancestor_types t)"
    "set (nt_headers t') = set (concat (map nt_headers (written_rows version_of reused owners ds))) \<union> set (nt_headers t)"
    "set (nt_items t') = set (concat (map nt_items (written_rows version_of reused owners ds))) \<union> set (nt_items t)"
    "set (nt_parameters t') = set (concat (map nt_parameters (written_rows version_of reused owners ds))) \<union> set (nt_parameters t)"
    using add unfolding tables_add_def joined_def native_tables.select_convs by blast+
  have ok: "tables_ok t'" using add assms(2) by (simp add: tables_add_def)
  show ?thesis
    using assms(3) ok unfolding version_holds_def version_empty_def columns
    by (simp add: absent_row joined_version [where version_of = version_of and reused = reused and path = path and column = nt_declarations, OF rows_version(1) path known] joined_version [where version_of = version_of and reused = reused and path = path and column = nt_own_types, OF rows_version(2) path known]
        joined_version [where version_of = version_of and reused = reused and path = path and column = nt_ancestors, OF rows_version(3) path known] joined_version [where version_of = version_of and reused = reused and path = path and column = nt_ancestor_types, OF rows_version(4) path known]
        joined_version [where version_of = version_of and reused = reused and path = path and column = nt_headers, OF rows_version(5) path known] joined_version [where version_of = version_of and reused = reused and path = path and column = nt_items, OF rows_version(6) path known]
        joined_version [where version_of = version_of and reused = reused and path = path and column = nt_parameters, OF rows_version(7) path known] del: set_concat set_filter)
qed

section \<open>What is read\<close>

subsection \<open>Gathering lists\<close>

definition enum_from :: "nat \<Rightarrow> 'x list \<Rightarrow> (int \<times> 'x) list" where
  "enum_from n xs = map (\<lambda>(m, x). (int m, x)) (zip [n..<n + length xs] xs)"

lemma enum_from_simps [simp]:
  "enum_from n [] = []"
  "enum_from n (x # xs) = (int n, x) # enum_from (Suc n) xs"
  by (simp_all add: enum_from_def upt_conv_Cons del: upt_Suc)

lemma enum_from_Nil [simp]: "enum_from n xs = [] \<longleftrightarrow> xs = []"
  by (cases xs) simp_all

lemma enum_from_iff: "(m, x) \<in> set (enum_from n xs) \<longleftrightarrow> (\<exists>j < length xs. m = int (n + j) \<and> x = xs ! j)"
  by (induction xs arbitrary: n) (auto simp: less_Suc_eq_0_disj)

lemma enum_from_sorted: "sorted (map fst (enum_from n xs))" "distinct (map fst (enum_from n xs))"
  by (induction xs arbitrary: n) (auto simp: enum_from_iff)

lemma enum_from_eq_Cons: "enum_from n xs = (m, x) # rest \<longleftrightarrow> (\<exists>ys. xs = x # ys \<and> m = int n \<and> rest = enum_from (Suc n) ys)"
  by (cases xs) auto

text \<open>The rows of one key, once the table is ordered, are its list.\<close>

lemma places_of_key:
  assumes keys: "distinct (map place_key rows)"
    and content: "\<And>n x. (v, k, n, x) \<in> set rows \<longleftrightarrow> (\<exists>j < length xs. n = int j \<and> x = xs ! j)"
  shows "map snd (filter (\<lambda>r. fst r = k) (places_of v rows)) = enum_from 0 xs"
proof -
  let ?rows = "map snd (filter (\<lambda>r. fst r = v) rows)" and ?key = "\<lambda>(k, n, _). (k, n)"
  let ?l = "filter (\<lambda>r. fst r = k) (places_of v rows)"
  have l: "?l = sort_key ?key (filter (\<lambda>r. fst r = k) ?rows)" by (simp add: places_of_def filter_sort)
  have "distinct (map place_key (filter (\<lambda>r. fst r = v \<and> fst (snd r) = k) rows))"
    using keys by (simp add: distinct_map_filter)
  then have "distinct (map (\<lambda>r. (v, k, fst (snd (snd r)))) (filter (\<lambda>r. fst r = v \<and> fst (snd r) = k) rows))"
    by (rule back_subst [of distinct]) (auto simp: place_key_def)
  then have "distinct (map (\<lambda>n. (v, k, n)) (map fst (map snd (filter (\<lambda>r. fst r = k) ?rows))))"
    by (simp add: filter_map comp_def conj_commute)
  then have "distinct (map fst (map snd (filter (\<lambda>r. fst r = k) ?rows)))" by (simp only: distinct_map)
  moreover have "mset (map fst (map snd ?l)) = mset (map fst (map snd (filter (\<lambda>r. fst r = k) ?rows)))"
    by (simp add: l flip: multiset.map_comp)
  ultimately have "distinct (map fst (map snd ?l))" by (metis mset_eq_imp_distinct_iff)
  moreover have "sorted (map ?key ?l)" unfolding l by (rule sorted_sort_key)
  then have "sorted (map fst (map snd ?l))"
    by (auto simp: sorted_map less_eq_prod_def elim!: sorted_wrt_mono_rel [rotated])
  moreover have "set (map snd ?l) = set (enum_from 0 xs)"
    by (auto simp: places_of_def enum_from_iff content image_iff)
  ultimately show ?thesis
    using enum_from_sorted [of 0 xs]
    by (intro map_sorted_distinct_set_unique [where f = fst]) (auto intro!: eq_key_imp_eq_value simp: inj_on_def distinct_map)
qed

lemma fst_set_key [simp]: "fst ` set (set_key k v m) = insert k (fst ` set m)"
  using keys_set_key [of k v m] by simp

lemma fst_drop_key [simp]: "fst ` set (drop_key k m) = fst ` set m - {k}"
  using keys_drop_key [of k m] by simp

lemma gather_lists_spec:
  assumes "\<And>k. map snd (filter (\<lambda>r. fst r = k) rows) = enum_from (length (or_default m k)) (ext k)"
  shows "\<exists>m'. gather_lists rows m = Inr m' \<and> (\<forall>k. or_default m' k = or_default m k @ ext k)
     \<and> set (map fst m') = set (map fst m) \<union> {k. ext k \<noteq> []}"
  using assms
proof (induction rows arbitrary: m ext)
  case Nil
  then have "ext k = []" for k using enum_from_eq_Cons by (metis filter.simps(1) list.exhaust list.map(1) list.discI enum_from_simps(2))
  then show ?case by simp
next
  case (Cons r rows)
  obtain k n x where r: "r = (k, n, x)" by (cases r)
  obtain ys where ys: "ext k = x # ys" "n = int (length (or_default m k))"
    and rest: "map snd (filter (\<lambda>r. fst r = k) rows) = enum_from (Suc (length (or_default m k))) ys"
    using Cons.prems [of k] by (auto simp: r enum_from_eq_Cons eq_commute [of "_ # _"])
  let ?m = "set_key k (or_default m k @ [x]) m"
  have look: "or_default ?m q = (if q = k then or_default m k @ [x] else or_default m q)" for q
    by (simp add: or_default_def)
  have "map snd (filter (\<lambda>r. fst r = q) rows) = enum_from (length (or_default ?m q)) ((ext(k := ys)) q)" for q
    using rest Cons.prems [of q] by (auto simp: look r)
  from Cons.IH [OF this] obtain m' where "gather_lists rows ?m = Inr m'"
    "\<forall>q. or_default m' q = or_default ?m q @ (ext(k := ys)) q"
    "set (map fst m') = set (map fst ?m) \<union> {q. (ext(k := ys)) q \<noteq> []}" by blast
  then show ?case using ys by (auto simp: r look contiguous_def)
qed


subsection \<open>Headers\<close>

definition bare_header :: "header_cols \<Rightarrow> decl_header" where
  "bare_header h = \<lparr>hd_kind = nh_kind h, hd_name = nh_name h, hd_modifiers = [], hd_type_parameters = [],
     hd_parameters = [], hd_result_type = nh_result h, hd_bases = []\<rparr>"

lemma gather_headers_spec:
  "distinct (map fst rows) \<Longrightarrow> fst ` set rows \<inter> fst ` set m = {} \<Longrightarrow>
     \<exists>m'. gather_headers rows m = Inr m' \<and> (\<forall>i. map_of m' i = (case map_of rows i of None \<Rightarrow> map_of m i | Some h \<Rightarrow> Some (bare_header h)))
       \<and> fst ` set m' = fst ` set rows \<union> fst ` set m"
proof (induction rows arbitrary: m)
  case (Cons r rows)
  obtain i h where r: "r = (i, h)" by (cases r)
  let ?m = "(i, bare_header h) # m"
  have "fst ` set rows \<inter> fst ` set ?m = {}" using Cons.prems by (auto simp: r)
  from Cons.IH [OF _ this] Cons.prems obtain m' where m': "gather_headers rows ?m = Inr m'"
    "\<forall>i. map_of m' i = (case map_of rows i of None \<Rightarrow> map_of ?m i | Some h \<Rightarrow> Some (bare_header h))"
    "fst ` set m' = fst ` set rows \<union> fst ` set ?m" by auto
  have "map_of rows i = None" using Cons.prems(1) by (simp add: r map_of_eq_None_iff)
  moreover have "\<not> has_key m i" using Cons.prems(2) by (simp add: r has_key_def)
  ultimately show ?case using m' by (auto simp: r bare_header_def split: option.splits)
qed simp

definition with_items :: "(string \<Rightarrow> string list) \<Rightarrow> decl_header \<Rightarrow> decl_header" where
  "with_items ext h = h\<lparr>hd_modifiers := hd_modifiers h @ ext ''modifier'',
     hd_type_parameters := hd_type_parameters h @ ext ''typeParameter'', hd_bases := hd_bases h @ ext ''base''\<rparr>"

lemma gather_items_spec:
  assumes "\<And>k. map snd (filter (\<lambda>r. fst r = k) rows) = enum_from (counts k) (ext k)"
    and "\<And>i kind. ext (i, kind) \<noteq> [] \<Longrightarrow> map_of m i \<noteq> None \<and> kind \<in> {''modifier'', ''typeParameter'', ''base''}"
  shows "\<exists>m'. gather_items rows counts m = Inr m'
     \<and> (\<forall>i. map_of m' i = map_option (with_items (\<lambda>kind. ext (i, kind))) (map_of m i)) \<and> fst ` set m' = fst ` set m"
  using assms
proof (induction rows arbitrary: counts m ext)
  case Nil
  then have "ext k = []" for k by (metis enum_from_eq_Cons enum_from_simps(2) filter.simps(1) list.map(1) list.discI list.exhaust)
  then show ?case by (simp add: with_items_def option.map_ident)
next
  case (Cons r rows)
  obtain i kind n x where r: "r = ((i, kind), n, x)" by (metis prod.exhaust)
  obtain ys where ys: "ext (i, kind) = x # ys" "n = int (counts (i, kind))"
    and rest: "map snd (filter (\<lambda>r. fst r = (i, kind)) rows) = enum_from (Suc (counts (i, kind))) ys"
    using Cons.prems(1) [of "(i, kind)"] by (auto simp: r enum_from_eq_Cons eq_commute [of "_ # _"])
  obtain h where h: "map_of m i = Some h" and kind: "kind \<in> {''modifier'', ''typeParameter'', ''base''}"
    using Cons.prems(2) [of i kind] ys by auto
  define h' where "h' = with_items (\<lambda>k. if k = kind then [x] else []) h"
  have added: "add_item kind x h = Inr h'" using kind by (auto simp: add_item_def h'_def with_items_def)
  let ?m = "set_key i h' m" and ?counts = "counts((i, kind) := Suc (counts (i, kind)))" and ?ext = "ext((i, kind) := ys)"
  have "map snd (filter (\<lambda>r. fst r = q) rows) = enum_from (?counts q) (?ext q)" for q
    using rest Cons.prems(1) [of q] by (auto simp: r)
  moreover have "map_of ?m j \<noteq> None \<and> k \<in> {''modifier'', ''typeParameter'', ''base''}" if "?ext (j, k) \<noteq> []" for j k
    using that Cons.prems(2) [of j k] ys by (auto split: if_splits)
  ultimately obtain m' where "gather_items rows ?counts ?m = Inr m'"
    "\<forall>j. map_of m' j = map_option (with_items (\<lambda>k. ?ext (j, k))) (map_of ?m j)" "fst ` set m' = fst ` set ?m"
    using Cons.IH [of ?counts ?ext ?m] by blast
  moreover have "with_items (\<lambda>k. ?ext (i, k)) h' = with_items (\<lambda>k. ext (i, k)) h"
    using kind ys(1) by (auto simp: h'_def with_items_def)
  moreover have "i \<in> fst ` set m" using h by (metis map_of_eq_None_iff option.distinct(1))
  ultimately show ?case using h added ys(2) by (auto simp: r contiguous_def)
qed

lemma gather_parameters_spec:
  assumes "\<And>i. map snd (filter (\<lambda>r. fst r = i) rows) = enum_from (counts i) (ext i)"
    and "\<And>i. ext i \<noteq> [] \<Longrightarrow> map_of m i \<noteq> None"
  shows "\<exists>m'. gather_parameters rows counts m = Inr m'
     \<and> (\<forall>i. map_of m' i = map_option (\<lambda>h. h\<lparr>hd_parameters := hd_parameters h @ ext i\<rparr>) (map_of m i)) \<and> fst ` set m' = fst ` set m"
  using assms
proof (induction rows arbitrary: counts m ext)
  case Nil
  then have "ext k = []" for k by (metis enum_from_eq_Cons enum_from_simps(2) filter.simps(1) list.map(1) list.discI list.exhaust)
  then show ?case by (simp add: option.map_ident)
next
  case (Cons r rows)
  obtain i n x where r: "r = (i, n, x)" by (cases r)
  obtain ys where ys: "ext i = x # ys" "n = int (counts i)"
    and rest: "map snd (filter (\<lambda>r. fst r = i) rows) = enum_from (Suc (counts i)) ys"
    using Cons.prems(1) [of i] by (auto simp: r enum_from_eq_Cons eq_commute [of "_ # _"])
  obtain h where h: "map_of m i = Some h" using Cons.prems(2) [of i] ys by auto
  let ?m = "set_key i (h\<lparr>hd_parameters := hd_parameters h @ [x]\<rparr>) m" and ?counts = "counts(i := Suc (counts i))" and ?ext = "ext(i := ys)"
  have "map snd (filter (\<lambda>r. fst r = q) rows) = enum_from (?counts q) (?ext q)" for q
    using rest Cons.prems(1) [of q] by (auto simp: r)
  moreover have "map_of ?m j \<noteq> None" if "?ext j \<noteq> []" for j
    using that Cons.prems(2) [of j] by (auto split: if_splits)
  ultimately obtain m' where "gather_parameters rows ?counts ?m = Inr m'"
    "\<forall>j. map_of m' j = map_option (\<lambda>h. h\<lparr>hd_parameters := hd_parameters h @ ?ext j\<rparr>) (map_of ?m j)" "fst ` set m' = fst ` set ?m"
    using Cons.IH [of ?counts ?ext ?m] by blast
  moreover have "i \<in> fst ` set m" using h by (metis map_of_eq_None_iff option.distinct(1))
  ultimately show ?case using h ys by (auto simp: r contiguous_def)
qed


subsection \<open>Decoding\<close>

lemma decode_signature_stored [simp]:
  "decode_signature (signature_types k) (sk_signature k \<noteq> None) (map_option (\<lambda>s. int (sg_type_parameter_count s)) (sk_signature k))
     (map_option sg_variadic (sk_signature k)) = Inr (sk_signature k)"
  by (cases "sk_signature k") (simp_all add: decode_signature_def signature_types_def usize_from_def)

lemma stable_key_eta: "\<lparr>sk_kind = sk_kind k, sk_name = sk_name k, sk_signature = sk_signature k, sk_ordinal = sk_ordinal k\<rparr> = (k :: stable_key)"
  by simp

lemma decode_ancestors_stored:
  assumes "\<forall>j < length ks. or_default types (i, int (length ready + j)) = signature_types (ks ! j)"
  shows "\<exists>types'. decode_ancestors i (enum_from (length ready) (map ancestor_cols_of ks)) ready types = Inr (ready @ ks, types')
     \<and> (\<forall>q. map_of types' q = (if \<exists>j < length ks. q = (i, int (length ready + j)) then None else map_of types q))"
  using assms
proof (induction ks arbitrary: ready types)
  case Nil
  then show ?case by simp
next
  case (Cons k ks)
  let ?types = "drop_key (i, int (length ready)) types"
  have "or_default types (i, int (length ready)) = signature_types k" using Cons.prems by force
  then have head: "decode_signature (or_default types (i, int (length ready))) (na_present (ancestor_cols_of k))
      (na_count (ancestor_cols_of k)) (na_variadic (ancestor_cols_of k)) = Inr (sk_signature k)"
    using decode_signature_stored [of k] by (simp add: ancestor_cols_of_def Let_def)
  have "or_default ?types (i, int (length (ready @ [k]) + j)) = signature_types (ks ! j)" if "j < length ks" for j
    using Cons.prems [rule_format, of "Suc j"] that by (simp add: or_default_def)
  then obtain types' where types': "decode_ancestors i (enum_from (length (ready @ [k])) (map ancestor_cols_of ks)) (ready @ [k]) ?types
      = Inr ((ready @ [k]) @ ks, types')"
    "\<forall>q. map_of types' q = (if \<exists>j < length ks. q = (i, int (length (ready @ [k]) + j)) then None else map_of ?types q)"
    using Cons.IH [of ?types "ready @ [k]"] by blast
  have "(\<exists>j < Suc (length ks). q = (i, int (length ready + j))) \<longleftrightarrow>
      q = (i, int (length ready)) \<or> (\<exists>j < length ks. q = (i, int (length (ready @ [k]) + j)))" for q
    by (auto simp: less_Suc_eq_0_disj)
  moreover have "decode_ancestors i (enum_from (length ready) (map ancestor_cols_of (k # ks))) ready types
      = decode_ancestors i (enum_from (length (ready @ [k])) (map ancestor_cols_of ks)) (ready @ [k]) ?types"
    using head by (simp add: contiguous_def) (simp add: ancestor_cols_of_def Let_def usize_from_def stable_key_eta)
  ultimately show ?case using types' by (intro exI [of _ types']) auto
qed

definition native_of :: "(string \<Rightarrow> string) \<Rightarrow> native_scope \<Rightarrow> decl_row \<Rightarrow> bool" where
  "native_of sha256_hex s d \<longleftrightarrow> dc_document d = ns_key s \<and> dc_revision_id d = ns_revision s
     \<and> dc_provenance_id d = proof_id sha256_hex s \<and> sk_kind (dc_key d) = dc_kind d \<and> sk_name (dc_key d) = dc_name d"

text \<open>What is left in the gathered lists is there for the declarations that are still to be decoded.\<close>

definition parts_match :: "decl_row list \<Rightarrow> native_parts \<Rightarrow> bool" where
  "parts_match ds p \<longleftrightarrow>
     (\<forall>d \<in> set ds. or_default (np_own p) (dc_syntax_id d) = signature_types (dc_key d)
        \<and> or_default (np_ancestors p) (dc_syntax_id d) = enum_from 0 (map ancestor_cols_of (dc_ancestors d))
        \<and> (\<forall>j < length (dc_ancestors d). or_default (np_ancestor_types p) (dc_syntax_id d, int j) = signature_types (dc_ancestors d ! j))
        \<and> map_of (np_headers p) (dc_syntax_id d) = Some (dc_header d) \<and> dc_syntax_id d \<notin> fst ` set (np_owners p))
     \<and> fst ` set (np_own p) \<subseteq> dc_syntax_id ` set ds \<and> fst ` set (np_ancestors p) \<subseteq> dc_syntax_id ` set ds
     \<and> fst ` set (np_headers p) \<subseteq> dc_syntax_id ` set ds
     \<and> (\<forall>q \<in> fst ` set (np_ancestor_types p). \<exists>d \<in> set ds. \<exists>j < length (dc_ancestors d). q = (dc_syntax_id d, int j))"

lemma decode_declaration_stored:
  assumes d: "native_of sha256_hex s d" and p: "parts_match (d # ds) p" and i: "dc_syntax_id d \<notin> dc_syntax_id ` set ds"
  shows "\<exists>p'. decode_declaration (proof_id sha256_hex s) s (dc_syntax_id d) (declaration_cols_of w d) p = Inr (d, p')
     \<and> parts_match ds p' \<and> np_owners p' = (dc_syntax_id d, w) # np_owners p"
proof -
  let ?i = "dc_syntax_id d"
  have own: "or_default (np_own p) ?i = signature_types (dc_key d)"
    and anc: "or_default (np_ancestors p) ?i = enum_from 0 (map ancestor_cols_of (dc_ancestors d))"
    and types: "\<forall>j < length (dc_ancestors d). or_default (np_ancestor_types p) (?i, int j) = signature_types (dc_ancestors d ! j)"
    and header: "map_of (np_headers p) ?i = Some (dc_header d)" and fresh: "\<not> has_key (np_owners p) ?i"
    using p by (auto simp: parts_match_def has_key_def)
  obtain types' where types': "decode_ancestors ?i (enum_from 0 (map ancestor_cols_of (dc_ancestors d))) [] (np_ancestor_types p)
      = Inr (dc_ancestors d, types')"
    "\<And>q. map_of types' q = (if \<exists>j < length (dc_ancestors d). q = (?i, int j) then None else map_of (np_ancestor_types p) q)"
    using decode_ancestors_stored [of "dc_ancestors d" "np_ancestor_types p" ?i "[]"] types by auto
  define p' where "p' = \<lparr>np_own = drop_key ?i (np_own p), np_ancestor_types = types', np_ancestors = drop_key ?i (np_ancestors p),
     np_headers = drop_key ?i (np_headers p), np_owners = (?i, w) # np_owners p\<rparr>"
  have sig: "decode_signature (signature_types (dc_key d)) (nd_present (declaration_cols_of w d))
      (nd_count (declaration_cols_of w d)) (nd_variadic (declaration_cols_of w d)) = Inr (sk_signature (dc_key d))"
    using decode_signature_stored [of "dc_key d"] by (simp add: declaration_cols_of_def Let_def)
  have names: "(case (nd_name_start (declaration_cols_of w d), nd_name_end (declaration_cols_of w d)) of
        (Some a, Some b) \<Rightarrow> bind_result (decode_range a b) (\<lambda>r. Inr (Some r)) | _ \<Rightarrow> Inr None) = Inr (dc_name_range d)"
    by (cases "dc_name_range d") (simp_all add: declaration_cols_of_def Let_def decode_range_def usize_from_def)
  have "decode_declaration (proof_id sha256_hex s) s ?i (declaration_cols_of w d) p = Inr (d, p')"
    using d fresh unfolding decode_declaration_def own anc sig types'(1) names header
    by (simp add: p'_def native_of_def) (simp add: declaration_cols_of_def Let_def decode_range_def usize_from_def)
  moreover have "parts_match ds p'"
  proof -
    have "fst ` set types' \<subseteq> {q \<in> fst ` set (np_ancestor_types p). \<not> (\<exists>j < length (dc_ancestors d). q = (?i, int j))}"
      using types'(2) by (auto simp flip: map_of_eq_None_iff) (metis (full_types) map_of_eq_None_iff image_eqI fst_conv)+
    moreover have other: "dc_syntax_id e \<noteq> ?i" if "e \<in> set ds" for e using i that by (metis imageI)
    moreover have "or_default types' (dc_syntax_id e, int j) = or_default (np_ancestor_types p) (dc_syntax_id e, int j)"
      if "e \<in> set ds" for e j
      using other [OF that] by (simp add: or_default_def types'(2))
    ultimately show ?thesis
      using p unfolding parts_match_def p'_def by (auto simp: or_default_def) fastforce+
  qed
  ultimately show ?thesis by (auto simp: p'_def)
qed

lemma decode_declarations_stored:
  "\<forall>d \<in> set ds. native_of sha256_hex s d \<Longrightarrow> parts_match ds p \<Longrightarrow> distinct (map dc_syntax_id ds) \<Longrightarrow>
     \<exists>p'. decode_declarations (proof_id sha256_hex s) s (map (\<lambda>d. (dc_syntax_id d, declaration_cols_of (w d) d)) ds) p = Inr (ds, p')
       \<and> parts_match [] p' \<and> (\<forall>d \<in> set ds. map_of (np_owners p') (dc_syntax_id d) = Some (w d))
       \<and> (\<forall>i. i \<notin> dc_syntax_id ` set ds \<longrightarrow> map_of (np_owners p') i = map_of (np_owners p) i)"
proof (induction ds arbitrary: p)
  case (Cons d ds)
  obtain p1 where p1: "decode_declaration (proof_id sha256_hex s) s (dc_syntax_id d) (declaration_cols_of (w d) d) p = Inr (d, p1)"
    "parts_match ds p1" "np_owners p1 = (dc_syntax_id d, w d) # np_owners p"
    using decode_declaration_stored [of sha256_hex s d ds p "w d"] Cons.prems by auto
  then show ?case using Cons.IH [OF _ p1(2)] Cons.prems by fastforce
qed simp


subsection \<open>A version is read back\<close>

text \<open>A field of the declaration with an identifier, if there is one.\<close>

definition stored_field :: "decl_row list \<Rightarrow> (decl_row \<Rightarrow> 'x list) \<Rightarrow> string \<Rightarrow> 'x list" where
  "stored_field ds f i = (case find (\<lambda>d. dc_syntax_id d = i) ds of None \<Rightarrow> [] | Some d \<Rightarrow> f d)"

lemma find_declaration:
  "distinct (map dc_syntax_id ds) \<Longrightarrow> d \<in> set ds \<Longrightarrow> find (\<lambda>e. dc_syntax_id e = dc_syntax_id d) ds = Some d"
  by (induction ds) (auto simp: image_iff)

lemma stored_field_member [simp]:
  "distinct (map dc_syntax_id ds) \<Longrightarrow> d \<in> set ds \<Longrightarrow> stored_field ds f (dc_syntax_id d) = f d"
  by (simp add: stored_field_def find_declaration)

lemma find_holds: "find P xs = Some x \<Longrightarrow> x \<in> set xs \<and> P x"
  by (induction xs) (auto split: if_splits)

lemma stored_field_iff:
  assumes "distinct (map dc_syntax_id ds)"
  shows "(\<exists>d \<in> set ds. i = dc_syntax_id d \<and> (\<exists>j < length (f d). P j (f d ! j)))
     \<longleftrightarrow> (\<exists>j < length (stored_field ds f i). P j (stored_field ds f i ! j))" (is "?l \<longleftrightarrow> ?r")
proof
  assume ?l
  then show ?r using assms by auto
next
  assume r: ?r
  then obtain d where "find (\<lambda>d. dc_syntax_id d = i) ds = Some d" by (cases "find (\<lambda>d. dc_syntax_id d = i) ds") (auto simp: stored_field_def)
  moreover from this have "d \<in> set ds" "dc_syntax_id d = i" by (auto dest: find_holds)
  ultimately show ?l using r by (auto simp: stored_field_def)
qed

lemma stored_field_nonempty: "stored_field ds f i \<noteq> [] \<Longrightarrow> \<exists>d \<in> set ds. dc_syntax_id d = i \<and> stored_field ds f i = f d"
  by (cases "find (\<lambda>d. dc_syntax_id d = i) ds") (auto simp: stored_field_def dest: find_holds)

lemma stored_field_known: "stored_field ds f i \<noteq> [] \<Longrightarrow> i \<in> dc_syntax_id ` set ds"
  using stored_field_nonempty [of ds f i] by auto

lemma places_of_field:
  assumes "distinct (map dc_syntax_id ds)" and keys: "distinct (map place_key rows)"
    and content: "\<And>n x. (v, k, n, x) \<in> set rows \<longleftrightarrow>
      (\<exists>d \<in> set ds. i = dc_syntax_id d \<and> (\<exists>j < length (f d). n = int j \<and> x = f d ! j))"
  shows "map snd (filter (\<lambda>r. fst r = k) (places_of v rows)) = enum_from 0 (stored_field ds f i)"
  using stored_field_iff [OF assms(1), of i f "\<lambda>j y. _ = int j \<and> _ = y"]
  by (intro places_of_key [OF keys]) (simp only: content)

text \<open>The lists the tables of a version stand for.\<close>

definition item_field :: "string \<Rightarrow> decl_row \<Rightarrow> string list" where
  "item_field kind d = (if kind = ''modifier'' then hd_modifiers (dc_header d)
     else if kind = ''typeParameter'' then hd_type_parameters (dc_header d)
     else if kind = ''base'' then hd_bases (dc_header d) else [])"

definition ancestor_field :: "int \<Rightarrow> decl_row \<Rightarrow> string list" where
  "ancestor_field m d = (if 0 \<le> m \<and> nat m < length (dc_ancestors d) then signature_types (dc_ancestors d ! nat m) else [])"

lemma ancestor_field_iff: "(\<exists>j < length (ancestor_field m d). P j (ancestor_field m d ! j))
    \<longleftrightarrow> (\<exists>l < length (dc_ancestors d). m = int l
      \<and> (\<exists>j < length (signature_types (dc_ancestors d ! l)). P j (signature_types (dc_ancestors d ! l) ! j)))"
  by (cases m) (auto simp: ancestor_field_def)

lemma declaration_row_iff:
  "(v, i, n, x) \<in> set (nt_own_types (declaration_rows v w d)) \<longleftrightarrow> i = dc_syntax_id d
     \<and> (\<exists>j < length (signature_types (dc_key d)). n = int j \<and> x = signature_types (dc_key d) ! j)"
  "(v, i, n, c) \<in> set (nt_ancestors (declaration_rows v w d)) \<longleftrightarrow> i = dc_syntax_id d
     \<and> (\<exists>j < length (map ancestor_cols_of (dc_ancestors d)). n = int j \<and> c = map ancestor_cols_of (dc_ancestors d) ! j)"
  "(v, (i, m), n, x) \<in> set (nt_ancestor_types (declaration_rows v w d)) \<longleftrightarrow> i = dc_syntax_id d
     \<and> (\<exists>j < length (ancestor_field m d). n = int j \<and> x = ancestor_field m d ! j)"
  "(v, i, n, p) \<in> set (nt_parameters (declaration_rows v w d)) \<longleftrightarrow> i = dc_syntax_id d
     \<and> (\<exists>j < length (hd_parameters (dc_header d)). n = int j \<and> p = hd_parameters (dc_header d) ! j)"
  by (simp_all add: declaration_rows_def Let_def numbered_0 numbered_from_iff ancestor_type_rows_iff
      ancestor_field_iff [of m d "\<lambda>j y. n = int j \<and> x = y"])

lemma item_row_iff:
  "(v, (i, kind), n, x) \<in> set (nt_items (declaration_rows v w d)) \<longleftrightarrow> i = dc_syntax_id d
     \<and> (\<exists>j < length (item_field kind d). n = int j \<and> x = item_field kind d ! j)"
  by (auto simp: declaration_rows_def Let_def numbered_0 numbered_from_iff item_field_def)

lemma version_lists:
  assumes holds: "version_holds v owner ds t" and ids: "distinct (map dc_syntax_id ds)"
  shows "map snd (filter (\<lambda>r. fst r = i) (places_of v (nt_own_types t))) = enum_from 0 (stored_field ds (\<lambda>d. signature_types (dc_key d)) i)"
    and "map snd (filter (\<lambda>r. fst r = i) (places_of v (nt_ancestors t))) = enum_from 0 (stored_field ds (\<lambda>d. map ancestor_cols_of (dc_ancestors d)) i)"
    and "map snd (filter (\<lambda>r. fst r = (i, m)) (places_of v (nt_ancestor_types t))) = enum_from 0 (stored_field ds (ancestor_field m) i)"
    and "map snd (filter (\<lambda>r. fst r = (i, kind)) (places_of v (nt_items t))) = enum_from 0 (stored_field ds (item_field kind) i)"
    and "map snd (filter (\<lambda>r. fst r = i) (places_of v (nt_parameters t))) = enum_from 0 (stored_field ds (\<lambda>d. hd_parameters (dc_header d)) i)"
proof -
  have dist: "distinct (map place_key (nt_own_types t))" "distinct (map place_key (nt_ancestors t))"
      "distinct (map place_key (nt_ancestor_types t))" "distinct (map place_key (nt_items t))" "distinct (map place_key (nt_parameters t))"
    and stored: "\<And>r. (v, r) \<in> set (nt_own_types t) \<longleftrightarrow> (\<exists>d \<in> set ds. (v, r) \<in> set (nt_own_types (declaration_rows v (owner d) d)))"
      "\<And>r. (v, r) \<in> set (nt_ancestors t) \<longleftrightarrow> (\<exists>d \<in> set ds. (v, r) \<in> set (nt_ancestors (declaration_rows v (owner d) d)))"
      "\<And>r. (v, r) \<in> set (nt_ancestor_types t) \<longleftrightarrow> (\<exists>d \<in> set ds. (v, r) \<in> set (nt_ancestor_types (declaration_rows v (owner d) d)))"
      "\<And>r. (v, r) \<in> set (nt_items t) \<longleftrightarrow> (\<exists>d \<in> set ds. (v, r) \<in> set (nt_items (declaration_rows v (owner d) d)))"
      "\<And>r. (v, r) \<in> set (nt_parameters t) \<longleftrightarrow> (\<exists>d \<in> set ds. (v, r) \<in> set (nt_parameters (declaration_rows v (owner d) d)))"
    using holds by (simp_all only: version_holds_def tables_ok_def)
  note rows = declaration_row_iff item_row_iff
  show "map snd (filter (\<lambda>r. fst r = i) (places_of v (nt_own_types t))) = enum_from 0 (stored_field ds (\<lambda>d. signature_types (dc_key d)) i)"
    by (rule places_of_field [OF ids dist(1)]) (simp only: stored rows)
  show "map snd (filter (\<lambda>r. fst r = i) (places_of v (nt_ancestors t))) = enum_from 0 (stored_field ds (\<lambda>d. map ancestor_cols_of (dc_ancestors d)) i)"
    by (rule places_of_field [OF ids dist(2)]) (simp only: stored rows)
  show "map snd (filter (\<lambda>r. fst r = (i, m)) (places_of v (nt_ancestor_types t))) = enum_from 0 (stored_field ds (ancestor_field m) i)"
    by (rule places_of_field [OF ids dist(3)]) (simp only: stored rows)
  show "map snd (filter (\<lambda>r. fst r = (i, kind)) (places_of v (nt_items t))) = enum_from 0 (stored_field ds (item_field kind) i)"
    by (rule places_of_field [OF ids dist(4)]) (simp only: stored rows)
  show "map snd (filter (\<lambda>r. fst r = i) (places_of v (nt_parameters t))) = enum_from 0 (stored_field ds (\<lambda>d. hd_parameters (dc_header d)) i)"
    by (rule places_of_field [OF ids dist(5)]) (simp only: stored rows)
qed

lemma rows_of_facts:
  assumes "distinct (map row_key rows)"
  shows "distinct (map fst (rows_of v rows))" and "set (rows_of v rows) = {r. (v, r) \<in> set rows}"
    and "sorted (map fst (rows_of v rows))"
proof -
  have "distinct (map row_key (filter (\<lambda>r. fst r = v) rows))" using assms by (simp add: distinct_map_filter)
  moreover have "map row_key (filter (\<lambda>r. fst r = v) rows) = map (\<lambda>k. (v, k)) (map fst (map snd (filter (\<lambda>r. fst r = v) rows)))"
    by (auto simp: row_key_def split: prod.splits)
  ultimately have "distinct (map fst (map snd (filter (\<lambda>r. fst r = v) rows)))" by (simp only: distinct_map)
  moreover have "mset (map fst (rows_of v rows)) = mset (map fst (map snd (filter (\<lambda>r. fst r = v) rows)))"
    by (simp add: rows_of_def flip: multiset.map_comp)
  ultimately show "distinct (map fst (rows_of v rows))" by (metis mset_eq_imp_distinct_iff)
  show "set (rows_of v rows) = {r. (v, r) \<in> set rows}" by (force simp: rows_of_def)
  show "sorted (map fst (rows_of v rows))" by (simp add: rows_of_def)
qed

lemma enum_from_twice: "map (\<lambda>(n, c). (n, n, c)) (enum_from k xs) = enum_from k (enum_from k xs)"
  by (induction xs arbitrary: k) simp_all

lemma native_keys_spec:
  "distinct (map (\<lambda>d. (dc_ancestors d, dc_key d)) ds) \<Longrightarrow> \<forall>d \<in> set ds. \<not> has_key m (dc_ancestors d, dc_key d) \<Longrightarrow>
     \<exists>m'. native_keys ds m = Inr m' \<and> (\<forall>d \<in> set ds. map_of m' (dc_ancestors d, dc_key d) = Some (dc_syntax_id d))
       \<and> (\<forall>q. q \<notin> (\<lambda>d. (dc_ancestors d, dc_key d)) ` set ds \<longrightarrow> map_of m' q = map_of m q)"
proof (induction ds arbitrary: m)
  case (Cons d ds)
  let ?key = "\<lambda>d :: decl_row. (dc_ancestors d, dc_key d)" and ?m = "((dc_ancestors d, dc_key d), dc_syntax_id d) # m"
  have "\<forall>e \<in> set ds. \<not> has_key ?m (?key e)" using Cons.prems by (auto simp: has_key_def image_iff)
  moreover have "distinct (map ?key ds)" using Cons.prems(1) by simp
  ultimately obtain m' where m': "native_keys ds ?m = Inr m'" "\<forall>e \<in> set ds. map_of m' (?key e) = Some (dc_syntax_id e)"
    "\<forall>q. q \<notin> ?key ` set ds \<longrightarrow> map_of m' q = map_of ?m q" using Cons.IH [of ?m] by blast
  have "?key d \<notin> ?key ` set ds" using Cons.prems(1) by simp
  then have own: "map_of m' (?key d) = Some (dc_syntax_id d)" using m'(3) by simp
  show ?case
  proof (intro exI conjI)
    show "native_keys (d # ds) m = Inr m'" using m'(1) Cons.prems(2) by simp
    show "\<forall>e \<in> set (d # ds). map_of m' (?key e) = Some (dc_syntax_id e)" using m'(2) own by simp
    show "\<forall>q. q \<notin> ?key ` set (d # ds) \<longrightarrow> map_of m' q = map_of m q" using m'(3) by simp
  qed
qed simp

lemma whole_header: "(with_items (\<lambda>kind. item_field kind d) (bare_header (header_cols_of (dc_header d))))\<lparr>hd_parameters :=
     hd_parameters (with_items (\<lambda>kind. item_field kind d) (bare_header (header_cols_of (dc_header d)))) @ hd_parameters (dc_header d)\<rparr>
   = dc_header d"
  by (cases "dc_header d") (simp add: with_items_def bare_header_def header_cols_of_def item_field_def)

text \<open>The headers of a version are complete once items and parameters are in.\<close>

lemma headers_stored:
  assumes holds: "version_holds v owner ds t" and ids: "distinct (map dc_syntax_id ds)"
  shows "\<exists>h1 h2 h3. gather_headers (rows_of v (nt_headers t)) [] = Inr h1 \<and> gather_items (places_of v (nt_items t)) (\<lambda>_. 0) h1 = Inr h2
     \<and> gather_parameters (places_of v (nt_parameters t)) (\<lambda>_. 0) h2 = Inr h3
     \<and> (\<forall>d \<in> set ds. map_of h3 (dc_syntax_id d) = Some (dc_header d)) \<and> fst ` set h3 = dc_syntax_id ` set ds"
proof -
  let ?rows = "rows_of v (nt_headers t)"
  have keys: "distinct (map row_key (nt_headers t))"
    and stored: "\<And>r. (v, r) \<in> set (nt_headers t) \<longleftrightarrow> (\<exists>d \<in> set ds. (v, r) \<in> set (nt_headers (declaration_rows v (owner d) d)))"
    using holds by (simp_all only: version_holds_def tables_ok_def)
  have "(v, r) \<in> set (nt_headers t) \<longleftrightarrow> (\<exists>d \<in> set ds. r = (dc_syntax_id d, header_cols_of (dc_header d)))" for r
    unfolding stored by (simp add: declaration_rows_def Let_def)
  then have rows: "set ?rows = (\<lambda>d. (dc_syntax_id d, header_cols_of (dc_header d))) ` set ds"
    using rows_of_facts(2) [OF keys, of v] by auto
  obtain h1 where h1: "gather_headers ?rows [] = Inr h1" "fst ` set h1 = fst ` set ?rows"
    "\<forall>i. map_of h1 i = map_option bare_header (map_of ?rows i)"
    using gather_headers_spec [OF rows_of_facts(1) [OF keys, of v], of "[]"] by (auto simp: map_option_case cong: option.case_cong)
  have bare: "map_of h1 (dc_syntax_id d) = Some (bare_header (header_cols_of (dc_header d)))" if "d \<in> set ds" for d
  proof -
    have "(dc_syntax_id d, header_cols_of (dc_header d)) \<in> set ?rows" using rows that by blast
    then have "map_of ?rows (dc_syntax_id d) = Some (header_cols_of (dc_header d))"
      using rows_of_facts(1) [OF keys, of v] by simp
    then show ?thesis using h1(3) by simp
  qed
  have ids1: "fst ` set h1 = dc_syntax_id ` set ds" unfolding h1(2) rows by force
  let ?ext = "\<lambda>(i, kind). stored_field ds (item_field kind) i"
  have known: "i \<in> dc_syntax_id ` set ds \<Longrightarrow> map_of h1 i \<noteq> None" for i
    using ids1 by (metis map_of_eq_None_iff)
  have items: "map snd (filter (\<lambda>r. fst r = k) (places_of v (nt_items t))) = enum_from 0 (?ext k)" for k
    using version_lists(4) [OF holds ids, of "fst k" "snd k"] by (simp add: split_def)
  have kinds: "map_of h1 i \<noteq> None \<and> kind \<in> {''modifier'', ''typeParameter'', ''base''}" if some: "?ext (i, kind) \<noteq> []" for i kind
  proof -
    have "stored_field ds (item_field kind) i \<noteq> []" using some by simp
    from stored_field_nonempty [OF this] this known [OF stored_field_known [OF this]] show ?thesis
      by (auto simp: item_field_def split: if_splits)
  qed
  obtain h2 where h2: "gather_items (places_of v (nt_items t)) (\<lambda>_. 0) h1 = Inr h2"
    "\<forall>i. map_of h2 i = map_option (with_items (\<lambda>kind. ?ext (i, kind))) (map_of h1 i)" "fst ` set h2 = fst ` set h1"
    using gather_items_spec [where counts = "\<lambda>_. 0", OF items kinds] by blast
  let ?params = "stored_field ds (\<lambda>d. hd_parameters (dc_header d))"
  have params: "map_of h2 i \<noteq> None" if "?params i \<noteq> []" for i
    using known [OF stored_field_known [OF that]] h2(2) by simp
  obtain h3 where h3: "gather_parameters (places_of v (nt_parameters t)) (\<lambda>_. 0) h2 = Inr h3"
    "\<forall>i. map_of h3 i = map_option (\<lambda>h. h\<lparr>hd_parameters := hd_parameters h @ ?params i\<rparr>) (map_of h2 i)" "fst ` set h3 = fst ` set h2"
    using gather_parameters_spec [where counts = "\<lambda>_. 0", OF version_lists(5) [OF holds ids] params] by blast
  have "map_of h3 (dc_syntax_id d) = Some (dc_header d)" if "d \<in> set ds" for d
  proof -
    have "map_of h2 (dc_syntax_id d) = Some (with_items (\<lambda>kind. item_field kind d) (bare_header (header_cols_of (dc_header d))))"
      using h2(2) bare [OF that] by (simp add: stored_field_member [OF ids that])
    moreover have "map_of h3 (dc_syntax_id d) = map_option (\<lambda>h. h\<lparr>hd_parameters := hd_parameters h @ hd_parameters (dc_header d)\<rparr>)
        (map_of h2 (dc_syntax_id d))"
      unfolding h3(2) [rule_format] stored_field_member [OF ids that] by (rule refl)
    ultimately show ?thesis by (simp only: option.map whole_header)
  qed
  moreover have "fst ` set h3 = dc_syntax_id ` set ds" using h2(3) h3(3) ids1 by simp
  ultimately show ?thesis using h1(1) h2(1) h3(1) by (intro exI [of _ h1] exI [of _ h2] exI [of _ h3]) simp
qed

lemma gathered_stored:
  assumes holds: "version_holds v owner ds t" and ids: "distinct (map dc_syntax_id ds)"
  shows "\<exists>own types anc. gather_lists (places_of v (nt_own_types t)) [] = Inr own
     \<and> gather_lists (places_of v (nt_ancestor_types t)) [] = Inr types
     \<and> gather_lists (map (\<lambda>(i, n, c). (i, n, n, c)) (places_of v (nt_ancestors t))) [] = Inr anc
     \<and> (\<forall>h. (\<forall>d \<in> set ds. map_of h (dc_syntax_id d) = Some (dc_header d)) \<longrightarrow> fst ` set h \<subseteq> dc_syntax_id ` set ds \<longrightarrow>
          parts_match ds \<lparr>np_own = own, np_ancestor_types = types, np_ancestors = anc, np_headers = h, np_owners = []\<rparr>)"
proof -
  have none: "or_default [] k = ([] :: 'z list)" for k :: 'y by (simp add: or_default_def)
  obtain own where own: "gather_lists (places_of v (nt_own_types t)) [] = Inr own"
    "\<forall>i. or_default own i = stored_field ds (\<lambda>d. signature_types (dc_key d)) i"
    "fst ` set own = {i. stored_field ds (\<lambda>d. signature_types (dc_key d)) i \<noteq> []}"
    using gather_lists_spec [of "places_of v (nt_own_types t)" "[]" "stored_field ds (\<lambda>d. signature_types (dc_key d))"]
      version_lists(1) [OF holds ids] by (auto simp: none)
  obtain types where types: "gather_lists (places_of v (nt_ancestor_types t)) [] = Inr types"
    "\<forall>i m. or_default types (i, m) = stored_field ds (ancestor_field m) i"
    "fst ` set types = {k. stored_field ds (ancestor_field (snd k)) (fst k) \<noteq> []}"
    using gather_lists_spec [of "places_of v (nt_ancestor_types t)" "[]" "\<lambda>(i, m). stored_field ds (ancestor_field m) i"]
      version_lists(3) [OF holds ids] by (auto simp: none split_def)
  let ?rows = "map (\<lambda>(i, n, c). (i, n, n, c)) (places_of v (nt_ancestors t))"
  let ?anc = "\<lambda>i. enum_from 0 (stored_field ds (\<lambda>d. map ancestor_cols_of (dc_ancestors d)) i)"
  have "map snd (filter (\<lambda>r. fst r = i) ?rows) = map (\<lambda>(n, c). (n, n, c)) (map snd (filter (\<lambda>r. fst r = i) (places_of v (nt_ancestors t))))" for i
    by (simp add: filter_map comp_def split_def)
  then have "map snd (filter (\<lambda>r. fst r = i) ?rows) = enum_from 0 (?anc i)" for i
    by (simp only: version_lists(2) [OF holds ids] enum_from_twice)
  then obtain anc where anc: "gather_lists ?rows [] = Inr anc" "\<forall>i. or_default anc i = ?anc i" "fst ` set anc = {i. ?anc i \<noteq> []}"
    using gather_lists_spec [of ?rows "[]" ?anc] by (auto simp: none)
  have "\<exists>d \<in> set ds. \<exists>j < length (dc_ancestors d). (i, m) = (dc_syntax_id d, int j)"
    if some: "stored_field ds (ancestor_field m) i \<noteq> []" for i m
  proof -
    obtain d where "d \<in> set ds" "dc_syntax_id d = i" "ancestor_field m d \<noteq> []" using stored_field_nonempty [OF some] some by auto
    then show ?thesis by (intro bexI [of _ d] exI [of _ "nat m"]) (auto simp: ancestor_field_def split: if_splits)
  qed
  moreover have "ancestor_field (int j) d = signature_types (dc_ancestors d ! j)" if "j < length (dc_ancestors d)" for j d
    using that by (simp add: ancestor_field_def)
  moreover have "?anc i \<noteq> [] \<Longrightarrow> i \<in> dc_syntax_id ` set ds" for i
    using stored_field_known [of ds "\<lambda>d. map ancestor_cols_of (dc_ancestors d)" i] by auto
  ultimately show ?thesis
    using own types anc ids stored_field_known [of ds "\<lambda>d. signature_types (dc_key d)"] by (intro exI [of _ own] exI [of _ types] exI [of _ anc]) (auto simp: parts_match_def)
qed

text \<open>The owner each row records is the declaration of the last ancestor.\<close>

definition owned :: "decl_row list \<Rightarrow> (decl_row \<Rightarrow> string option) \<Rightarrow> bool" where
  "owned ds owner \<longleftrightarrow> (\<forall>d \<in> set ds. if dc_ancestors d = [] then owner d = None
     else \<exists>e \<in> set ds. dc_ancestors e = butlast (dc_ancestors d) \<and> dc_key e = last (dc_ancestors d) \<and> owner d = Some (dc_syntax_id e))"

lemma read_stored:
  assumes holds: "version_holds (ns_version s) owner ds t" and ids: "distinct (map dc_syntax_id ds)"
    and native: "\<forall>d \<in> set ds. native_of sha256_hex s d"
    and owned: "owned ds owner" and keys: "distinct (map (\<lambda>d. (dc_ancestors d, dc_key d)) ds)"
  shows "read_native_declarations sha256_hex s lookup_key every t
     = Inr (filter (\<lambda>d. every \<or> dc_lookup_key d = lookup_key) (sort_key dc_syntax_id ds))"
proof -
  let ?v = "ns_version s" and ?ds = "sort_key dc_syntax_id ds" and ?key = "\<lambda>d :: decl_row. (dc_ancestors d, dc_key d)"
  let ?rows = "map (\<lambda>d. (dc_syntax_id d, declaration_cols_of (owner d) d)) ?ds"
  obtain h1 h2 h3 where headers: "gather_headers (rows_of ?v (nt_headers t)) [] = Inr h1" "gather_items (places_of ?v (nt_items t)) (\<lambda>_. 0) h1 = Inr h2"
    "gather_parameters (places_of ?v (nt_parameters t)) (\<lambda>_. 0) h2 = Inr h3"
    "\<forall>d \<in> set ds. map_of h3 (dc_syntax_id d) = Some (dc_header d)" "fst ` set h3 = dc_syntax_id ` set ds"
    using headers_stored [OF holds ids] by blast
  obtain own types anc where lists: "gather_lists (places_of ?v (nt_own_types t)) [] = Inr own"
    "gather_lists (places_of ?v (nt_ancestor_types t)) [] = Inr types"
    "gather_lists (map (\<lambda>(i, n, c). (i, n, n, c)) (places_of ?v (nt_ancestors t))) [] = Inr anc"
    and match: "\<forall>h. (\<forall>d \<in> set ds. map_of h (dc_syntax_id d) = Some (dc_header d)) \<longrightarrow> fst ` set h \<subseteq> dc_syntax_id ` set ds \<longrightarrow>
      parts_match ds \<lparr>np_own = own, np_ancestor_types = types, np_ancestors = anc, np_headers = h, np_owners = []\<rparr>"
    using gathered_stored [OF holds ids] by blast
  let ?p = "\<lparr>np_own = own, np_ancestor_types = types, np_ancestors = anc, np_headers = h3, np_owners = []\<rparr>"
  have parts: "parts_match ds ?p" using match headers(4,5) by simp
  have dkeys: "distinct (map row_key (nt_declarations t))"
    and dstored: "\<And>r. (?v, r) \<in> set (nt_declarations t) \<longleftrightarrow> (\<exists>d \<in> set ds. (?v, r) \<in> set (nt_declarations (declaration_rows ?v (owner d) d)))"
    using holds by (simp_all only: version_holds_def tables_ok_def)
  have "set (rows_of ?v (nt_declarations t)) = set ?rows"
    unfolding rows_of_facts(2) [OF dkeys] dstored by (auto simp: declaration_rows_def Let_def)
  moreover have "map fst ?rows = map dc_syntax_id ?ds" by simp
  then have "sorted (map fst ?rows)" "distinct (map fst ?rows)"
    using ids by (simp_all only: sorted_sort_key distinct_map distinct_sort set_sort)
  ultimately have rows: "rows_of ?v (nt_declarations t) = ?rows"
    using rows_of_facts(1,3) [OF dkeys, of ?v]
    by (intro map_sorted_distinct_set_unique [where f = fst]) (auto intro!: eq_key_imp_eq_value simp: inj_on_def)
  have "distinct (map dc_syntax_id ?ds)" using ids by (simp add: distinct_map)
  moreover have "parts_match ?ds ?p" using parts by (simp add: parts_match_def)
  ultimately obtain p where p: "decode_declarations (proof_id sha256_hex s) s ?rows ?p = Inr (?ds, p)" "parts_match [] p"
    "\<forall>d \<in> set ds. map_of (np_owners p) (dc_syntax_id d) = Some (owner d)"
    using decode_declarations_stored [of ?ds sha256_hex s ?p owner] native by auto
  have "distinct (map ?key ?ds)" using keys by (simp add: distinct_map)
  then obtain by_key where by_key: "native_keys ?ds [] = Inr by_key" "\<forall>d \<in> set ds. map_of by_key (?key d) = Some (dc_syntax_id d)"
    using native_keys_spec [of ?ds "[]"] by (auto simp: has_key_def)
  have "check_owner by_key (np_owners p) d = Inr ()" if "d \<in> set ds" for d
    using owned that by_key(2) p(3) by (force simp: owned_def check_owner_def split: if_splits)
  then show ?thesis
    using headers(1-3) lists(1-3) p(1,2) by_key(1)
    by (simp add: read_native_declarations_def rows parts_match_def Let_def)
qed

section \<open>Round trip\<close>

lemma native_owners_spec:
  "native_owners ds m = Inr m' \<Longrightarrow> distinct (map owner_key_of ds) \<and> (\<forall>d \<in> set ds. \<not> has_key m (owner_key_of d))
     \<and> (\<forall>q i. map_of m' q = Some i \<longrightarrow> map_of m q = Some i \<or> (\<exists>d \<in> set ds. q = owner_key_of d \<and> i = dc_syntax_id d))"
proof (induction ds arbitrary: m)
  case (Cons d ds)
  have fresh: "\<not> has_key m (owner_key_of d)" using Cons.prems by simp
  have run: "native_owners ds ((owner_key_of d, dc_syntax_id d) # m) = Inr m'" using Cons.prems by simp
  from Cons.IH [OF run] have rest: "distinct (map owner_key_of ds)"
    "\<forall>e \<in> set ds. owner_key_of e \<noteq> owner_key_of d \<and> \<not> has_key m (owner_key_of e)"
    by (simp_all add: has_key_def)
  have "distinct (map owner_key_of (d # ds))" using rest(1,2) by force
  moreover have "map_of m q = Some i \<or> (\<exists>e \<in> set (d # ds). q = owner_key_of e \<and> i = dc_syntax_id e)" if "map_of m' q = Some i" for q i
  proof -
    have "map_of ((owner_key_of d, dc_syntax_id d) # m) q = Some i \<or> (\<exists>e \<in> set ds. q = owner_key_of e \<and> i = dc_syntax_id e)"
      using Cons.IH [OF run] that by blast
    then show ?thesis by (cases "q = owner_key_of d") auto
  qed
  ultimately show ?case using rest(2) fresh by simp
qed simp

lemma owners_owned:
  assumes owners: "native_owners ds [] = Inr owners"
    and known: "\<forall>d \<in> set ds. dk_path (dc_document d) = path \<longrightarrow> (\<exists>w. native_owner owners d = Inr w)"
  shows "owned (filter (\<lambda>d. dk_path (dc_document d) = path) ds) (owner_of owners)" (is "owned ?own _")
  unfolding owned_def
proof
  fix d assume d: "d \<in> set ?own"
  show "if dc_ancestors d = [] then owner_of owners d = None
      else \<exists>e \<in> set ?own. dc_ancestors e = butlast (dc_ancestors d) \<and> dc_key e = last (dc_ancestors d)
        \<and> owner_of owners d = Some (dc_syntax_id e)"
  proof (cases "dc_ancestors d = []")
    case True
    then show ?thesis by (simp add: owner_of_def native_owner_def)
  next
    case False
    obtain w where w: "native_owner owners d = Inr w" using known d by auto
    then obtain i where i: "map_of owners (path, butlast (dc_ancestors d), last (dc_ancestors d)) = Some i" "w = Some i"
      using False d by (auto simp: native_owner_def)
    then obtain e where "e \<in> set ds" "owner_key_of e = (path, butlast (dc_ancestors d), last (dc_ancestors d))" "i = dc_syntax_id e"
      using native_owners_spec [OF owners] by (metis map_of.simps(1) option.distinct(1))
    then show ?thesis using False w i(2) by (auto simp: owner_of_def owner_key_of_def intro!: bexI [of _ e])
  qed
qed

text \<open>C34: What a publication writes for a document version is what readers get: the declarations of its path, in the order
  of their identifiers, every list of types, ancestors, modifiers and parameters as it was, whatever the other
  documents of the publication and the other versions in the index are.
\<close>

theorem declarations_read_back:
  assumes run: "write_native_declarations cancel version_of reused ds t = Inr t'"
    and before: "tables_ok t" "version_empty (ns_version s) t"
    and path: "version_of path = Some (ns_version s)" "\<not> reused path" "\<forall>p. version_of p = Some (ns_version s) \<longrightarrow> p = path"
    and native: "\<forall>d \<in> set ds. dk_path (dc_document d) = path \<longrightarrow> native_of sha256_hex s d"
    and ids: "distinct (map dc_syntax_id (filter (\<lambda>d. dk_path (dc_document d) = path) ds))"
  shows "read_native_declarations sha256_hex s lookup_key every t'
     = Inr (filter (\<lambda>d. every \<or> dc_lookup_key d = lookup_key)
         (sort_key dc_syntax_id (filter (\<lambda>d. dk_path (dc_document d) = path) ds)))"
proof -
  obtain owners where owners: "native_owners ds [] = Inr owners"
    and writes: "write_declarations cancel 0 version_of reused owners ds t = Inr t'"
    using run by (auto simp: write_native_declarations_def)
  let ?own = "filter (\<lambda>d. dk_path (dc_document d) = path) ds"
  have "owned ?own (owner_of owners)"
    using write_declarations_add [OF writes] path(2) by (intro owners_owned [OF owners]) auto
  moreover have "distinct (map owner_key_of ?own)"
    using native_owners_spec [OF owners] distinct_map_filter by blast
  then have "distinct (map (\<lambda>d. (dc_ancestors d, dc_key d)) ?own)"
    by (auto simp: distinct_map inj_on_def owner_key_of_def)
  ultimately show ?thesis
    using read_stored [OF written_holds [OF writes before path] ids] native by simp
qed


definition sample_scope :: native_scope where
  "sample_scope = \<lparr>ns_version = ''v1'', ns_key = dc_document sample_declaration, ns_revision = ''r1'', ns_producer = ''p''\<rparr>"

definition sample_type_key :: stable_key where
  "sample_type_key = \<lparr>sk_kind = ''impl'', sk_name = Some ''A'', sk_signature = None, sk_ordinal = 0\<rparr>"

definition sample_type :: decl_row where
  "sample_type = sample_declaration\<lparr>dc_syntax_id := ''t'', dc_kind := ''impl'', dc_name := Some ''A'', dc_key := sample_type_key,
     dc_provenance_id := proof_id sample_sha sample_scope\<rparr>"

definition sample_method :: decl_row where
  "sample_method = sample_declaration\<lparr>dc_syntax_id := ''m'', dc_ancestors := [sample_type_key],
     dc_key := \<lparr>sk_kind = ''function'', sk_name = Some ''f'',
       sk_signature = Some \<lparr>sg_parameter_types = [''u8'', ''u16''], sg_type_parameter_count = 0, sg_variadic = False\<rparr>, sk_ordinal = 0\<rparr>,
     dc_header := (dc_header sample_declaration)\<lparr>hd_modifiers := [''pub'', ''async''],
       hd_parameters := [\<lparr>pm_name = Some ''x'', pm_type_name = Some ''u8'', pm_variadic = False\<rparr>]\<rparr>,
     dc_provenance_id := proof_id sample_sha sample_scope\<rparr>"

definition no_tables :: native_tables where
  "no_tables = \<lparr>nt_declarations = [], nt_own_types = [], nt_ancestors = [], nt_ancestor_types = [], nt_headers = [], nt_items = [], nt_parameters = []\<rparr>"

definition sample_versions :: "string \<Rightarrow> string option" where
  "sample_versions p = (if p = ''src/a.rs'' then Some ''v1'' else None)"

lemma sample_written: "is_ok (write_native_declarations (\<lambda>_. False) sample_versions (\<lambda>_. False) [sample_type, sample_method] no_tables)"
  by code_simp

lemma sample_fields:
  "dc_syntax_id sample_type = ''t''" "dc_syntax_id sample_method = ''m''"
  "dk_path (dc_document sample_type) = ''src/a.rs''" "dk_path (dc_document sample_method) = ''src/a.rs''"
  "ns_version sample_scope = ''v1''"
  by (simp_all add: sample_type_def sample_method_def sample_declaration_def sample_scope_def)

lemma sample_native: "native_of sample_sha sample_scope sample_type" "native_of sample_sha sample_scope sample_method"
  by (simp_all add: native_of_def sample_type_def sample_method_def sample_type_key_def sample_scope_def sample_declaration_def)

theorem declarations_read_back_witness:
  "\<exists>t. write_native_declarations (\<lambda>_. False) sample_versions (\<lambda>_. False) [sample_type, sample_method] no_tables = Inr t
     \<and> read_native_declarations sample_sha sample_scope None True t = Inr [sample_method, sample_type]"
proof -
  obtain t where run: "write_native_declarations (\<lambda>_. False) sample_versions (\<lambda>_. False) [sample_type, sample_method] no_tables = Inr t"
    using sample_written by (auto simp: is_ok_iff)
  let ?own = "filter (\<lambda>d. dk_path (dc_document d) = ''src/a.rs'') [sample_type, sample_method]"
  have own: "?own = [sample_type, sample_method]" by (simp add: sample_fields)
  have before: "tables_ok no_tables" "version_empty (ns_version sample_scope) no_tables"
    by (simp_all add: tables_ok_def version_empty_def no_tables_def)
  have path: "sample_versions ''src/a.rs'' = Some (ns_version sample_scope)" "\<not> (\<lambda>_. False) ''src/a.rs''"
    "\<forall>p. sample_versions p = Some (ns_version sample_scope) \<longrightarrow> p = ''src/a.rs''"
    by (simp_all add: sample_versions_def sample_fields)
  have native: "\<forall>d \<in> set [sample_type, sample_method]. dk_path (dc_document d) = ''src/a.rs'' \<longrightarrow> native_of sample_sha sample_scope d"
    using sample_native by simp
  have "distinct (map dc_syntax_id ?own)" unfolding own by (simp add: sample_fields)
  from declarations_read_back [OF run before path native this, of None True]
  have "read_native_declarations sample_sha sample_scope None True t = Inr (sort_key dc_syntax_id [sample_type, sample_method])"
    unfolding own by simp
  moreover have "sort_key dc_syntax_id [sample_type, sample_method] = [sample_method, sample_type]"
    by (simp add: sample_fields)
  ultimately show ?thesis using run by simp
qed

end
