(* ===== verification/States.thy ===== *)
theory States
  imports Records Reads Declarations
begin

section \<open>Saved views at a revision (\<open>store.rs\<close>)\<close>

text \<open>
  A saved view is a durable record; what readers get is its state at a revision of the index: whether its anchor
  still attaches and which of its symbols are gone. This joins the records with the reads of a revision, the
  tables of native declarations and the audit of anchors. \<open>to_raw_value\<close> of an anchor and the attestation of a
  document are parameters; the lists \<open>nx_documents\<close>, \<open>nx_revisions\<close> and \<open>nx_versions\<close> are the rows of
  \<open>revision_documents\<close>, \<open>native_revisions\<close> and \<open>document_versions\<close>.
\<close>

record document_row =
  dr_revision :: string
  dr_source_set :: string
  dr_language :: string
  dr_path :: string
  dr_version :: string

record document_version =
  dx_id :: string
  dx_source_set :: string
  dx_language :: string
  dx_path :: string
  dx_producer :: string

record native_index =
  nx_index :: index_db
  nx_documents :: "document_row list"
  nx_revisions :: "(string \<times> string) list"
  nx_versions :: "document_version list"
  nx_tables :: native_tables

record 'j state_env =
  se_read :: read_env
  se_records :: "'j record_env"
  se_sha :: "string \<Rightarrow> string"
  se_anchor_text :: "durable_anchor \<Rightarrow> string result"

subsection \<open>Declarations of a revision\<close>

definition documents_at :: "native_index \<Rightarrow> string \<Rightarrow> document_key \<Rightarrow> document_row list" where
  "documents_at x rvn k = filter (\<lambda>m. dr_revision m = rvn \<and> dr_source_set m = dk_source_set_id k
     \<and> dr_language m = dk_language k \<and> dr_path m = dk_path k) (nx_documents x)"

definition native_scope_for :: "native_index \<Rightarrow> document_key \<Rightarrow> string \<Rightarrow> native_scope option result" where
  "native_scope_for x k rvn =
     (let rows = concat (map (\<lambda>(i, native). concat (map (\<lambda>m. map (\<lambda>d.
            \<lparr>ns_version = dr_version m, ns_key = k, ns_revision = native, ns_producer = dx_producer d\<rparr>)
          (filter (\<lambda>d. dx_id d = dr_version m \<and> dx_source_set d = dr_source_set m \<and> dx_language d = dr_language m
             \<and> dx_path d = dr_path m) (nx_versions x))) (documents_at x rvn k)))
        (filter (\<lambda>r. fst r = rvn) (nx_revisions x))) in
     ensure (length (take 2 rows) \<le> 1) ''incompatible_index: duplicate selected document manifest''
       (Inr (case rows of [] \<Rightarrow> None | s # _ \<Rightarrow> Some s)))"

definition has_declaration :: "native_index \<Rightarrow> string option \<Rightarrow> bool \<Rightarrow> document_row \<Rightarrow> bool" where
  "has_declaration x lookup_key every m =
     list_ex (\<lambda>(v, _, c). v = dr_version m \<and> (every \<or> nd_lookup_key c = lookup_key)) (nt_declarations (nx_tables x))"

definition key_of_document :: "document_row \<Rightarrow> document_key" where
  "key_of_document m = \<lparr>dk_source_set_id = dr_source_set m, dk_language = dr_language m, dk_path = dr_path m\<rparr>"

fun read_scopes :: "(string \<Rightarrow> string) \<Rightarrow> native_index \<Rightarrow> string option \<Rightarrow> bool \<Rightarrow> string \<Rightarrow> document_key list \<Rightarrow> decl_row list result" where
  "read_scopes sha256_hex x lookup_key every rvn [] = Inr []"
| "read_scopes sha256_hex x lookup_key every rvn (k # ks) =
     bind_result (native_scope_for x k rvn) (\<lambda>found.
     bind_result (ok_or found ''incompatible_index: lookup manifest missing'') (\<lambda>s.
     bind_result (read_native_declarations sha256_hex s lookup_key every (nx_tables x)) (\<lambda>ds.
     bind_result (read_scopes sha256_hex x lookup_key every rvn ks) (\<lambda>rest. Inr (ds @ rest)))))"

text \<open>\<open>SELECT DISTINCT\<close> of the documents, \<open>ORDER BY path LIMIT 5001\<close>, then the declarations of each.\<close>

definition read_native_declarations_for :: "(string \<Rightarrow> string) \<Rightarrow> native_index \<Rightarrow> string \<Rightarrow> string option \<Rightarrow> string option
    \<Rightarrow> bool \<Rightarrow> string \<Rightarrow> decl_row list result" where
  "read_native_declarations_for sha256_hex x language lookup_key selected_path every rvn =
     (let keys = take 5001 (sort_key dk_path (remdups (map key_of_document
         (filter (\<lambda>m. dr_revision m = rvn \<and> dr_language m = language \<and> has_declaration x lookup_key every m
            \<and> (selected_path = None \<or> selected_path = Some (dr_path m))) (nx_documents x))))) in
     ensure (length keys \<le> 5000) ''incompatible_index: selected native lookup document budget exceeded'' (
     bind_result (read_scopes sha256_hex x lookup_key every rvn keys) (\<lambda>ds. Inr (sort_key dc_syntax_id ds))))"

subsection \<open>Capturing and auditing an anchor\<close>

definition selected_anchor_in :: "'j state_env \<Rightarrow> native_index \<Rightarrow> string \<Rightarrow> durable_anchor result" where
  "selected_anchor_in env x target =
     bind_result (read_revision_for (se_read env) (nx_index x) None) (\<lambda>rv.
     let places = concat (map (\<lambda>(v, i, _). map (\<lambda>m. (dr_language m, dr_path m))
           (filter (\<lambda>m. i = target \<and> dr_revision m = rv_key rv \<and> dr_version m = v) (nx_documents x)))
         (nt_declarations (nx_tables x))) in
     bind_result (ok_or (case places of [] \<Rightarrow> None | p # _ \<Rightarrow> Some p) ''native declaration target missing'') (\<lambda>(language, path).
     bind_result (re_attest (se_read env) (rv_key rv) path) (\<lambda>_.
     bind_result (read_native_declarations_for (se_sha env) x language None (Some path) True (rv_key rv)) (\<lambda>ds.
     bind_result (find_selected target ds) (\<lambda>focused. capture_anchor (se_sha env) focused ds)))))"

definition declarations_for_anchor :: "'j state_env \<Rightarrow> native_index \<Rightarrow> durable_anchor \<Rightarrow> read_revision
    \<Rightarrow> (string \<times> decl_row list) option result" where
  "declarations_for_anchor env x a rv = (let k = da_document a in
     case concat (map (\<lambda>m. map snd (filter (\<lambda>r. fst r = rv_key rv) (nx_revisions x))) (documents_at x (rv_key rv) k)) of
       [] \<Rightarrow> Inr None
     | native # _ \<Rightarrow>
         bind_result (re_attest (se_read env) (rv_key rv) (dk_path k)) (\<lambda>_.
         bind_result (read_native_declarations_for (se_sha env) x (dk_language k) None (Some (dk_path k)) True (rv_key rv)) (\<lambda>ds.
         ensure (document_matches k ds) ''invalid anchor document association'' (Inr (Some (native, ds))))))"

definition anchor_attachment_at :: "'j state_env \<Rightarrow> native_index \<Rightarrow> string option \<Rightarrow> read_revision \<Rightarrow> anchor_attachment result" where
  "anchor_attachment_at env x raw rv = (case raw of
     None \<Rightarrow> Inr \<lparr>at_availability = AttachAnchorless, at_result = None\<rparr>
   | Some text \<Rightarrow>
       bind_result (rc_anchor (se_records env) text) (\<lambda>a.
       bind_result (validate_anchor a) (\<lambda>_.
       bind_result (declarations_for_anchor env x a rv) (\<lambda>found.
       bind_result (case found of None \<Rightarrow> Inr (orphaned Missing)
         | Some (native, ds) \<Rightarrow> audit_anchor (se_sha env) a native (find (\<lambda>d. dc_syntax_id d = da_syntax_id a) ds) ds None) (\<lambda>res.
       Inr \<lparr>at_availability = AttachReady, at_result = Some res\<rparr>)))))"

definition is_attached :: "anchor_attachment \<Rightarrow> bool" where
  "is_attached att = (case at_result att of None \<Rightarrow> False | Some res \<Rightarrow> ar_status res = Attached)"

subsection \<open>The state of a view\<close>

definition view_symbols :: "saved_view \<Rightarrow> string set" where
  "view_symbols v = insert (vq_seed (sv_query v)) (fst ` set (sv_pins v) \<union> set (sv_hidden v))"

definition resolve_view :: "'j state_env \<Rightarrow> native_index \<Rightarrow> saved_view_record \<Rightarrow> index_pin option \<Rightarrow> saved_view_state result" where
  "resolve_view env x r pin =
     bind_result (read_revision_for (se_read env) (nx_index x) pin) (\<lambda>rv.
     let seed = vq_seed (sv_query (svr_base r));
       gone = filter (\<lambda>i. nodes_with_id (nx_index x) (rv_key rv) i = []) (sorted_list_of_set (view_symbols (svr_base r))) in
     bind_result (anchor_attachment_at env x (svr_anchor r) rv) (\<lambda>att.
     Inr \<lparr>svs_view = r, svs_orphaned_ids = (if \<not> is_attached att \<and> seed \<notin> set gone then gone @ [seed] else gone),
       svs_index_generation = map_option (\<lambda>p. re_uuid (se_read env) (ip_generation p)) pin,
       svs_index_revision = map_option ip_revision pin, svs_attachment = att\<rparr>))"

text \<open>
  \<open>opened\<close> is the result of opening the read of the index, \<open>finish\<close> that of its last check. The view is
  saved at the head of the index only.
\<close>

definition save_view_at :: "'j state_env \<Rightarrow> native_index result \<Rightarrow> unit result \<Rightarrow> 'j record_disk \<Rightarrow> index_pin \<Rightarrow> saved_view
    \<Rightarrow> 'j record_store \<Rightarrow> saved_view_state result \<times> 'j record_store" where
  "save_view_at env opened finish k pin v s =
     (case bind_result (validate_view v) (\<lambda>_. bind_result opened (\<lambda>x.
         bind_result (read_revision_for (se_read env) (nx_index x) (Some pin)) (\<lambda>_.
         bind_result (db_head (nx_index x)) (\<lambda>head.
         ensure (head = pin) ''revision conflict: mutation requires head'' (Inr x))))) of
       Inl e \<Rightarrow> (Inl e, s)
     | Inr x \<Rightarrow>
         (case update_view_record (se_records env) k (view_from_base v None)
             (bind_result (selected_anchor_in env x (vq_seed (sv_query v))) (se_anchor_text env)) s of
           (Inl e, s') \<Rightarrow> (Inl e, s')
         | (Inr r, s') \<Rightarrow> (bind_result (resolve_view env x r (Some pin)) (\<lambda>state. bind_result finish (\<lambda>_. Inr state)), s')))"

definition unavailable_view :: "saved_view_record \<Rightarrow> saved_view_state" where
  "unavailable_view r = \<lparr>svs_view = r,
     svs_orphaned_ids = vq_seed (sv_query (svr_base r)) # map fst (sv_pins (svr_base r)) @ sv_hidden (svr_base r),
     svs_index_generation = None, svs_index_revision = None,
     svs_attachment = \<lparr>at_availability = AttachIndexUnavailable, at_result = None\<rparr>\<rparr>"

text \<open>
  \<open>Inl None\<close> for \<open>opened\<close> is an index that is not ready: without an expected revision the records are shown
  without it; any other error is returned.
\<close>

definition saved_view_at :: "'j state_env \<Rightarrow> (string option + native_index) \<Rightarrow> unit result \<Rightarrow> 'j record_disk \<Rightarrow> string \<Rightarrow> index_pin option
    \<Rightarrow> 'j record_store \<Rightarrow> saved_view_state option result" where
  "saved_view_at env opened finish k i expected s =
     bind_result (view_record (se_records env) k i s) (\<lambda>found.
     case opened of
       Inl None \<Rightarrow> if expected = None then Inr (map_option unavailable_view found) else Inl ''index_not_ready''
     | Inl (Some e) \<Rightarrow> Inl e
     | Inr x \<Rightarrow>
         bind_result (read_revision_for (se_read env) (nx_index x) expected) (\<lambda>rv.
         bind_result (case found of None \<Rightarrow> Inr None
           | Some r \<Rightarrow> bind_result (resolve_view env x r (Some (rv_pin rv))) (\<lambda>state. Inr (Some state))) (\<lambda>states.
         bind_result finish (\<lambda>_. Inr states))))"

section \<open>A new view is attached where it is saved\<close>

lemma decode_declaration_document: "decode_declaration proof s i c p = Inr (d, p') \<Longrightarrow> dc_document d = ns_key s \<and> dc_revision_id d = ns_revision s"
  by (auto simp: decode_declaration_def)

lemma decode_declarations_document:
  "decode_declarations proof s rows p = Inr (ds, p') \<Longrightarrow> d \<in> set ds \<Longrightarrow> dc_document d = ns_key s \<and> dc_revision_id d = ns_revision s"
proof (induction rows arbitrary: p ds)
  case (Cons r rows)
  obtain i c where r: "r = (i, c)" by (cases r)
  obtain d1 p1 rest where head: "decode_declaration proof s i c p = Inr (d1, p1)"
    and rest: "decode_declarations proof s rows p1 = Inr (rest, p')" "ds = d1 # rest"
    using Cons.prems(1) by (auto simp: r)
  then show ?case using Cons.IH [OF rest(1)] Cons.prems(2) decode_declaration_document [OF head] by auto
qed simp

lemma read_declarations_document:
  "read_native_declarations sha256_hex s lookup_key every t = Inr ds \<Longrightarrow> d \<in> set ds
     \<Longrightarrow> dc_document d = ns_key s \<and> dc_revision_id d = ns_revision s"
  by (auto simp: read_native_declarations_def Let_def split: if_splits dest: decode_declarations_document)

lemma native_scope_row:
  assumes "native_scope_for x k rvn = Inr (Some s)"
  shows "ns_key s = k \<and> (\<exists>m \<in> set (documents_at x rvn k). (rvn, ns_revision s) \<in> set (nx_revisions x))"
proof -
  let ?rows = "concat (map (\<lambda>(i, native). concat (map (\<lambda>m. map (\<lambda>d.
            \<lparr>ns_version = dr_version m, ns_key = k, ns_revision = native, ns_producer = dx_producer d\<rparr>)
          (filter (\<lambda>d. dx_id d = dr_version m \<and> dx_source_set d = dr_source_set m \<and> dx_language d = dr_language m
             \<and> dx_path d = dr_path m) (nx_versions x))) (documents_at x rvn k)))
        (filter (\<lambda>r. fst r = rvn) (nx_revisions x)))"
  have "s \<in> set ?rows" using assms by (cases ?rows) (auto simp: native_scope_for_def Let_def)
  then show ?thesis by auto
qed

lemma read_scopes_document:
  "read_scopes sha256_hex x lookup_key every rvn ks = Inr ds \<Longrightarrow> d \<in> set ds
     \<Longrightarrow> \<exists>k \<in> set ks. dc_document d = k \<and> (\<exists>m \<in> set (documents_at x rvn k). (rvn, dc_revision_id d) \<in> set (nx_revisions x))"
proof (induction ks arbitrary: ds)
  case (Cons k ks)
  obtain s own rest where s: "native_scope_for x k rvn = Inr (Some s)"
    and own: "read_native_declarations sha256_hex s lookup_key every (nx_tables x) = Inr own"
    and rest: "read_scopes sha256_hex x lookup_key every rvn ks = Inr rest" "ds = own @ rest"
    using Cons.prems(1) by auto
  show ?case
  proof (cases "d \<in> set own")
    case True
    then show ?thesis using read_declarations_document [OF own] native_scope_row [OF s] by auto
  next
    case False
    then show ?thesis using Cons.IH [OF rest(1)] Cons.prems(2) rest(2) by auto
  qed
qed simp

lemma read_for_document:
  assumes run: "read_native_declarations_for sha256_hex x language lookup_key (Some path) every rvn = Inr ds" and d: "d \<in> set ds"
  shows "dk_language (dc_document d) = language \<and> dk_path (dc_document d) = path
     \<and> (\<exists>m \<in> set (documents_at x rvn (dc_document d)). (rvn, dc_revision_id d) \<in> set (nx_revisions x))"
proof -
  let ?keys = "take 5001 (sort_key dk_path (remdups (map key_of_document
      (filter (\<lambda>m. dr_revision m = rvn \<and> dr_language m = language \<and> has_declaration x lookup_key every m
         \<and> (Some path = None \<or> Some path = Some (dr_path m))) (nx_documents x)))))"
  obtain rows where "read_scopes sha256_hex x lookup_key every rvn ?keys = Inr rows" "ds = sort_key dc_syntax_id rows"
    using run by (auto simp: read_native_declarations_for_def Let_def)
  then obtain k where k: "k \<in> set ?keys" "dc_document d = k"
    and row: "\<exists>m \<in> set (documents_at x rvn k). (rvn, dc_revision_id d) \<in> set (nx_revisions x)"
    using read_scopes_document d by fastforce
  have "dk_language k = language \<and> dk_path k = path"
    using set_mp [OF set_take_subset k(1)] by (auto simp: key_of_document_def)
  then show ?thesis using k(2) row by simp
qed

lemma find_selected_found: "find_selected i ds = Inr d \<Longrightarrow> d \<in> set ds \<and> dc_syntax_id d = i \<and> find (\<lambda>e. dc_syntax_id e = i) ds = Some d"
proof -
  assume "find_selected i ds = Inr d"
  then have one: "filter (\<lambda>e. dc_syntax_id e = i) ds = [d]" by (auto simp: find_selected_def split: list.splits)
  then have d: "d \<in> set ds" "dc_syntax_id d = i" 
    by (metis (mono_tags, lifting) filter_eq_ConsD in_set_conv_decomp, metis (mono_tags, lifting) filter_eq_ConsD)
  obtain e where e: "find (\<lambda>e. dc_syntax_id e = i) ds = Some e"
    using d find_None_iff [of "\<lambda>e. dc_syntax_id e = i" ds] by (metis option.exhaust)
  then have "e \<in> set (filter (\<lambda>e. dc_syntax_id e = i) ds)" using find_holds by fastforce
  then show ?thesis using one d e by simp
qed

lemma captured_fields:
  "capture_anchor sha256_hex d ds = Inr a \<Longrightarrow> validate_anchor a = Inr () \<and> da_syntax_id a = dc_syntax_id d \<and> da_document a = dc_document d"
  by (auto simp: capture_anchor_def Let_def)

text \<open>An anchor captured at the head is found attached when it is audited at the head.\<close>

lemma captured_attached:
  assumes captured: "selected_anchor_in env x target = Inr a"
    and rv: "read_revision_for (se_read env) (nx_index x) None = Inr rv"
    and raw: "rc_anchor (se_records env) raw = Inr a"
    and att: "anchor_attachment_at env x (Some raw) rv = Inr att"
  shows "att = \<lparr>at_availability = AttachReady, at_result = Some (attached target)\<rparr>"
proof -
  obtain language path ds d where ds: "read_native_declarations_for (se_sha env) x language None (Some path) True (rv_key rv) = Inr ds"
    and d: "find_selected target ds = Inr d" and a: "capture_anchor (se_sha env) d ds = Inr a"
    using captured rv by (auto simp: selected_anchor_in_def Let_def split: prod.splits)
  note d = find_selected_found [OF d]
  note fields = captured_fields [OF a]
  have document: "dk_language (da_document a) = language" "dk_path (da_document a) = path"
    and row: "\<exists>m \<in> set (documents_at x (rv_key rv) (da_document a)). (rv_key rv, dc_revision_id d) \<in> set (nx_revisions x)"
    using read_for_document [OF ds] d fields by auto
  obtain found res where found: "declarations_for_anchor env x a rv = Inr found"
    and res: "(case found of None \<Rightarrow> Inr (orphaned Missing)
         | Some (native, ds) \<Rightarrow> audit_anchor (se_sha env) a native (find (\<lambda>d. dc_syntax_id d = da_syntax_id a) ds) ds None) = Inr res"
    and att': "att = \<lparr>at_availability = AttachReady, at_result = Some res\<rparr>"
    using att raw fields by (auto simp: anchor_attachment_at_def)
  have "concat (map (\<lambda>m. map snd (filter (\<lambda>r. fst r = rv_key rv) (nx_revisions x))) (documents_at x (rv_key rv) (da_document a))) \<noteq> []"
    using row by (fastforce simp: filter_empty_conv)
  then obtain native where "found = Some (native, ds)"
    using found document ds by (auto simp: declarations_for_anchor_def Let_def split: list.splits)
  then have audit: "audit_anchor (se_sha env) a native (Some d) ds None = Inr res" using res d fields by simp
  then have "dc_revision_id d = native"
    using fields by (auto simp: audit_anchor_def Let_def)
  then have "res = attached target" using capture_audit [OF a] audit d by simp
  then show ?thesis using att' by simp
qed

lemma read_revision_head: "db_head db = Inr pin \<Longrightarrow> read_revision_for env db (Some pin) = read_revision_for env db None"
  by (simp add: read_revision_for_def)


section \<open>A concrete index\<close>

definition sample_state_declaration :: decl_row where
  "sample_state_declaration = sample_declaration\<lparr>dc_provenance_id := proof_id sample_sha sample_scope\<rparr>"

definition sample_state_anchor :: durable_anchor where
  "sample_state_anchor = \<lparr>da_syntax_id = dc_syntax_id sample_declaration, da_document = dc_document sample_declaration,
     da_captured_revision_id = ''r1'', da_header_hash = replicate 64 CHR ''0'', da_sibling_group_hash = replicate 64 CHR ''0'',
     da_sibling_count = 1, da_identical_header_count = 1\<rparr>"

definition sample_index :: native_index where
  "sample_index =
     \<lparr>nx_index = sample_db,
      nx_documents = [\<lparr>dr_revision = ''pin:v1:g:3'', dr_source_set = ''main'', dr_language = ''rust'', dr_path = ''src/a.rs'', dr_version = ''v1''\<rparr>],
      nx_revisions = [(''pin:v1:g:3'', ''r1'')],
      nx_versions = [\<lparr>dx_id = ''v1'', dx_source_set = ''main'', dx_language = ''rust'', dx_path = ''src/a.rs'', dx_producer = ''p''\<rparr>],
      nx_tables = (case write_native_declarations (\<lambda>_. False) sample_versions (\<lambda>_. False) [sample_state_declaration] no_tables of
        Inl _ \<Rightarrow> no_tables | Inr t \<Rightarrow> t)\<rparr>"

definition sample_state_env :: "sample_json state_env" where
  "sample_state_env = \<lparr>se_read = sample_read_env, se_records = sample_record_env\<lparr>rc_anchor := (\<lambda>_. Inr sample_state_anchor)\<rparr>,
     se_sha = sample_sha, se_anchor_text = (\<lambda>a. if a = sample_state_anchor then Inr ''anchor'' else Inl ''not measured'')\<rparr>"

definition sample_state_view :: saved_view where
  "sample_state_view = (svr_base sample_view_record)\<lparr>sv_query := default_query (dc_syntax_id sample_declaration)\<rparr>"

definition sample_save :: "saved_view_state result \<times> sample_json record_store" where
  "sample_save = save_view_at sample_state_env (Inr sample_index) (Inr ()) sample_record_disk sample_pin_of sample_state_view no_records"

lemma sample_state_selected:
  "selected_anchor_in sample_state_env sample_index (dc_syntax_id sample_declaration) = Inr sample_state_anchor"
  by code_simp

lemma sample_state_attachment:
  "is_ok (anchor_attachment_at sample_state_env sample_index (Some ''anchor'') \<lparr>rv_pin = sample_pin_of, rv_key = ''pin:v1:g:3''\<rparr>)"
  by code_simp

lemma sample_state_updated:
  "fst (update_view_record (se_records sample_state_env) sample_record_disk (view_from_base sample_state_view None) (Inr ''anchor'') no_records)
     = Inr (view_from_base sample_state_view (Some ''anchor''))"
  by code_simp

lemma sample_state_valid: "validate_view sample_state_view = Inr ()"
  by code_simp

lemma sample_state_saved: "is_ok (fst sample_save)"
proof -
  obtain s' where updated: "update_view_record (se_records sample_state_env) sample_record_disk (view_from_base sample_state_view None)
      (Inr ''anchor'') no_records = (Inr (view_from_base sample_state_view (Some ''anchor'')), s')"
    using sample_state_updated by (metis prod.collapse)
  obtain att where att: "anchor_attachment_at sample_state_env sample_index (Some ''anchor'')
      \<lparr>rv_pin = sample_pin_of, rv_key = ''pin:v1:g:3''\<rparr> = Inr att"
    using sample_state_attachment by (auto simp: is_ok_iff)
  have head: "db_head sample_db = Inr sample_pin_of" by (simp add: sample_db_def Let_def)
  have parts: "nx_index sample_index = sample_db" "se_read sample_state_env = sample_read_env"
    "vq_seed (sv_query sample_state_view) = dc_syntax_id sample_declaration" "se_anchor_text sample_state_env sample_state_anchor = Inr ''anchor''"
    by (simp_all add: sample_index_def sample_state_env_def sample_state_view_def default_query_def)
  have "svr_base (view_from_base sample_state_view (Some ''anchor'')) = sample_state_view"
    "svr_anchor (view_from_base sample_state_view (Some ''anchor'')) = Some ''anchor''"
    by (simp_all add: view_from_base_def)
  then show ?thesis
    by (simp add: sample_save_def save_view_at_def sample_state_valid parts head read_revision_head [OF head] sample_revision
        sample_state_selected updated resolve_view_def att Let_def)
qed

lemma sample_state_codec: "codec_ok (se_records sample_state_env)"
  "\<forall>a raw. se_anchor_text sample_state_env a = Inr raw \<longrightarrow> rc_anchor (se_records sample_state_env) raw = Inr a"
  by (simp_all add: codec_ok_def sample_state_env_def sample_record_env_def)


end
